(* ===== verification/Prelude.thy ===== *)
theory Prelude
  imports Main "HOL-Library.Word"
begin

text \<open>
  Shared vocabulary of the development: the machine types of the C++ sources
  (\<open>uint8_t\<close>, \<open>uint16_t\<close>, \<open>uint32_t\<close>, \<open>uint64_t\<close>), the two-byte big-endian split and
  join that the wire formats use, and the generic facts on words, lists and association
  lists that the component theories rely on.  The collection \<open>byte_simps\<close> holds the
  rewrite rules that put split words together again; \<open>alist_simps\<close> those on the
  association lists that stand for \<open>std::unordered_map\<close> in its iteration order.
\<close>

unbundle bit_operations_syntax

named_theorems byte_simps "joining the bytes a word was split into"
named_theorems alist_simps "lookup, update and erase on association lists"

type_synonym u8 = "8 word"
type_synonym u16 = "16 word"
type_synonym u32 = "32 word"
type_synonym u64 = "64 word"
type_synonym bytes = "u8 list"

subsection \<open>Splitting and joining 16-bit words\<close>

text \<open>\<open>static_cast<uint8_t>((x >> 8) & 0xFF)\<close> and \<open>static_cast<uint8_t>(x & 0xFF)\<close>.\<close>

definition hi8 :: "u16 \<Rightarrow> u8" where
  "hi8 x = ucast (drop_bit 8 x AND 0xFF)"

definition lo8 :: "u16 \<Rightarrow> u8" where
  "lo8 x = ucast (x AND 0xFF)"

text \<open>\<open>static_cast<uint16_t>(byte << 8)\<close> and \<open>x |= byte\<close>.\<close>

definition shl8 :: "u8 \<Rightarrow> u16" where
  "shl8 b = push_bit 8 (ucast b)"

definition or8 :: "u16 \<Rightarrow> u8 \<Rightarrow> u16" where
  "or8 x b = x OR ucast b"

subsection \<open>Little-endian byte representation\<close>

text \<open>The bytes of an \<open>n\<close>-byte integer in memory, lowest first, and back.\<close>

definition le_bytes :: "nat \<Rightarrow> 'a::len word \<Rightarrow> bytes" where
  "le_bytes n x = map (\<lambda>i. ucast (drop_bit (8 * i) x)) [0..<n]"

fun of_le :: "bytes \<Rightarrow> 'a::len word" where
  "of_le [] = 0"
| "of_le (b # bs) = ucast b OR push_bit 8 (of_le bs)"

subsection \<open>Association lists in iteration order\<close>

text \<open>An \<open>std::unordered_map\<close> whose iteration order matters is a list of key-value pairs with
  distinct keys: \<open>find\<close>, \<open>operator[] =\<close> and \<open>erase\<close>.\<close>

fun al_find :: "'k \<Rightarrow> ('k \<times> 'v) list \<Rightarrow> 'v option" where
  "al_find k [] = None"
| "al_find k ((k', v) # r) = (if k = k' then Some v else al_find k r)"

fun al_put :: "'k \<Rightarrow> 'v \<Rightarrow> ('k \<times> 'v) list \<Rightarrow> ('k \<times> 'v) list" where
  "al_put k v [] = [(k, v)]"
| "al_put k v ((k', v') # r) = (if k = k' then (k, v) # r else (k', v') # al_put k v r)"

fun al_erase :: "'k \<Rightarrow> ('k \<times> 'v) list \<Rightarrow> ('k \<times> 'v) list" where
  "al_erase k [] = []"
| "al_erase k ((k', v) # r) = (if k = k' then r else (k', v) # al_erase k r)"

abbreviation al_keys :: "('k \<times> 'v) list \<Rightarrow> 'k list" where
  "al_keys m \<equiv> map fst m"

subsection \<open>Decimal numbers\<close>

text \<open>A number as a stream or a \<open>printf\<close> format prints it in decimal.\<close>

fun show_nat :: "nat \<Rightarrow> string" where
  "show_nat n = (if n < 10 then [char_of (48 + n)] else show_nat (n div 10) @ [char_of (48 + n mod 10)])"

definition show_int :: "int \<Rightarrow> string" where
  "show_int i = (if i < 0 then CHR ''-'' # show_nat (nat (- i)) else show_nat (nat i))"

definition is_digit :: "char \<Rightarrow> bool" where
  "is_digit c \<longleftrightarrow> 48 \<le> (of_char c :: nat) \<and> (of_char c :: nat) \<le> 57"

definition read_nat :: "string \<Rightarrow> nat" where
  "read_nat s = foldl (\<lambda>a c. 10 * a + (of_char c - 48)) 0 s"

lemma of_char_digit: "d < 10 \<Longrightarrow> of_char (char_of (48 + d)) = (48 + d :: nat)"
  by (simp add: of_char_of take_bit_nat_eq_self)

lemma show_nat_digits: "show_nat n \<noteq> [] \<and> list_all is_digit (show_nat n)"
proof (induction n rule: show_nat.induct)
  case (1 n)
  have "is_digit (char_of (48 + d))" if "d < 10" for d :: nat
    using that by (simp add: is_digit_def of_char_digit)
  then show ?case
    using 1 by (subst (1 2) show_nat.simps) (simp del: show_nat.simps)
qed

lemma read_show_nat [simp]: "read_nat (show_nat n) = n"
proof (induction n rule: show_nat.induct)
  case (1 n)
  show ?case
  proof (cases "n < 10")
    case True
    then show ?thesis by (simp add: read_nat_def of_char_digit)
  next
    case False
    then show ?thesis
      using 1 of_char_digit [of "n mod 10"] by (subst show_nat.simps) (simp add: read_nat_def del: show_nat.simps)
  qed
qed

declare show_nat.simps [simp del]

subsection \<open>Facts on words\<close>

lemma mask8_u16: "(0xFF :: u16) = mask 8"
  by (simp add: mask_eq_exp_minus_1)

lemma hi8_lo8_join [byte_simps, simp]: "or8 (shl8 (hi8 x)) (lo8 x) = x"
  unfolding hi8_def lo8_def shl8_def or8_def mask8_u16
  by (rule bit_word_eqI) (auto simp: bit_simps)

lemma hi8_join [byte_simps, simp]: "hi8 (or8 (shl8 h) l) = h"
  unfolding hi8_def shl8_def or8_def mask8_u16
  by (rule bit_word_eqI) (auto simp: bit_simps dest: bit_imp_le_length)

lemma lo8_join [byte_simps, simp]: "lo8 (or8 (shl8 h) l) = l"
  unfolding lo8_def shl8_def or8_def mask8_u16
  by (rule bit_word_eqI) (auto simp: bit_simps)

lemma lo8_of_nat: "lo8 (of_nat n) = of_nat n"
  unfolding lo8_def mask8_u16
  by (rule bit_word_eqI) (auto simp: bit_simps of_nat_eq_0_iff)

lemma lo8_0 [simp]: "lo8 0 = 0"
  by (simp add: lo8_def)

lemma join_of_nat [byte_simps, simp]:
  "or8 (shl8 (hi8 (of_nat n))) (of_nat n) = of_nat n" "or8 (shl8 (hi8 0)) 0 = 0"
  using hi8_lo8_join [of "of_nat n"] hi8_lo8_join [of 0] by (simp_all add: lo8_of_nat)

lemma ucast_u16_u8 [simp]: "(ucast (ucast (a :: u8) :: u16) :: u8) = a"
  by (rule bit_word_eqI) (auto simp: bit_simps)

lemma ucast_u8_u16_inj [simp]: "(ucast (a :: u8) :: u16) = ucast b \<longleftrightarrow> a = b"
  by (metis ucast_u16_u8)

lemma unat_u8_less: "unat (c :: u8) < 256"
  using unsigned_less [of c, where 'a = nat] by simp

lemma unat_ucast_u8_u16: "unat (ucast (c :: u8) :: u16) = unat c"
  using unat_u8_less [of c] by (simp add: unsigned_ucast_eq take_bit_nat_eq_self)

lemma unat_of_nat_u64: "n < 2 ^ 64 \<Longrightarrow> unat (of_nat n :: u64) = n"
  by (simp add: unat_of_nat)

lemma of_nat_u64_inj: "m < 2 ^ 64 \<Longrightarrow> n < 2 ^ 64 \<Longrightarrow> (of_nat m :: u64) = of_nat n \<longleftrightarrow> m = n"
  by (metis unat_of_nat_u64)

lemma of_nat_u64_nonzero: "0 < n \<Longrightarrow> n < 2 ^ 64 \<Longrightarrow> (of_nat n :: u64) \<noteq> 0"
  using of_nat_u64_inj [of n 0] by simp

lemma unat_sub_wrap: "a < b \<Longrightarrow> unat (a - b :: u64) = 2 ^ 64 - (unat b - unat a)"
proof -
  assume "a < b"
  then have lt: "unat a < unat b" by (simp add: word_less_nat_alt)
  let ?n = "unat b - unat a"
  have n: "0 < ?n" "?n \<le> 2 ^ 64"
    using lt unsigned_less [of b, where 'a = nat] by auto
  have "(of_nat ?n :: u64) = b - a"
    using lt by (simp add: of_nat_diff)
  moreover have "(of_nat (2 ^ 64 - ?n) :: u64) = of_nat (2 ^ 64) - of_nat ?n"
    by (rule of_nat_diff [OF n(2)])
  ultimately have "a - b = of_nat (2 ^ 64 - ?n)"
    by simp
  moreover have "2 ^ 64 - ?n < 2 ^ 64"
    using n by simp
  ultimately show ?thesis
    by (metis unat_of_nat_u64)
qed

lemma length_le_bytes [simp]: "length (le_bytes n x) = n"
  by (simp add: le_bytes_def)

lemma bit_of_le: "bit (of_le bs :: 'a::len word) n \<longleftrightarrow>
    n < LENGTH('a) \<and> n div 8 < length bs \<and> bit (bs ! (n div 8)) (n mod 8)"
proof (induction bs arbitrary: n)
  case (Cons b bs)
  show ?case
  proof (cases "n < 8")
    case True
    then show ?thesis by (auto simp: bit_simps)
  next
    case False
    then have split: "n div 8 = Suc ((n - 8) div 8)" "n mod 8 = (n - 8) mod 8"
      by (simp_all add: le_div_geq le_mod_geq)
    have "bit (of_le (b # bs) :: 'a word) n \<longleftrightarrow> n < LENGTH('a) \<and> bit (of_le bs :: 'a word) (n - 8)"
      using False bit_imp_le_length [of b n] by (auto simp: bit_or_iff bit_ucast_iff bit_push_bit_iff)
    also have "\<dots> \<longleftrightarrow> n < LENGTH('a) \<and> (n - 8) div 8 < length bs \<and> bit (bs ! ((n - 8) div 8)) ((n - 8) mod 8)"
      unfolding Cons.IH [of "n - 8"] by auto
    finally show ?thesis
      unfolding split by simp
  qed
qed simp

lemma of_le_bytes: "LENGTH('a) \<le> 8 * n \<Longrightarrow> of_le (le_bytes n (x :: 'a::len word)) = x"
  by (rule bit_word_eqI) (auto simp: bit_of_le le_bytes_def bit_simps)

lemma le_bytes_of_le: "8 * length bs \<le> LENGTH('a::len) \<Longrightarrow> le_bytes (length bs) (of_le bs :: 'a word) = bs"
  by (rule nth_equalityI) (auto intro!: bit_word_eqI simp: le_bytes_def bit_of_le bit_simps)

subsection \<open>Facts on association lists\<close>

lemma al_find_put [alist_simps, simp]: "al_find k (al_put k' v m) = (if k = k' then Some v else al_find k m)"
  by (induction k' v m rule: al_put.induct) auto

lemma al_find_None [alist_simps]: "al_find k m = None \<longleftrightarrow> k \<notin> fst ` set m"
  by (induction k m rule: al_erase.induct) auto

lemma al_keys_put [alist_simps]: "fst ` set (al_put k v m) = insert k (fst ` set m)"
  by (induction k v m rule: al_put.induct) auto

lemma al_keys_erase [alist_simps]:
  "distinct (al_keys m) \<Longrightarrow> fst ` set (al_erase k m) = fst ` set m - {k}"
  by (induction k m rule: al_erase.induct) auto

lemma al_find_erase [alist_simps, simp]:
  "distinct (al_keys m) \<Longrightarrow> al_find k (al_erase k' m) = (if k = k' then None else al_find k m)"
  by (induction k' m rule: al_erase.induct) (auto simp flip: al_find_None)

lemma distinct_al_put [alist_simps, intro]: "distinct (al_keys m) \<Longrightarrow> distinct (al_keys (al_put k v m))"
  by (induction k v m rule: al_put.induct) (simp_all add: al_keys_put)

lemma distinct_al_erase [alist_simps, intro]: "distinct (al_keys m) \<Longrightarrow> distinct (al_keys (al_erase k m))"
  by (induction k m rule: al_erase.induct) (simp_all add: al_keys_erase)

lemma al_find_in: "al_find k m = Some v \<Longrightarrow> (k, v) \<in> set m"
  by (induction k m rule: al_find.induct) (auto split: if_splits)

lemma al_find_append:
  "al_find k (a @ b) = (case al_find k a of None \<Rightarrow> al_find k b | Some v \<Rightarrow> Some v)"
  by (induction a rule: al_erase.induct) auto

lemma al_find_member: "distinct (al_keys m) \<Longrightarrow> al_find k m = Some v \<longleftrightarrow> (k, v) \<in> set m"
  by (induction k m rule: al_find.induct) force+

lemma al_erase_filter: "distinct (al_keys m) \<Longrightarrow> al_erase k m = filter (\<lambda>x. fst x \<noteq> k) m"
proof (induction k m rule: al_erase.induct)
  case (2 k k' v r)
  then show ?case by (auto intro: filter_True [symmetric])
qed simp

lemma al_put_new: "al_find k m = None \<Longrightarrow> al_put k v m = m @ [(k, v)]"
  by (induction k v m rule: al_put.induct) (auto split: if_splits)

lemma length_al_erase: "al_find k m \<noteq> None \<Longrightarrow> Suc (length (al_erase k m)) = length m"
  by (induction k m rule: al_erase.induct) (auto split: if_splits)

lemma al_erase_put: "al_find k m \<noteq> None \<Longrightarrow> al_erase k (al_put k v m) = al_erase k m"
  by (induction k v m rule: al_put.induct) (auto split: if_splits)

subsection \<open>Calls on an object and their specification\<close>

text \<open>A run of calls on an object, each giving a return code and an output, and the run of a
  specification that is told the return codes.\<close>

fun run_calls :: "('c \<Rightarrow> 's \<Rightarrow> 's \<times> 'r \<times> 'o) \<Rightarrow> 'c list \<Rightarrow> 's \<Rightarrow> 's \<times> ('r \<times> 'o) list" where
  "run_calls f [] s = (s, [])"
| "run_calls f (c # cs) s = (let (s1, r, x) = f c s; (s2, rs) = run_calls f cs s1 in (s2, (r, x) # rs))"

fun spec_calls :: "('c \<Rightarrow> 'r \<Rightarrow> 'a \<Rightarrow> 'a \<times> 'o) \<Rightarrow> ('c \<times> 'r) list \<Rightarrow> 'a \<Rightarrow> 'a \<times> 'o list" where
  "spec_calls g [] a = (a, [])"
| "spec_calls g ((c, r) # cs) a = (let (a1, x) = g c r a; (a2, xs) = spec_calls g cs a1 in (a2, x # xs))"

text \<open>An implementation whose calls keep an invariant and do to the abstraction what the
  specification says, when they are admitted.\<close>

locale call_refinement =
  fixes admitted :: "'c \<Rightarrow> bool"
    and ok :: "'s \<Rightarrow> bool"
    and abs :: "'s \<Rightarrow> 'a"
    and call :: "'c \<Rightarrow> 's \<Rightarrow> 's \<times> 'r \<times> 'o"
    and spec :: "'c \<Rightarrow> 'r \<Rightarrow> 'a \<Rightarrow> 'a \<times> 'o"
  assumes call_ok: "admitted c \<Longrightarrow> ok s \<Longrightarrow> call c s = (s', r, x) \<Longrightarrow> ok s'"
    and call_spec: "admitted c \<Longrightarrow> ok s \<Longrightarrow> call c s = (s', r, x) \<Longrightarrow> spec c r (abs s) = (abs s', x)"
begin

lemma calls_refine:
  "list_all admitted cs \<Longrightarrow> ok s \<Longrightarrow> run_calls call cs s = (s', rs) \<Longrightarrow>
     ok s' \<and> spec_calls spec (zip cs (map fst rs)) (abs s) = (abs s', map snd rs)"
proof (induction cs arbitrary: s rs)
  case (Cons c cs)
  obtain s1 r x where c: "call c s = (s1, r, x)" by (metis prod_cases3)
  obtain s2 rs' where t: "run_calls call cs s1 = (s2, rs')" by fastforce
  have "s2 = s'" "rs = (r, x) # rs'"
    using Cons.prems(3) c t by simp_all
  then show ?case
    using Cons.IH [of s1 rs'] Cons.prems call_ok [OF _ _ c] call_spec [OF _ _ c] t by simp
qed simp

end

end
