(* ===== verification/Exif_Writer.thy ===== *)
theory Exif_Writer
  imports Prelude
begin

text \<open>
  \<open>src/document/laboratory/cpp/ThirdpartyUnitTest/exif/02_write_exif.cpp\<close>, which uses no library: it builds a TIFF directory
  with five text fields and puts it in front of the image data of a JPEG file in place of the application
  segments there.  Texts and files are byte lists; the time stamp is an argument.  \<open>None\<close> is an access
  outside the file.
\<close>

subsection \<open>The payload\<close>

definition push_uint16_le :: "bytes \<Rightarrow> u16 \<Rightarrow> bytes" where
  "push_uint16_le vec val = vec @ [ucast (val AND 0xFF), ucast (drop_bit 8 val AND 0xFF)]"

definition push_uint32_le :: "bytes \<Rightarrow> u32 \<Rightarrow> bytes" where
  "push_uint32_le vec val = vec @ [ucast (val AND 0xFF), ucast (drop_bit 8 val AND 0xFF), ucast (drop_bit 16 val AND 0xFF), ucast (drop_bit 24 val AND 0xFF)]"

text \<open>One directory entry and the offset of the next text.\<close>

definition push_tag :: "u16 \<Rightarrow> bytes \<Rightarrow> bytes \<times> u32 \<Rightarrow> bytes \<times> u32" where
  "push_tag tag_id str = (\<lambda>(payload, string_data_offset).
     (push_uint32_le (push_uint32_le (push_uint16_le (push_uint16_le payload tag_id) 2) (of_nat (length str + 1))) string_data_offset,
      string_data_offset + of_nat (length str + 1)))"

definition tags :: "bytes list \<Rightarrow> (u16 \<times> bytes) list" where
  "tags strs = zip [0x010F, 0x0110, 0x0131, 0x8298, 0x0132] strs"

definition build_pure_exif_payload :: "bytes \<Rightarrow> bytes \<Rightarrow> bytes \<Rightarrow> bytes \<Rightarrow> bytes \<Rightarrow> bytes" where
  "build_pure_exif_payload make model software copyright date_time =
     (let payload = push_uint16_le (push_uint32_le [0x49, 0x49, 0x2A, 0x00] 0x08) 5;
          strs = [make, model, software, copyright, date_time];
          (payload, _) = fold (\<lambda>(tag_id, str). push_tag tag_id str) (tags strs) (payload, 74);
          payload = push_uint32_le payload 0
      in fold (\<lambda>str payload. payload @ str @ [0]) strs payload)"

subsection \<open>The file\<close>

definition app_marker :: "u8 \<Rightarrow> bool" where
  "app_marker marker \<longleftrightarrow> 0xE0 \<le> marker \<and> marker \<le> 0xEF \<or> marker = 0xFE"

text \<open>The bound \<open>src.size() - 4\<close> is computed in \<open>size_t\<close>.\<close>

definition scan_limit :: "bytes \<Rightarrow> nat" where
  "scan_limit src = unat (of_nat (length src) - 4 :: u64)"

function skip_segments :: "bytes \<Rightarrow> nat \<Rightarrow> nat option" where
  "skip_segments src off =
     (if off < scan_limit src then
        if off \<ge> length src then None
        else if src ! off = 0xFF then
          if off + 1 \<ge> length src then None
          else if app_marker (src ! (off + 1)) then
            if off + 3 \<ge> length src then None
            else skip_segments src (off + (2 + unat (or8 (shl8 (src ! (off + 2))) (src ! (off + 3)))))
          else Some off
        else skip_segments src (off + 1)
      else Some off)"
  by pat_completeness auto
termination
  by (relation "measure (\<lambda>(src, off). length src - off)") auto

definition app1_header :: "bytes \<Rightarrow> bytes" where
  "app1_header exif_payload =
     (let app1_length = of_nat (2 + 6 + length exif_payload) :: u16
      in [0xFF, 0xD8, 0xFF, 0xE1, hi8 app1_length, lo8 app1_length, 0x45, 0x78, 0x69, 0x66, 0, 0] @ exif_payload)"

text \<open>The new contents of the file: \<open>Some None\<close> where the program refuses it.\<close>

definition write_exif :: "bytes \<Rightarrow> bytes \<Rightarrow> bytes option option" where
  "write_exif exif_payload src =
     (if length src < 2 \<or> src ! 0 \<noteq> 0xFF \<or> src ! 1 \<noteq> 0xD8 then Some None
      else case skip_segments src 2 of
        None \<Rightarrow> None
      | Some off \<Rightarrow> if off \<le> length src then Some (Some (app1_header exif_payload @ drop off src)) else None)"

subsection \<open>Reading the directory back\<close>

definition le16 :: "bytes \<Rightarrow> u16" where
  "le16 bs = of_le (take 2 bs)"

definition le32 :: "bytes \<Rightarrow> u32" where
  "le32 bs = of_le (take 4 bs)"

lemma byte_of_word: "(ucast (w AND 0xFF :: 'a::len word) :: u8) = ucast w"
proof -
  have "(0xFF :: 'a word) = mask 8"
    by (simp add: mask_eq_exp_minus_1)
  moreover have "(ucast (w AND mask 8) :: u8) = ucast w"
    by (auto intro!: bit_word_eqI simp: bit_simps bit_imp_le_length)
  ultimately show ?thesis
    by (simp only:)
qed

lemma push16_bytes: "push_uint16_le vec val = vec @ le_bytes 2 val"
  by (simp add: push_uint16_le_def le_bytes_def byte_of_word numeral_2_eq_2)

lemma push32_bytes: "push_uint32_le vec val = vec @ le_bytes 4 val"
  by (simp add: push_uint32_le_def le_bytes_def byte_of_word upt_rec [of _ 4])

definition dir_entry :: "u16 \<Rightarrow> bytes \<Rightarrow> u32 \<Rightarrow> bytes" where
  "dir_entry t str off = le_bytes 2 t @ le_bytes 2 (2 :: u16) @ le_bytes 4 (of_nat (length str + 1) :: u32) @ le_bytes 4 off"

fun dir_entries :: "(u16 \<times> bytes) list \<Rightarrow> nat \<Rightarrow> bytes list" where
  "dir_entries [] off = []"
| "dir_entries ((t, str) # ts) off = dir_entry t str (of_nat off) # dir_entries ts (off + (length str + 1))"

lemma length_entry: "length (dir_entry t str off) = 12"
  by (simp add: dir_entry_def)

lemma push_tag_entry: "push_tag t str (p, of_nat off) = (p @ dir_entry t str (of_nat off), of_nat (off + (length str + 1)))"
  by (simp add: push_tag_def push16_bytes push32_bytes dir_entry_def)

lemma push_tags: "fold (\<lambda>(t, str). push_tag t str) ts (p, of_nat off) =
    (p @ concat (dir_entries ts off), of_nat (off + sum_list (map (\<lambda>(t, str). length str + 1) ts)))"
proof (induction ts arbitrary: p off)
  case (Cons x ts)
  obtain t str where x: "x = (t, str)"
    by fastforce
  show ?case
    using Cons [of "p @ dir_entry t str (of_nat off)" "off + (length str + 1)"] by (simp only: x fold_simps prod.case push_tag_entry) (simp add: add.assoc)
qed simp

lemma dir_entries_nth: "k < length ts \<Longrightarrow> dir_entries ts off ! k =
    dir_entry (fst (ts ! k)) (snd (ts ! k)) (of_nat (off + sum_list (map (\<lambda>(t, str). length str + 1) (take k ts))))"
proof (induction ts arbitrary: k off)
  case (Cons p ts)
  obtain t str where "p = (t, str)"
    by fastforce
  then show ?case
    using Cons by (cases k) (simp_all add: add.assoc)
qed simp

lemma length_entries [simp]: "length (dir_entries ts off) = length ts"
  by (induction ts off rule: dir_entries.induct) simp_all

lemma dir_entries_length: "e \<in> set (dir_entries ts off) \<Longrightarrow> length e = 12"
  by (induction ts off rule: dir_entries.induct) (auto simp: length_entry)

lemma drop_blocks: "(\<And>e. e \<in> set es \<Longrightarrow> length e = n) \<Longrightarrow> k < length es \<Longrightarrow> drop (n * k) (concat es) = es ! k @ concat (drop (Suc k) es)"
proof (induction es arbitrary: k)
  case (Cons e es)
  show ?case
  proof (cases k)
    case (Suc j)
    then show ?thesis
      using Cons.IH [of j] Cons.prems by simp
  qed simp
qed simp

lemma drop_texts: "drop (sum_list (map length (take k xs))) (concat xs) = concat (drop k xs)"
  by (induction xs arbitrary: k) (auto simp: take_Cons drop_Cons split: nat.split)

lemma fold_texts: "fold (\<lambda>str payload. payload @ str @ [0]) strs p = p @ concat (map (\<lambda>str. str @ [0]) strs)"
  by (induction strs arbitrary: p) simp_all

text \<open>The payload in four parts.\<close>

lemma payload_parts:
  "build_pure_exif_payload a b c d e =
     [0x49, 0x49, 0x2A, 0x00] @ le_bytes 4 (8 :: u32) @ le_bytes 2 (5 :: u16) @ concat (dir_entries (tags [a, b, c, d, e]) 74) @
     le_bytes 4 (0 :: u32) @ concat (map (\<lambda>str. str @ [0]) [a, b, c, d, e])"
proof -
  let ?p = "[0x49, 0x49, 0x2A, 0x00] @ le_bytes 4 (8 :: u32) @ le_bytes 2 (5 :: u16)"
  have "fold (\<lambda>(t, str). push_tag t str) (tags [a, b, c, d, e]) (?p, 74) =
      (?p @ concat (dir_entries (tags [a, b, c, d, e]) 74), of_nat (74 + sum_list (map (\<lambda>(t, str). length str + 1) (tags [a, b, c, d, e]))))"
    using push_tags [of "tags [a, b, c, d, e]" ?p 74] by simp
  then show ?thesis
    unfolding build_pure_exif_payload_def Let_def push16_bytes push32_bytes by (simp add: fold_texts del: fold.simps)
qed

lemma le16_bytes: "le16 (le_bytes 2 v @ r) = v"
  by (simp add: le16_def of_le_bytes)

lemma le32_bytes: "le32 (le_bytes 4 v @ r) = v"
  by (simp add: le32_def of_le_bytes)

lemma texts_prefix: "sum_list (map (\<lambda>(t, str). length str + 1) (take k (tags strs))) = sum_list (map length (take k (map (\<lambda>str. str @ [0 :: u8]) strs)))"
  if "length strs = 5"
proof -
  have "map (\<lambda>(t, str). length str + 1) (tags strs) = map length (map (\<lambda>str. str @ [0 :: u8]) strs)"
    using that by (intro nth_equalityI) (simp_all add: tags_def)
  then show ?thesis
    by (metis take_map)
qed

subsection \<open>Segments\<close>

definition segment :: "u8 \<Rightarrow> bytes \<Rightarrow> bytes" where
  "segment marker body = [0xFF, marker, hi8 (of_nat (length body + 2)), lo8 (of_nat (length body + 2))] @ body"

lemma unat_of_nat_len: "n < 2 ^ LENGTH('a::len) \<Longrightarrow> unat (of_nat n :: 'a word) = n"
  by (simp add: unat_of_nat take_bit_nat_eq_self)

declare skip_segments.simps [simp del]

lemma scan_limit_small: "4 \<le> length src \<Longrightarrow> length src < 2 ^ 64 \<Longrightarrow> scan_limit src = length src - 4"
proof -
  assume l: "4 \<le> length src" "length src < 2 ^ 64"
  have "(of_nat (length src) - 4 :: u64) = of_nat (length src - 4)"
    using l(1) by (simp add: of_nat_diff)
  then show ?thesis
    using l unat_of_nat_u64 [of "length src - 4"] by (simp add: scan_limit_def)
qed

lemma skip_one:
  assumes "length (pre @ segment m body @ rest) < 2 ^ 64" "app_marker m" "length body + 2 < 2 ^ 16" "5 \<le> length rest"
  shows "skip_segments (pre @ segment m body @ rest) (length pre) = skip_segments (pre @ segment m body @ rest) (length (pre @ segment m body))"
proof -
  let ?src = "pre @ segment m body @ rest" and ?n = "length pre"
  have l: "length ?src = ?n + 4 + length body + length rest"
    by (simp add: segment_def)
  have at: "?src ! (?n + i) = segment m body ! i" if "i < 4" for i
  proof -
    have "4 \<le> length (segment m body)"
      by (simp add: segment_def)
    then show ?thesis
      using that by (simp only: nth_append_length_plus) (simp add: nth_append)
  qed
  have "scan_limit ?src = length ?src - 4"
    using assms(1,4) l by (intro scan_limit_small) simp_all
  then have "?n < scan_limit ?src"
    using assms(4) l by linarith
  moreover have "unat (of_nat (length body + 2) :: u16) = length body + 2"
    using assms(3) unat_of_nat_len [of "length body + 2", where ?'a = 16] by (simp del: of_nat_add)
  moreover have "?src ! ?n = 0xFF" "?src ! (?n + 1) = m" "?src ! (?n + 2) = hi8 (of_nat (length body + 2))" "?src ! (?n + 3) = lo8 (of_nat (length body + 2))"
    using at [of 0] at [of 1] at [of 2] at [of 3] by (simp_all add: segment_def)
  ultimately show ?thesis
    using assms(2) l by (subst skip_segments.simps) (simp add: segment_def add.commute add.left_commute)
qed

lemma skip_all:
  assumes "\<forall>(m, body)\<in>set segs. app_marker m \<and> length body + 2 < 2 ^ 16" "5 \<le> length rest" "rest ! 0 = 0xFF" "\<not> app_marker (rest ! 1)"
    "length (pre @ concat (map (\<lambda>(m, body). segment m body) segs) @ rest) < 2 ^ 64"
  shows "skip_segments (pre @ concat (map (\<lambda>(m, body). segment m body) segs) @ rest) (length pre) =
     Some (length (pre @ concat (map (\<lambda>(m, body). segment m body) segs)))"
  using assms(1,5)
proof (induction segs arbitrary: pre)
  case Nil
  let ?src = "pre @ rest"
  have "scan_limit ?src = length ?src - 4"
    using Nil assms(2) by (intro scan_limit_small) simp_all
  then have "length pre < scan_limit ?src"
    using assms(2) by simp
  moreover have "?src ! length pre = 0xFF" "\<not> app_marker (?src ! (length pre + 1))"
    using assms(2-4) nth_append_length_plus [of pre rest 0] nth_append_length_plus [of pre rest 1] by simp_all
  moreover have "rest \<noteq> []" "length pre + 1 < length ?src"
    using assms(2) by auto
  ultimately show ?case
    by (subst skip_segments.simps) simp
next
  case (Cons x segs)
  obtain m body where x: "x = (m, body)"
    by fastforce
  let ?rest = "concat (map (\<lambda>(m, body). segment m body) segs) @ rest"
  have "skip_segments (pre @ segment m body @ ?rest) (length pre) = skip_segments (pre @ segment m body @ ?rest) (length (pre @ segment m body))"
    using Cons.prems x assms(2) by (intro skip_one) simp_all
  moreover have "skip_segments ((pre @ segment m body) @ ?rest) (length (pre @ segment m body)) =
      Some (length ((pre @ segment m body) @ concat (map (\<lambda>(m, body). segment m body) segs)))"
    using Cons.prems x by (intro Cons.IH) simp_all
  ultimately show ?case
    by (simp add: x)
qed

subsection \<open>Properties\<close>

text \<open>The directory can be read back: each of its five entries has its tag, the length of its text with the terminating
  zero, and the offset at which that text is found.\<close>
theorem exif_directory:
  assumes "strs = [make, model, software, copyright, date_time]" "74 + sum_list (map (\<lambda>str. length str + 1) strs) < 2 ^ 32" "k < 5"
    "p = build_pure_exif_payload make model software copyright date_time"
  shows "le16 (drop (10 + 12 * k) p) = [0x010F, 0x0110, 0x0131, 0x8298, 0x0132] ! k \<and>
     le32 (drop (14 + 12 * k) p) = of_nat (length (strs ! k) + 1) \<and>
     take (length (strs ! k) + 1) (drop (unat (le32 (drop (18 + 12 * k) p))) p) = strs ! k @ [0]"
proof -
  let ?ts = "tags strs" and ?texts = "map (\<lambda>str. str @ [0 :: u8]) strs"
  let ?head = "[0x49, 0x49, 0x2A, 0x00] @ le_bytes 4 (8 :: u32) @ le_bytes 2 (5 :: u16)"
  let ?off = "74 + sum_list (map length (take k ?texts))"
  have l: "length strs = 5" "length ?ts = 5"
    using assms(1) by (simp_all add: tags_def)
  have p: "p = ?head @ concat (dir_entries ?ts 74) @ le_bytes 4 (0 :: u32) @ concat ?texts"
    unfolding assms(1,4) payload_parts by simp
  have nth: "dir_entries ?ts 74 ! k = dir_entry ([0x010F, 0x0110, 0x0131, 0x8298, 0x0132] ! k) (strs ! k) (of_nat ?off)"
    using dir_entries_nth [of k ?ts 74] l assms(3) texts_prefix [OF l(1)] by (simp add: tags_def)
  have blocks: "drop (12 * k) (concat (dir_entries ?ts 74)) = dir_entries ?ts 74 ! k @ concat (drop (Suc k) (dir_entries ?ts 74))"
    using l assms(3) by (intro drop_blocks) (auto dest: dir_entries_length)
  have total: "length (concat (dir_entries ?ts 74)) = 60"
    unfolding assms(1) by (simp add: tags_def length_entry)
  have "drop (10 + 12 * k) p = drop (12 * k) (drop 10 p)"
    by (simp add: add.commute)
  also have "drop 10 p = concat (dir_entries ?ts 74) @ le_bytes 4 (0 :: u32) @ concat ?texts"
    unfolding p by simp
  also have "drop (12 * k) \<dots> = drop (12 * k) (concat (dir_entries ?ts 74)) @ le_bytes 4 (0 :: u32) @ concat ?texts"
    using assms(3) total by simp
  finally obtain r where e: "drop (10 + 12 * k) p = dir_entry ([0x010F, 0x0110, 0x0131, 0x8298, 0x0132] ! k) (strs ! k) (of_nat ?off) @ r"
    using blocks nth by simp
  have "drop (14 + 12 * k) p = drop 4 (drop (10 + 12 * k) p)" "drop (18 + 12 * k) p = drop 8 (drop (10 + 12 * k) p)"
    by (simp_all add: add.commute)
  then have fields: "le16 (drop (10 + 12 * k) p) = [0x010F, 0x0110, 0x0131, 0x8298, 0x0132] ! k"
      "le32 (drop (14 + 12 * k) p) = of_nat (length (strs ! k) + 1)" "le32 (drop (18 + 12 * k) p) = of_nat ?off"
    unfolding e by (simp_all add: dir_entry_def le16_bytes le32_bytes)
  have "sum_list (map length (take k ?texts)) \<le> sum_list (map length ?texts)"
    by (metis append_take_drop_id le_add1 map_append sum_list_append)
  also have "sum_list (map length ?texts) = sum_list (map (\<lambda>str. length str + 1) strs)"
    by (simp add: comp_def)
  finally have "unat (of_nat ?off :: u32) = ?off"
    using assms(2) unat_of_nat_len [of ?off, where ?'a = 32] by (simp del: of_nat_add)
  moreover have "drop ?off p = drop (sum_list (map length (take k ?texts))) (drop 74 p)"
    by (simp add: add.commute)
  moreover have "drop 74 p = concat ?texts"
    unfolding p using total by simp
  ultimately have "drop (unat (le32 (drop (18 + 12 * k) p))) p = concat (drop k ?texts)"
    using fields(3) drop_texts [of k ?texts] by simp
  also have "drop k ?texts = (strs ! k @ [0]) # drop (Suc k) ?texts"
    using l(1) assms(3) Cons_nth_drop_Suc [of k ?texts] by simp
  finally show ?thesis
    using fields by simp
qed

text \<open>The new file consists of the new segment and of the old file from the first marker that is neither an application
  segment nor a comment; all segments before it are gone.\<close>
theorem write_exif_replaces:
  assumes "\<forall>(m, body)\<in>set segs. app_marker m \<and> length body + 2 < 2 ^ 16" "5 \<le> length rest" "rest ! 0 = 0xFF" "\<not> app_marker (rest ! 1)"
    "src = [0xFF, 0xD8] @ concat (map (\<lambda>(m, body). segment m body) segs) @ rest" "length src < 2 ^ 64"
  shows "write_exif exif_payload src = Some (Some (app1_header exif_payload @ rest))"
proof -
  have "skip_segments src 2 = Some (length ([0xFF, 0xD8] @ concat (map (\<lambda>(m, body). segment m body) segs)))"
    using skip_all [OF assms(1-4), of "[0xFF, 0xD8]"] assms(5,6) by (simp add: numeral_2_eq_2)
  then show ?thesis
    using assms(5) by (simp add: write_exif_def)
qed

text \<open>A file of two or three bytes that begins like a JPEG file is read past its end, because the bound of the loop wraps
  around.\<close>
theorem short_file_overruns:
  assumes "length src = 2 \<or> length src = 3" "src ! 0 = 0xFF" "src ! 1 = 0xD8"
  shows "write_exif exif_payload src = None"
proof -
  have lim: "scan_limit src > 4"
    using assms(1) unat_sub_wrap [of "of_nat (length src)" 4] by (auto simp: scan_limit_def)
  have "skip_segments src 3 = None" if "length src = 3"
    using lim that by (subst skip_segments.simps) simp
  then have "skip_segments src 2 = None"
    using lim assms(1) by (subst skip_segments.simps) (auto simp: numeral_3_eq_3)
  then show ?thesis
    using assms by (auto simp: write_exif_def)
qed

end
