(* ===== verification/Text_Lines.thy ===== *)
theory Text_Lines
  imports Prelude
begin

text \<open>
  Reading a text file line by line: \<open>std::getline\<close> on the rest of a stream, and the loop \<open>while (std::getline(file, line))\<close>
  that several programs open their files with.
\<close>

abbreviation tab :: char where
  "tab \<equiv> CHR 9"

abbreviation newline :: char where
  "newline \<equiv> CHR 10"

text \<open>\<open>std::getline\<close>: it fails when nothing is left to read; the delimiter is taken from the stream but not stored.\<close>

definition getline :: "char \<Rightarrow> string \<Rightarrow> (string \<times> string) option" where
  "getline delim s = (if s = [] then None else Some (takeWhile (\<lambda>c. c \<noteq> delim) s, drop 1 (dropWhile (\<lambda>c. c \<noteq> delim) s)))"

lemma getline_shorter: "getline d s = Some (l, r) \<Longrightarrow> length r < length s"
  using length_dropWhile_le [of "\<lambda>c. c \<noteq> d" s] by (cases s) (auto simp: getline_def split: if_splits)

function getlines :: "string \<Rightarrow> string list" where
  "getlines s = (case getline newline s of None \<Rightarrow> [] | Some (line, rest) \<Rightarrow> line # getlines rest)"
  by pat_completeness auto
termination
  by (relation "measure length") (auto dest: getline_shorter)

declare getlines.simps [simp del]

lemma getline_delim: "d \<notin> set l \<Longrightarrow> getline d (l @ d # r) = Some (l, r)"
  by (induction l) (auto simp: getline_def)

lemma getline_end: "d \<notin> set l \<Longrightarrow> l \<noteq> [] \<Longrightarrow> getline d l = Some (l, [])"
proof -
  assume "d \<notin> set l" "l \<noteq> []"
  then have "\<forall>c\<in>set l. c \<noteq> d"
    by auto
  then show ?thesis
    using \<open>l \<noteq> []\<close> by (simp add: getline_def iffD2 [OF takeWhile_eq_all_conv] iffD2 [OF dropWhile_eq_Nil_conv])
qed

lemma getline_sets:
  assumes "getline d s = Some (l, r)"
  shows "d \<notin> set l" "set l \<subseteq> set s" "set r \<subseteq> set s"
  using assms by (auto simp: getline_def split: if_splits dest: set_takeWhileD set_dropWhileD in_set_dropD)

lemma getlines_Nil [simp]: "getlines [] = []"
  by (subst getlines.simps) (simp add: getline_def)

lemma getlines_line: "newline \<notin> set l \<Longrightarrow> getlines (l @ newline # r) = l # getlines r"
  by (subst getlines.simps) (simp add: getline_delim)

lemma getlines_no_newline: "l \<in> set (getlines s) \<Longrightarrow> newline \<notin> set l"
proof (induction s rule: getlines.induct)
  case (1 s)
  show ?case
  proof (cases "getline newline s")
    case (Some p)
    then have "getlines s = fst p # getlines (snd p)"
      by (subst getlines.simps) (simp add: case_prod_beta)
    then show ?thesis
      using 1 Some getline_sets(1) [of newline s "fst p" "snd p"] by (cases p) auto
  next
    case None
    then show ?thesis
      using 1(2) by (subst (asm) getlines.simps) simp
  qed
qed

definition whole_lines :: "string \<Rightarrow> bool" where
  "whole_lines s \<longleftrightarrow> s = [] \<or> last s = newline"

lemma getlines_append: "whole_lines s \<Longrightarrow> getlines (s @ t) = getlines s @ getlines t"
proof (induction s rule: getlines.induct)
  case (1 s)
  show ?case
  proof (cases "s = []")
    case False
    then have "newline \<in> set s"
      using 1(2) by (auto simp: whole_lines_def dest: last_in_set)
    then obtain l r where s: "s = l @ newline # r" "newline \<notin> set l"
      by (meson split_list_first)
    have "whole_lines r"
      using 1(2) s by (auto simp: whole_lines_def split: if_splits)
    then have "getlines (r @ t) = getlines r @ getlines t"
      using 1(1) s by (simp add: getline_delim)
    then show ?thesis
      using s by (simp add: getlines_line)
  qed simp
qed

lemma getline_nonempty: "getline d s = Some (l, r) \<Longrightarrow> d \<notin> set s \<Longrightarrow> l \<noteq> []"
  by (cases s) (auto simp: getline_def)

end
