(* ===== verification/English_Quiz.thy ===== *)
theory English_Quiz
  imports Text_Lines "HOL-Library.Multiset"
begin

text \<open>
  The vocabulary trainer \<open>src/linux/ubuntu/application/english_apps/english_challenge.cpp\<close>: words are kept in a file of
  tab-separated lines, words answered wrongly in a second file, the review queue.  Files are their
  contents; the random numbers of \<open>std::shuffle\<close> and \<open>std::uniform_int_distribution\<close> are a parameter, a
  record of what they return; the answers typed are a list of numbers, which ends where \<open>std::cin\<close> fails.
  Of the messages, the verdicts on the answers and the table of all words are modelled.
\<close>

subsection \<open>Words and files\<close>

record word_entry =
  word :: string
  ipa :: string
  description :: string

definition parse_line :: "string \<Rightarrow> word_entry option" where
  "parse_line line =
     (if line = [] then None
      else case getline tab line of
        None \<Rightarrow> None
      | Some (w, ss) \<Rightarrow> (case getline tab ss of
          None \<Rightarrow> None
        | Some (i, ss) \<Rightarrow> (case getline newline ss of
            None \<Rightarrow> None
          | Some (d, ss) \<Rightarrow> Some \<lparr>word = w, ipa = i, description = d\<rparr>)))"

text \<open>A file that cannot be opened for reading is \<open>None\<close>.\<close>

definition loadWords :: "string option \<Rightarrow> word_entry list" where
  "loadWords contents = (case contents of None \<Rightarrow> [] | Some s \<Rightarrow> List.map_filter parse_line (getlines s))"

definition write_word :: "word_entry \<Rightarrow> string" where
  "write_word w = word w @ [tab] @ ipa w @ [tab] @ description w @ [newline]"

text \<open>The review file: its contents, and whether it can be opened for writing.\<close>

record tsv_file =
  contents :: "string option"
  can_write :: bool

definition saveToReviewQueue :: "word_entry list \<Rightarrow> word_entry \<Rightarrow> tsv_file \<Rightarrow> word_entry list \<times> tsv_file" where
  "saveToReviewQueue queue w review_file =
     (let currentReview = loadWords (contents review_file) in
      if \<exists>item\<in>set currentReview. word item = word w then (queue, review_file)
      else if can_write review_file
      then (queue @ [w], review_file\<lparr>contents := Some (case_option [] id (contents review_file) @ write_word w)\<rparr>)
      else (queue, review_file))"

definition refreshReviewQueue :: "word_entry list \<Rightarrow> tsv_file \<Rightarrow> tsv_file" where
  "refreshReviewQueue remainingQueue review_file =
     (if can_write review_file then review_file\<lparr>contents := Some (concat (map write_word remainingQueue))\<rparr> else review_file)"

subsection \<open>The table of words\<close>

definition utf8_strlen :: "string \<Rightarrow> nat" where
  "utf8_strlen str = fold (\<lambda>c len. if (of_char c :: u8) AND 0xC0 \<noteq> 0x80 then len + 1 else len) str 0"

definition print_utf8_aligned :: "string \<Rightarrow> nat \<Rightarrow> string" where
  "print_utf8_aligned str target_width =
     (let visual_len = utf8_strlen str
      in str @ (if target_width > visual_len then replicate (target_width - visual_len) CHR '' '' else []))"

definition table_row :: "word_entry \<Rightarrow> string" where
  "table_row w = print_utf8_aligned (word w) 20 @ print_utf8_aligned (ipa w) 25 @ description w"

subsection \<open>The challenge\<close>

record dice =
  shuffle_main :: "word_entry list \<Rightarrow> word_entry list"
  shuffle_exam :: "word_entry list \<Rightarrow> word_entry list"
  draw :: "nat \<Rightarrow> nat \<Rightarrow> nat"
  shuffle_options :: "nat \<Rightarrow> string list \<Rightarrow> string list"

text \<open>\<open>std::max((size_t)1, (size_t)(mainList.size() * 0.3))\<close>: below \<open>2 ^ 50\<close> the product rounded to a double has the
  integer part of the exact three tenths.\<close>

definition sample_size :: "nat \<Rightarrow> nat" where
  "sample_size n = max 1 (n * 3 div 10)"

fun fill_exam :: "nat \<Rightarrow> word_entry list \<Rightarrow> word_entry list \<Rightarrow> word_entry list" where
  "fill_exam targetSize [] examList = examList"
| "fill_exam targetSize (w # mainList) examList =
     (if length examList \<ge> targetSize then examList
      else if \<exists>q\<in>set examList. word q = word w then fill_exam targetSize mainList examList
      else fill_exam targetSize mainList (examList @ [w]))"

text \<open>The loop that collects the wrong answers; \<open>None\<close> where it does not end.\<close>

partial_function (option) pick_options ::
    "word_entry list \<Rightarrow> string \<Rightarrow> (nat \<Rightarrow> nat) \<Rightarrow> nat \<Rightarrow> string list \<Rightarrow> string set \<Rightarrow> string list option" where
  "pick_options mainList answer draws k options unique_distractors =
     (if length options < 5 then
        if draws k < length mainList then
          let candidate_word = word (mainList ! draws k) in
          if candidate_word \<noteq> answer \<and> candidate_word \<notin> unique_distractors
          then pick_options mainList answer draws (Suc k) (options @ [candidate_word]) (insert candidate_word unique_distractors)
          else pick_options mainList answer draws (Suc k) options unique_distractors
        else None
      else Some options)"

record quiz =
  reviewQueue :: "word_entry list"
  review_file :: tsv_file
  verdicts :: "(string \<times> bool) list"

fun read_choice :: "int list \<Rightarrow> int \<times> int list" where
  "read_choice [] = (0, [])"
| "read_choice (c # cin) = (c, cin)"

definition ask_question :: "dice \<Rightarrow> word_entry list \<Rightarrow> nat \<Rightarrow> word_entry \<Rightarrow> int list \<times> quiz \<Rightarrow> (int list \<times> quiz) option" where
  "ask_question d mainList k currentQuestion = (\<lambda>(cin, z).
     case pick_options mainList (word currentQuestion) (draw d k) 0 [word currentQuestion] {} of
       None \<Rightarrow> None
     | Some options \<Rightarrow>
         let options = shuffle_options d k options;
             (choice, cin) = read_choice cin
         in if 1 \<le> choice \<and> choice \<le> 5 \<and> options ! nat (choice - 1) = word currentQuestion
            then let remaining = filter (\<lambda>w. word w \<noteq> word currentQuestion) (reviewQueue z)
                 in Some (cin, z\<lparr>reviewQueue := remaining, review_file := refreshReviewQueue remaining (review_file z),
                      verdicts := verdicts z @ [(word currentQuestion, True)]\<rparr>)
            else let (queue, f) = saveToReviewQueue (reviewQueue z) currentQuestion (review_file z)
                 in Some (cin, z\<lparr>reviewQueue := queue, review_file := f, verdicts := verdicts z @ [(word currentQuestion, False)]\<rparr>))"

fun ask_all :: "dice \<Rightarrow> word_entry list \<Rightarrow> nat \<Rightarrow> word_entry list \<Rightarrow> int list \<times> quiz \<Rightarrow> (int list \<times> quiz) option" where
  "ask_all d mainList k [] s = Some s"
| "ask_all d mainList k (q # examList) s =
     (case ask_question d mainList k q s of None \<Rightarrow> None | Some s \<Rightarrow> ask_all d mainList (Suc k) examList s)"

definition exam_list :: "dice \<Rightarrow> word_entry list \<Rightarrow> word_entry list \<Rightarrow> word_entry list" where
  "exam_list d mainList queue = shuffle_exam d (fill_exam (sample_size (length mainList)) mainList queue)"

definition challenge :: "dice \<Rightarrow> word_entry list \<Rightarrow> int list \<Rightarrow> tsv_file \<Rightarrow> quiz option" where
  "challenge d mainList cin f =
     (let queue = loadWords (contents f); mainList = shuffle_main d mainList
      in map_option snd (ask_all d mainList 0 (exam_list d mainList queue) (cin, \<lparr>reviewQueue = queue, review_file = f, verdicts = []\<rparr>)))"

datatype outcome = No_words | Table "string list" | Finished quiz | Invalid_mode

fun exit_code :: "outcome \<Rightarrow> int" where
  "exit_code No_words = 1"
| "exit_code _ = 0"

definition english_main :: "string list \<Rightarrow> string option \<Rightarrow> tsv_file \<Rightarrow> dice \<Rightarrow> int list \<Rightarrow> outcome option" where
  "english_main argv asset review d cin =
     (let mode = (if length argv < 2 then ''test'' else argv ! 1);
          mainList = loadWords asset
      in if mainList = [] then Some No_words
         else if mode = ''full'' then Some (Table (map table_row mainList))
         else if mode = ''test'' then map_option Finished (challenge d mainList cin review)
         else Some Invalid_mode)"

subsection \<open>Lines of words\<close>

definition clean :: "word_entry \<Rightarrow> bool" where
  "clean w \<longleftrightarrow> {tab, newline} \<inter> (set (word w) \<union> set (ipa w)) = {} \<and> description w \<noteq> [] \<and> newline \<notin> set (description w)"

lemma parse_clean:
  assumes "newline \<notin> set line" "parse_line line = Some w"
  shows "clean w"
proof -
  obtain s r r' where "getline tab line = Some (word w, s)" "getline tab s = Some (ipa w, r)" "getline newline r = Some (description w, r')"
    using assms(2) by (auto simp: parse_line_def split: if_splits option.splits)
  then show ?thesis
    using assms(1) getline_sets [of tab line] getline_sets [of tab s] getline_sets [of newline r] getline_nonempty [of newline r]
    by (fastforce simp: clean_def)
qed

lemma parse_written: "clean w \<Longrightarrow> parse_line (word w @ tab # ipa w @ tab # description w) = Some w"
  by (simp add: parse_line_def getline_delim getline_end clean_def)

lemma load_clean: "w \<in> set (loadWords c) \<Longrightarrow> clean w"
  by (auto simp: loadWords_def map_filter_def split: option.splits dest!: parse_clean getlines_no_newline)

lemma write_whole_lines: "whole_lines s \<Longrightarrow> whole_lines (s @ write_word w)"
  by (simp add: whole_lines_def write_word_def)

lemma whole_lines_concat: "whole_lines (concat (map write_word ws))"
  by (induction ws rule: rev_induct) (simp_all add: whole_lines_def write_word_def)

lemma load_append:
  assumes "whole_lines s" "clean w"
  shows "loadWords (Some (s @ write_word w)) = loadWords (Some s) @ [w]"
proof -
  have "newline \<notin> set (word w @ tab # ipa w @ tab # description w)"
    using assms(2) by (auto simp: clean_def)
  then have "getlines (write_word w) = [word w @ tab # ipa w @ tab # description w]"
    using getlines_line [of "word w @ tab # ipa w @ tab # description w" "[]"] by (simp add: write_word_def)
  then show ?thesis
    using assms by (simp add: loadWords_def getlines_append map_filter_def parse_written)
qed

lemma load_written: "(\<And>w. w \<in> set ws \<Longrightarrow> clean w) \<Longrightarrow> loadWords (Some (concat (map write_word ws))) = ws"
proof (induction ws rule: rev_induct)
  case (snoc w ws)
  then show ?case
    using load_append [OF whole_lines_concat [of ws], of w] by simp
qed (simp add: loadWords_def map_filter_def)

subsection \<open>The options of a question\<close>

definition answer_set :: "string \<Rightarrow> word_entry list \<Rightarrow> string list \<Rightarrow> bool" where
  "answer_set answer mainList options \<longleftrightarrow> distinct options \<and> options \<noteq> [] \<and> hd options = answer \<and>
     set (tl options) \<subseteq> word ` set mainList - {answer}"

lemma answer_set_snoc:
  assumes "answer_set answer mainList options" "v \<in> word ` set mainList" "v \<noteq> answer" "v \<notin> set (tl options)"
  shows "answer_set answer mainList (options @ [v])"
  using assms by (cases options) (auto simp: answer_set_def)

lemma pick_options_sound:
  assumes "pick_options mainList answer draws k options unique_distractors = Some r"
    "answer_set answer mainList options" "unique_distractors = set (tl options)" "length options \<le> 5"
  shows "answer_set answer mainList r \<and> length r = 5"
proof -
  have "answer_set answer mainList options \<longrightarrow> unique_distractors = set (tl options) \<longrightarrow> length options \<le> 5 \<longrightarrow>
      answer_set answer mainList r \<and> length r = 5"
  proof (rule pick_options.raw_induct [OF _ assms(1)], intro impI)
    fix f M a dr k opts ud r
    assume IH: "\<And>M a dr k opts ud r. f M a dr k opts ud = Some r \<Longrightarrow>
        answer_set a M opts \<longrightarrow> ud = set (tl opts) \<longrightarrow> length opts \<le> 5 \<longrightarrow> answer_set a M r \<and> length r = 5"
      and step: "(if length opts < 5 then if dr k < length M then let candidate_word = word (M ! dr k) in
            if candidate_word \<noteq> a \<and> candidate_word \<notin> ud then f M a dr (Suc k) (opts @ [candidate_word]) (insert candidate_word ud)
            else f M a dr (Suc k) opts ud else None else Some opts) = Some r"
      and inv: "answer_set a M opts" "ud = set (tl opts)" "length opts \<le> 5"
    have tl: "set (tl (opts @ [v])) = insert v (set (tl opts))" for v
      using inv(1) by (cases opts) (auto simp: answer_set_def)
    show "answer_set a M r \<and> length r = 5"
    proof (cases "length opts < 5")
      case True
      then have d: "dr k < length M"
        using step by (auto split: if_splits)
      then have m: "word (M ! dr k) \<in> word ` set M"
        by simp
      show ?thesis
        using step True d inv IH [of M a dr "Suc k" "opts @ [word (M ! dr k)]" "insert (word (M ! dr k)) ud" r]
          IH [of M a dr "Suc k" opts ud r] answer_set_snoc [OF inv(1) m] tl by (auto simp: Let_def split: if_splits)
    qed (use step inv in auto)
  qed
  then show ?thesis
    using assms by blast
qed

text \<open>The words drawn before draw \<open>k\<close>, without the answer.\<close>

definition drawn :: "word_entry list \<Rightarrow> string \<Rightarrow> (nat \<Rightarrow> nat) \<Rightarrow> nat \<Rightarrow> string set" where
  "drawn mainList answer draws k = (\<lambda>j. word (mainList ! draws j)) ` {..<k} - {answer}"

lemma drawn_Suc: "drawn mainList answer draws (Suc k) =
    (if word (mainList ! draws k) = answer then drawn mainList answer draws k
     else insert (word (mainList ! draws k)) (drawn mainList answer draws k))"
  by (auto simp: drawn_def lessThan_Suc)

lemma pick_options_returns:
  assumes "\<And>j. draws j < length mainList" "4 \<le> card (drawn mainList answer draws n)"
    "answer_set answer mainList options" "set (tl options) = drawn mainList answer draws k"
  shows "\<exists>r. pick_options mainList answer draws k options (set (tl options)) = Some r"
  using assms(3,4)
proof (induction "n - k" arbitrary: k options)
  case 0
  then have "drawn mainList answer draws n \<subseteq> drawn mainList answer draws k"
    by (auto simp: drawn_def)
  then have "card (drawn mainList answer draws n) \<le> card (set (tl options))"
    using 0 card_mono by (metis List.finite_set)
  then have "length options \<ge> 5"
    using assms(2) distinct_card [of "tl options"] 0(2) by (simp add: answer_set_def distinct_tl)
  then show ?case
    by (subst pick_options.simps) simp
next
  case (Suc m)
  let ?v = "word (mainList ! draws k)"
  have tl: "set (tl (options @ [v])) = insert v (set (tl options))" for v
    using Suc.prems(1) by (cases options) (auto simp: answer_set_def)
  have new: "\<exists>r. pick_options mainList answer draws (Suc k) (options @ [?v]) (insert ?v (set (tl options))) = Some r"
    if "?v \<noteq> answer" "?v \<notin> set (tl options)"
    using Suc.hyps(1) [of "Suc k" "options @ [?v]"] Suc.hyps(2) Suc.prems that assms(1) [of k]
      answer_set_snoc [OF Suc.prems(1), of ?v] by (simp add: tl drawn_Suc)
  have old: "\<exists>r. pick_options mainList answer draws (Suc k) options (set (tl options)) = Some r"
    if "?v = answer \<or> ?v \<in> set (tl options)"
    using Suc.hyps(1) [of "Suc k" options] Suc.hyps(2) Suc.prems that
    by (auto simp: drawn_Suc insert_absorb split: if_splits)
  show ?case
    using new old assms(1) [of k] by (subst pick_options.simps) (auto simp: Let_def)
qed

definition fair_dice :: "dice \<Rightarrow> nat \<Rightarrow> bool" where
  "fair_dice d n \<longleftrightarrow> (\<forall>ws. mset (shuffle_main d ws) = mset ws) \<and> (\<forall>ws. mset (shuffle_exam d ws) = mset ws) \<and>
     (\<forall>k os. mset (shuffle_options d k os) = mset os) \<and> (\<forall>k j. draw d k j < n) \<and> (\<forall>k i. i < n \<longrightarrow> (\<exists>j. draw d k j = i))"

lemma fair_perm: "fair_dice d n \<Longrightarrow> set (shuffle_main d ws) = set ws \<and> length (shuffle_main d ws) = length ws"
  "fair_dice d n \<Longrightarrow> set (shuffle_exam d ws) = set ws \<and> distinct (map word (shuffle_exam d ws)) = distinct (map word ws)"
proof -
  assume "fair_dice d n"
  then have m: "mset (shuffle_main d ws) = mset ws" "mset (shuffle_exam d ws) = mset ws"
    by (auto simp: fair_dice_def)
  show "set (shuffle_main d ws) = set ws \<and> length (shuffle_main d ws) = length ws"
    using mset_eq_setD [OF m(1)] mset_eq_length [OF m(1)] by simp
  show "set (shuffle_exam d ws) = set ws \<and> distinct (map word (shuffle_exam d ws)) = distinct (map word ws)"
    using mset_eq_setD [OF m(2)] mset_eq_imp_distinct_iff [of "map word (shuffle_exam d ws)" "map word ws"] m(2) by simp
qed

lemma enough_draws:
  assumes "fair_dice d (length mainList)" "5 \<le> card (word ` set mainList)"
  shows "\<exists>n. 4 \<le> card (drawn mainList answer (draw d k) n)"
proof -
  have "\<exists>j. draw d k j = i" if "i < length mainList" for i
    using assms(1) that by (simp add: fair_dice_def)
  then have "{..<length mainList} \<subseteq> range (draw d k)"
    by (metis lessThan_iff rangeI subsetI)
  then obtain C where C: "finite C" "{..<length mainList} = draw d k ` C"
    using finite_subset_image [of "{..<length mainList}" "draw d k" UNIV] by auto
  then obtain n where n: "C \<subseteq> {..<n}"
    by (metis finite_nat_set_iff_bounded lessThan_iff subsetI)
  have "word ` set mainList - {answer} \<subseteq> drawn mainList answer (draw d k) n"
  proof
    fix v
    assume "v \<in> word ` set mainList - {answer}"
    then obtain i where i: "i < length mainList" "v = word (mainList ! i)" "v \<noteq> answer"
      by (auto simp: in_set_conv_nth)
    then have "i \<in> draw d k ` C"
      using C(2) by auto
    then obtain j where "j \<in> C" "i = draw d k j"
      by auto
    then show "v \<in> drawn mainList answer (draw d k) n"
      using i n by (auto simp: drawn_def)
  qed
  then have "card (word ` set mainList - {answer}) \<le> card (drawn mainList answer (draw d k) n)"
    by (intro card_mono) (auto simp: drawn_def)
  moreover have "5 \<le> Suc (card (word ` set mainList - {answer}))"
    using assms(2) by (cases "answer \<in> word ` set mainList") (simp_all add: card_Diff_singleton_if)
  ultimately show ?thesis
    by (intro exI [of _ n]) simp
qed

lemma options_found:
  assumes "fair_dice d (length mainList)" "5 \<le> card (word ` set mainList)"
  shows "\<exists>options. pick_options mainList answer (draw d k) 0 [answer] {} = Some options"
proof -
  obtain n where "4 \<le> card (drawn mainList answer (draw d k) n)"
    using enough_draws [OF assms] by blast
  then show ?thesis
    using pick_options_returns [of "draw d k" mainList answer n "[answer]" 0] assms(1)
    by (auto simp: fair_dice_def answer_set_def drawn_def)
qed

lemma too_few_options: "card (word ` set mainList - {answer}) < 4 \<Longrightarrow> pick_options mainList answer draws 0 [answer] {} = None"
proof (rule ccontr)
  assume few: "card (word ` set mainList - {answer}) < 4" and "pick_options mainList answer draws 0 [answer] {} \<noteq> None"
  then obtain r where "pick_options mainList answer draws 0 [answer] {} = Some r"
    by blast
  then have r: "answer_set answer mainList r" "length r = 5"
    using pick_options_sound [of mainList answer draws 0 "[answer]" "{}" r] by (auto simp: answer_set_def)
  then have "length (tl r) \<le> card (word ` set mainList - {answer})"
    using card_mono [of "word ` set mainList - {answer}" "set (tl r)"] distinct_card [of "tl r"]
    by (simp add: answer_set_def distinct_tl)
  then show False
    using r few by simp
qed

subsection \<open>The review queue\<close>

definition whole_file :: "tsv_file \<Rightarrow> bool" where
  "whole_file f \<longleftrightarrow> whole_lines (case_option [] id (contents f))"

definition in_sync :: "quiz \<Rightarrow> bool" where
  "in_sync z \<longleftrightarrow> can_write (review_file z) \<and> whole_file (review_file z) \<and>
     loadWords (contents (review_file z)) = reviewQueue z \<and> distinct (map word (reviewQueue z))"

lemma load_None [simp]: "loadWords None = []"
  by (simp add: loadWords_def)

lemma load_contents: "loadWords c = loadWords (Some (case_option [] id c))"
  by (cases c) (simp_all add: loadWords_def map_filter_def)

lemma in_sync_clean: "in_sync z \<Longrightarrow> w \<in> set (reviewQueue z) \<Longrightarrow> clean w"
  by (metis in_sync_def load_clean)

lemma in_sync_right:
  assumes "in_sync z" "ws = filter P (reviewQueue z)"
  shows "in_sync (z\<lparr>reviewQueue := ws, review_file := refreshReviewQueue ws (review_file z), verdicts := vs\<rparr>)"
  using assms load_written [of ws] in_sync_clean [OF assms(1)] whole_lines_concat [of ws]
  by (auto simp: in_sync_def refreshReviewQueue_def whole_file_def distinct_map_filter)

lemma in_sync_wrong:
  assumes "in_sync z" "clean q" "saveToReviewQueue (reviewQueue z) q (review_file z) = (queue, f)"
  shows "in_sync (z\<lparr>reviewQueue := queue, review_file := f, verdicts := vs\<rparr>) \<and> word ` set queue = insert (word q) (word ` set (reviewQueue z))"
proof (cases "\<exists>item\<in>set (reviewQueue z). word item = word q")
  case True
  then have "word q \<in> word ` set (reviewQueue z)"
    by (metis imageI)
  then show ?thesis
    using assms True by (auto simp: in_sync_def saveToReviewQueue_def)
next
  case False
  let ?s = "case_option [] id (contents (review_file z))"
  have "queue = reviewQueue z @ [q]" "f = (review_file z)\<lparr>contents := Some (?s @ write_word q)\<rparr>"
    using assms False by (auto simp: saveToReviewQueue_def in_sync_def)
  moreover have "loadWords (Some (?s @ write_word q)) = reviewQueue z @ [q]"
    using assms load_append [of ?s q] load_contents [of "contents (review_file z)"] by (simp add: in_sync_def whole_file_def)
  moreover have "whole_lines (?s @ write_word q)"
    using assms(1) write_whole_lines by (simp add: in_sync_def whole_file_def)
  ultimately show ?thesis
    using assms False by (auto simp: in_sync_def whole_file_def)
qed

lemma ask_question_ok:
  assumes "in_sync z" "clean q" "pick_options mainList (word q) (draw d k) 0 [word q] {} = Some options"
  shows "\<exists>cin' z' b. ask_question d mainList k q (cin, z) = Some (cin', z') \<and> in_sync z' \<and> verdicts z' = verdicts z @ [(word q, b)] \<and>
     word ` set (reviewQueue z') = (if b then word ` set (reviewQueue z) - {word q} else insert (word q) (word ` set (reviewQueue z)))"
proof -
  obtain choice cin' where c: "read_choice cin = (choice, cin')"
    by fastforce
  obtain queue f where s: "saveToReviewQueue (reviewQueue z) q (review_file z) = (queue, f)"
    by fastforce
  let ?right = "1 \<le> choice \<and> choice \<le> 5 \<and> shuffle_options d k options ! nat (choice - 1) = word q"
  show ?thesis
  proof (cases ?right)
    case True
    then show ?thesis
      using assms c in_sync_right [OF assms(1), of _ "\<lambda>w. word w \<noteq> word q", OF refl]
      by (intro exI [of _ True] exI) (auto simp: ask_question_def Let_def)
  next
    case False
    define z' where "z' = z\<lparr>reviewQueue := queue, review_file := f, verdicts := verdicts z @ [(word q, False)]\<rparr>"
    have "ask_question d mainList k q (cin, z) = Some (cin', z')"
      unfolding ask_question_def Let_def split case_prod_conv assms(3) option.case c s if_not_P [OF False] z'_def by (rule refl)
    then show ?thesis
      using in_sync_wrong [OF assms(1,2) s] by (intro exI [of _ False] exI [of _ cin'] exI [of _ z']) (simp add: z'_def)
  qed
qed

lemma ask_all_ok:
  assumes "in_sync z" "\<And>q. q \<in> set exam \<Longrightarrow> clean q" "distinct (map word exam)"
    "\<And>k q. q \<in> set exam \<Longrightarrow> \<exists>options. pick_options mainList (word q) (draw d k) 0 [word q] {} = Some options"
  shows "\<exists>cin' z' vs. ask_all d mainList k exam (cin, z) = Some (cin', z') \<and> in_sync z' \<and> verdicts z' = verdicts z @ vs \<and>
     map fst vs = map word exam \<and> word ` set (reviewQueue z') = word ` set (reviewQueue z) - word ` set exam \<union> {w. (w, False) \<in> set vs}"
  using assms
proof (induction exam arbitrary: z k cin)
  case (Cons q exam)
  obtain options where "pick_options mainList (word q) (draw d k) 0 [word q] {} = Some options"
    using Cons.prems(4) by fastforce
  then obtain cin1 z1 b where 1: "ask_question d mainList k q (cin, z) = Some (cin1, z1)" "in_sync z1"
      "verdicts z1 = verdicts z @ [(word q, b)]"
      "word ` set (reviewQueue z1) = (if b then word ` set (reviewQueue z) - {word q} else insert (word q) (word ` set (reviewQueue z)))"
    using ask_question_ok [OF Cons.prems(1)] Cons.prems(2) by (metis list.set_intros(1))
  obtain cin2 z2 vs where 2: "ask_all d mainList (Suc k) exam (cin1, z1) = Some (cin2, z2)" "in_sync z2" "verdicts z2 = verdicts z1 @ vs"
      "map fst vs = map word exam" "word ` set (reviewQueue z2) = word ` set (reviewQueue z1) - word ` set exam \<union> {w. (w, False) \<in> set vs}"
    using Cons.IH [OF 1(2), of "Suc k" cin1] Cons.prems(2-4) by (auto simp del: ask_all.simps)
  have "word q \<notin> word ` set exam"
    using Cons.prems(3) by auto
  then have "word ` set (reviewQueue z2) = word ` set (reviewQueue z) - word ` set (q # exam) \<union> {w. (w, False) \<in> set ((word q, b) # vs)}"
    unfolding 1(4) 2(5) by (cases b) (auto simp: image_iff)
  then show ?case
    using 1 2 by (intro exI [of _ cin2] exI [of _ z2] exI [of _ "(word q, b) # vs"]) simp
qed auto

lemma fill_exam_shape:
  assumes "distinct (map word exam)"
  shows "\<exists>new. fill_exam t main exam = exam @ new \<and> set new \<subseteq> set main \<and> distinct (map word (exam @ new)) \<and>
     length (exam @ new) \<le> max t (length exam) \<and> (t \<le> length (exam @ new) \<or> word ` set main \<subseteq> word ` set (exam @ new))"
  using assms
proof (induction main arbitrary: exam)
  case (Cons w main)
  consider "t \<le> length exam" | "length exam < t" "\<exists>q\<in>set exam. word q = word w" | "length exam < t" "\<not> (\<exists>q\<in>set exam. word q = word w)"
    by linarith
  then show ?case
  proof cases
    case 2
    then obtain new where "fill_exam t main exam = exam @ new \<and> set new \<subseteq> set main \<and> distinct (map word (exam @ new)) \<and>
        length (exam @ new) \<le> max t (length exam) \<and> (t \<le> length (exam @ new) \<or> word ` set main \<subseteq> word ` set (exam @ new))"
      using Cons by blast
    moreover have "word w \<in> word ` set exam"
      using 2(2) by (metis imageI)
    ultimately show ?thesis
      using 2 by (intro exI [of _ new]) auto
  next
    case 3
    then have "distinct (map word (exam @ [w]))"
      using Cons.prems by auto
    then obtain new where "fill_exam t main (exam @ [w]) = (exam @ [w]) @ new \<and> set new \<subseteq> set main \<and> distinct (map word ((exam @ [w]) @ new)) \<and>
        length ((exam @ [w]) @ new) \<le> max t (length (exam @ [w])) \<and> (t \<le> length ((exam @ [w]) @ new) \<or> word ` set main \<subseteq> word ` set ((exam @ [w]) @ new))"
      using Cons.IH by blast
    then show ?thesis
      using 3 by (intro exI [of _ "w # new"]) auto
  qed (use Cons.prems in auto)
qed auto

lemma exam_shape:
  assumes "fair_dice d n" "distinct (map word queue)"
  shows "\<exists>new. set (exam_list d mainList queue) = set queue \<union> new \<and> new \<subseteq> set mainList \<and> distinct (map word (exam_list d mainList queue)) \<and>
     length (exam_list d mainList queue) \<le> max (sample_size (length mainList)) (length queue) \<and>
     (sample_size (length mainList) \<le> length (exam_list d mainList queue) \<or> word ` set mainList \<subseteq> word ` set (exam_list d mainList queue))"
proof -
  let ?t = "sample_size (length mainList)"
  obtain new where new: "fill_exam ?t mainList queue = queue @ new" "set new \<subseteq> set mainList" "distinct (map word (queue @ new))"
      "length (queue @ new) \<le> max ?t (length queue)" "?t \<le> length (queue @ new) \<or> word ` set mainList \<subseteq> word ` set (queue @ new)"
    using fill_exam_shape [OF assms(2), of ?t mainList] by blast
  have "mset (exam_list d mainList queue) = mset (queue @ new)"
    using assms(1) new(1) by (simp add: fair_dice_def exam_list_def)
  then have "set (exam_list d mainList queue) = set (queue @ new)" "length (exam_list d mainList queue) = length (queue @ new)"
    by (rule mset_eq_setD, rule mset_eq_length)
  then show ?thesis
    using new fair_perm(2) [OF assms(1), of "queue @ new"] by (intro exI [of _ "set new"]) (simp add: exam_list_def)
qed

subsection \<open>Characters\<close>

text \<open>The UTF-8 encoding of a code point.\<close>

definition utf8_encode :: "nat \<Rightarrow> string" where
  "utf8_encode n = map char_of
     (if n < 0x80 then [n]
      else if n < 0x800 then [0xC0 + n div 64, 0x80 + n mod 64]
      else if n < 0x10000 then [0xE0 + n div 4096, 0x80 + n div 64 mod 64, 0x80 + n mod 64]
      else [0xF0 + n div 262144, 0x80 + n div 4096 mod 64, 0x80 + n div 64 mod 64, 0x80 + n mod 64])"

definition starts_char :: "char \<Rightarrow> bool" where
  "starts_char c \<longleftrightarrow> (of_char c :: u8) AND 0xC0 \<noteq> 0x80"

lemma utf8_strlen_filter: "utf8_strlen s = length (filter starts_char s)"
proof -
  have "fold (\<lambda>c len. if (of_char c :: u8) AND 0xC0 \<noteq> 0x80 then len + 1 else len) s n = n + length (filter starts_char s)" for n
    by (induction s arbitrary: n) (auto simp: starts_char_def)
  then show ?thesis
    by (simp add: utf8_strlen_def)
qed

lemma starts_char_nat:
  fixes n :: nat
  assumes "n < 256"
  shows "starts_char (char_of n) \<longleftrightarrow> n < 128 \<or> 192 \<le> n"
proof -
  have "(of_char (char_of n :: char) :: u8) = of_nat (of_char (char_of n :: char))"
    by (simp only: of_nat_of_char)
  also have "(of_char (char_of n :: char) :: nat) = n"
    using assms by (simp add: of_char_of take_bit_nat_eq_self)
  finally have e: "(of_char (char_of n :: char) :: u8) = of_nat n" .
  have "list_all (\<lambda>n. ((of_nat n :: u8) AND 0xC0 \<noteq> 0x80) = (n < 128 \<or> 192 \<le> n)) [0..<256]"
    by code_simp
  then have "((of_nat n :: u8) AND 0xC0 \<noteq> 0x80) = (n < 128 \<or> 192 \<le> n)"
    using assms by (simp only: list_all_iff atLeast_upt [symmetric] set_upt lessThan_iff atLeastLessThan_iff) simp
  then show ?thesis
    by (simp only: starts_char_def e)
qed

lemma strlen_char:
  assumes "n < 0x110000"
  shows "length (filter starts_char (utf8_encode n)) = 1"
proof -
  have "64 * (n div 64) \<le> n" "4096 * (n div 4096) \<le> n" "262144 * (n div 262144) \<le> n"
    by simp_all
  moreover have "n mod 64 < 64" "n div 64 mod 64 < 64" "n div 4096 mod 64 < 64"
    by simp_all
  ultimately show ?thesis
    using assms by (auto simp: utf8_encode_def starts_char_nat)
qed

subsection \<open>Properties\<close>

text \<open>C37: A challenge over at least five words, with a review file that can be written and ends its lines, runs to its
  end; then the review file holds exactly the words answered wrongly, in the state of the queue in memory.
  Every word that was in the file has been asked, together with new words up to three tenths of the
  vocabulary.\<close>
theorem challenge_records_mistakes:
  assumes "mainList = loadWords asset" "5 \<le> card (word ` set mainList)" "fair_dice d (length mainList)"
    "can_write f" "whole_file f" "distinct (map word (loadWords (contents f)))"
  shows "\<exists>z. english_main [prog, ''test''] asset f d cin = Some (Finished z) \<and>
     loadWords (contents (review_file z)) = reviewQueue z \<and> distinct (map word (reviewQueue z)) \<and>
     word ` set (reviewQueue z) = {w. (w, False) \<in> set (verdicts z)} \<and>
     distinct (map fst (verdicts z)) \<and> word ` set (loadWords (contents f)) \<subseteq> fst ` set (verdicts z) \<and>
     (sample_size (length mainList) \<le> length (verdicts z) \<or> word ` set mainList \<subseteq> fst ` set (verdicts z))"
proof -
  let ?main = "shuffle_main d mainList" and ?queue = "loadWords (contents f)"
  let ?exam = "exam_list d ?main ?queue" and ?z = "\<lparr>reviewQueue = ?queue, review_file = f, verdicts = []\<rparr>"
  note perm = fair_perm(1) [OF assms(3), of mainList]
  obtain new where new: "set ?exam = set ?queue \<union> new" "new \<subseteq> set ?main" "distinct (map word ?exam)"
      "sample_size (length ?main) \<le> length ?exam \<or> word ` set ?main \<subseteq> word ` set ?exam"
    using exam_shape [OF assms(3,6), of ?main] by blast
  have clean: "clean q" if "q \<in> set ?exam" for q
    using that new(1,2) perm assms(1) load_clean by blast
  have picks: "\<exists>options. pick_options ?main (word q) (draw d k) 0 [word q] {} = Some options" for k q
    using options_found [of d ?main "word q" k] assms(2,3) perm by simp
  have "in_sync ?z"
    using assms(4-6) by (simp add: in_sync_def)
  then obtain cin' z vs where z: "ask_all d ?main 0 ?exam (cin, ?z) = Some (cin', z)" "in_sync z" "verdicts z = vs"
      "map fst vs = map word ?exam" "word ` set (reviewQueue z) = word ` set ?queue - word ` set ?exam \<union> {w. (w, False) \<in> set vs}"
    using ask_all_ok [OF _ clean new(3) picks, of ?z 0 cin] by auto
  have "english_main [prog, ''test''] asset f d cin = Some (Finished z)"
    using z(1) assms(1,2) by (auto simp: english_main_def challenge_def Let_def)
  moreover have "fst ` set vs = word ` set ?exam" "length vs = length ?exam"
    using z(4) by (metis list.set_map, metis length_map)
  ultimately show ?thesis
    using z(2-5) new perm by (intro exI [of _ z]) (auto simp: in_sync_def)
qed

definition example_words :: "word_entry list" where
  "example_words = map (\<lambda>s. \<lparr>word = s, ipa = ''i'', description = ''d''\<rparr>) [''a'', ''b'', ''c'', ''e'', ''f'']"

definition example_asset :: string where
  "example_asset = concat (map write_word example_words)"

definition example_dice :: "nat \<Rightarrow> dice" where
  "example_dice n = \<lparr>shuffle_main = rev, shuffle_exam = rev, draw = (\<lambda>k j. j mod n), shuffle_options = (\<lambda>k. rev)\<rparr>"

lemma example_dice_fair: "0 < n \<Longrightarrow> fair_dice (example_dice n) n"
  by (auto simp: fair_dice_def example_dice_def intro: mod_less)

lemma example_loaded: "loadWords (Some (concat (map write_word (take n example_words)))) = take n example_words"
  by (rule load_written) (auto simp: clean_def example_words_def dest!: in_set_takeD)

theorem challenge_records_mistakes_witness:
  "\<exists>z. english_main [''quiz'', ''test''] (Some example_asset) \<lparr>contents = None, can_write = True\<rparr> (example_dice 5) [5, 2]
     = Some (Finished z) \<and> word ` set (reviewQueue z) = {w. (w, False) \<in> set (verdicts z)}"
proof -
  have m: "loadWords (Some example_asset) = example_words"
    using example_loaded [of 5] by (simp add: example_asset_def example_words_def)
  have "card (word ` set example_words) = 5" "length example_words = 5"
    by (simp_all add: example_words_def)
  then have "5 \<le> card (word ` set example_words)" "fair_dice (example_dice 5) (length example_words)"
    using example_dice_fair [of 5] by simp_all
  then show ?thesis
    using challenge_records_mistakes [OF m [symmetric], of "example_dice 5" "\<lparr>contents = None, can_write = True\<rparr>" "''quiz''" "[5, 2]"]
    by (auto simp: whole_file_def whole_lines_def)
qed

text \<open>C38: With at most four different words, and no others in the review file, the loop that looks for four wrong
  answers never ends, whatever is drawn.\<close>
theorem few_words_never_end:
  assumes "mainList = loadWords asset" "mainList \<noteq> []" "card (word ` set mainList) \<le> 4" "fair_dice d (length mainList)"
    "word ` set (loadWords (contents f)) \<subseteq> word ` set mainList" "distinct (map word (loadWords (contents f)))"
  shows "english_main [prog, ''test''] asset f d cin = None"
proof -
  let ?main = "shuffle_main d mainList" and ?queue = "loadWords (contents f)"
  let ?exam = "exam_list d ?main ?queue"
  note perm = fair_perm(1) [OF assms(4), of mainList]
  obtain new where new: "set ?exam = set ?queue \<union> new" "new \<subseteq> set ?main"
      "sample_size (length ?main) \<le> length ?exam \<or> word ` set ?main \<subseteq> word ` set ?exam"
    using exam_shape [OF assms(4,6), of ?main] by blast
  have "?exam \<noteq> []"
    using new(3) assms(2) perm by (auto simp: sample_size_def)
  then obtain q qs where q: "?exam = q # qs"
    by (cases ?exam) auto
  then have "word q \<in> word ` set mainList"
    using new(1,2) perm assms(5) by (metis UnE image_eqI list.set_intros(1) subset_iff)
  then have "card (word ` set ?main - {word q}) < 4"
    using assms(3) perm by (simp add: card_Diff_singleton_if)
  then have "pick_options ?main (word q) (draw d 0) 0 [word q] {} = None"
    by (rule too_few_options)
  then show ?thesis
    using assms(1,2) q by (simp add: english_main_def challenge_def Let_def ask_question_def)
qed

theorem few_words_never_end_witness:
  "english_main [''quiz'', ''test''] (Some (concat (map write_word (take 3 example_words)))) \<lparr>contents = None, can_write = True\<rparr>
     (example_dice 3) [1] = None"
  by (rule few_words_never_end [OF example_loaded [symmetric]])
    (use example_dice_fair [of 3] in \<open>simp_all add: example_words_def eval_nat_numeral\<close>)

text \<open>If the last line of the review file is not ended, the next word saved is glued to it: the file loses the saved
  word and changes the description of the one before, while the queue in memory has both.\<close>
theorem unfinished_line_glued:
  assumes "clean v" "clean w" "whole_lines s" "c = s @ butlast (write_word v)" "can_write f" "contents f = Some c"
    "word w \<notin> word ` set (loadWords (Some c))" "saveToReviewQueue queue w f = (queue', f')"
  shows "queue' = queue @ [w] \<and> loadWords (contents f') =
     loadWords (Some s) @ [v\<lparr>description := description v @ word w @ tab # ipa w @ tab # description w\<rparr>]"
proof -
  let ?v = "v\<lparr>description := description v @ word w @ tab # ipa w @ tab # description w\<rparr>"
  have "butlast (write_word v) @ write_word w = write_word ?v"
    by (simp add: write_word_def butlast_append)
  moreover have "clean ?v"
    using assms(1,2) by (auto simp: clean_def)
  ultimately show ?thesis
    using assms(4-8) load_append [OF assms(3), of ?v] by (auto simp: saveToReviewQueue_def Let_def image_iff split: if_splits)
qed

theorem unfinished_line_glued_witness:
  "loadWords (contents (snd (saveToReviewQueue [] (example_words ! 1) \<lparr>contents = Some (butlast (write_word (example_words ! 0))), can_write = True\<rparr>)))
     = [(example_words ! 0)\<lparr>description := ''db'' @ tab # ''i'' @ tab # ''d''\<rparr>]"
proof -
  let ?s = "butlast (write_word (example_words ! 0))"
  obtain q f where qf: "saveToReviewQueue [] (example_words ! 1) \<lparr>contents = Some ?s, can_write = True\<rparr> = (q, f)"
    by fastforce
  have "loadWords (Some ?s) = [example_words ! 0]"
    by (simp add: example_words_def write_word_def loadWords_def getlines.simps [of "CHR ''a'' # _"] getline_def map_filter_def parse_line_def)
  then have "contents f = contents f \<and> q = [] @ [example_words ! 1] \<and> loadWords (contents f) =
      loadWords (Some []) @ [(example_words ! 0)\<lparr>description := description (example_words ! 0) @ word (example_words ! 1) @ tab # ipa (example_words ! 1) @ tab # description (example_words ! 1)\<rparr>]"
    using unfinished_line_glued [OF _ _ _ _ _ _ _ qf, of "example_words ! 0" "[]" ?s]
    by (simp add: clean_def example_words_def whole_lines_def)
  then show ?thesis
    using qf by (simp add: example_words_def loadWords_def map_filter_def)
qed

text \<open>\<open>utf8_strlen\<close> counts the characters of a UTF-8 text, so that a column of the table takes its width on the screen.\<close>
theorem utf8_columns:
  assumes "\<forall>n\<in>set cps. n < 0x110000" "s = concat (map utf8_encode cps)"
  shows "utf8_strlen s = length cps \<and> utf8_strlen (print_utf8_aligned s w) = max w (length cps)"
proof -
  have l: "utf8_strlen s = length cps"
    unfolding assms(2) utf8_strlen_filter using assms(1) by (induction cps) (auto simp: strlen_char)
  have "starts_char CHR '' ''"
    by (simp add: starts_char_def)
  then show ?thesis
    using l by (simp add: print_utf8_aligned_def utf8_strlen_filter Let_def)
qed

theorem utf8_columns_witness: "utf8_strlen (concat (map utf8_encode [0x64, 0x259])) = 2"
  using utf8_columns [of "[0x64, 0x259]" _ 5] by simp

end
