(* ===== verification/Robot_Arm.thy ===== *)
theory Robot_Arm
  imports Prelude Complex_Main
begin

text \<open>
  The planar arm with two links of \<open>MiniProjects/Robot2DOF/robot\<close>: \<open>math_util.h\<close>, \<open>arm_robot.h\<close>, \<open>arm_robot.cpp\<close>.  The
  \<open>double\<close>s are real numbers, computed with exactly; what the theorems state is the geometry, not the rounding.
  The global vector \<open>pathPoints\<close> is a field of the arm.
\<close>

subsection \<open>Matrices\<close>

type_synonym mat4 = "nat \<Rightarrow> nat \<Rightarrow> real"

definition mat_id :: mat4 where
  "mat_id = (\<lambda>i j. if i = j then 1 else 0)"

definition mat_set :: "mat4 \<Rightarrow> nat \<Rightarrow> nat \<Rightarrow> real \<Rightarrow> mat4" where
  "mat_set m i j v = m(i := (m i)(j := v))"

definition translate :: "real \<Rightarrow> real \<Rightarrow> real \<Rightarrow> mat4" where
  "translate tx ty tz = mat_set (mat_set (mat_set mat_id 0 3 tx) 1 3 ty) 2 3 tz"

definition rotZ :: "real \<Rightarrow> mat4" where
  "rotZ theta = (let c = cos theta; s = sin theta
     in mat_set (mat_set (mat_set (mat_set mat_id 0 0 c) 0 1 (- s)) 1 0 s) 1 1 c)"

definition mat_mult :: "mat4 \<Rightarrow> mat4 \<Rightarrow> mat4" where
  "mat_mult m p = (\<lambda>i j. fold (\<lambda>k r. r + m i k * p k j) [0..<4] 0)"

definition getXY :: "mat4 \<Rightarrow> real \<times> real" where
  "getXY m = (m 0 3, m 1 3)"

subsection \<open>The arm\<close>

record arm =
  l1 :: real
  l2 :: real
  theta1 :: real
  theta2 :: real
  mx :: real
  my :: real
  offsetX :: real
  offsetY :: real
  pathPoints :: "(real \<times> real) list"

text \<open>\<open>atan2\<close> is the argument of the complex number, in the half-open interval up to \<open>pi\<close>, and zero at the origin.\<close>

definition atan2 :: "real \<Rightarrow> real \<Rightarrow> real" where
  "atan2 y x = Arg (Complex x y)"

definition UpdatePosition :: "arm \<Rightarrow> arm" where
  "UpdatePosition r =
     (let x = l1 r * cos (theta1 r) + l2 r * cos (theta1 r + theta2 r);
          y = l1 r * sin (theta1 r) + l2 r * sin (theta1 r + theta2 r)
      in r\<lparr>mx := x, my := y, pathPoints := pathPoints r @ [(x, y)]\<rparr>)"

definition new_arm :: "real \<Rightarrow> real \<Rightarrow> (real \<times> real) list \<Rightarrow> arm" where
  "new_arm a b points = UpdatePosition \<lparr>l1 = a, l2 = b, theta1 = 0, theta2 = 0, mx = 0, my = 0, offsetX = 0, offsetY = 0, pathPoints = points\<rparr>"

definition forwardKinematics :: "arm \<Rightarrow> real \<Rightarrow> real \<Rightarrow> mat4 list" where
  "forwardKinematics r th1 th2 =
     (let T0 = mat_id;
          T01 = mat_mult (mat_mult T0 (rotZ th1)) (translate (l1 r) 0 0);
          T02 = mat_mult (mat_mult T01 (rotZ th2)) (translate (l2 r) 0 0)
      in [T0, T01, T02])"

definition endEffector :: "arm \<Rightarrow> real \<Rightarrow> real \<Rightarrow> real \<times> real" where
  "endEffector r th1 th2 =
     (l1 r * cos th1 + l2 r * cos (th1 + th2), l1 r * sin th1 + l2 r * sin (th1 + th2))"

definition jacobian :: "arm \<Rightarrow> real \<Rightarrow> real \<Rightarrow> (real \<times> real) \<times> (real \<times> real)" where
  "jacobian r th1 th2 =
     (let s1 = sin th1; c1 = cos th1; s12 = sin (th1 + th2); c12 = cos (th1 + th2)
      in ((- l1 r * s1 - l2 r * s12, - l2 r * s12), (l1 r * c1 + l2 r * c12, l2 r * c12)))"

text \<open>The lambda \<open>make_sol\<close>.\<close>

definition make_sol :: "arm \<Rightarrow> real \<Rightarrow> real \<Rightarrow> real \<Rightarrow> real \<Rightarrow> real \<times> real" where
  "make_sol r x y s2 c2 =
     (let th2 = atan2 s2 c2; k1 = l1 r + l2 r * c2; k2 = l2 r * s2
      in (atan2 y x - atan2 k2 k1, th2))"

definition inverseKinematics :: "arm \<Rightarrow> real \<Rightarrow> real \<Rightarrow> (real \<times> real) list" where
  "inverseKinematics r x y =
     (let r2 = x * x + y * y;
          cos_th2 = (r2 - l1 r * l1 r - l2 r * l2 r) / (2 * l1 r * l2 r)
      in if cos_th2 < -1 - 1 / 10 ^ 12 \<or> cos_th2 > 1 + 1 / 10 ^ 12 then []
         else
           let cos_th2 = (if cos_th2 > 1 then 1 else cos_th2);
               cos_th2 = (if cos_th2 < -1 then -1 else cos_th2);
               sin_th2_pos = sqrt (max 0 (1 - cos_th2 * cos_th2));
               sin_th2_neg = - sin_th2_pos
           in make_sol r x y sin_th2_pos cos_th2 #
              (if \<bar>sin_th2_pos - sin_th2_neg\<bar> > 1 / 10 ^ 9 then [make_sol r x y sin_th2_neg cos_th2] else []))"

definition MoveTo :: "arm \<Rightarrow> real \<Rightarrow> real \<Rightarrow> arm" where
  "MoveTo r x y =
     (let d = sqrt (x * x + y * y) in
      if d > l1 r + l2 r then r
      else if d < \<bar>l1 r - l2 r\<bar> then r
      else
        let cos_t2 = (x * x + y * y - l1 r * l1 r - l2 r * l2 r) / (2 * l1 r * l2 r);
            sin_t2 = sqrt (1 - cos_t2 * cos_t2)
        in UpdatePosition (r\<lparr>theta2 := atan2 sin_t2 cos_t2,
             theta1 := atan2 y x - atan2 (l2 r * sin_t2) (l1 r + l2 r * cos_t2)\<rparr>))"

definition GetCurrentX_Work :: "arm \<Rightarrow> real" where
  "GetCurrentX_Work r = mx r - offsetX r"

definition GetCurrentY_Work :: "arm \<Rightarrow> real" where
  "GetCurrentY_Work r = my r - offsetY r"

definition SetWorkOffset :: "arm \<Rightarrow> real \<Rightarrow> real \<Rightarrow> arm" where
  "SetWorkOffset r wx wy = r\<lparr>offsetX := mx r - wx / 100, offsetY := my r - wy / 100\<rparr>"

subsection \<open>Turns\<close>

text \<open>Positions as complex numbers: a pose reaches the first link turned by the first angle, and the second by both.\<close>

definition reach :: "arm \<Rightarrow> real \<Rightarrow> real \<Rightarrow> complex" where
  "reach r th1 th2 = cis th1 * (of_real (l1 r) + of_real (l2 r) * cis th2)"

lemma endEffector_reach: "endEffector r th1 th2 = (Re (reach r th1 th2), Im (reach r th1 th2))"
  by (simp add: endEffector_def reach_def cos_add sin_add algebra_simps)

lemma endEffector_iff: "endEffector r th1 th2 = (x, y) \<longleftrightarrow> reach r th1 th2 = Complex x y"
  by (simp add: endEffector_reach complex_eq_iff)

lemma cis_atan2_unit: "c\<^sup>2 + s\<^sup>2 = 1 \<Longrightarrow> cis (atan2 s c) = Complex c s"
proof -
  assume "c\<^sup>2 + s\<^sup>2 = 1"
  then have n: "cmod (Complex c s) = 1"
    by (simp add: cmod_def)
  then have "Complex c s \<noteq> 0"
    by auto
  then show ?thesis
    using n by (simp add: atan2_def cis_Arg sgn_div_norm)
qed

lemma cmod_times_cis_Arg: "of_real (cmod z) * cis (Arg z) = z"
  using rcis_cmod_Arg [of z] by (simp add: rcis_def)

text \<open>The geometry of one solution: with the elbow turned by an angle whose cosine satisfies the law of cosines, the base
  angle \<open>atan2 y x - atan2 k2 k1\<close> brings the hand to the target.\<close>

lemma make_sol_reaches:
  assumes "c2\<^sup>2 + s2\<^sup>2 = 1" "x * x + y * y = l1 r * l1 r + l2 r * l2 r + 2 * l1 r * l2 r * c2"
  shows "reach r (fst (make_sol r x y s2 c2)) (snd (make_sol r x y s2 c2)) = Complex x y"
proof -
  let ?k = "Complex (l1 r + l2 r * c2) (l2 r * s2)" and ?z = "Complex x y"
  have k: "of_real (l1 r) + of_real (l2 r) * cis (atan2 s2 c2) = ?k"
    using cis_atan2_unit [OF assms(1)] by (simp add: complex_eq_iff)
  have "(l1 r + l2 r * c2)\<^sup>2 + (l2 r * s2)\<^sup>2 = l1 r * l1 r + 2 * l1 r * l2 r * c2 + l2 r * l2 r * (c2\<^sup>2 + s2\<^sup>2)"
    by (simp add: power2_eq_square algebra_simps)
  also have "\<dots> = x\<^sup>2 + y\<^sup>2"
    using assms by (simp add: power2_eq_square)
  finally have "cmod ?k = cmod ?z"
    by (simp add: cmod_def)
  then have "?k = of_real (cmod ?z) * cis (Arg ?k)"
    using cmod_times_cis_Arg [of ?k] by simp
  moreover have "cis (Arg ?z - Arg ?k) * (of_real (cmod ?z) * cis (Arg ?k)) = of_real (cmod ?z) * cis (Arg ?z)"
    by (simp add: cis_mult mult.left_commute)
  ultimately have "cis (Arg ?z - Arg ?k) * ?k = of_real (cmod ?z) * cis (Arg ?z)"
    by simp
  then show ?thesis
    using k by (simp add: reach_def make_sol_def Let_def atan2_def cmod_times_cis_Arg)
qed

text \<open>The law of cosines, as the code uses it.\<close>

definition cos_elbow :: "arm \<Rightarrow> real \<Rightarrow> real \<Rightarrow> real" where
  "cos_elbow r x y = (x * x + y * y - l1 r * l1 r - l2 r * l2 r) / (2 * l1 r * l2 r)"

definition reachable :: "arm \<Rightarrow> real \<Rightarrow> real \<Rightarrow> bool" where
  "reachable r x y \<longleftrightarrow> \<bar>l1 r - l2 r\<bar> \<le> sqrt (x * x + y * y) \<and> sqrt (x * x + y * y) \<le> l1 r + l2 r"

definition proper :: "arm \<Rightarrow> bool" where
  "proper r \<longleftrightarrow> 0 < l1 r \<and> 0 < l2 r"

lemma cos_elbow_law: "proper r \<Longrightarrow> x * x + y * y = l1 r * l1 r + l2 r * l2 r + 2 * l1 r * l2 r * cos_elbow r x y"
  by (simp add: cos_elbow_def proper_def)

lemma reachable_iff: "proper r \<Longrightarrow> reachable r x y \<longleftrightarrow> \<bar>cos_elbow r x y\<bar> \<le> 1"
proof -
  assume p: "proper r"
  let ?q = "x * x + y * y"
  have "\<bar>l1 r - l2 r\<bar> \<le> sqrt ?q \<longleftrightarrow> (l1 r - l2 r)\<^sup>2 \<le> ?q"
    by (metis real_sqrt_abs real_sqrt_le_iff)
  moreover have "sqrt ?q \<le> l1 r + l2 r \<longleftrightarrow> ?q \<le> (l1 r + l2 r)\<^sup>2"
    using p by (metis abs_of_pos add_pos_pos proper_def real_sqrt_abs real_sqrt_le_iff)
  moreover have "0 < 2 * l1 r * l2 r"
    using p by (simp add: proper_def)
  ultimately show ?thesis
    by (simp add: reachable_def cos_elbow_def abs_le_iff divide_le_eq le_divide_eq minus_divide_left power2_eq_square algebra_simps) blast
qed

lemma elbow_circle: "\<bar>c\<bar> \<le> 1 \<Longrightarrow> c\<^sup>2 + (sqrt (1 - c * c))\<^sup>2 = 1"
  using abs_square_le_1 [of c] by (simp add: power2_eq_square)

lemma UpdatePosition_effector:
  "(mx (UpdatePosition r), my (UpdatePosition r)) = endEffector r (theta1 r) (theta2 r)"
  by (simp add: UpdatePosition_def endEffector_def Let_def)

definition at_hand :: "arm \<Rightarrow> real \<times> real" where
  "at_hand r = (mx r, my r)"

text \<open>What the code calls a consistent arm: the position is the one of the angles.\<close>

definition consistent :: "arm \<Rightarrow> bool" where
  "consistent r \<longleftrightarrow> proper r \<and> at_hand r = endEffector r (theta1 r) (theta2 r)"

lemma MoveTo_sol:
  assumes "proper r" "reachable r x y"
  shows "MoveTo r x y = UpdatePosition (r\<lparr>theta2 := snd (make_sol r x y (sqrt (1 - cos_elbow r x y * cos_elbow r x y)) (cos_elbow r x y)),
     theta1 := fst (make_sol r x y (sqrt (1 - cos_elbow r x y * cos_elbow r x y)) (cos_elbow r x y))\<rparr>)"
  using assms(2) by (simp add: MoveTo_def make_sol_def Let_def cos_elbow_def reachable_def)

lemma MoveTo_hand:
  assumes "proper r" "reachable r x y"
  shows "at_hand (MoveTo r x y) = (x, y) \<and> consistent (MoveTo r x y) \<and> pathPoints (MoveTo r x y) = pathPoints r @ [(x, y)] \<and>
    l1 (MoveTo r x y) = l1 r \<and> l2 (MoveTo r x y) = l2 r \<and> offsetX (MoveTo r x y) = offsetX r \<and> offsetY (MoveTo r x y) = offsetY r"
proof -
  let ?c = "cos_elbow r x y"
  let ?sol = "make_sol r x y (sqrt (1 - ?c * ?c)) ?c"
  have "endEffector r (fst ?sol) (snd ?sol) = (x, y)"
    using make_sol_reaches [OF elbow_circle cos_elbow_law [OF assms(1)], of x y] reachable_iff [OF assms(1)] assms(2)
    by (simp add: endEffector_iff)
  then show ?thesis
    using assms(1) unfolding MoveTo_sol [OF assms]
    by (simp add: UpdatePosition_def Let_def endEffector_def at_hand_def consistent_def proper_def)
qed

lemma MoveTo_refused: "\<not> reachable r x y \<Longrightarrow> MoveTo r x y = r"
  by (auto simp: MoveTo_def reachable_def Let_def)

lemma MoveTo_consistent: "consistent r \<Longrightarrow> consistent (MoveTo r x y)"
  using MoveTo_hand MoveTo_refused by (metis consistent_def)

lemma inverse_reachable:
  assumes "proper r" "reachable r x y"
  shows "inverseKinematics r x y = (let c = cos_elbow r x y; s = sqrt (1 - c * c) in
     make_sol r x y s c # (if 2 * s > 1 / 10 ^ 9 then [make_sol r x y (- s) c] else []))"
proof -
  let ?c = "cos_elbow r x y"
  have c: "- 1 \<le> ?c" "?c \<le> 1"
    using assms reachable_iff by (auto simp: abs_le_iff)
  have "0 \<le> 1 - ?c * ?c"
    using abs_square_le_1 [of ?c] c by (simp add: power2_eq_square)
  then show ?thesis
    unfolding inverseKinematics_def Let_def cos_elbow_def [symmetric] using c by simp
qed

lemma reach_cosine:
  assumes "reach r th1 th2 = Complex x y" "proper r"
  shows "cos th2 = cos_elbow r x y"
proof -
  have "x\<^sup>2 + y\<^sup>2 = (cmod (reach r th1 th2))\<^sup>2"
    using assms(1) by (simp add: cmod_power2)
  also have "\<dots> = (l1 r + l2 r * cos th2)\<^sup>2 + (l2 r * sin th2)\<^sup>2"
    by (simp add: reach_def norm_mult cmod_power2)
  also have "\<dots> = l1 r * l1 r + 2 * l1 r * l2 r * cos th2 + l2 r * l2 r * ((sin th2)\<^sup>2 + (cos th2)\<^sup>2)"
    by (simp add: power2_eq_square algebra_simps del: sin_cos_squared_add3)
  finally show ?thesis
    using assms(2) by (simp add: cos_elbow_def proper_def power2_eq_square field_simps)
qed

lemma same_elbow_same_base:
  assumes "reach r a th2 = z" "reach r b th2' = z" "cis th2 = cis th2'" "z \<noteq> 0"
  shows "cis a = cis b"
  using assms by (auto simp: reach_def)

subsection \<open>Properties\<close>

text \<open>\<open>MoveTo\<close> brings the hand exactly to every target within reach of the links and records it in the path; any other
  target leaves the arm as it is.\<close>
theorem MoveTo_reaches:
  assumes "proper r"
  shows "if reachable r x y
     then at_hand (MoveTo r x y) = (x, y) \<and> consistent (MoveTo r x y) \<and> pathPoints (MoveTo r x y) = pathPoints r @ [(x, y)]
     else MoveTo r x y = r"
  using MoveTo_hand [OF assms] MoveTo_refused by simp

text \<open>The arm of the application, and a target within its reach.\<close>

lemma example_reachable: "proper (new_arm (1 / 2) (1 / 2) [])" "reachable (new_arm (1 / 2) (1 / 2) []) (1 / 2) (1 / 2)"
  "\<not> reachable (new_arm (1 / 2) (1 / 2) []) 1 1"
  by (simp_all add: proper_def reachable_def new_arm_def UpdatePosition_def Let_def)

theorem MoveTo_reaches_witness:
  "at_hand (MoveTo (new_arm (1 / 2) (1 / 2) []) (1 / 2) (1 / 2)) = (1 / 2, 1 / 2) \<and>
   MoveTo (new_arm (1 / 2) (1 / 2) []) 1 1 = new_arm (1 / 2) (1 / 2) []"
  using MoveTo_reaches [OF example_reachable(1), of "1 / 2" "1 / 2"] MoveTo_reaches [OF example_reachable(1), of 1 1]
  by (simp add: example_reachable)

text \<open>C32: \<open>inverseKinematics\<close> is sound and complete: for a target within reach every solution it returns brings the hand
  there, and every pair of angles that does so is, up to full turns, one of them, unless the elbow is
  stretched or folded to within the tolerance of the code.\<close>
theorem inverse_kinematics_solves:
  assumes "proper r" "reachable r x y"
  shows "inverseKinematics r x y \<noteq> [] \<and> (\<forall>(t1, t2)\<in>set (inverseKinematics r x y). endEffector r t1 t2 = (x, y)) \<and>
     (endEffector r th1 th2 = (x, y) \<and> (x, y) \<noteq> (0, 0) \<and> (2 * \<bar>sin th2\<bar> > 1 / 10 ^ 9 \<or> sin th2 = 0) \<longrightarrow>
        (\<exists>(t1, t2)\<in>set (inverseKinematics r x y). cis t1 = cis th1 \<and> cis t2 = cis th2))"
proof -
  let ?c = "cos_elbow r x y" and ?s = "sqrt (1 - cos_elbow r x y * cos_elbow r x y)"
  let ?sol = "\<lambda>s. make_sol r x y s ?c"
  note sols = inverse_reachable [OF assms, unfolded Let_def]
  have circle: "?c\<^sup>2 + ?s\<^sup>2 = 1" "?c\<^sup>2 + (- ?s)\<^sup>2 = 1"
    using elbow_circle [of ?c] reachable_iff [OF assms(1)] assms(2) by simp_all
  have sound: "endEffector r (fst (?sol s)) (snd (?sol s)) = (x, y)" if "?c\<^sup>2 + s\<^sup>2 = 1" for s
    using make_sol_reaches [OF that cos_elbow_law [OF assms(1)]] by (simp add: endEffector_iff)
  have complete: "\<exists>(t1, t2)\<in>set (inverseKinematics r x y). cis t1 = cis th1 \<and> cis t2 = cis th2"
    if hand: "endEffector r th1 th2 = (x, y)" and nz: "(x, y) \<noteq> (0, 0)" and tol: "2 * \<bar>sin th2\<bar> > 1 / 10 ^ 9 \<or> sin th2 = 0"
  proof -
    have c: "cos th2 = ?c"
      using hand assms(1) by (intro reach_cosine) (simp_all add: endEffector_iff)
    then have "?c\<^sup>2 + (sin th2)\<^sup>2 = 1"
      by (metis add.commute sin_cos_squared_add)
    then have "\<bar>sin th2\<bar> = ?s"
      by (metis add_diff_cancel_left' power2_eq_square real_sqrt_abs)
    then have s: "sin th2 = ?s \<or> sin th2 = - ?s"
      by linarith
    have "cis (snd (?sol (sin th2))) = cis th2"
      using cis_atan2_unit [of ?c "sin th2"] \<open>?c\<^sup>2 + (sin th2)\<^sup>2 = 1\<close> c by (simp add: make_sol_def Let_def complex_eq_iff)
    moreover have "cis (fst (?sol (sin th2))) = cis th1"
      by (rule same_elbow_same_base [of r _ _ "Complex x y", OF _ _ calculation])
        (use sound [OF \<open>?c\<^sup>2 + (sin th2)\<^sup>2 = 1\<close>] hand nz in \<open>simp_all add: endEffector_iff complex_eq_iff\<close>)
    moreover have "?sol (sin th2) \<in> set (inverseKinematics r x y)"
      using s tol \<open>\<bar>sin th2\<bar> = ?s\<close> unfolding sols by auto
    ultimately show ?thesis
      by (auto intro!: bexI [of _ "?sol (sin th2)"])
  qed
  have "\<forall>(t1, t2)\<in>set (inverseKinematics r x y). endEffector r t1 t2 = (x, y)"
    using sound [OF circle(1)] sound [OF circle(2)] unfolding sols by (auto simp: case_prod_beta)
  then show ?thesis
    using complete sols by simp
qed

theorem inverse_kinematics_solves_witness:
  "\<exists>t1 t2. (t1, t2) \<in> set (inverseKinematics (new_arm (1 / 2) (1 / 2) []) (1 / 2) (1 / 2)) \<and>
     endEffector (new_arm (1 / 2) (1 / 2) []) t1 t2 = (1 / 2, 1 / 2)"
  using inverse_kinematics_solves [OF example_reachable(1,2), of 0 0] by (cases "inverseKinematics (new_arm (1 / 2) (1 / 2) []) (1 / 2) (1 / 2)") auto

text \<open>C34: The product of the matrices of the links gives the position of the elbow and of the hand, and the matrix drawn on
  the screen holds the derivatives of that position by the two angles.\<close>
theorem kinematics_consistent:
  "map getXY (forwardKinematics r th1 th2) = [(0, 0), (l1 r * cos th1, l1 r * sin th1), endEffector r th1 th2] \<and>
   ((\<lambda>t. fst (endEffector r t th2)) has_real_derivative fst (fst (jacobian r th1 th2))) (at th1) \<and>
   ((\<lambda>t. fst (endEffector r th1 t)) has_real_derivative snd (fst (jacobian r th1 th2))) (at th2) \<and>
   ((\<lambda>t. snd (endEffector r t th2)) has_real_derivative fst (snd (jacobian r th1 th2))) (at th1) \<and>
   ((\<lambda>t. snd (endEffector r th1 t)) has_real_derivative snd (snd (jacobian r th1 th2))) (at th2)"
proof (intro conjI)
  show "map getXY (forwardKinematics r th1 th2) = [(0, 0), (l1 r * cos th1, l1 r * sin th1), endEffector r th1 th2]"
    by (simp add: forwardKinematics_def Let_def getXY_def mat_mult_def mat_id_def rotZ_def translate_def mat_set_def
        endEffector_def upt_rec [of _ 4] cos_add sin_add algebra_simps)
qed (auto simp: endEffector_def jacobian_def Let_def intro!: derivative_eq_intros)

end
