(* ===== verification/Gcode.thy ===== *)
theory Gcode
  imports Robot_Arm Text_Lines
begin

text \<open>
  The G-code interpreter of \<open>MiniProjects/Robot2DOF/gcode\<close>: \<open>GCodeCommand.h\<close>, \<open>GCodeParser.cpp\<close>, \<open>GCodeExecutor.cpp\<close>.  A
  machine is the arm, the static \<open>absoluteMode\<close> and the number of times the atomic \<open>flag_impl\<close> has been read;
  what each read returns is a parameter, since other threads write the flag.  \<open>atof\<close> is a parameter; sleeping
  and printing are left out.  \<open>None\<close> stands for a loop that does not end and for the conversion of a number to
  an \<open>int\<close> it does not fit.
\<close>

subsection \<open>The parser\<close>

record gcode =
  g_type :: string
  g_x :: real
  g_y :: real
  g_f :: real
  g_i :: real
  g_j :: real
  feedrate :: real
  dwellTime :: real
  hasX :: bool
  hasY :: bool

definition new_gcode :: "string \<Rightarrow> gcode" where
  "new_gcode t = \<lparr>g_type = t, g_x = 0, g_y = 0, g_f = 1, g_i = 0, g_j = 0, feedrate = 100, dwellTime = 0, hasX = True, hasY = True\<rparr>"

definition is_space :: "char \<Rightarrow> bool" where
  "is_space c \<longleftrightarrow> c \<in> {CHR '' '', CHR 9, CHR 10, CHR 11, CHR 12, CHR 13}"

text \<open>\<open>iss >> token\<close> on the rest of a stream.\<close>

definition next_token :: "string \<Rightarrow> (string \<times> string) option" where
  "next_token s = (let s = dropWhile is_space s in
     if s = [] then None else Some (takeWhile (\<lambda>c. \<not> is_space c) s, dropWhile (\<lambda>c. \<not> is_space c) s))"

lemma next_token_shorter: "next_token s = Some (t, r) \<Longrightarrow> length r < length s"
proof -
  assume a: "next_token s = Some (t, r)"
  let ?s = "dropWhile is_space s"
  have "?s \<noteq> []" "r = dropWhile (\<lambda>c. \<not> is_space c) ?s"
    using a by (auto simp: next_token_def Let_def split: if_splits)
  moreover have "\<not> is_space (hd ?s)" if "?s \<noteq> []"
    using that hd_dropWhile by blast
  moreover have "length ?s \<le> length s"
    by (rule length_dropWhile_le)
  ultimately show "length r < length s"
    using length_dropWhile_le [of "\<lambda>c. \<not> is_space c" "tl ?s"] by (cases ?s) auto
qed

function tokens :: "string \<Rightarrow> string list" where
  "tokens s = (case next_token s of None \<Rightarrow> [] | Some (t, r) \<Rightarrow> t # tokens r)"
  by pat_completeness auto
termination
  by (relation "measure length") (auto dest: next_token_shorter)

definition set_param :: "(string \<Rightarrow> real) \<Rightarrow> string \<Rightarrow> gcode \<Rightarrow> gcode" where
  "set_param atof token cmd =
     (if length token < 2 then cmd
      else let c = hd token; val = atof (tl token)
           in if c = CHR ''X'' then cmd\<lparr>g_x := val\<rparr>
              else if c = CHR ''Y'' then cmd\<lparr>g_y := val\<rparr>
              else if c = CHR ''I'' then cmd\<lparr>g_i := val\<rparr>
              else if c = CHR ''J'' then cmd\<lparr>g_j := val\<rparr>
              else if c = CHR ''F'' then cmd\<lparr>feedrate := val\<rparr>
              else if c = CHR ''P'' then cmd\<lparr>dwellTime := val\<rparr>
              else cmd)"

definition starts_comment :: "char \<Rightarrow> bool" where
  "starts_comment c \<longleftrightarrow> c = CHR '';'' \<or> c = CHR ''(''"

definition parse_command :: "(string \<Rightarrow> real) \<Rightarrow> string \<Rightarrow> gcode option" where
  "parse_command atof line =
     (if line = [] then None
      else let line = takeWhile (\<lambda>c. \<not> starts_comment c) line
           in case tokens line of [] \<Rightarrow> None | token # params \<Rightarrow> Some (fold (set_param atof) params (new_gcode token)))"

definition gcode_Parse :: "(string \<Rightarrow> real) \<Rightarrow> string option \<Rightarrow> gcode list" where
  "gcode_Parse atof contents =
     (case contents of None \<Rightarrow> [] | Some s \<Rightarrow> List.map_filter (parse_command atof) (getlines s))"

subsection \<open>The executor\<close>

record machine =
  robot :: arm
  absoluteMode :: bool
  loads :: nat

text \<open>\<open>flag_impl.load()\<close>, and the loops over way points, which all begin with it.\<close>

definition load_flag :: "machine \<Rightarrow> machine" where
  "load_flag m = m\<lparr>loads := Suc (loads m)\<rparr>"

fun follow :: "(nat \<Rightarrow> u8) \<Rightarrow> (real \<times> real) list \<Rightarrow> machine \<Rightarrow> machine" where
  "follow flag [] m = m"
| "follow flag ((nx, ny) # points) m =
     (if flag (loads m) \<noteq> 1 then load_flag m
      else follow flag points ((load_flag m)\<lparr>robot := MoveTo (robot m) nx ny\<rparr>))"

definition to_int :: "real \<Rightarrow> int option" where
  "to_int v = (let n = (if v < 0 then \<lceil>v\<rceil> else \<lfloor>v\<rfloor>) in if - (2 ^ 31) \<le> n \<and> n < 2 ^ 31 then Some n else None)"

text \<open>\<open>std::max(1, (int)(length / (feedrate * dt)))\<close>.\<close>

definition step_count :: "real \<Rightarrow> real \<Rightarrow> real \<Rightarrow> int option" where
  "step_count len rate dt = (if rate * dt = 0 then None else map_option (max 1) (to_int (len / (rate * dt))))"

definition moveLinear :: "(nat \<Rightarrow> u8) \<Rightarrow> real \<Rightarrow> real \<Rightarrow> real \<Rightarrow> real \<Rightarrow> machine \<Rightarrow> machine option" where
  "moveLinear flag targetX targetY rate dt m =
     (let x0 = mx (robot m); y0 = my (robot m);
          targetX = targetX / 100; targetY = targetY / 100; rate = rate / 100;
          dx = targetX - x0; dy = targetY - y0;
          dist = sqrt (dx * dx + dy * dy)
      in if dist < 1 / 10 ^ 8 then Some m
         else case step_count dist rate dt of
           None \<Rightarrow> None
         | Some steps \<Rightarrow> Some (follow flag
             (map (\<lambda>i. let ratio = of_int i / of_int steps in (x0 + ratio * dx, y0 + ratio * dy)) [1..steps]) m))"

text \<open>The loop of \<open>moveLinearSmooth\<close>, which moves the arm towards the target with a speed of at most \<open>vMax\<close>.\<close>

definition smooth_speed :: "real \<Rightarrow> real \<Rightarrow> real \<Rightarrow> real \<Rightarrow> real" where
  "smooth_speed vMax dt remain v =
     (let v = v + 400 * dt;
          v = (if v > vMax then vMax else v);
          stopDist = v * v / (2 * 400)
      in if stopDist \<ge> remain then let v = v - 400 * dt in if v < 0 then 0 else v else v)"

definition track_to :: "arm \<Rightarrow> real \<Rightarrow> real \<Rightarrow> arm" where
  "track_to r cx cy = UpdatePosition (case inverseKinematics r cx cy of [] \<Rightarrow> r | sol # _ \<Rightarrow> r\<lparr>theta1 := fst sol, theta2 := snd sol\<rparr>)"

partial_function (option) smooth_loop :: "real \<Rightarrow> real \<Rightarrow> real \<Rightarrow> real \<Rightarrow> real \<Rightarrow> arm \<Rightarrow> real \<Rightarrow> real \<Rightarrow> real \<Rightarrow> real \<Rightarrow> arm option" where
  "smooth_loop dirX dirY vMax len dt r cx cy v traveled =
     (if traveled < len then
        let remain = len - traveled;
            v = smooth_speed vMax dt remain v;
            step = (if v * dt > remain then remain else v * dt);
            cx = cx + dirX * step; cy = cy + dirY * step
        in smooth_loop dirX dirY vMax len dt (track_to r cx cy) cx cy v (traveled + step)
      else Some r)"

definition moveLinearSmooth :: "real \<Rightarrow> real \<Rightarrow> real \<Rightarrow> real \<Rightarrow> machine \<Rightarrow> machine option" where
  "moveLinearSmooth tx ty rate dt m =
     (let cx = mx (robot m); cy = my (robot m);
          tx = tx / 100; ty = ty / 100;
          dx = tx - cx; dy = ty - cy;
          dist = sqrt (dx * dx + dy * dy)
      in if dist < 1 / 1000 then Some m
         else case smooth_loop (dx / dist) (dy / dist) (rate / 160) dist dt (robot m) cx cy 0 0 of
           None \<Rightarrow> None
         | Some r \<Rightarrow> Some (m\<lparr>robot := MoveTo r tx ty\<rparr>))"

text \<open>The way points of an arc around \<open>(cx, cy)\<close>.\<close>

definition arc_points :: "real \<Rightarrow> real \<Rightarrow> real \<Rightarrow> real \<Rightarrow> real \<Rightarrow> int \<Rightarrow> (real \<times> real) list" where
  "arc_points cx cy r startAngle endAngle steps =
     map (\<lambda>i. let theta = startAngle + (endAngle - startAngle) * (of_int i / of_int steps)
       in (cx + r * cos theta, cy + r * sin theta)) [1..steps]"

definition moveArcCW :: "(nat \<Rightarrow> u8) \<Rightarrow> real \<Rightarrow> real \<Rightarrow> real \<Rightarrow> real \<Rightarrow> real \<Rightarrow> real \<Rightarrow> machine \<Rightarrow> machine option" where
  "moveArcCW flag cx cy tx ty rate dt m =
     (let x0 = mx (robot m); y0 = my (robot m);
          cx = cx / 100; cy = cy / 100; tx = tx / 100; ty = ty / 100; rate = rate / 100;
          r = sqrt ((x0 - cx) * (x0 - cx) + (y0 - cy) * (y0 - cy));
          startAngle = atan2 (y0 - cy) (x0 - cx);
          endAngle = atan2 (ty - cy) (tx - cx);
          endAngle = (if \<bar>endAngle - startAngle\<bar> \<le> 1 / 10 ^ 8 then endAngle - 2 * pi else endAngle);
          arcLength = r * \<bar>endAngle - startAngle\<bar>
      in case step_count arcLength rate dt of
           None \<Rightarrow> None
         | Some steps \<Rightarrow> Some (follow flag (arc_points cx cy r startAngle endAngle steps) m))"

definition moveArcCCW :: "(nat \<Rightarrow> u8) \<Rightarrow> real \<Rightarrow> real \<Rightarrow> real \<Rightarrow> real \<Rightarrow> real \<Rightarrow> real \<Rightarrow> machine \<Rightarrow> machine option" where
  "moveArcCCW flag cx cy tx ty rate dt m =
     (let x0 = mx (robot m); y0 = my (robot m);
          cx = cx / 100; cy = cy / 100; tx = tx / 100; ty = ty / 100; rate = rate / 100;
          r = sqrt ((x0 - cx) * (x0 - cx) + (y0 - cy) * (y0 - cy));
          startAngle = atan2 (y0 - cy) (x0 - cx);
          endAngle = atan2 (ty - cy) (tx - cx);
          endAngle = (if \<bar>endAngle - startAngle\<bar> < 1 / 10 ^ 8 then endAngle + 2 * pi else endAngle);
          arcLength = r * (endAngle - startAngle)
      in case step_count arcLength rate dt of
           None \<Rightarrow> None
         | Some steps \<Rightarrow> Some (follow flag (arc_points cx cy r startAngle endAngle steps) m))"

text \<open>\<open>dwell\<close> reads the flag up to a hundred times.\<close>

fun dwell_loop :: "(nat \<Rightarrow> u8) \<Rightarrow> nat \<Rightarrow> machine \<Rightarrow> machine" where
  "dwell_loop flag 0 m = m"
| "dwell_loop flag (Suc n) m = (if flag (loads m) \<noteq> 1 then load_flag m else dwell_loop flag n (load_flag m))"

definition dwell :: "(nat \<Rightarrow> u8) \<Rightarrow> machine \<Rightarrow> machine" where
  "dwell flag m = dwell_loop flag 100 m"

text \<open>Where a command leads, in the units of the program.\<close>

definition target_of :: "gcode \<Rightarrow> machine \<Rightarrow> real \<times> real" where
  "target_of cmd m =
     (if absoluteMode m then (g_x cmd + offsetX (robot m) * 100, g_y cmd + offsetY (robot m) * 100)
      else (g_x cmd + mx (robot m) * 100, g_y cmd + my (robot m) * 100))"

definition HOME_X :: real where
  "HOME_X = - 100"

definition HOME_Y :: real where
  "HOME_Y = 0"

text \<open>One command; the truth value says whether the loop over the program goes on.\<close>

definition exec_command :: "(nat \<Rightarrow> u8) \<Rightarrow> real \<Rightarrow> gcode \<Rightarrow> machine \<Rightarrow> (bool \<times> machine) option" where
  "exec_command flag dt cmd m =
     (let go = map_option (Pair True) in
      if g_type cmd = ''G0'' \<or> g_type cmd = ''G1'' then
        let (tx, ty) = target_of cmd m in go (moveLinearSmooth tx ty (feedrate cmd) dt m)
      else if g_type cmd = ''G2'' \<or> g_type cmd = ''G3'' then
        let (tx, ty) = target_of cmd m;
            cx = mx (robot m) * 100 + g_i cmd; cy = my (robot m) * 100 + g_j cmd
        in go (if g_type cmd = ''G2'' then moveArcCW flag cx cy tx ty (feedrate cmd) dt m
               else moveArcCCW flag cx cy tx ty (feedrate cmd) dt m)
      else if g_type cmd = ''G4'' then go (Some (dwell flag m))
      else if g_type cmd = ''G28'' then
        go (moveLinear flag HOME_X HOME_Y (if feedrate cmd > 0 then feedrate cmd else 10) dt m)
      else if g_type cmd = ''G90'' then go (Some (m\<lparr>absoluteMode := True\<rparr>))
      else if g_type cmd = ''G91'' then go (Some (m\<lparr>absoluteMode := False\<rparr>))
      else if g_type cmd = ''G92'' then
        let wx = (if hasX cmd then g_x cmd else GetCurrentX_Work (robot m));
            wy = (if hasY cmd then g_y cmd else GetCurrentY_Work (robot m))
        in go (Some (m\<lparr>robot := SetWorkOffset (robot m) wx wy\<rparr>))
      else Some (False, m))"

fun ExecuteGCodeStep :: "(nat \<Rightarrow> u8) \<Rightarrow> real \<Rightarrow> gcode list \<Rightarrow> machine \<Rightarrow> machine option" where
  "ExecuteGCodeStep flag dt [] m = Some m"
| "ExecuteGCodeStep flag dt (cmd # cmds) m =
     (if flag (loads m) \<noteq> 1 then Some (load_flag m)
      else case exec_command flag dt cmd (load_flag m) of
        None \<Rightarrow> None
      | Some (go_on, m) \<Rightarrow> if go_on then ExecuteGCodeStep flag dt cmds m else Some m)"

subsection \<open>The arm stays consistent\<close>

definition arm_ok :: "arm \<Rightarrow> bool" where
  "arm_ok r \<longleftrightarrow> consistent r \<and> (\<forall>(px, py)\<in>set (pathPoints r). px * px + py * py \<le> (l1 r + l2 r)\<^sup>2)"

definition same_links :: "arm \<Rightarrow> arm \<Rightarrow> bool" where
  "same_links r r' \<longleftrightarrow> l1 r' = l1 r \<and> l2 r' = l2 r \<and> offsetX r' = offsetX r \<and> offsetY r' = offsetY r"

lemma same_links_refl [simp]: "same_links r r"
  by (simp add: same_links_def)

lemma same_links_trans: "same_links r s \<Longrightarrow> same_links s t \<Longrightarrow> same_links r t"
  by (simp add: same_links_def)

lemma same_links_proper: "same_links r r' \<Longrightarrow> proper r' = proper r"
  by (simp add: same_links_def proper_def)

lemma effector_disc: "proper r \<Longrightarrow> endEffector r a b = (x, y) \<Longrightarrow> x * x + y * y \<le> (l1 r + l2 r)\<^sup>2"
proof -
  assume p: "proper r" and "endEffector r a b = (x, y)"
  then have "x\<^sup>2 + y\<^sup>2 = (cmod (reach r a b))\<^sup>2"
    by (simp add: endEffector_iff cmod_power2)
  moreover have "cmod (reach r a b) \<le> l1 r + l2 r"
    using p norm_triangle_ineq [of "complex_of_real (l1 r)" "of_real (l2 r) * cis b"]
    by (simp add: reach_def norm_mult proper_def)
  ultimately show ?thesis
    using power_mono [of "cmod (reach r a b)" "l1 r + l2 r" 2] by (simp add: power2_eq_square)
qed

lemma arm_ok_update:
  assumes "proper r" "\<forall>(px, py)\<in>set (pathPoints r). px * px + py * py \<le> (l1 r + l2 r)\<^sup>2"
  shows "arm_ok (UpdatePosition r)"
  using assms effector_disc [OF assms(1), of "theta1 r" "theta2 r"]
  by (auto simp: arm_ok_def consistent_def at_hand_def UpdatePosition_def Let_def endEffector_def proper_def)

lemma same_links_update: "same_links r (UpdatePosition (r\<lparr>theta1 := a, theta2 := b\<rparr>))" "same_links r (UpdatePosition r)"
  by (simp_all add: same_links_def UpdatePosition_def Let_def)

lemma same_links_MoveTo: "proper r \<Longrightarrow> same_links r (MoveTo r x y)"
  using MoveTo_hand [of r x y] MoveTo_refused [of r x y] by (cases "reachable r x y") (simp_all add: same_links_def)

lemma arm_ok_MoveTo: "arm_ok r \<Longrightarrow> arm_ok (MoveTo r x y)"
proof -
  assume ok: "arm_ok r"
  then have p: "proper r"
    by (simp add: arm_ok_def consistent_def)
  show ?thesis
  proof (cases "reachable r x y")
    case True
    then show ?thesis
      unfolding MoveTo_sol [OF p True] using ok p by (intro arm_ok_update) (auto simp: arm_ok_def proper_def)
  qed (use ok MoveTo_refused in simp)
qed

lemma arm_ok_angles: "arm_ok r \<Longrightarrow> arm_ok (UpdatePosition (r\<lparr>theta1 := a, theta2 := b\<rparr>))" "arm_ok r \<Longrightarrow> arm_ok (UpdatePosition r)"
  by (rule arm_ok_update; simp add: arm_ok_def consistent_def proper_def)+

lemma track_to_ok: "arm_ok r \<Longrightarrow> arm_ok (track_to r cx cy)"
  by (simp add: track_to_def arm_ok_angles split: list.split)

lemma same_links_track_to: "same_links r (track_to r cx cy)"
  by (simp add: track_to_def same_links_update split: list.split)

lemma smooth_loop_ok: "smooth_loop dirX dirY vMax len dt r cx cy v traveled = Some r' \<Longrightarrow> (arm_ok r \<longrightarrow> arm_ok r') \<and> same_links r r'"
proof (rule smooth_loop.raw_induct [where P = "\<lambda>_ _ _ _ _ r _ _ _ _ r'. (arm_ok r \<longrightarrow> arm_ok r') \<and> same_links r r'"])
  fix f dirX dirY vMax len dt r cx cy v traveled r'
  assume IH: "\<And>dirX dirY vMax len dt r cx cy v traveled r'. f dirX dirY vMax len dt r cx cy v traveled = Some r' \<Longrightarrow>
      (arm_ok r \<longrightarrow> arm_ok r') \<and> same_links r r'"
    and step: "(if traveled < len then
        let remain = len - traveled; v = smooth_speed vMax dt remain v; step = if remain < v * dt then remain else v * dt;
            cx = cx + dirX * step; cy = cy + dirY * step
        in f dirX dirY vMax len dt (track_to r cx cy) cx cy v (traveled + step) else Some r) = Some r'"
  show "(arm_ok r \<longrightarrow> arm_ok r') \<and> same_links r r'"
  proof (cases "traveled < len")
    case True
    let ?v = "smooth_speed vMax dt (len - traveled) v"
    let ?step = "if len - traveled < ?v * dt then len - traveled else ?v * dt"
    have "(arm_ok (track_to r (cx + dirX * ?step) (cy + dirY * ?step)) \<longrightarrow> arm_ok r') \<and>
        same_links (track_to r (cx + dirX * ?step) (cy + dirY * ?step)) r'"
      using step True unfolding Let_def by (intro IH) simp
    then show ?thesis
      using track_to_ok same_links_trans [OF same_links_track_to] by blast
  qed (use step in simp)
qed

lemma follow_ok: "arm_ok (robot m) \<Longrightarrow> arm_ok (robot (follow flag ps m)) \<and> same_links (robot m) (robot (follow flag ps m))"
proof (induction flag ps m rule: follow.induct)
  case (2 flag nx ny points m)
  have "proper (robot m)"
    using 2(2) by (simp add: arm_ok_def consistent_def)
  then show ?case
    using 2 arm_ok_MoveTo same_links_MoveTo same_links_trans by (auto simp: load_flag_def) blast
qed simp

lemma dwell_robot [simp]: "robot (dwell_loop flag n m) = robot m"
  by (induction flag n m rule: dwell_loop.induct) (simp_all add: load_flag_def)

lemma arm_ok_proper: "arm_ok r \<Longrightarrow> proper r"
  by (simp add: arm_ok_def consistent_def)

lemma moves_ok:
  assumes "arm_ok (robot m)"
  shows "moveLinear flag x y rate dt m = Some m' \<Longrightarrow> arm_ok (robot m')"
    and "moveArcCW flag cx cy x y rate dt m = Some m' \<Longrightarrow> arm_ok (robot m')"
    and "moveArcCCW flag cx cy x y rate dt m = Some m' \<Longrightarrow> arm_ok (robot m')"
    and "moveLinearSmooth x y rate dt m = Some m' \<Longrightarrow> arm_ok (robot m')"
proof -
  show "moveLinear flag x y rate dt m = Some m' \<Longrightarrow> arm_ok (robot m')"
    unfolding moveLinear_def Let_def using assms follow_ok [OF assms] by (auto split: if_splits option.splits)
  show "moveArcCW flag cx cy x y rate dt m = Some m' \<Longrightarrow> arm_ok (robot m')"
    unfolding moveArcCW_def Let_def using follow_ok [OF assms] by (auto split: option.splits)
  show "moveArcCCW flag cx cy x y rate dt m = Some m' \<Longrightarrow> arm_ok (robot m')"
    unfolding moveArcCCW_def Let_def using follow_ok [OF assms] by (auto split: option.splits)
  show "moveLinearSmooth x y rate dt m = Some m' \<Longrightarrow> arm_ok (robot m')"
    unfolding moveLinearSmooth_def Let_def using assms arm_ok_MoveTo
    by (auto split: if_splits option.splits dest: smooth_loop_ok)
qed

lemma arm_ok_offset: "arm_ok r \<Longrightarrow> arm_ok (SetWorkOffset r wx wy)"
  by (simp add: arm_ok_def consistent_def proper_def SetWorkOffset_def at_hand_def endEffector_def)

lemma exec_command_ok:
  assumes "exec_command flag dt cmd m = Some (b, m')" "arm_ok (robot m)"
  shows "arm_ok (robot m')"
  using assms unfolding exec_command_def Let_def dwell_def
  by (auto split: if_splits prod.splits intro: moves_ok [OF assms(2)] arm_ok_offset)

lemma execute_ok: "ExecuteGCodeStep flag dt cmds m = Some m' \<Longrightarrow> arm_ok (robot m) \<Longrightarrow> arm_ok (robot m')"
proof (induction flag dt cmds m rule: ExecuteGCodeStep.induct)
  case (2 flag dt cmd cmds m)
  show ?case
  proof (cases "flag (loads m) = 1")
    case True
    then obtain b m1 where m1: "exec_command flag dt cmd (load_flag m) = Some (b, m1)"
        "(if b then ExecuteGCodeStep flag dt cmds m1 else Some m1) = Some m'"
      using 2(2) by (auto split: option.splits)
    have "arm_ok (robot m1)"
      using exec_command_ok [OF m1(1)] 2(3) by (simp add: load_flag_def)
    then show ?thesis
      using 2(1) True m1 by (auto split: if_splits)
  qed (use 2(2,3) in \<open>auto simp: load_flag_def\<close>)
qed simp

subsection \<open>Straight moves\<close>

lemma follow_last:
  assumes "\<And>n. flag n = 1" "proper (robot m)" "reachable (robot m) x y"
  shows "at_hand (robot (follow flag (ps @ [(x, y)]) m)) = (x, y)"
  using assms(2,3)
proof (induction ps arbitrary: m)
  case (Cons p ps)
  obtain px py where p: "p = (px, py)"
    by fastforce
  have "same_links (robot m) (MoveTo (robot m) px py)"
    using Cons.prems by (intro same_links_MoveTo)
  then show ?case
    using Cons by (simp add: assms(1) p load_flag_def same_links_def proper_def reachable_def)
qed (simp add: assms(1) load_flag_def MoveTo_hand)

lemma upto_last: "1 \<le> n \<Longrightarrow> [1..n] = [1..n - 1] @ [n :: int]"
  by (simp add: upto_rec2)

lemma step_count_pos: "step_count len rate dt = Some n \<Longrightarrow> 1 \<le> n"
  by (auto simp: step_count_def split: if_splits)

subsection \<open>The speed loop\<close>

lemma speed_capped:
  assumes "0 \<le> v" "0 < vMax" "vMax \<le> 400 * dt"
  shows "smooth_speed vMax dt remain v = (if remain \<le> vMax * vMax / 800 then 0 else vMax)"
  using assms by (auto simp: smooth_speed_def Let_def)

lemma stop_shorter: "0 < (vMax :: real) \<Longrightarrow> vMax \<le> 400 * dt \<Longrightarrow> vMax * vMax / 800 < vMax * dt"
  using mult_left_mono [of vMax "400 * dt" vMax] mult_pos_pos [of vMax dt] by simp

lemma smooth_loop_stuck:
  assumes "0 \<le> v" "0 < vMax" "vMax \<le> 400 * dt" "traveled < len" "len - traveled \<le> vMax * vMax / 800"
  shows "smooth_loop dirX dirY vMax len dt r cx cy v traveled = None"
proof (rule ccontr)
  assume "smooth_loop dirX dirY vMax len dt r cx cy v traveled \<noteq> None"
  then obtain r' where "smooth_loop dirX dirY vMax len dt r cx cy v traveled = Some r'"
    by blast
  then have "\<not> (0 \<le> v \<and> 0 < vMax \<and> vMax \<le> 400 * dt \<and> traveled < len \<and> len - traveled \<le> vMax * vMax / 800)"
  proof (rule smooth_loop.raw_induct [where P = "\<lambda>_ _ vMax len dt _ _ _ v traveled _.
      \<not> (0 \<le> v \<and> 0 < vMax \<and> vMax \<le> 400 * dt \<and> traveled < len \<and> len - traveled \<le> vMax * vMax / 800)", rotated], intro notI)
    fix f dirX dirY vMax len dt r cx cy v traveled r'
    assume IH: "\<And>dirX dirY vMax len dt r cx cy v traveled r'. f dirX dirY vMax len dt r cx cy v traveled = Some r' \<Longrightarrow>
        \<not> (0 \<le> v \<and> 0 < vMax \<and> vMax \<le> 400 * dt \<and> traveled < len \<and> len - traveled \<le> vMax * vMax / 800)"
      and step: "(if traveled < len then
        let remain = len - traveled; v = smooth_speed vMax dt remain v; step = if remain < v * dt then remain else v * dt;
            cx = cx + dirX * step; cy = cy + dirY * step
        in f dirX dirY vMax len dt (track_to r cx cy) cx cy v (traveled + step) else Some r) = Some r'"
      and stuck: "0 \<le> v \<and> 0 < vMax \<and> vMax \<le> 400 * dt \<and> traveled < len \<and> len - traveled \<le> vMax * vMax / 800"
    have "smooth_speed vMax dt (len - traveled) v = 0"
      using stuck by (simp add: speed_capped)
    then have "f dirX dirY vMax len dt (track_to r cx cy) cx cy 0 traveled = Some r'"
      using step stuck by (simp add: Let_def)
    then show False
      using IH stuck by blast
  qed
  then show False
    using assms by simp
qed

lemma smooth_loop_step:
  assumes "0 \<le> v" "0 < vMax" "vMax \<le> 400 * dt" "vMax * vMax / 800 < len - traveled"
  shows "\<exists>r' cx' cy'. same_links r r' \<and> smooth_loop dirX dirY vMax len dt r cx cy v traveled =
    smooth_loop dirX dirY vMax len dt r' cx' cy' vMax (traveled + min (vMax * dt) (len - traveled))"
proof -
  let ?step = "min (vMax * dt) (len - traveled)"
  have "0 \<le> vMax * vMax / 800"
    by simp
  then have "traveled < len"
    using assms(4) by linarith
  moreover have "(if len - traveled < vMax * dt then len - traveled else vMax * dt) = ?step"
    by (simp add: min_def)
  ultimately have "smooth_loop dirX dirY vMax len dt r cx cy v traveled =
      smooth_loop dirX dirY vMax len dt (track_to r (cx + dirX * ?step) (cy + dirY * ?step)) (cx + dirX * ?step) (cy + dirY * ?step) vMax (traveled + ?step)"
    using assms speed_capped [of v vMax dt "len - traveled"] by (subst smooth_loop.simps) (simp add: Let_def)
  then show ?thesis
    using same_links_track_to by blast
qed

lemma smooth_loop_gets_stuck:
  assumes "0 \<le> v" "0 < vMax" "vMax \<le> 400 * dt" "0 < len - traveled - of_nat n * (vMax * dt)" "len - traveled - of_nat n * (vMax * dt) \<le> vMax * vMax / 800"
  shows "smooth_loop dirX dirY vMax len dt r cx cy v traveled = None"
  using assms
proof (induction n arbitrary: r cx cy v traveled)
  case 0
  then show ?case
    by (intro smooth_loop_stuck) simp_all
next
  case (Suc n)
  have pos: "0 < vMax * dt" "0 \<le> of_nat n * (vMax * dt)"
    using Suc.prems(2,3) by simp_all
  have far: "vMax * dt < len - traveled"
    using Suc.prems(4) pos by (simp add: algebra_simps)
  then have "vMax * vMax / 800 < len - traveled"
    using stop_shorter [OF Suc.prems(2,3)] by linarith
  then obtain r' cx' cy' where "smooth_loop dirX dirY vMax len dt r cx cy v traveled =
      smooth_loop dirX dirY vMax len dt r' cx' cy' vMax (traveled + min (vMax * dt) (len - traveled))"
    using smooth_loop_step [OF Suc.prems(1-3)] by blast
  also have "\<dots> = None"
    using Suc.prems far by (intro Suc.IH) (simp_all add: algebra_simps min_def)
  finally show ?case .
qed

lemma smooth_loop_ends:
  assumes "0 \<le> v" "0 < vMax" "vMax \<le> 400 * dt" "len - traveled \<le> of_nat k * (vMax * dt)"
    "\<And>n. \<not> (0 < len - traveled - of_nat n * (vMax * dt) \<and> len - traveled - of_nat n * (vMax * dt) \<le> vMax * vMax / 800)"
  shows "\<exists>r'. smooth_loop dirX dirY vMax len dt r cx cy v traveled = Some r'"
  using assms
proof (induction k arbitrary: r cx cy v traveled)
  case 0
  then show ?case
    by (subst smooth_loop.simps) simp
next
  case (Suc k)
  show ?case
  proof (cases "traveled < len")
    case True
    then have far: "vMax * vMax / 800 < len - traveled"
      using Suc.prems(5) [of 0] by simp
    then obtain r' cx' cy' where step: "smooth_loop dirX dirY vMax len dt r cx cy v traveled =
        smooth_loop dirX dirY vMax len dt r' cx' cy' vMax (traveled + min (vMax * dt) (len - traveled))"
      using smooth_loop_step [OF Suc.prems(1-3)] by blast
    show ?thesis
    proof (cases "vMax * dt < len - traveled")
      case True
      have "\<exists>r''. smooth_loop dirX dirY vMax len dt r' cx' cy' vMax (traveled + vMax * dt) = Some r''"
      proof (rule Suc.IH)
        show "\<not> (0 < len - (traveled + vMax * dt) - of_nat n * (vMax * dt) \<and>
            len - (traveled + vMax * dt) - of_nat n * (vMax * dt) \<le> vMax * vMax / 800)" for n
          using Suc.prems(5) [of "Suc n"] by (simp add: algebra_simps)
      qed (use Suc.prems(1-4) in \<open>simp_all add: algebra_simps\<close>)
      then show ?thesis
        using step True by (simp add: min_def)
    next
      case False
      then show ?thesis
        using step by (subst (asm) (2) smooth_loop.simps) (simp add: min_def)
    qed
  qed (subst smooth_loop.simps, simp)
qed

subsection \<open>Tokens\<close>

declare tokens.simps [simp del]

definition plain_token :: "string \<Rightarrow> bool" where
  "plain_token s \<longleftrightarrow> s \<noteq> [] \<and> (\<forall>c\<in>set s. \<not> is_space c \<and> \<not> starts_comment c)"

lemma plain_split:
  assumes "plain_token t"
  shows "dropWhile is_space (t @ s) = t @ s" "takeWhile (\<lambda>c. \<not> is_space c) (t @ CHR '' '' # s) = t"
    "dropWhile (\<lambda>c. \<not> is_space c) (t @ CHR '' '' # s) = CHR '' '' # s"
proof -
  show "dropWhile is_space (t @ s) = t @ s"
    using assms by (cases t) (auto simp: plain_token_def)
  have "\<forall>c\<in>set t. \<not> is_space c" "is_space CHR '' ''"
    using assms by (auto simp: plain_token_def is_space_def)
  then show "takeWhile (\<lambda>c. \<not> is_space c) (t @ CHR '' '' # s) = t" "dropWhile (\<lambda>c. \<not> is_space c) (t @ CHR '' '' # s) = CHR '' '' # s"
    by (simp_all add: takeWhile_append2 dropWhile_append2)
qed

lemma tokens_blank: "tokens (CHR '' '' # s) = tokens s"
  by (subst (1 2) tokens.simps) (simp add: next_token_def is_space_def)

lemma tokens_cons:
  assumes "plain_token t"
  shows "tokens (t @ CHR '' '' # s) = t # tokens s"
proof -
  have "next_token (t @ CHR '' '' # s) = Some (t, CHR '' '' # s)"
    using assms plain_split [OF assms] by (simp add: next_token_def Let_def plain_token_def)
  then show ?thesis
    by (subst tokens.simps) (simp add: tokens_blank)
qed

lemma tokens_last:
  assumes "plain_token t"
  shows "tokens t = [t]"
proof -
  have "takeWhile (\<lambda>c. \<not> is_space c) t = t" "dropWhile (\<lambda>c. \<not> is_space c) t = []"
    using assms by (auto simp: plain_token_def takeWhile_eq_all_conv dropWhile_eq_Nil_conv)
  then have "next_token t = Some (t, [])"
    using assms plain_split(1) [OF assms, of "[]"] by (simp add: next_token_def plain_token_def)
  moreover have "tokens [] = []"
    by (subst tokens.simps) (simp add: next_token_def)
  ultimately show ?thesis
    by (subst tokens.simps) simp
qed

definition print_params :: "(real \<Rightarrow> string) \<Rightarrow> (char \<times> real) list \<Rightarrow> string" where
  "print_params shw kvs = concat (map (\<lambda>(k, v). CHR '' '' # k # shw v) kvs)"

lemma tokens_params:
  assumes "plain_token t" "\<forall>(k, v)\<in>set kvs. plain_token (k # shw v)"
  shows "tokens (t @ print_params shw kvs) = t # map (\<lambda>(k, v). k # shw v) kvs"
  using assms
proof (induction kvs arbitrary: t)
  case (Cons p kvs)
  obtain k v where p: "p = (k, v)"
    by fastforce
  then show ?case
    using tokens_cons [OF Cons.prems(1)] Cons.IH [of "k # shw v"] Cons.prems(2) by (simp add: print_params_def)
qed (simp add: print_params_def tokens_last)

definition params_of :: "gcode \<Rightarrow> (char \<times> real) list" where
  "params_of c = [(CHR ''X'', g_x c), (CHR ''Y'', g_y c), (CHR ''I'', g_i c), (CHR ''J'', g_j c), (CHR ''F'', feedrate c), (CHR ''P'', dwellTime c)]"

definition print_command :: "(real \<Rightarrow> string) \<Rightarrow> gcode \<Rightarrow> string" where
  "print_command shw c = g_type c @ print_params shw (params_of c)"

definition printable :: "(string \<Rightarrow> real) \<Rightarrow> (real \<Rightarrow> string) \<Rightarrow> gcode \<Rightarrow> bool" where
  "printable atof shw c \<longleftrightarrow> plain_token (g_type c) \<and> g_f c = 1 \<and> hasX c \<and> hasY c \<and>
     (\<forall>v\<in>snd ` set (params_of c). plain_token (shw v) \<and> atof (shw v) = v)"

definition comment :: "string \<Rightarrow> bool" where
  "comment s \<longleftrightarrow> newline \<notin> set s \<and> (s = [] \<or> starts_comment (hd s))"

lemma printed_chars:
  assumes "printable atof shw c" "x \<in> set (print_command shw c)"
  shows "\<not> starts_comment x \<and> x \<noteq> newline"
proof -
  have "\<not> starts_comment x \<and> x \<noteq> newline" if "plain_token t" "x \<in> set t" for t
    using that by (auto simp: plain_token_def is_space_def)
  then show ?thesis
    using assms by (auto simp: printable_def print_command_def print_params_def params_of_def starts_comment_def)
qed

lemma params_plain:
  assumes "printable atof shw c"
  shows "\<forall>(k, v)\<in>set (params_of c). plain_token (k # shw v)"
proof -
  have "plain_token (k # t)" if "plain_token t" "k \<in> set ''XYIJFP''" for k t
    using that by (auto simp: plain_token_def is_space_def starts_comment_def)
  then show ?thesis
    using assms by (simp add: printable_def params_of_def)
qed

lemma parse_printed:
  assumes "printable atof shw c" "comment s"
  shows "parse_command atof (print_command shw c @ s) = Some c"
proof -
  have "takeWhile (\<lambda>x. \<not> starts_comment x) (print_command shw c @ s) = print_command shw c"
    using printed_chars [OF assms(1)] assms(2) by (cases s) (auto simp: comment_def takeWhile_append2 takeWhile_eq_all_conv)
  moreover have "tokens (print_command shw c) = g_type c # map (\<lambda>(k, v). k # shw v) (params_of c)"
    unfolding print_command_def using assms(1) by (intro tokens_params params_plain [OF assms(1)]) (simp add: printable_def)
  moreover have "fold (set_param atof) (map (\<lambda>(k, v). k # shw v) (params_of c)) (new_gcode (g_type c)) = c"
  proof -
    have "\<not> length (k # shw v) < 2" if "v \<in> snd ` set (params_of c)" for k v
      using that assms(1) by (cases "shw v") (auto simp: printable_def plain_token_def)
    then show ?thesis
      using assms(1) by (simp add: params_of_def set_param_def new_gcode_def Let_def printable_def)
  qed
  moreover have "print_command shw c \<noteq> []"
    using assms(1) by (simp add: print_command_def printable_def plain_token_def)
  ultimately show ?thesis
    by (simp add: parse_command_def Let_def)
qed

subsection \<open>Properties\<close>


definition example_machine :: machine where
  "example_machine = \<lparr>robot = new_arm (1 / 2) (1 / 2) [], absoluteMode = True, loads = 0\<rparr>"

lemma example_machine_ok:
  "arm_ok (robot example_machine)" "proper (robot example_machine)" "mx (robot example_machine) = 1" "my (robot example_machine) = 0"
  "l1 (robot example_machine) = 1 / 2" "l2 (robot example_machine) = 1 / 2"
proof -
  show "arm_ok (robot example_machine)"
    unfolding example_machine_def new_arm_def machine.select_convs by (rule arm_ok_update) (simp_all add: proper_def)
qed (simp_all add: example_machine_def new_arm_def UpdatePosition_def Let_def proper_def)


text \<open>A straight move that is not interrupted brings the hand to a target within reach.\<close>
theorem linear_move_arrives:
  assumes "proper (robot m)" "reachable (robot m) (tx / 100) (ty / 100)" "\<And>n. flag n = 1"
    "d = sqrt ((tx / 100 - mx (robot m)) * (tx / 100 - mx (robot m)) + (ty / 100 - my (robot m)) * (ty / 100 - my (robot m)))"
    "1 / 10 ^ 8 \<le> d" "step_count d (rate / 100) dt = Some steps"
  shows "\<exists>m'. moveLinear flag tx ty rate dt m = Some m' \<and> at_hand (robot m') = (tx / 100, ty / 100)"
proof -
  let ?p = "\<lambda>i. let ratio = of_int i / of_int steps in
      (mx (robot m) + ratio * (tx / 100 - mx (robot m)), my (robot m) + ratio * (ty / 100 - my (robot m)))"
  have "moveLinear flag tx ty rate dt m = Some (follow flag (map ?p [1..steps]) m)"
    using assms(5,6) unfolding moveLinear_def Let_def assms(4) [symmetric] by simp
  moreover have "map ?p [1..steps] = map ?p [1..steps - 1] @ [(tx / 100, ty / 100)]"
    using step_count_pos [OF assms(6)] by (simp add: upto_last Let_def)
  ultimately show ?thesis
    using follow_last [of flag m "tx / 100" "ty / 100"] assms(1-3) by simp
qed

theorem linear_move_arrives_witness:
  "\<exists>m'. moveLinear (\<lambda>_. 1) 0 0 100 1 example_machine = Some m' \<and> at_hand (robot m') = (0, 0)"
  using linear_move_arrives [of example_machine 0 0 "\<lambda>_. 1" 1 100 1 1]
  by (simp add: example_machine_ok reachable_def step_count_def to_int_def)

text \<open>The direction of an arc is ignored: when the angle of the end point is larger than that of the start point, the
  clockwise arc is the counter-clockwise one.\<close>
theorem arcs_ignore_direction:
  assumes "1 / 10 ^ 8 < atan2 (ty / 100 - cy / 100) (tx / 100 - cx / 100) - atan2 (my (robot m) - cy / 100) (mx (robot m) - cx / 100)"
  shows "moveArcCW flag cx cy tx ty rate dt m = moveArcCCW flag cx cy tx ty rate dt m"
proof -
  have "\<not> \<bar>e - s\<bar> \<le> 1 / 10 ^ 8" "\<not> \<bar>e - s\<bar> < 1 / 10 ^ 8" "\<bar>e - s\<bar> = e - s" if "1 / 10 ^ 8 < e - s" for e s :: real
  proof -
    have "0 < e - s"
      using that by (rule less_trans [rotated]) simp
    then show "\<bar>e - s\<bar> = e - s"
      by simp
    then show "\<not> \<bar>e - s\<bar> \<le> 1 / 10 ^ 8" "\<not> \<bar>e - s\<bar> < 1 / 10 ^ 8"
      using that by simp_all
  qed
  note this [OF assms]
  then show ?thesis
    unfolding moveArcCW_def moveArcCCW_def Let_def by (simp only: if_False)
qed

theorem arcs_ignore_direction_witness:
  "moveArcCW (\<lambda>_. 1) 0 0 0 100 50 (7 / 100) example_machine = moveArcCCW (\<lambda>_. 1) 0 0 0 100 50 (7 / 100) example_machine"
proof -
  have "atan2 1 0 = pi / 2" "atan2 0 1 = 0"
    unfolding atan2_def by (rule cis_Arg_unique; simp add: complex_eq_iff sgn_div_norm cmod_def)+
  then show ?thesis
    using arcs_ignore_direction [of 100 0 0 0 example_machine] pi_ge_two by (simp add: example_machine_ok)
qed

text \<open>Whatever program is run, if it ends the position of the hand is the one of the two angles, and every point of the
  path drawn is within the length of the stretched arm.\<close>
theorem program_keeps_arm:
  assumes "arm_ok (robot m)" "ExecuteGCodeStep flag dt (gcode_Parse atof contents) m = Some m'"
  shows "at_hand (robot m') = endEffector (robot m') (theta1 (robot m')) (theta2 (robot m')) \<and>
     (\<forall>(px, py)\<in>set (pathPoints (robot m')). px * px + py * py \<le> (l1 (robot m') + l2 (robot m'))\<^sup>2)"
  using execute_ok [OF assms(2,1)] by (simp add: arm_ok_def consistent_def)

theorem program_keeps_arm_witness:
  "\<exists>m'. ExecuteGCodeStep (\<lambda>_. 1) (7 / 100) (gcode_Parse (\<lambda>_. 0) (Some ''G92 X5'')) example_machine = Some m' \<and>
     at_hand (robot m') = endEffector (robot m') (theta1 (robot m')) (theta2 (robot m'))"
proof -
  have "gcode_Parse (\<lambda>_. 0) (Some ''G92 X5'') = [new_gcode ''G92'']"
    by (simp add: gcode_Parse_def getlines.simps [of "CHR ''G'' # _"] getline_def map_filter_def parse_command_def
        tokens.simps [of "CHR ''G'' # _"] tokens.simps [of "CHR '' '' # _"] tokens.simps [of "[]"] next_token_def is_space_def starts_comment_def set_param_def new_gcode_def)
  then have "ExecuteGCodeStep (\<lambda>_. 1) (7 / 100) (gcode_Parse (\<lambda>_. 0) (Some ''G92 X5'')) example_machine =
      Some ((load_flag example_machine)\<lparr>robot := SetWorkOffset (robot example_machine) 0 0\<rparr>)"
    by (simp add: exec_command_def new_gcode_def load_flag_def)
  then show ?thesis
    using program_keeps_arm [OF example_machine_ok(1)] by blast
qed

text \<open>A program printed with one command per line, each followed by any comment, is parsed back.\<close>
theorem gcode_roundtrip:
  assumes "\<forall>(c, s)\<in>set lines. printable atof shw c \<and> comment s"
  shows "gcode_Parse atof (Some (concat (map (\<lambda>(c, s). print_command shw c @ s @ [newline]) lines))) = map fst lines"
  using assms
proof (induction lines)
  case (Cons l lines)
  obtain c s where l: "l = (c, s)"
    by fastforce
  have "newline \<notin> set (print_command shw c @ s)"
    using Cons.prems l printed_chars by (auto simp: comment_def)
  then show ?case
    using Cons l getlines_line [of "print_command shw c @ s"] parse_printed [of atof shw c s] by (simp add: gcode_Parse_def map_filter_def)
qed (simp add: gcode_Parse_def map_filter_def)

theorem gcode_roundtrip_witness:
  "gcode_Parse (\<lambda>s. if s = ''100'' then 100 else 0)
     (Some (print_command (\<lambda>v. if v = 100 then ''100'' else ''0'') (new_gcode ''G28'') @ ''; home'' @ [newline])) = [new_gcode ''G28'']"
  using gcode_roundtrip [of "[(new_gcode ''G28'', ''; home'')]" "\<lambda>s. if s = ''100'' then 100 else 0" "\<lambda>v. if v = 100 then ''100'' else ''0''"]
  by (simp add: printable_def comment_def new_gcode_def params_of_def plain_token_def is_space_def starts_comment_def)

end
