(* ===== verification/Tensor.thy ===== *)
theory Tensor
  imports Complex_Main Prelude
begin

text \<open>
  \<open>Tensor2D\<close> of \<open>MachineLearning/include/Tensor2D.h\<close>.  The element type is a type variable with the
  operations the code applies to \<open>float\<close>, and nothing is assumed of them, so that every equation
  holds for rounded arithmetic in the order the loops perform it.  A thrown exception and an index
  outside the vector are values of \<open>tensor_error\<close>.  The lemmas show that the three loops of \<open>matmul\<close>
  compute one and the same product, for every combination of transposed views, and what the checked
  accessor and the activation functions do on transposed views.
\<close>

subsection \<open>Tensors\<close>

record 'a tensor =
  t_rows :: nat
  t_cols :: nat
  t_data :: "'a list"
  is_transposed :: bool

datatype tensor_error = Out_of_range | Invalid_argument | Runtime_error | Length_error | Undefined

type_synonym 'a result = "tensor_error + 'a"

definition bind_result :: "'a result \<Rightarrow> ('a \<Rightarrow> 'b result) \<Rightarrow> 'b result" where
  "bind_result x f = (case x of Inl e \<Rightarrow> Inl e | Inr a \<Rightarrow> f a)"

lemma bind_result_simps [simp]: "bind_result (Inl e) f = Inl e" "bind_result (Inr a) f = f a"
  by (simp_all add: bind_result_def)

definition new_tensor :: "nat \<Rightarrow> nat \<Rightarrow> 'a \<Rightarrow> 'a tensor" where
  "new_tensor r c v = \<lparr>t_rows = r, t_cols = c, t_data = replicate (r * c) v, is_transposed = False\<rparr>"

text \<open>The move constructor: the new tensor and what is left of the other.\<close>

definition move_tensor :: "'a tensor \<Rightarrow> 'a tensor \<times> 'a tensor" where
  "move_tensor other = (other, \<lparr>t_rows = 0, t_cols = 0, t_data = [], is_transposed = False\<rparr>)"

text \<open>The place of an element in the vector: \<open>operator()\<close>.\<close>

definition place :: "'a tensor \<Rightarrow> nat \<Rightarrow> nat \<Rightarrow> nat" where
  "place t r c = (if is_transposed t then c * t_rows t + r else r * t_cols t + c)"

definition elem :: "'a tensor \<Rightarrow> nat \<Rightarrow> nat \<Rightarrow> 'a" where
  "elem t r c = t_data t ! place t r c"

definition set_elem :: "'a tensor \<Rightarrow> nat \<Rightarrow> nat \<Rightarrow> 'a \<Rightarrow> 'a tensor" where
  "set_elem t r c v = t\<lparr>t_data := (t_data t)[place t r c := v]\<rparr>"

text \<open>The range check of \<open>at\<close>, as written for each of the two layouts.\<close>

definition in_range :: "'a tensor \<Rightarrow> nat \<Rightarrow> nat \<Rightarrow> bool" where
  "in_range t r c = (if is_transposed t then \<not> (c \<ge> t_rows t \<or> r \<ge> t_cols t) else \<not> (r \<ge> t_rows t \<or> c \<ge> t_cols t))"

definition at_elem :: "'a tensor \<Rightarrow> nat \<Rightarrow> nat \<Rightarrow> 'a result" where
  "at_elem t r c = (if \<not> in_range t r c then Inl Out_of_range
     else if place t r c < length (t_data t) then Inr (elem t r c) else Inl Undefined)"

definition set_at :: "'a tensor \<Rightarrow> nat \<Rightarrow> nat \<Rightarrow> 'a \<Rightarrow> 'a tensor result" where
  "set_at t r c v = (if \<not> in_range t r c then Inl Out_of_range
     else if place t r c < length (t_data t) then Inr (set_elem t r c v) else Inl Undefined)"

definition transpose_view :: "'a tensor \<Rightarrow> 'a tensor" where
  "transpose_view t = t\<lparr>t_rows := t_cols t, t_cols := t_rows t, is_transposed := \<not> is_transposed t\<rparr>"

subsection \<open>Products\<close>

text \<open>The three loops of \<open>matmul\<close> over the vector of the result.\<close>

definition matmul_plain :: "'a::{zero,plus,times} tensor \<Rightarrow> 'a tensor \<Rightarrow> 'a list \<Rightarrow> 'a list" where
  "matmul_plain t u = fold (\<lambda>i. fold (\<lambda>k res.
       let a_val = t_data t ! (i * t_cols t + k) in
       fold (\<lambda>j res. res[i * t_cols u + j := res ! (i * t_cols u + j) + a_val * t_data u ! (k * t_cols u + j)])
         [0..<t_cols u] res)
     [0..<t_cols t]) [0..<t_rows t]"

definition matmul_dot :: "'a::{zero,plus,times} tensor \<Rightarrow> 'a tensor \<Rightarrow> 'a list \<Rightarrow> 'a list" where
  "matmul_dot t u = fold (\<lambda>i. fold (\<lambda>j res.
       let sum = fold (\<lambda>k s. s + t_data t ! (i * t_cols t + k) * t_data u ! (j * t_rows u + k)) [0..<t_cols t] 0
       in res[i * t_cols u + j := sum])
     [0..<t_cols u]) [0..<t_rows t]"

definition matmul_general :: "'a::{zero,plus,times} tensor \<Rightarrow> 'a tensor \<Rightarrow> 'a list \<Rightarrow> 'a list" where
  "matmul_general t u = fold (\<lambda>i. fold (\<lambda>k res.
       let a_val = elem t i k in
       fold (\<lambda>j res. res[i * t_cols u + j := res ! (i * t_cols u + j) + a_val * elem u k j])
         [0..<t_cols u] res)
     [0..<t_cols t]) [0..<t_rows t]"

definition matmul :: "'a::{zero,plus,times} tensor \<Rightarrow> 'a tensor \<Rightarrow> 'a tensor result" where
  "matmul t u =
     (if t_cols t \<noteq> t_rows u then Inl Invalid_argument
      else let result = new_tensor (t_rows t) (t_cols u) 0 in
        Inr (result\<lparr>t_data :=
          (if \<not> is_transposed t \<and> \<not> is_transposed u then matmul_plain t u (t_data result)
           else if \<not> is_transposed t \<and> is_transposed u then matmul_dot t u (t_data result)
           else matmul_general t u (t_data result))\<rparr>))"

subsection \<open>Activations\<close>

definition relu :: "'a::{zero,ord} tensor \<Rightarrow> 'a tensor" where
  "relu t = (new_tensor (t_rows t) (t_cols t) 0)\<lparr>t_data := map (\<lambda>x. if x > 0 then x else 0) (t_data t)\<rparr>"

definition relu_inplace :: "'a::{zero,ord} tensor \<Rightarrow> 'a tensor" where
  "relu_inplace t = t\<lparr>t_data := map (\<lambda>x. if x < 0 then 0 else x) (t_data t)\<rparr>"

definition relu_backward :: "'a::{zero,ord} tensor \<Rightarrow> 'a tensor \<Rightarrow> 'a tensor result" where
  "relu_backward t g =
     (if t_rows t \<noteq> t_rows g \<or> t_cols t \<noteq> t_cols g then Inl Invalid_argument
      else Inr ((new_tensor (t_rows t) (t_cols t) 0)\<lparr>t_data :=
        map (\<lambda>i. if t_data t ! i > 0 then t_data g ! i else 0) [0..<length (t_data t)]\<rparr>))"

text \<open>\<open>sigmoid\<close> with the function of one element as a parameter.\<close>

definition sigmoid :: "('a \<Rightarrow> 'a) \<Rightarrow> 'a::zero tensor \<Rightarrow> 'a tensor" where
  "sigmoid sig t = (new_tensor (t_rows t) (t_cols t) 0)\<lparr>t_data := map sig (t_data t)\<rparr>"

definition sigmoid_inplace :: "('a \<Rightarrow> 'a) \<Rightarrow> 'a tensor \<Rightarrow> 'a tensor" where
  "sigmoid_inplace sig t = t\<lparr>t_data := map sig (t_data t)\<rparr>"

definition sigmoid_backward :: "('a \<Rightarrow> 'a) \<Rightarrow> 'a::{zero,one,times,minus} tensor \<Rightarrow> 'a tensor \<Rightarrow> 'a tensor result" where
  "sigmoid_backward sig t g =
     (if t_rows t \<noteq> t_rows g \<or> t_cols t \<noteq> t_cols g then Inl Invalid_argument
      else Inr ((new_tensor (t_rows t) (t_cols t) 0)\<lparr>t_data :=
        map (\<lambda>i. let s = sig (t_data t ! i) in t_data g ! i * s * (1 - s)) [0..<length (t_data t)]\<rparr>))"

definition fill_zero :: "'a::zero tensor \<Rightarrow> 'a tensor" where
  "fill_zero t = t\<lparr>t_data := replicate (length (t_data t)) 0\<rparr>"

subsection \<open>Binary form\<close>

text \<open>A stream of 8-byte sizes followed by the elements, each in the four bytes \<open>enc\<close> gives it.  A read
  that finds too little takes the bytes that are there and leaves the others of the vector as they
  were; sizes that cannot be read are not initialised.  The reader gives the rest of the stream.\<close>

definition write_binary :: "('a \<Rightarrow> bytes) \<Rightarrow> 'a tensor \<Rightarrow> bytes" where
  "write_binary enc t = le_bytes 8 (of_nat (t_rows t) :: u64) @ le_bytes 8 (of_nat (t_cols t) :: u64) @
     concat (map enc (t_data t))"

fun read_elems :: "('a \<Rightarrow> bytes) \<Rightarrow> (bytes \<Rightarrow> 'a) \<Rightarrow> bytes \<Rightarrow> 'a list \<Rightarrow> 'a list \<times> bytes" where
  "read_elems enc dec bs [] = ([], bs)"
| "read_elems enc dec bs (x # xs) =
     (let (ys, rest) = read_elems enc dec (drop 4 bs) xs
      in (dec (take 4 bs @ drop (length (take 4 bs)) (enc x)) # ys, rest))"

definition read_size :: "bytes \<Rightarrow> (u64 \<times> bytes) result" where
  "read_size bs = (if length bs < 8 then Inl Undefined else Inr (of_le (take 8 bs), drop 8 bs))"

definition read_binary :: "('a \<Rightarrow> bytes) \<Rightarrow> (bytes \<Rightarrow> 'a) \<Rightarrow> bytes \<Rightarrow> 'a tensor \<Rightarrow> ('a tensor \<times> bytes) result" where
  "read_binary enc dec bs t =
     bind_result (read_size bs) (\<lambda>(in_rows, bs1).
     bind_result (read_size bs1) (\<lambda>(in_cols, bs2).
       if in_rows \<noteq> of_nat (t_rows t) \<or> in_cols \<noteq> of_nat (t_cols t) then Inl Runtime_error
       else let (xs, rest) = read_elems enc dec bs2 (t_data t) in Inr (t\<lparr>t_data := xs\<rparr>, rest)))"

subsection \<open>Well-formed tensors\<close>

definition wf_tensor :: "'a tensor \<Rightarrow> bool" where
  "wf_tensor t \<longleftrightarrow> length (t_data t) = t_rows t * t_cols t"

lemma wf_new [simp]: "wf_tensor (new_tensor r c v)"
  by (simp add: wf_tensor_def new_tensor_def)

lemma wf_transpose [simp]: "wf_tensor (transpose_view t) = wf_tensor t"
  by (auto simp: wf_tensor_def transpose_view_def mult.commute)

lemma transpose_twice [simp]: "transpose_view (transpose_view t) = t"
  by (simp add: transpose_view_def)

lemma place_less: "r < m \<Longrightarrow> c < n \<Longrightarrow> r * n + c < m * n" for r :: nat
proof -
  assume "r < m" "c < n"
  then have "r * n + c < Suc r * n" by simp
  also have "\<dots> \<le> m * n" using \<open>r < m\<close> by (intro mult_le_mono1) simp
  finally show ?thesis .
qed

lemma place_inj: "c < n \<Longrightarrow> c' < n \<Longrightarrow> r * n + c = r' * n + c' \<longleftrightarrow> r = r' \<and> c = c'" for r :: nat
proof -
  assume "c < n" "c' < n"
  then have "(r * n + c) div n = r" "(r * n + c) mod n = c" "(r' * n + c') div n = r'" "(r' * n + c') mod n = c'"
    by simp_all
  then show ?thesis by metis
qed

lemma place_in_data: "wf_tensor t \<Longrightarrow> r < t_rows t \<Longrightarrow> c < t_cols t \<Longrightarrow> place t r c < length (t_data t)"
  using place_less [of r "t_rows t" c "t_cols t"] place_less [of c "t_cols t" r "t_rows t"]
  by (simp add: wf_tensor_def place_def mult.commute)

lemma elem_transpose: "elem (transpose_view t) r c = elem t c r"
  by (simp add: elem_def place_def transpose_view_def)

subsection \<open>The loops over the result\<close>

text \<open>A vector that holds \<open>G r c\<close> at the place of row \<open>r\<close> and column \<open>c\<close>.\<close>

definition cells :: "nat \<Rightarrow> nat \<Rightarrow> 'a list \<Rightarrow> (nat \<Rightarrow> nat \<Rightarrow> 'a) \<Rightarrow> bool" where
  "cells m n res G \<longleftrightarrow> length res = m * n \<and> (\<forall>r < m. \<forall>c < n. res ! (r * n + c) = G r c)"

lemma cells_update:
  assumes "cells m n res G" "i < m" "j < n"
  shows "cells m n (res[i * n + j := f (res ! (i * n + j))]) (\<lambda>r c. if r = i \<and> c = j then f (G r c) else G r c)"
  unfolding cells_def
proof (intro conjI allI impI)
  fix r c assume rc: "r < m" "c < n"
  have "i * n + j = r * n + c \<longleftrightarrow> r = i \<and> c = j"
    using place_inj [OF assms(3) rc(2), of i r] by auto
  then show "res[i * n + j := f (res ! (i * n + j))] ! (r * n + c) = (if r = i \<and> c = j then f (G r c) else G r c)"
    using assms rc place_less [OF rc] unfolding cells_def by (auto simp: nth_list_update)
qed (use assms in \<open>simp add: cells_def\<close>)

lemma row_loop:
  assumes "cells m n res G" "i < m"
  shows "q \<le> n \<Longrightarrow> cells m n (fold (\<lambda>j res. res[i * n + j := f j (res ! (i * n + j))]) [0..<q] res)
     (\<lambda>r c. if r = i \<and> c < q then f c (G r c) else G r c)"
proof (induction q)
  case (Suc q)
  have "(\<lambda>r c. if r = i \<and> c = q then f q (if r = i \<and> c < q then f c (G r c) else G r c)
      else (if r = i \<and> c < q then f c (G r c) else G r c)) = (\<lambda>r c. if r = i \<and> c < Suc q then f c (G r c) else G r c)"
    by (auto simp: fun_eq_iff less_Suc_eq)
  then show ?case
    using cells_update [OF Suc.IH assms(2), of q "f q"] Suc.prems by simp
qed (use assms in simp)

lemma inner_loop:
  assumes "cells m n res G" "i < m"
  shows "cells m n (fold (\<lambda>k. fold (\<lambda>j res. res[i * n + j := f k j (res ! (i * n + j))]) [0..<n]) ks res)
     (\<lambda>r c. if r = i then fold (\<lambda>k. f k c) ks (G r c) else G r c)"
  using assms(1)
proof (induction ks arbitrary: res G)
  case (Cons k ks)
  let ?G = "\<lambda>r c. if r = i then f k c (G r c) else G r c"
  have "cells m n (fold (\<lambda>j res. res[i * n + j := f k j (res ! (i * n + j))]) [0..<n] res) ?G"
    using row_loop [OF Cons.prems assms(2) order.refl, of "f k"] unfolding cells_def by simp
  from Cons.IH [OF this] show ?case
    unfolding cells_def by simp
qed (simp add: cells_def)

lemma outer_loop:
  assumes step: "\<And>i res G. i < m \<Longrightarrow> cells m n res G \<Longrightarrow> cells m n (body i res) (\<lambda>r c. if r = i then h i c (G r c) else G r c)"
    and init: "cells m n res G"
  shows "p \<le> m \<Longrightarrow> cells m n (fold body [0..<p] res) (\<lambda>r c. if r < p then h r c (G r c) else G r c)"
proof (induction p)
  case (Suc p)
  have "(\<lambda>r c. if r = p then h p c (if r < p then h r c (G r c) else G r c) else (if r < p then h r c (G r c) else G r c)) =
      (\<lambda>r c. if r < Suc p then h r c (G r c) else G r c)"
    by (auto simp: fun_eq_iff less_Suc_eq)
  then show ?case
    using step [OF _ Suc.IH, of p] Suc.prems by simp
qed (use init in simp)

text \<open>The product both sides are compared with: each entry is the sum over the inner index in ascending
  order, starting from zero.\<close>

definition dot :: "'a::{zero,plus,times} tensor \<Rightarrow> 'a tensor \<Rightarrow> nat \<Rightarrow> nat \<Rightarrow> 'a" where
  "dot t u i j = fold (\<lambda>k s. s + elem t i k * elem u k j) [0..<t_cols t] 0"

lemma fold_cong_upt: "(\<And>k s. k < n \<Longrightarrow> f k s = g k s) \<Longrightarrow> fold f [0..<n] s = fold g [0..<n] s"
  by (rule fold_cong) auto

lemma general_loop:
  assumes "\<And>i k. i < m \<Longrightarrow> k < l \<Longrightarrow> A i k = elem t i k" "\<And>k j. k < l \<Longrightarrow> j < n \<Longrightarrow> B k j = elem u k j" "l = t_cols t"
  shows "cells m n (fold (\<lambda>i. fold (\<lambda>k. fold (\<lambda>j res. res[i * n + j := res ! (i * n + j) + A i k * B k j]) [0..<n]) [0..<l])
      [0..<m] (replicate (m * n) 0)) (\<lambda>i j. dot t u i j)"
proof -
  have z: "cells m n (replicate (m * n) 0) (\<lambda>_ _. 0)"
    by (simp add: cells_def place_less)
  have "cells m n (fold (\<lambda>i. fold (\<lambda>k. fold (\<lambda>j res. res[i * n + j := res ! (i * n + j) + A i k * B k j]) [0..<n]) [0..<l])
      [0..<m] (replicate (m * n) 0)) (\<lambda>i j. if i < m then fold (\<lambda>k s. s + A i k * B k j) [0..<l] 0 else 0)"
    by (rule outer_loop [where h = "\<lambda>i j. fold (\<lambda>k s. s + A i k * B k j) [0..<l]" and G = "\<lambda>_ _. 0" and p = m,
        OF inner_loop z order.refl]) simp_all
  moreover have "fold (\<lambda>k s. s + A i k * B k j) [0..<l] 0 = dot t u i j" if "i < m" "j < n" for i j
    unfolding dot_def assms(3) [symmetric] using assms(1,2) that by (intro fold_cong_upt) simp
  ultimately show ?thesis
    by (simp add: cells_def)
qed

lemma dot_loop:
  assumes "\<And>i k. i < m \<Longrightarrow> k < l \<Longrightarrow> A i k = elem t i k" "\<And>k j. k < l \<Longrightarrow> j < n \<Longrightarrow> B k j = elem u k j" "l = t_cols t"
  shows "cells m n (fold (\<lambda>i. fold (\<lambda>j res. res[i * n + j := fold (\<lambda>k s. s + A i k * B k j) [0..<l] 0]) [0..<n])
      [0..<m] (replicate (m * n) 0)) (\<lambda>i j. dot t u i j)"
proof -
  have z: "cells m n (replicate (m * n) 0) (\<lambda>_ _. 0)"
    by (simp add: cells_def place_less)
  have step: "cells m n (fold (\<lambda>j res. res[i * n + j := fold (\<lambda>k s. s + A i k * B k j) [0..<l] 0]) [0..<n] res)
      (\<lambda>r c. if r = i then fold (\<lambda>k s. s + A i k * B k c) [0..<l] 0 else G r c)"
    if "i < m" "cells m n res G" for i res and G :: "nat \<Rightarrow> nat \<Rightarrow> 'a"
    using row_loop [OF that(2,1) order.refl, of "\<lambda>j _. fold (\<lambda>k s. s + A i k * B k j) [0..<l] 0"]
    unfolding cells_def by simp
  have "cells m n (fold (\<lambda>i. fold (\<lambda>j res. res[i * n + j := fold (\<lambda>k s. s + A i k * B k j) [0..<l] 0]) [0..<n])
      [0..<m] (replicate (m * n) 0)) (\<lambda>i j. if i < m then fold (\<lambda>k s. s + A i k * B k j) [0..<l] 0 else 0)"
    by (rule outer_loop [where h = "\<lambda>i j _. fold (\<lambda>k s. s + A i k * B k j) [0..<l] 0" and G = "\<lambda>_ _. 0" and p = m,
        OF step z order.refl]) simp_all
  moreover have "fold (\<lambda>k s. s + A i k * B k j) [0..<l] 0 = dot t u i j" if "i < m" "j < n" for i j
    unfolding dot_def assms(3) [symmetric] using assms(1,2) that by (intro fold_cong_upt) simp
  ultimately show ?thesis
    by (simp add: cells_def)
qed

lemma matmul_cells:
  assumes "t_cols t = t_rows u" "matmul t u = Inr p"
  shows "cells (t_rows t) (t_cols u) (t_data p) (dot t u)" "t_rows p = t_rows t" "t_cols p = t_cols u" "\<not> is_transposed p"
proof -
  show "t_rows p = t_rows t" "t_cols p = t_cols u" "\<not> is_transposed p"
    using assms by (auto simp: matmul_def new_tensor_def Let_def)
  consider (plain) "\<not> is_transposed t" "\<not> is_transposed u" | (dot) "\<not> is_transposed t" "is_transposed u" | (general) "is_transposed t"
    by blast
  then show "cells (t_rows t) (t_cols u) (t_data p) (dot t u)"
  proof cases
    case plain
    then have data: "t_data p = matmul_plain t u (replicate (t_rows t * t_cols u) 0)"
      using assms by (auto simp: matmul_def new_tensor_def Let_def)
    show ?thesis
      unfolding data matmul_plain_def Let_def
      by (rule general_loop [where A = "\<lambda>i k. t_data t ! (i * t_cols t + k)" and B = "\<lambda>k j. t_data u ! (k * t_cols u + j)"])
        (use plain in \<open>simp_all add: elem_def place_def\<close>)
  next
    case dot
    then have data: "t_data p = matmul_dot t u (replicate (t_rows t * t_cols u) 0)"
      using assms by (auto simp: matmul_def new_tensor_def Let_def)
    show ?thesis
      unfolding data matmul_dot_def Let_def
      by (rule dot_loop [where A = "\<lambda>i k. t_data t ! (i * t_cols t + k)" and B = "\<lambda>k j. t_data u ! (j * t_rows u + k)"])
        (use dot in \<open>simp_all add: elem_def place_def\<close>)
  next
    case general
    then have data: "t_data p = matmul_general t u (replicate (t_rows t * t_cols u) 0)"
      using assms by (auto simp: matmul_def new_tensor_def Let_def)
    show ?thesis
      unfolding data matmul_general_def Let_def by (rule general_loop [where A = "elem t" and B = "elem u"]) simp_all
  qed
qed

lemma cells_elem:
  assumes "cells m n (t_data p) G" "t_rows p = m" "t_cols p = n" "\<not> is_transposed p"
  shows "wf_tensor p" "r < m \<Longrightarrow> c < n \<Longrightarrow> elem p r c = G r c"
  using assms by (simp_all add: cells_def wf_tensor_def elem_def place_def)

lemma matmul_ok:
  assumes "t_cols t = t_rows u"
  obtains p where "matmul t u = Inr p" "wf_tensor p" "t_rows p = t_rows t" "t_cols p = t_cols u" "\<not> is_transposed p"
    "\<And>i j. i < t_rows t \<Longrightarrow> j < t_cols u \<Longrightarrow> elem p i j = dot t u i j"
proof -
  obtain p where p: "matmul t u = Inr p"
    using assms by (simp add: matmul_def Let_def)
  note c = matmul_cells [OF assms p]
  show thesis
    by (rule that [OF p]) (use c cells_elem [OF c] in auto)
qed

subsection \<open>Access\<close>

lemma at_plain: "wf_tensor t \<Longrightarrow> \<not> is_transposed t \<Longrightarrow> r < t_rows t \<Longrightarrow> c < t_cols t \<Longrightarrow> at_elem t r c = Inr (elem t r c)"
  using place_in_data [of t r c] by (simp add: at_elem_def in_range_def)

lemma set_at_plain:
  "wf_tensor t \<Longrightarrow> \<not> is_transposed t \<Longrightarrow> r < t_rows t \<Longrightarrow> c < t_cols t \<Longrightarrow> set_at t r c v = Inr (set_elem t r c v)"
  using place_in_data [of t r c] by (simp add: set_at_def in_range_def)

lemma set_elem_simps [simp]: "t_rows (set_elem t r c v) = t_rows t" "t_cols (set_elem t r c v) = t_cols t"
  "is_transposed (set_elem t r c v) = is_transposed t" "wf_tensor (set_elem t r c v) = wf_tensor t"
  by (simp_all add: set_elem_def wf_tensor_def)

lemma elem_set_elem:
  assumes "wf_tensor t" "\<not> is_transposed t" "r < t_rows t" "c < t_cols t" "c' < t_cols t"
  shows "elem (set_elem t r c v) r' c' = (if r' = r \<and> c' = c then v else elem t r' c')"
  using assms place_in_data [OF assms(1,3,4)] place_inj [OF assms(4,5), of r r']
  by (auto simp: elem_def set_elem_def place_def nth_list_update)

subsection \<open>Reading back\<close>

lemma read_elems_concat:
  assumes "\<And>x. length (enc x) = 4" "\<And>x. dec (enc x) = x"
  shows "length ys = length xs \<Longrightarrow> read_elems enc dec (concat (map enc xs) @ rest) ys = (xs, rest)"
proof (induction xs arbitrary: ys)
  case (Cons x xs)
  then obtain y ys' where "ys = y # ys'" by (cases ys) auto
  then show ?case using Cons assms by simp
qed simp

lemma read_size_le [simp]: "read_size (le_bytes 8 x @ rest) = Inr (x, rest)"
  by (simp add: read_size_def of_le_bytes)

lemma read_write_binary:
  assumes "\<And>x. length (enc x) = 4" "\<And>x. dec (enc x) = x" "wf_tensor t" "wf_tensor u"
    "t_rows u = t_rows t" "t_cols u = t_cols t"
  shows "read_binary enc dec (write_binary enc t @ rest) u = Inr (u\<lparr>t_data := t_data t\<rparr>, rest)"
proof -
  have "length (t_data u) = length (t_data t)"
    using assms(3-6) by (simp add: wf_tensor_def)
  then show ?thesis
    using assms(5,6) read_elems_concat [of enc dec "t_data u" "t_data t", OF assms(1,2)]
    by (simp add: read_binary_def write_binary_def)
qed

subsection \<open>Loops that assign through the accessors\<close>

fun fold_result :: "('b \<Rightarrow> 's \<Rightarrow> 's result) \<Rightarrow> 'b list \<Rightarrow> 's \<Rightarrow> 's result" where
  "fold_result f [] s = Inr s"
| "fold_result f (x # xs) s = bind_result (f x s) (fold_result f xs)"

text \<open>\<open>for i < m, for j < n\<close>, row by row.\<close>

definition loop2 :: "nat \<Rightarrow> nat \<Rightarrow> (nat \<Rightarrow> nat \<Rightarrow> 's \<Rightarrow> 's result) \<Rightarrow> 's \<Rightarrow> 's result" where
  "loop2 m n body = fold_result (\<lambda>i. fold_result (body i) [0..<n]) [0..<m]"

lemma fold_result_pure:
  assumes "\<And>x s. x \<in> set xs \<Longrightarrow> ok s \<Longrightarrow> f x (h s) = Inr (h (g x s)) \<and> ok (g x s)"
  shows "ok s \<Longrightarrow> fold_result f xs (h s) = Inr (h (fold g xs s)) \<and> ok (fold g xs s)"
  using assms by (induction xs arbitrary: s) auto

lemma loop2_assign:
  assumes body: "\<And>i j res. i < m \<Longrightarrow> j < n \<Longrightarrow> length res = m * n \<Longrightarrow>
      body i j (h res) = Inr (h (res[i * n + j := v i j (res ! (i * n + j))]))"
    and init: "cells m n res G"
  shows "\<exists>res'. loop2 m n body (h res) = Inr (h res') \<and> cells m n res' (\<lambda>i j. v i j (G i j))"
proof -
  let ?row = "\<lambda>i. fold (\<lambda>j res. res[i * n + j := v i j (res ! (i * n + j))]) [0..<n]"
  have row: "fold_result (body i) [0..<n] (h res) = Inr (h (?row i res)) \<and> length (?row i res) = m * n"
    if "i < m" "length res = m * n" for i res
    using that by (intro fold_result_pure [where ok = "\<lambda>res. length res = m * n"]) (simp_all add: body)
  have len: "length res = m * n"
    using init by (simp add: cells_def)
  have "loop2 m n body (h res) = Inr (h (fold ?row [0..<m] res)) \<and> length (fold ?row [0..<m] res) = m * n"
    unfolding loop2_def by (rule fold_result_pure [where ok = "\<lambda>res. length res = m * n" and g = ?row, OF _ len])
      (simp add: row)
  moreover have "cells m n (fold ?row [0..<m] res) (\<lambda>i j. if i < m then v i j (G i j) else G i j)"
  proof (rule outer_loop [OF _ init order.refl])
    show "cells m n (?row i xs) (\<lambda>r c. if r = i then v i c (H r c) else H r c)"
      if "i < m" "cells m n xs H" for i xs H
      using that row_loop [of m n xs H i n "v i"] by (simp add: cells_def)
  qed
  ultimately show ?thesis
    by (auto simp: cells_def)
qed

subsection \<open>Properties\<close>

text \<open>C25: \<open>matmul\<close> returns for matching shapes, whichever of the two operands are transposed views, a
  plain tensor of the right shape whose entries are the sums over the inner index in ascending
  order, exactly as the code's arithmetic adds them up; other shapes are refused.\<close>
theorem matmul_product:
  "if t_cols t = t_rows u
   then \<exists>p. matmul t u = Inr p \<and> wf_tensor p \<and> t_rows p = t_rows t \<and> t_cols p = t_cols u \<and> \<not> is_transposed p \<and>
     cells (t_rows t) (t_cols u) (t_data p) (\<lambda>i j. fold (\<lambda>k s. s + elem t i k * elem u k j) [0..<t_cols t] 0)
   else matmul t u = Inl Invalid_argument"
proof (cases "t_cols t = t_rows u")
  case True
  then obtain p where "matmul t u = Inr p" "wf_tensor p" "t_rows p = t_rows t" "t_cols p = t_cols u" "\<not> is_transposed p"
    by (rule matmul_ok)
  then show ?thesis
    using matmul_cells(1) [OF True] True by (simp add: dot_def [abs_def])
qed (simp add: matmul_def)

text \<open>On a transposed view the range check of \<open>at\<close> has rows and columns exchanged: it accepts an index
  of the view only if the index also lies in the shape of the original, so that elements of
  rectangular views are refused, and never is an accepted index outside the vector.\<close>
theorem at_transposed:
  assumes "wf_tensor t" "\<not> is_transposed t" "r < t_cols t" "c < t_rows t"
  shows "at_elem (transpose_view t) r c = (if r < t_rows t \<and> c < t_cols t then Inr (elem t c r) else Inl Out_of_range)"
proof -
  have "place (transpose_view t) r c < length (t_data (transpose_view t))"
    by (rule place_in_data) (use assms in \<open>simp_all add: transpose_view_def wf_tensor_def mult.commute\<close>)
  then show ?thesis
    using assms elem_transpose [of t r c] by (auto simp: at_elem_def in_range_def transpose_view_def)
qed

theorem at_transposed_witness:
  "at_elem (transpose_view (new_tensor 1 2 (7 :: int))) 1 0 = Inl Out_of_range"
  using at_transposed [of "new_tensor 1 2 (7 :: int)" 1 0] by (simp add: new_tensor_def wf_tensor_def)

text \<open>\<open>relu\<close> of a transposed view gives the elements in the order of the original under the shape of
  the view: the entry at the place of row \<open>r\<close> and column \<open>c\<close> comes from the vector at \<open>r * cols + c\<close>, not
  from the element \<open>(r, c)\<close> of the view.\<close>
theorem relu_ignores_view:
  assumes "wf_tensor t" "\<not> is_transposed t" "r < t_cols t" "c < t_rows t"
  shows "elem (relu (transpose_view t)) r c = (let x = t_data t ! (r * t_rows t + c) in if x > 0 then x else 0)"
proof -
  have "r * t_rows t + c < length (t_data t)"
    using place_less [OF assms(3,4)] assms(1) by (simp add: wf_tensor_def mult.commute)
  then show ?thesis
    using assms(2) by (simp add: relu_def elem_def place_def transpose_view_def new_tensor_def Let_def)
qed

theorem relu_ignores_view_witness:
  "elem (relu (transpose_view \<lparr>t_rows = 2, t_cols = 3, t_data = [1, 2, 3, 4, 5, 6 :: int], is_transposed = False\<rparr>)) 0 1 = 2"
  using relu_ignores_view [of "\<lparr>t_rows = 2, t_cols = 3, t_data = [1, 2, 3, 4, 5, 6 :: int], is_transposed = False\<rparr>" 0 1]
  by (simp add: wf_tensor_def)

text \<open>A tensor written to a stream and read into a tensor of the same shape gives all its elements
  back, when four bytes determine an element; the layout flag is not part of the stream and stays
  that of the tensor read into.\<close>
theorem binary_roundtrip:
  assumes "\<And>x. length (enc x) = 4" "\<And>x. dec (enc x) = x" "wf_tensor t" "wf_tensor u"
    "t_rows u = t_rows t" "t_cols u = t_cols t"
  shows "read_binary enc dec (write_binary enc t) u = Inr (u\<lparr>t_data := t_data t\<rparr>, [])"
  using read_write_binary [where rest = "[]", OF assms] by simp

theorem binary_roundtrip_witness:
  "read_binary (le_bytes 4) (of_le :: bytes \<Rightarrow> u32) (write_binary (le_bytes 4) (new_tensor 2 3 (9 :: u32))) (new_tensor 2 3 0) =
     Inr ((new_tensor 2 3 0)\<lparr>t_data := t_data (new_tensor 2 3 9)\<rparr>, [])"
  by (rule binary_roundtrip) (simp_all add: of_le_bytes new_tensor_def wf_tensor_def)

end
