(* ===== verification/Data_Loader.thy ===== *)
theory Data_Loader
  imports Tensor "HOL-Library.Multiset"
begin

text \<open>
  The mini-batches of \<open>MachineLearning/include/DataLoader.h\<close> and the split and the accuracy of
  \<open>MachineLearning/include/DatasetUtils.h\<close>.  \<open>std::shuffle\<close> with its generator is a parameter
  \<open>shuf\<close>, of which the lemmas use that it permutes the vector.  The loop of a training epoch
  (\<open>example/models/train_optimize.cpp\<close>) is run with fuel, and the number of samples is enough fuel
  when the batch size is not zero.
\<close>

subsection \<open>The loader\<close>

record ('a, 'g) loader =
  inputs :: "'a tensor"
  targets :: "'a tensor"
  batch_size :: nat
  shuffle_on :: bool
  num_samples :: nat
  current_index :: nat
  indices :: "nat list"
  random_engine :: 'g

type_synonym 'g shuffle = "nat list \<Rightarrow> 'g \<Rightarrow> nat list \<times> 'g"

definition reset :: "'g shuffle \<Rightarrow> ('a, 'g) loader \<Rightarrow> ('a, 'g) loader" where
  "reset shuf ld =
     (let ld = ld\<lparr>current_index := 0\<rparr> in
      if shuffle_on ld then let (xs, g) = shuf (indices ld) (random_engine ld) in ld\<lparr>indices := xs, random_engine := g\<rparr>
      else ld)"

definition new_loader :: "'g shuffle \<Rightarrow> 'g \<Rightarrow> 'a tensor \<Rightarrow> 'a tensor \<Rightarrow> nat \<Rightarrow> bool \<Rightarrow> ('a, 'g) loader" where
  "new_loader shuf g input_data target_data batch_sz shuffle_data =
     reset shuf \<lparr>inputs = input_data, targets = target_data, batch_size = batch_sz, shuffle_on = shuffle_data,
       num_samples = t_rows input_data, current_index = 0, indices = [0..<t_rows input_data], random_engine = g\<rparr>"

definition has_next :: "('a, 'g) loader \<Rightarrow> bool" where
  "has_next ld \<longleftrightarrow> current_index ld < num_samples ld"

text \<open>\<open>for j < n: dst.at(i, j) = src.at(idx, j)\<close>.\<close>

definition copy_row :: "'a tensor \<Rightarrow> nat \<Rightarrow> nat \<Rightarrow> nat \<Rightarrow> 'a tensor \<Rightarrow> 'a tensor result" where
  "copy_row src idx n i = fold_result (\<lambda>j dst. bind_result (at_elem src idx j) (set_at dst i j)) [0..<n]"

text \<open>The loop over the rows of a batch, from the index vector at an offset.\<close>

definition copy_rows :: "'a tensor \<Rightarrow> 'a tensor \<Rightarrow> nat list \<Rightarrow> nat \<Rightarrow> nat \<Rightarrow> nat list \<Rightarrow>
    'a tensor \<times> 'a tensor \<Rightarrow> ('a tensor \<times> 'a tensor) result" where
  "copy_rows X Y ixs num_features num_targets = fold_result (\<lambda>i (bi, bt).
     if i < length ixs then
       bind_result (copy_row X (ixs ! i) num_features i bi) (\<lambda>bi.
       bind_result (copy_row Y (ixs ! i) num_targets i bt) (\<lambda>bt. Inr (bi, bt)))
     else Inl Undefined)"

type_synonym 'a batch = "'a tensor \<times> 'a tensor"

definition next_batch :: "('a::zero, 'g) loader \<Rightarrow> ('a batch option \<times> ('a, 'g) loader) result" where
  "next_batch ld =
     (if \<not> has_next ld then Inr (None, ld)
      else
        let actual_batch_size = min (batch_size ld) (num_samples ld - current_index ld);
            num_features = t_cols (inputs ld);
            num_targets = t_cols (targets ld)
        in bind_result
             (copy_rows (inputs ld) (targets ld) (drop (current_index ld) (indices ld)) num_features num_targets
               [0..<actual_batch_size] (new_tensor actual_batch_size num_features 0, new_tensor actual_batch_size num_targets 0))
             (\<lambda>b. Inr (Some b, ld\<lparr>current_index := current_index ld + actual_batch_size\<rparr>)))"

text \<open>\<open>while (dataloader.next_batch(...))\<close>: the batches one pass yields.  \<open>None\<close> is a loop that has not ended.\<close>

fun batches :: "nat \<Rightarrow> ('a::zero, 'g) loader \<Rightarrow> ('a batch list \<times> ('a, 'g) loader) result option" where
  "batches 0 ld = None"
| "batches (Suc fuel) ld =
     (case next_batch ld of
        Inl e \<Rightarrow> Some (Inl e)
      | Inr (None, ld) \<Rightarrow> Some (Inr ([], ld))
      | Inr (Some b, ld) \<Rightarrow> map_option (\<lambda>r. bind_result r (\<lambda>(bs, ld). Inr (b # bs, ld))) (batches fuel ld))"

text \<open>\<open>HyperparameterAnalyzer::check_stability\<close>: the conversions to \<open>float\<close> and the two limits \<open>0.5f\<close> and
  \<open>30.0f\<close> are arguments; the lines printed for each outcome are its name.\<close>

datatype config_status = Critical_error | Danger_of_freezing | Danger_of_explosion | Stable_convergence

definition check_stability :: "(nat \<Rightarrow> 'a) \<Rightarrow> (int \<Rightarrow> 'a) \<Rightarrow> 'a \<Rightarrow> 'a \<Rightarrow> nat \<Rightarrow> nat \<Rightarrow> 'a::{ord,times,inverse} \<Rightarrow> int \<Rightarrow>
    bool \<times> config_status" where
  "check_stability of_size of_epochs half thirty total_samples batch_sz learning_rate epochs =
     (if batch_sz = 0 then (False, Critical_error)
      else
        let updates_per_epoch = of_size total_samples / of_size batch_sz;
            total_updates = updates_per_epoch * of_epochs epochs;
            total_impact = total_updates * learning_rate
        in if total_impact < half then (False, Danger_of_freezing)
           else if total_impact > thirty then (False, Danger_of_explosion)
           else (True, Stable_convergence))"

subsection \<open>Splitting a dataset\<close>

text \<open>\<open>Tensor2D(r, c)\<close> for sizes that may have wrapped: the product is taken at 64 bits, and a vector of more
  than \<open>2 ^ 61 - 1\<close> floats throws \<open>std::length_error\<close>.\<close>

definition alloc_tensor :: "nat \<Rightarrow> nat \<Rightarrow> 'a::zero tensor result" where
  "alloc_tensor r c =
     (if r * c mod 2 ^ 64 < 2 ^ 61
      then Inr \<lparr>t_rows = r, t_cols = c, t_data = replicate (r * c mod 2 ^ 64) 0, is_transposed = False\<rparr>
      else Inl Length_error)"

text \<open>\<open>val_of\<close> stands for \<open>static_cast<size_t>(static_cast<float>(n) * val_ratio)\<close>; the difference of the two sizes
  wraps.\<close>

definition train_test_split :: "'g shuffle \<Rightarrow> 'g \<Rightarrow> (nat \<Rightarrow> nat) \<Rightarrow> 'a::zero tensor \<Rightarrow> 'a tensor \<Rightarrow>
    ('a batch \<times> 'a batch) result" where
  "train_test_split shuf g val_of X Y =
     (let total_samples = t_rows X;
          num_features = t_cols X;
          num_targets = t_cols Y;
          val_samples = val_of total_samples;
          train_samples = unat (of_nat total_samples - of_nat val_samples :: u64);
          ixs = fst (shuf [0..<total_samples] g)
      in bind_result (alloc_tensor train_samples num_features) (\<lambda>train_in.
         bind_result (alloc_tensor train_samples num_targets) (\<lambda>train_tgt.
         bind_result (alloc_tensor val_samples num_features) (\<lambda>val_in.
         bind_result (alloc_tensor val_samples num_targets) (\<lambda>val_tgt.
         bind_result (copy_rows X Y ixs num_features num_targets [0..<train_samples] (train_in, train_tgt)) (\<lambda>train.
         bind_result (copy_rows X Y (drop train_samples ixs) num_features num_targets [0..<val_samples] (val_in, val_tgt)) (\<lambda>val.
           Inr (train, val))))))))"

definition calculate_accuracy :: "(nat \<Rightarrow> 'a) \<Rightarrow> 'a tensor \<Rightarrow> 'a tensor \<Rightarrow> 'a::{ord,zero,one,times,inverse} \<Rightarrow> 'a result" where
  "calculate_accuracy of_size pred target threshold =
     bind_result
       (fold_result (\<lambda>i correct.
          bind_result (at_elem pred i 0) (\<lambda>p.
          bind_result (at_elem target i 0) (\<lambda>actual_class.
            let predicted_class = if p \<ge> threshold then 1 else 0
            in Inr (if predicted_class = actual_class then correct + 1 else correct))))
        [0..<t_rows pred] 0)
       (\<lambda>correct. Inr (of_size correct / of_size (t_rows pred) * of_size 100))"


subsection \<open>Rows\<close>

definition row :: "'a tensor \<Rightarrow> nat \<Rightarrow> 'a list" where
  "row t i = map (elem t i) [0..<t_cols t]"

text \<open>The rows of the inputs paired with those of the targets.\<close>

definition samples :: "'a batch \<Rightarrow> ('a list \<times> 'a list) list" where
  "samples b = map (\<lambda>i. (row (fst b) i, row (snd b) i)) [0..<t_rows (fst b)]"

definition plain :: "'a tensor \<Rightarrow> bool" where
  "plain t \<longleftrightarrow> wf_tensor t \<and> \<not> is_transposed t"

lemma plain_new [simp]: "plain (new_tensor r c v)"
  by (simp add: plain_def new_tensor_def wf_tensor_def)

lemma new_tensor_simps [simp]: "t_rows (new_tensor r c v) = r" "t_cols (new_tensor r c v) = c"
  by (simp_all add: new_tensor_def)

lemma fold_result_append: "fold_result f (xs @ ys) s = bind_result (fold_result f xs s) (fold_result f ys)"
  by (induction xs arbitrary: s) (auto simp: bind_result_def split: sum.splits)

lemma copy_row_ok:
  assumes "plain src" "plain dst" "idx < t_rows src" "i < t_rows dst" "t_cols dst = t_cols src"
  shows "n \<le> t_cols src \<Longrightarrow> \<exists>dst'. copy_row src idx n i dst = Inr dst' \<and> plain dst' \<and>
      t_rows dst' = t_rows dst \<and> t_cols dst' = t_cols dst \<and>
      (\<forall>r. \<forall>c < t_cols src. elem dst' r c = (if r = i \<and> c < n then elem src idx c else elem dst r c))"
proof (induction n)
  case (Suc n)
  then obtain d where d: "copy_row src idx n i dst = Inr d" "plain d" "t_rows d = t_rows dst" "t_cols d = t_cols dst"
    "\<forall>r. \<forall>c < t_cols src. elem d r c = (if r = i \<and> c < n then elem src idx c else elem dst r c)"
    by auto
  have "copy_row src idx (Suc n) i dst = Inr (set_elem d i n (elem src idx n))"
    using d Suc.prems assms by (simp add: copy_row_def fold_result_append at_plain set_at_plain plain_def)
  then show ?case
    using d Suc.prems assms by (auto simp: plain_def elem_set_elem less_Suc_eq)
qed (use assms in \<open>simp add: copy_row_def\<close>)

lemma copy_row_all:
  assumes "plain src" "plain dst" "idx < t_rows src" "i < t_rows dst" "t_cols dst = t_cols src"
  obtains dst' where "copy_row src idx (t_cols src) i dst = Inr dst'" "plain dst'"
    "t_rows dst' = t_rows dst" "t_cols dst' = t_cols src" "row dst' i = row src idx" "\<And>r. r \<noteq> i \<Longrightarrow> row dst' r = row dst r"
proof -
  obtain d where d: "copy_row src idx (t_cols src) i dst = Inr d" "plain d" "t_rows d = t_rows dst" "t_cols d = t_cols dst"
    "\<forall>r. \<forall>c < t_cols src. elem d r c = (if r = i \<and> c < t_cols src then elem src idx c else elem dst r c)"
    using copy_row_ok [OF assms order.refl] by auto
  show thesis
    by (rule that [OF d(1,2,3)]) (use d assms(5) in \<open>auto simp: row_def\<close>)
qed

lemma copy_rows_ok:
  assumes "plain X" "plain Y" "plain bi" "plain bt" "t_cols bi = t_cols X" "t_cols bt = t_cols Y"
    and "m \<le> length ixs" "\<And>i. i < m \<Longrightarrow> ixs ! i < t_rows X \<and> ixs ! i < t_rows Y" "m \<le> t_rows bi" "m \<le> t_rows bt"
  shows "\<exists>bi' bt'. copy_rows X Y ixs (t_cols X) (t_cols Y) [0..<m] (bi, bt) = Inr (bi', bt') \<and> plain bi' \<and> plain bt' \<and>
      t_rows bi' = t_rows bi \<and> t_rows bt' = t_rows bt \<and> t_cols bi' = t_cols X \<and> t_cols bt' = t_cols Y \<and>
      (\<forall>i < m. row bi' i = row X (ixs ! i) \<and> row bt' i = row Y (ixs ! i))"
  using assms(7-)
proof (induction m)
  case (Suc m)
  then obtain b c where IH: "copy_rows X Y ixs (t_cols X) (t_cols Y) [0..<m] (bi, bt) = Inr (b, c)" "plain b" "plain c"
    "t_rows b = t_rows bi" "t_rows c = t_rows bt" "t_cols b = t_cols X" "t_cols c = t_cols Y"
    "\<forall>i < m. row b i = row X (ixs ! i) \<and> row c i = row Y (ixs ! i)"
    by (auto simp: less_Suc_eq)
  have ix: "ixs ! m < t_rows X" "ixs ! m < t_rows Y"
    using Suc.prems(2) by auto
  obtain b' where b': "copy_row X (ixs ! m) (t_cols X) m b = Inr b'" "plain b'" "t_rows b' = t_rows b" "t_cols b' = t_cols X"
    "row b' m = row X (ixs ! m)" "\<And>r. r \<noteq> m \<Longrightarrow> row b' r = row b r"
    by (rule copy_row_all [of X b "ixs ! m" m]) (use assms(1) IH ix Suc.prems in auto)
  obtain c' where c': "copy_row Y (ixs ! m) (t_cols Y) m c = Inr c'" "plain c'" "t_rows c' = t_rows c" "t_cols c' = t_cols Y"
    "row c' m = row Y (ixs ! m)" "\<And>r. r \<noteq> m \<Longrightarrow> row c' r = row c r"
    by (rule copy_row_all [of Y c "ixs ! m" m]) (use assms(2) IH ix Suc.prems in auto)
  have "copy_rows X Y ixs (t_cols X) (t_cols Y) [0..<Suc m] (bi, bt) = Inr (b', c')"
    using IH(1) b'(1) c'(1) Suc.prems(1) by (simp add: copy_rows_def fold_result_append)
  then show ?case
    using IH b' c' by (auto simp: less_Suc_eq)
qed (use assms in \<open>auto simp: copy_rows_def\<close>)

text \<open>A batch with the columns of the dataset, both halves in the plain layout.\<close>

definition batch_of :: "'a tensor \<Rightarrow> 'a tensor \<Rightarrow> 'a batch \<Rightarrow> bool" where
  "batch_of X Y b \<longleftrightarrow> plain (fst b) \<and> plain (snd b) \<and> t_cols (fst b) = t_cols X \<and> t_cols (snd b) = t_cols Y"

lemma copy_batch:
  assumes "plain X" "plain Y" "plain bi" "plain bt" "t_cols bi = t_cols X" "t_cols bt = t_cols Y"
    "t_rows bi = m" "t_rows bt = m" "m \<le> length ixs" "\<And>i. i \<in> set ixs \<Longrightarrow> i < t_rows X \<and> i < t_rows Y"
  obtains b where "copy_rows X Y ixs (t_cols X) (t_cols Y) [0..<m] (bi, bt) = Inr b" "t_rows (fst b) = m" "t_rows (snd b) = m"
    "batch_of X Y b" "samples b = map (\<lambda>i. (row X i, row Y i)) (take m ixs)"
proof -
  have "ixs ! i < t_rows X \<and> ixs ! i < t_rows Y" if "i < m" for i
    using assms(9,10) that by simp
  then obtain bi' bt' where *: "copy_rows X Y ixs (t_cols X) (t_cols Y) [0..<m] (bi, bt) = Inr (bi', bt')"
    "t_rows bi' = t_rows bi" "t_rows bt' = t_rows bt" "\<forall>i < m. row bi' i = row X (ixs ! i) \<and> row bt' i = row Y (ixs ! i)"
    "batch_of X Y (bi', bt')"
    unfolding batch_of_def using copy_rows_ok [of X Y bi bt m ixs] assms by auto
  show thesis
    by (rule that [OF *(1)]) (use * assms(7-9) in \<open>auto simp: samples_def intro: nth_equalityI\<close>)
qed

subsection \<open>One pass over the data\<close>

definition loader_ok :: "('a, 'g) loader \<Rightarrow> bool" where
  "loader_ok ld \<longleftrightarrow> plain (inputs ld) \<and> plain (targets ld) \<and> num_samples ld = t_rows (inputs ld) \<and>
     t_rows (targets ld) = num_samples ld \<and> mset (indices ld) = mset [0..<num_samples ld]"

definition sample :: "('a, 'g) loader \<Rightarrow> nat \<Rightarrow> 'a list \<times> 'a list" where
  "sample ld i = (row (inputs ld) i, row (targets ld) i)"

lemma loader_indices:
  assumes "loader_ok ld"
  shows "length (indices ld) = num_samples ld" "i \<in> set (indices ld) \<longleftrightarrow> i < num_samples ld"
proof -
  have m: "mset (indices ld) = mset [0..<num_samples ld]"
    using assms by (simp add: loader_ok_def)
  show "length (indices ld) = num_samples ld"
    using mset_eq_length [OF m] by simp
  show "i \<in> set (indices ld) \<longleftrightarrow> i < num_samples ld"
    using mset_eq_setD [OF m] by simp
qed

lemma loader_ok_update [simp]: "loader_ok (ld\<lparr>current_index := n\<rparr>) = loader_ok ld"
  "sample (ld\<lparr>current_index := n\<rparr>) = sample ld"
  by (simp_all add: loader_ok_def sample_def fun_eq_iff)

lemma next_batch_ok:
  assumes "loader_ok ld" "has_next ld"
  defines "m \<equiv> min (batch_size ld) (num_samples ld - current_index ld)"
  obtains b where "next_batch ld = Inr (Some b, ld\<lparr>current_index := current_index ld + m\<rparr>)"
    "t_rows (fst b) = m" "t_rows (snd b) = m" "batch_of (inputs ld) (targets ld) b"
    "samples b = map (sample ld) (take m (drop (current_index ld) (indices ld)))"
proof -
  have ix: "i < t_rows (inputs ld) \<and> i < t_rows (targets ld)" if "i \<in> set (drop (current_index ld) (indices ld))" for i
    using in_set_dropD [OF that] assms(1) by (simp add: loader_indices) (simp add: loader_ok_def)
  obtain b where b: "copy_rows (inputs ld) (targets ld) (drop (current_index ld) (indices ld)) (t_cols (inputs ld))
      (t_cols (targets ld)) [0..<m] (new_tensor m (t_cols (inputs ld)) 0, new_tensor m (t_cols (targets ld)) 0) = Inr b"
    "t_rows (fst b) = m" "t_rows (snd b) = m" "batch_of (inputs ld) (targets ld) b"
    "samples b = map (\<lambda>i. (row (inputs ld) i, row (targets ld) i)) (take m (drop (current_index ld) (indices ld)))"
    by (rule copy_batch [of "inputs ld" "targets ld" "new_tensor m (t_cols (inputs ld)) 0" "new_tensor m (t_cols (targets ld)) 0"
          m "drop (current_index ld) (indices ld)"])
      (use assms(1) ix in \<open>auto simp: loader_indices loader_ok_def m_def\<close>)
  moreover have "samples b = map (sample ld) (take m (drop (current_index ld) (indices ld)))"
    unfolding b(5) by (rule map_cong) (simp_all add: sample_def)
  moreover have "next_batch ld = Inr (Some b, ld\<lparr>current_index := current_index ld + m\<rparr>)"
    using assms(2) b(1) by (simp add: next_batch_def Let_def m_def)
  ultimately show thesis
    using that by blast
qed

text \<open>The sizes of the batches of a pass: all but the last are full.\<close>

definition batch_sizes_ok :: "nat \<Rightarrow> 'a batch list \<Rightarrow> bool" where
  "batch_sizes_ok n bs \<longleftrightarrow> (\<forall>b \<in> set bs. 0 < t_rows (fst b) \<and> t_rows (fst b) \<le> n \<and> t_rows (snd b) = t_rows (fst b)) \<and>
     (\<forall>b \<in> set (butlast bs). t_rows (fst b) = n)"

lemma batches_ok:
  "loader_ok ld \<Longrightarrow> 0 < batch_size ld \<Longrightarrow> num_samples ld - current_index ld < fuel \<Longrightarrow>
   \<exists>bs. batches fuel ld = Some (Inr (bs, ld\<lparr>current_index := max (current_index ld) (num_samples ld)\<rparr>)) \<and>
     concat (map samples bs) = map (sample ld) (drop (current_index ld) (indices ld)) \<and> batch_sizes_ok (batch_size ld) bs \<and>
     (\<forall>b \<in> set bs. batch_of (inputs ld) (targets ld) b)"
proof (induction fuel arbitrary: ld)
  case (Suc fuel)
  show ?case
  proof (cases "has_next ld")
    case False
    then have "batches (Suc fuel) ld = Some (Inr ([], ld))" "drop (current_index ld) (indices ld) = []"
      using Suc.prems by (simp_all add: next_batch_def has_next_def loader_indices)
    moreover from False have "ld\<lparr>current_index := max (current_index ld) (num_samples ld)\<rparr> = ld"
      by (simp add: has_next_def)
    ultimately show ?thesis
      by (simp add: batch_sizes_ok_def)
  next
    case True
    define m where "m = min (batch_size ld) (num_samples ld - current_index ld)"
    let ?ld = "ld\<lparr>current_index := current_index ld + m\<rparr>"
    obtain b where b: "next_batch ld = Inr (Some b, ?ld)" "t_rows (fst b) = m" "t_rows (snd b) = m"
      "batch_of (inputs ld) (targets ld) b" "samples b = map (sample ld) (take m (drop (current_index ld) (indices ld)))"
      using next_batch_ok [OF Suc.prems(1) True] unfolding m_def by blast
    have m: "0 < m" "m \<le> batch_size ld" "current_index ld + m \<le> num_samples ld"
      using True Suc.prems(2) by (auto simp: m_def has_next_def)
    then have less_fuel: "num_samples ld - (current_index ld + m) < fuel"
      using Suc.prems(3) by linarith
    with m obtain bs where bs: "batches fuel ?ld = Some (Inr (bs, ld\<lparr>current_index := num_samples ld\<rparr>))"
      "concat (map samples bs) = map (sample ld) (drop (current_index ld + m) (indices ld))" "batch_sizes_ok (batch_size ld) bs"
      "\<forall>b \<in> set bs. batch_of (inputs ld) (targets ld) b"
      using Suc.IH [of ?ld] Suc.prems(1-3) less_fuel by (auto simp: max_def)
    have "m = batch_size ld \<or> bs = []"
    proof (cases bs)
      case (Cons c cs)
      then have "samples c \<noteq> []"
        using bs(3) by (auto simp: batch_sizes_ok_def samples_def)
      then have "drop (current_index ld + m) (indices ld) \<noteq> []"
        using bs(2) Cons by auto
      then show ?thesis
        using Suc.prems(1) by (auto simp: loader_indices m_def min_def split: if_splits)
    qed simp
    then have "batch_sizes_ok (batch_size ld) (b # bs)"
      using bs(3) b(2,3) m by (auto simp: batch_sizes_ok_def)
    moreover have "map (sample ld) (drop (current_index ld) (indices ld)) = samples b @ concat (map samples bs)"
      unfolding b(5) bs(2) by (simp add: map_append [symmetric] add.commute [of _ m] drop_drop [symmetric] del: map_append drop_drop)
    moreover have "max (current_index ld) (num_samples ld) = num_samples ld"
      using True by (simp add: has_next_def)
    ultimately show ?thesis
      using b(1,4) bs(1,4) by simp
  qed
qed simp

text \<open>The first batch of a pass and the rest of it.\<close>

lemma batches_cases:
  assumes "batches (Suc fuel) ld = Some (Inr (bs, ld'))"
  obtains (none) "next_batch ld = Inr (None, ld')" "bs = []"
  | (some) b ld1 bs1 where "next_batch ld = Inr (Some b, ld1)" "batches fuel ld1 = Some (Inr (bs1, ld'))" "bs = b # bs1"
proof -
  obtain ob ld1 where n: "next_batch ld = Inr (ob, ld1)"
    using assms by (cases "next_batch ld") auto
  show thesis
  proof (cases ob)
    case None
    then show ?thesis using none n assms by simp
  next
    case (Some b)
    then obtain r where r: "batches fuel ld1 = Some r" "bind_result r (\<lambda>(bs, ld). Inr (b # bs, ld)) = Inr (bs, ld')"
      using n assms by auto
    then show ?thesis using some [of b ld1] n Some by (cases r) auto
  qed
qed

lemma reset_ok:
  assumes "\<And>xs g. mset (fst (shuf xs g)) = mset xs" "loader_ok ld"
  shows "loader_ok (reset shuf ld)" "current_index (reset shuf ld) = 0" "num_samples (reset shuf ld) = num_samples ld"
    "batch_size (reset shuf ld) = batch_size ld" "sample (reset shuf ld) = sample ld" "inputs (reset shuf ld) = inputs ld"
    "targets (reset shuf ld) = targets ld"
  using assms(1) [of "indices ld" "random_engine ld"] assms(2)
  by (auto simp: reset_def loader_ok_def sample_def fun_eq_iff Let_def split: prod.splits)

lemma samples_loader: "loader_ok ld \<Longrightarrow> samples (inputs ld, targets ld) = map (sample ld) [0..<num_samples ld]"
  by (simp add: samples_def sample_def loader_ok_def)

lemma unat_diff_of_nat:
  assumes "v \<le> n" "n < 2 ^ 64"
  shows "unat (of_nat n - of_nat v :: u64) = n - v"
proof -
  have "(of_nat n - of_nat v :: u64) = of_nat (n - v)"
    using assms(1) by (rule of_nat_diff [symmetric])
  moreover have "(n - v) mod 2 ^ 64 = n - v"
    using assms(2) by simp
  ultimately show ?thesis
    by (simp only: unat_of_nat) (simp add: take_bit_eq_mod)
qed

lemma alloc_tensor_ok:
  assumes "r * c < 2 ^ 61"
  shows "alloc_tensor r c = Inr (new_tensor r c 0)"
proof -
  have "r * c mod 2 ^ 64 = r * c"
    using assms by simp
  then show ?thesis
    using assms by (simp add: alloc_tensor_def new_tensor_def)
qed

subsection \<open>Properties\<close>

text \<open>C26: An epoch (\<open>reset\<close>, then \<open>next_batch\<close> until it returns false) ends, and its batches hold every sample,
  inputs with the targets of the same row, exactly once, whatever order \<open>std::shuffle\<close> gives the indices; every
  batch but the last has \<open>batch_size\<close> rows, the last has no more, and none is empty.\<close>
theorem epoch_covers:
  assumes "\<And>xs g. mset (fst (shuf xs g)) = mset xs" "loader_ok ld" "0 < batch_size ld"
  shows "\<exists>bs ld'. batches (Suc (num_samples ld)) (reset shuf ld) = Some (Inr (bs, ld')) \<and>
     mset (concat (map samples bs)) = mset (samples (inputs ld, targets ld)) \<and> batch_sizes_ok (batch_size ld) bs \<and>
     loader_ok ld' \<and> \<not> has_next ld'"
proof -
  let ?ld = "reset shuf ld"
  note r = reset_ok [of shuf ld, OF assms(1,2)]
  obtain bs where bs: "batches (Suc (num_samples ld)) ?ld = Some (Inr (bs, ?ld\<lparr>current_index := num_samples ld\<rparr>))"
    "concat (map samples bs) = map (sample ld) (indices ?ld)" "batch_sizes_ok (batch_size ld) bs"
    using batches_ok [OF r(1), where fuel = "Suc (num_samples ld)"] assms(3) r(2-5) by auto
  have "mset (indices ?ld) = mset [0..<num_samples ld]"
    using r(1,3) by (simp add: loader_ok_def)
  then have "mset (concat (map samples bs)) = mset (samples (inputs ld, targets ld))"
    unfolding bs(2) samples_loader [OF assms(2)] by (metis mset_map)
  then show ?thesis
    using bs(1,3) r by (auto simp: has_next_def)
qed

definition example_data :: "int tensor" where
  "example_data = \<lparr>t_rows = 3, t_cols = 2, t_data = [1, 2, 3, 4, 5, 6], is_transposed = False\<rparr>"

definition example_loader :: "(int, unit) loader" where
  "example_loader = \<lparr>inputs = example_data, targets = example_data, batch_size = 2, shuffle_on = True,
     num_samples = 3, current_index = 0, indices = [0, 1, 2], random_engine = ()\<rparr>"

theorem epoch_covers_witness:
  "\<exists>bs ld'. batches 4 (reset (\<lambda>xs g. (rev xs, g)) example_loader) = Some (Inr (bs, ld')) \<and>
     mset (concat (map samples bs)) = mset (samples (example_data, example_data)) \<and> batch_sizes_ok 2 bs \<and>
     loader_ok ld' \<and> \<not> has_next ld'"
proof -
  have "loader_ok example_loader" "num_samples example_loader = 3" "batch_size example_loader = 2"
    "inputs example_loader = example_data" "targets example_loader = example_data"
    by (simp_all add: loader_ok_def example_loader_def example_data_def plain_def wf_tensor_def upt_rec)
  then show ?thesis
    using epoch_covers [of "\<lambda>xs g. (rev xs, g)" example_loader] by simp
qed

text \<open>With a batch size of zero \<open>next_batch\<close> succeeds for ever: the loop of an epoch over a dataset that is
  not empty never ends.\<close>
theorem zero_batch_never_ends:
  assumes "batch_size ld = 0" "has_next ld"
  shows "batches fuel ld = None"
proof -
  have "next_batch ld = Inr (Some (new_tensor 0 (t_cols (inputs ld)) 0, new_tensor 0 (t_cols (targets ld)) 0), ld)"
    using assms by (simp add: next_batch_def copy_rows_def Let_def)
  then show ?thesis
    by (induction fuel) simp_all
qed

theorem zero_batch_never_ends_witness: "batches 1000 (example_loader\<lparr>batch_size := 0\<rparr>) = None"
  by (rule zero_batch_never_ends) (simp_all add: example_loader_def has_next_def)

text \<open>\<open>train_test_split\<close> with a validation size of at most all samples gives two datasets of the sizes asked
  for that together hold every sample exactly once.\<close>
theorem split_partitions:
  assumes "mset (fst (shuf [0..<t_rows X] g)) = mset [0..<t_rows X]" "plain X" "plain Y" "t_rows Y = t_rows X"
    "t_rows X < 2 ^ 64" "t_rows X * t_cols X < 2 ^ 61" "t_rows X * t_cols Y < 2 ^ 61" "val_of (t_rows X) \<le> t_rows X"
  shows "\<exists>train val. train_test_split shuf g val_of X Y = Inr (train, val) \<and>
     t_rows (fst train) = t_rows X - val_of (t_rows X) \<and> t_rows (fst val) = val_of (t_rows X) \<and>
     mset (samples train @ samples val) = mset (samples (X, Y))"
proof -
  define n where "n = t_rows X"
  define v where "v = val_of n"
  define k where "k = n - v"
  have kv: "v \<le> n" "k \<le> n" "k + v = n"
    using assms(8) by (simp_all add: n_def v_def k_def)
  have k: "unat (of_nat n - of_nat v :: u64) = k"
    unfolding k_def
    by (rule unat_diff_of_nat) (use assms(5) kv in \<open>simp_all add: n_def [symmetric]\<close>)
  define ixs where "ixs = fst (shuf [0..<n] g)"
  have ixs: "mset ixs = mset [0..<n]"
    using assms(1) by (simp add: ixs_def n_def)
  have ix: "length ixs = n" "\<And>i. i \<in> set ixs \<Longrightarrow> i < t_rows X \<and> i < t_rows Y"
    using mset_eq_length [OF ixs] mset_eq_setD [OF ixs] assms(4) by (simp_all add: n_def)
  have le: "m * t_cols X < 2 ^ 61" "m * t_cols Y < 2 ^ 61" if "m \<le> n" for m
    using le_less_trans [OF mult_le_mono1 [OF that]] assms(6,7) unfolding n_def by blast+
  obtain train where train: "copy_rows X Y ixs (t_cols X) (t_cols Y) [0..<k] (new_tensor k (t_cols X) 0, new_tensor k (t_cols Y) 0) = Inr train"
    "t_rows (fst train) = k" "samples train = map (\<lambda>i. (row X i, row Y i)) (take k ixs)"
    by (rule copy_batch [of X Y "new_tensor k (t_cols X) 0" "new_tensor k (t_cols Y) 0" k ixs]) (use assms(2,3) ix kv in auto)
  have dix: "\<And>i. i \<in> set (drop k ixs) \<Longrightarrow> i < t_rows X \<and> i < t_rows Y"
    using ix(2) in_set_dropD by metis
  obtain val where val: "copy_rows X Y (drop k ixs) (t_cols X) (t_cols Y) [0..<v] (new_tensor v (t_cols X) 0, new_tensor v (t_cols Y) 0) = Inr val"
    "t_rows (fst val) = v" "samples val = map (\<lambda>i. (row X i, row Y i)) (take v (drop k ixs))"
    by (rule copy_batch [of X Y "new_tensor v (t_cols X) 0" "new_tensor v (t_cols Y) 0" v "drop k ixs"])
      (use assms(2,3) ix dix kv in auto)
  have "samples train @ samples val = map (\<lambda>i. (row X i, row Y i)) ixs"
    unfolding train(3) val(3) using ix(1) kv by (simp add: map_append [symmetric] del: map_append)
  then have "mset (samples train @ samples val) = mset (samples (X, Y))"
    using arg_cong [OF ixs, of "image_mset (\<lambda>i. (row X i, row Y i))"]
    unfolding mset_map [symmetric] by (simp only: samples_def fst_conv snd_conv n_def)
  moreover have "train_test_split shuf g val_of X Y = Inr (train, val)"
    unfolding train_test_split_def Let_def n_def [symmetric] v_def [symmetric] ixs_def [symmetric] k
    using train(1) val(1) le [OF kv(1)] le [OF kv(2)] by (simp add: alloc_tensor_ok)
  ultimately show ?thesis
    using train(2) val(2) by (simp add: n_def v_def k_def)
qed

theorem split_partitions_witness:
  "\<exists>train val. train_test_split (\<lambda>xs g. (rev xs, g)) () (\<lambda>n. n div 2) example_data example_data = Inr (train, val) \<and>
     t_rows (fst train) = 2 \<and> t_rows (fst val) = 1 \<and> mset (samples train @ samples val) = mset (samples (example_data, example_data))"
  using split_partitions [of "\<lambda>xs g. (rev xs, g)" example_data "()" example_data "\<lambda>n. n div 2"]
  by (simp add: example_data_def plain_def wf_tensor_def)

end
