(* ===== verification/Ml_Layers.thy ===== *)
theory Ml_Layers
  imports Data_Loader
begin

text \<open>
  The layers, losses and optimizers of \<open>MachineLearning/include\<close> (\<open>DenseLayer.h\<close>, \<open>ReLULayer.h\<close>,
  \<open>SigmoidLayer.h\<close>, \<open>LeakyReLULayer.h\<close>, \<open>Sequential.h\<close>, \<open>Loss.h\<close>, \<open>Optimizer.h\<close>, \<open>AdamOptimizer.h\<close>)
  over an element type with the operations the code applies to \<open>float\<close>; the functions of the
  mathematical library and the constants that are no integers are the fields of \<open>float_ops\<close>.  The
  OpenMP loops are run by one thread, in the order of their indices; \<open>Ml_Train\<close> looks at the one loop
  for which that is not the same.
\<close>

subsection \<open>Arithmetic\<close>

record 'a float_ops =
  f_sigmoid :: "'a \<Rightarrow> 'a"
  f_sqrt :: "'a \<Rightarrow> 'a"
  f_log :: "'a \<Rightarrow> 'a"
  f_pow :: "'a \<Rightarrow> int \<Rightarrow> 'a"
  of_size :: "nat \<Rightarrow> 'a"
  leak :: 'a
  bce_epsilon :: 'a

subsection \<open>The dense layer\<close>

record 'a dense =
  weights :: "'a tensor"
  bias :: "'a tensor"
  input_cache :: "'a tensor"
  d_weights :: "'a tensor"
  d_bias :: "'a tensor"
  m_w :: "'a tensor"
  v_w :: "'a tensor"
  m_b :: "'a tensor"
  v_b :: "'a tensor"
  adam_initialized :: bool

text \<open>The constructor, with the values the initializer draws (Xavier for \<open>sigmoid\<close>, Kaiming otherwise) as
  arguments.\<close>

definition init_weights :: "(nat \<Rightarrow> nat \<Rightarrow> 'a) \<Rightarrow> 'a tensor \<Rightarrow> 'a tensor result" where
  "init_weights draw w = loop2 (t_rows w) (t_cols w) (\<lambda>i j w. set_at w i j (draw i j)) w"

definition new_dense :: "(nat \<Rightarrow> nat \<Rightarrow> 'a) \<Rightarrow> (nat \<Rightarrow> nat \<Rightarrow> 'a) \<Rightarrow> nat \<Rightarrow> nat \<Rightarrow> string \<Rightarrow> 'a::zero dense result" where
  "new_dense xavier kaiming in_features out_features activation_hint =
     bind_result (init_weights (if activation_hint = ''sigmoid'' then xavier else kaiming) (new_tensor in_features out_features 0)) (\<lambda>w.
     bind_result (fold_result (\<lambda>j b. set_at b 0 j 0) [0..<out_features] (new_tensor 1 out_features 0)) (\<lambda>b.
       Inr \<lparr>weights = w, bias = b, input_cache = new_tensor 0 0 0, d_weights = new_tensor in_features out_features 0,
         d_bias = new_tensor 1 out_features 0, m_w = new_tensor 0 0 0, v_w = new_tensor 0 0 0, m_b = new_tensor 0 0 0,
         v_b = new_tensor 0 0 0, adam_initialized = False\<rparr>))"

definition init_adam_states :: "'a::zero dense \<Rightarrow> 'a dense" where
  "init_adam_states d =
     (if \<not> adam_initialized d then
        d\<lparr>m_w := new_tensor (t_rows (weights d)) (t_cols (weights d)) 0, v_w := new_tensor (t_rows (weights d)) (t_cols (weights d)) 0,
          m_b := new_tensor 1 (t_cols (bias d)) 0, v_b := new_tensor 1 (t_cols (bias d)) 0, adam_initialized := True\<rparr>
      else d)"

definition dense_zero_gradients :: "'a::zero dense \<Rightarrow> 'a dense" where
  "dense_zero_gradients d = d\<lparr>d_weights := fill_zero (d_weights d), d_bias := fill_zero (d_bias d)\<rparr>"

definition add_bias :: "'a::plus tensor \<Rightarrow> 'a tensor \<Rightarrow> 'a tensor result" where
  "add_bias b out = loop2 (t_rows out) (t_cols out) (\<lambda>i j out.
     bind_result (at_elem b 0 j) (\<lambda>y. bind_result (at_elem out i j) (\<lambda>x. set_at out i j (x + y)))) out"

definition dense_forward :: "'a::{zero,plus,times} dense \<Rightarrow> 'a tensor \<Rightarrow> ('a tensor \<times> 'a dense) result" where
  "dense_forward d input =
     (let d = d\<lparr>input_cache := input\<rparr> in
      bind_result (matmul input (weights d)) (\<lambda>output.
      bind_result (add_bias (bias d) output) (\<lambda>output. Inr (output, d))))"

text \<open>\<open>for i, j: dst.at(i, j) = f (dst.at(i, j)) (src.at(i, j))\<close>: the accumulation of the gradient of the weights
  and the update of the weights.\<close>

definition combine_into :: "('a \<Rightarrow> 'a \<Rightarrow> 'a) \<Rightarrow> 'a tensor \<Rightarrow> 'a tensor \<Rightarrow> 'a tensor result" where
  "combine_into f src dst = loop2 (t_rows dst) (t_cols dst) (\<lambda>i j dst.
     bind_result (at_elem src i j) (\<lambda>y. bind_result (at_elem dst i j) (\<lambda>x. set_at dst i j (f x y)))) dst"

definition sum_rows_into :: "'a::plus tensor \<Rightarrow> 'a tensor \<Rightarrow> 'a tensor result" where
  "sum_rows_into g db = loop2 (t_rows g) (t_cols g) (\<lambda>i j db.
     bind_result (at_elem g i j) (\<lambda>y. bind_result (at_elem db 0 j) (\<lambda>x. set_at db 0 j (x + y)))) db"

definition dense_backward :: "'a::{zero,plus,times} dense \<Rightarrow> 'a tensor \<Rightarrow> ('a tensor \<times> 'a dense) result" where
  "dense_backward d incoming_gradient =
     (let input_T = transpose_view (input_cache d) in
      bind_result (matmul input_T incoming_gradient) (\<lambda>current_d_weights.
      bind_result (combine_into (+) current_d_weights (d_weights d)) (\<lambda>dw.
      bind_result (sum_rows_into incoming_gradient (d_bias d)) (\<lambda>db.
      let weights_T = transpose_view (weights d) in
      bind_result (matmul incoming_gradient weights_T) (\<lambda>d_input.
        Inr (d_input, d\<lparr>d_weights := dw, d_bias := db\<rparr>))))))"

definition dense_update :: "'a::{minus,times} \<Rightarrow> 'a dense \<Rightarrow> 'a dense result" where
  "dense_update learning_rate d =
     bind_result (combine_into (\<lambda>w dw. w - learning_rate * dw) (d_weights d) (weights d)) (\<lambda>w.
     bind_result
       (fold_result (\<lambda>j b. bind_result (at_elem (d_bias d) 0 j) (\<lambda>y. bind_result (at_elem b 0 j) (\<lambda>x. set_at b 0 j (x - learning_rate * y))))
         [0..<t_cols (bias d)] (bias d))
       (\<lambda>b. Inr (d\<lparr>weights := w, bias := b\<rparr>)))"

subsection \<open>Layers\<close>

text \<open>The other layers keep one tensor: its output for \<open>ReLULayer\<close> and \<open>SigmoidLayer\<close>, its input for
  \<open>LeakyReLULayer\<close>.\<close>

datatype 'a layer = Dense (dense_of: "'a dense") | ReLU "'a tensor" | Sigmoid "'a tensor" | LeakyReLU "'a tensor"

definition leaky_forward :: "'a float_ops \<Rightarrow> 'a::{zero,ord,times} tensor \<Rightarrow> 'a tensor result" where
  "leaky_forward ops input = loop2 (t_rows input) (t_cols input) (\<lambda>i j result.
     bind_result (at_elem input i j) (\<lambda>x. set_at result i j (if x > 0 then x else leak ops * x)))
     (new_tensor (t_rows input) (t_cols input) 0)"

definition leaky_backward :: "'a float_ops \<Rightarrow> 'a tensor \<Rightarrow> 'a::{zero,one,ord,times} tensor \<Rightarrow> 'a tensor result" where
  "leaky_backward ops cache g = loop2 (t_rows cache) (t_cols cache) (\<lambda>i j d_input.
     bind_result (at_elem cache i j) (\<lambda>x.
     let local_grad = if x > 0 then 1 else leak ops in
     bind_result (at_elem g i j) (\<lambda>y. set_at d_input i j (y * local_grad))))
     (new_tensor (t_rows cache) (t_cols cache) 0)"

fun layer_forward :: "'a float_ops \<Rightarrow> 'a::{zero,plus,times,ord} layer \<Rightarrow> 'a tensor \<Rightarrow> ('a tensor \<times> 'a layer) result" where
  "layer_forward ops (Dense d) x = bind_result (dense_forward d x) (\<lambda>(y, d). Inr (y, Dense d))"
| "layer_forward ops (ReLU cache) x = (let y = relu x in Inr (y, ReLU y))"
| "layer_forward ops (Sigmoid cache) x = (let y = sigmoid (f_sigmoid ops) x in Inr (y, Sigmoid y))"
| "layer_forward ops (LeakyReLU cache) x = bind_result (leaky_forward ops x) (\<lambda>y. Inr (y, LeakyReLU x))"

fun layer_backward :: "'a float_ops \<Rightarrow> 'a::{zero,one,plus,minus,times,ord} layer \<Rightarrow> 'a tensor \<Rightarrow> ('a tensor \<times> 'a layer) result" where
  "layer_backward ops (Dense d) g = bind_result (dense_backward d g) (\<lambda>(y, d). Inr (y, Dense d))"
| "layer_backward ops (ReLU cache) g = bind_result (relu_backward cache g) (\<lambda>y. Inr (y, ReLU cache))"
| "layer_backward ops (Sigmoid cache) g = bind_result (sigmoid_backward (f_sigmoid ops) cache g) (\<lambda>y. Inr (y, Sigmoid cache))"
| "layer_backward ops (LeakyReLU cache) g = bind_result (leaky_backward ops cache g) (\<lambda>y. Inr (y, LeakyReLU cache))"

fun zero_gradients :: "'a::zero layer \<Rightarrow> 'a layer" where
  "zero_gradients (Dense d) = Dense (dense_zero_gradients d)"
| "zero_gradients l = l"

fun update_parameters :: "'a::{minus,times} \<Rightarrow> 'a layer \<Rightarrow> 'a layer result" where
  "update_parameters lr (Dense d) = bind_result (dense_update lr d) (\<lambda>d. Inr (Dense d))"
| "update_parameters lr l = Inr l"

subsection \<open>Sequential models\<close>

fun seq_forward :: "'a float_ops \<Rightarrow> 'a::{zero,plus,times,ord} layer list \<Rightarrow> 'a tensor \<Rightarrow> ('a tensor \<times> 'a layer list) result" where
  "seq_forward ops [] x = Inr (x, [])"
| "seq_forward ops (l # ls) x =
     bind_result (layer_forward ops l x) (\<lambda>(y, l).
     bind_result (seq_forward ops ls y) (\<lambda>(z, ls). Inr (z, l # ls)))"

text \<open>The reverse iteration: the last layer first.\<close>

fun seq_backward :: "'a float_ops \<Rightarrow> 'a::{zero,one,plus,minus,times,ord} layer list \<Rightarrow> 'a tensor \<Rightarrow> ('a tensor \<times> 'a layer list) result" where
  "seq_backward ops [] g = Inr (g, [])"
| "seq_backward ops (l # ls) g =
     bind_result (seq_backward ops ls g) (\<lambda>(g, ls).
     bind_result (layer_backward ops l g) (\<lambda>(g, l). Inr (g, l # ls)))"

definition zero_grad :: "'a::zero layer list \<Rightarrow> 'a layer list" where
  "zero_grad ls = map zero_gradients ls"

fun map_result :: "('a \<Rightarrow> 'b result) \<Rightarrow> 'a list \<Rightarrow> 'b list result" where
  "map_result f [] = Inr []"
| "map_result f (x # xs) = bind_result (f x) (\<lambda>y. bind_result (map_result f xs) (\<lambda>ys. Inr (y # ys)))"

definition sgd_step :: "'a::{minus,times} \<Rightarrow> 'a layer list \<Rightarrow> 'a layer list result" where
  "sgd_step learning_rate ls = map_result (update_parameters learning_rate) ls"

subsection \<open>Adam\<close>

record 'a adam =
  learning_rate :: 'a
  beta1 :: 'a
  beta2 :: 'a
  adam_epsilon :: 'a
  time_step :: int

definition new_adam :: "'a \<Rightarrow> 'a \<Rightarrow> 'a \<Rightarrow> 'a \<Rightarrow> 'a adam" where
  "new_adam lr b1 b2 eps = \<lparr>learning_rate = lr, beta1 = b1, beta2 = b2, adam_epsilon = eps, time_step = 0\<rparr>"

text \<open>The body of the two loops for the element \<open>(i, j)\<close> of a parameter, its gradient and its moments.\<close>

definition adam_element :: "'a float_ops \<Rightarrow> 'a adam \<Rightarrow> 'a tensor \<Rightarrow> nat \<Rightarrow> nat \<Rightarrow>
    'a::{zero,one,plus,minus,times,inverse} tensor \<times> 'a tensor \<times> 'a tensor \<Rightarrow> ('a tensor \<times> 'a tensor \<times> 'a tensor) result" where
  "adam_element ops opt dW i j = (\<lambda>(W, m, v).
     let correction1 = 1 - f_pow ops (beta1 opt) (time_step opt);
         correction2 = 1 - f_pow ops (beta2 opt) (time_step opt)
     in bind_result (at_elem dW i j) (\<lambda>dw.
        bind_result (at_elem m i j) (\<lambda>m0.
        bind_result (set_at m i j (beta1 opt * m0 + (1 - beta1 opt) * dw)) (\<lambda>m.
        bind_result (at_elem v i j) (\<lambda>v0.
        bind_result (set_at v i j (beta2 opt * v0 + (1 - beta2 opt) * dw * dw)) (\<lambda>v.
        bind_result (at_elem m i j) (\<lambda>m1.
        bind_result (at_elem v i j) (\<lambda>v1.
        let m_hat = m1 / correction1; v_hat = v1 / correction2 in
        bind_result (at_elem W i j) (\<lambda>w.
        bind_result (set_at W i j (w - (learning_rate opt / (f_sqrt ops v_hat + adam_epsilon opt)) * m_hat)) (\<lambda>W.
          Inr (W, m, v)))))))))))"

definition adam_dense :: "'a float_ops \<Rightarrow> 'a adam \<Rightarrow> 'a::{zero,one,plus,minus,times,inverse} dense \<Rightarrow> 'a dense result" where
  "adam_dense ops opt d =
     (let d = init_adam_states d in
      bind_result (loop2 (t_rows (weights d)) (t_cols (weights d)) (adam_element ops opt (d_weights d)) (weights d, m_w d, v_w d)) (\<lambda>(w, mw, vw).
      bind_result (fold_result (adam_element ops opt (d_bias d) 0) [0..<t_cols (bias d)] (bias d, m_b d, v_b d)) (\<lambda>(b, mb, vb).
        Inr (d\<lparr>weights := w, m_w := mw, v_w := vw, bias := b, m_b := mb, v_b := vb\<rparr>))))"

fun adam_layer :: "'a float_ops \<Rightarrow> 'a adam \<Rightarrow> 'a::{zero,one,plus,minus,times,inverse} layer \<Rightarrow> 'a layer result" where
  "adam_layer ops opt (Dense d) = bind_result (adam_dense ops opt d) (\<lambda>d. Inr (Dense d))"
| "adam_layer ops opt l = Inr l"

definition adam_step :: "'a float_ops \<Rightarrow> 'a adam \<Rightarrow> 'a::{zero,one,plus,minus,times,inverse} layer list \<Rightarrow> ('a adam \<times> 'a layer list) result" where
  "adam_step ops opt ls =
     (let opt = (if time_step opt < 200 then opt\<lparr>time_step := time_step opt + 1\<rparr> else opt) in
      bind_result (map_result (adam_layer ops opt) ls) (\<lambda>ls. Inr (opt, ls)))"

subsection \<open>Losses\<close>

definition mse_forward :: "'a float_ops \<Rightarrow> 'a tensor \<Rightarrow> 'a::{zero,plus,minus,times,inverse} tensor \<Rightarrow> 'a result" where
  "mse_forward ops pred target =
     (if t_rows pred \<noteq> t_rows target \<or> t_cols pred \<noteq> t_cols target then Inl Invalid_argument
      else bind_result
        (loop2 (t_rows pred) (t_cols pred) (\<lambda>i j total_loss.
           bind_result (at_elem pred i j) (\<lambda>p. bind_result (at_elem target i j) (\<lambda>t.
             let diff = p - t in Inr (total_loss + diff * diff)))) 0)
        (\<lambda>total_loss. Inr (total_loss / of_size ops (t_rows pred * t_cols pred))))"

definition mse_backward :: "'a float_ops \<Rightarrow> 'a tensor \<Rightarrow> 'a::{zero,one,plus,minus,times,inverse} tensor \<Rightarrow> 'a tensor result" where
  "mse_backward ops pred target =
     (let n = t_rows pred * t_cols pred in
      loop2 (t_rows pred) (t_cols pred) (\<lambda>i j gradient.
        bind_result (at_elem pred i j) (\<lambda>p. bind_result (at_elem target i j) (\<lambda>t.
          set_at gradient i j ((of_size ops 2 / of_size ops n) * (p - t)))))
        (new_tensor (t_rows pred) (t_cols pred) 0))"

text \<open>The clipping of \<open>BCELoss\<close>: two tests one after the other.\<close>

definition clip :: "'a float_ops \<Rightarrow> 'a::{one,minus,ord} \<Rightarrow> 'a" where
  "clip ops p =
     (let p = (if p < bce_epsilon ops then bce_epsilon ops else p)
      in if p > 1 - bce_epsilon ops then 1 - bce_epsilon ops else p)"

definition bce_forward :: "'a float_ops \<Rightarrow> 'a tensor \<Rightarrow> 'a::{zero,one,plus,minus,uminus,times,inverse,ord} tensor \<Rightarrow> 'a result" where
  "bce_forward ops pred target =
     bind_result
       (loop2 (t_rows pred) (t_cols pred) (\<lambda>i j total_loss.
          bind_result (at_elem pred i j) (\<lambda>p. bind_result (at_elem target i j) (\<lambda>t.
            let p = clip ops p in Inr (total_loss + - (t * f_log ops p + (1 - t) * f_log ops (1 - p)))))) 0)
       (\<lambda>total_loss. Inr (total_loss / of_size ops (t_rows pred * t_cols pred)))"

definition bce_backward :: "'a float_ops \<Rightarrow> 'a tensor \<Rightarrow> 'a::{zero,one,plus,minus,times,inverse,ord} tensor \<Rightarrow> 'a tensor result" where
  "bce_backward ops pred target =
     (let n = of_size ops (t_rows pred * t_cols pred) in
      loop2 (t_rows pred) (t_cols pred) (\<lambda>i j loss_grad.
        bind_result (at_elem pred i j) (\<lambda>p. bind_result (at_elem target i j) (\<lambda>t.
          let p = clip ops p in set_at loss_grad i j (((p - t) / (p * (1 - p))) / n))))
        (new_tensor (t_rows pred) (t_cols pred) 0))"

subsection \<open>Loops over tensors of one shape\<close>

definition shaped :: "nat \<Rightarrow> nat \<Rightarrow> 'a tensor \<Rightarrow> bool" where
  "shaped m n t \<longleftrightarrow> plain t \<and> t_rows t = m \<and> t_cols t = n"

lemma shaped_new [simp]: "shaped m n (new_tensor m n v)"
  by (simp add: shaped_def)

lemma at_shaped: "shaped m n t \<Longrightarrow> i < m \<Longrightarrow> j < n \<Longrightarrow> at_elem t i j = Inr (elem t i j)"
  by (simp add: shaped_def plain_def at_plain)

lemma set_at_shaped: "shaped m n t \<Longrightarrow> i < m \<Longrightarrow> j < n \<Longrightarrow> set_at t i j v = Inr (set_elem t i j v)"
  by (simp add: shaped_def plain_def set_at_plain)

lemma shaped_set_elem [simp]: "shaped m n (set_elem t i j v) = shaped m n t"
  by (simp add: shaped_def plain_def)

lemma shaped_dims: "shaped m n t \<Longrightarrow> t_rows t = m" "shaped m n t \<Longrightarrow> t_cols t = n"
  by (simp_all add: shaped_def)

lemma fold_result_ok:
  assumes "\<And>x s. x \<in> set xs \<Longrightarrow> ok s \<Longrightarrow> \<exists>s'. f x s = Inr s' \<and> ok s'"
  shows "ok s \<Longrightarrow> \<exists>s'. fold_result f xs s = Inr s' \<and> ok s'"
  using assms
proof (induction xs arbitrary: s)
  case (Cons x xs)
  obtain s1 where "f x s = Inr s1" "ok s1"
    using Cons.prems(1) Cons.prems(2) [of x s] by auto
  then show ?case
    using Cons.IH [of s1] Cons.prems(2) by auto
qed simp

lemma loop2_ok:
  assumes "\<And>i j s. i < m \<Longrightarrow> j < n \<Longrightarrow> ok s \<Longrightarrow> \<exists>s'. body i j s = Inr s' \<and> ok s'" "ok s"
  shows "\<exists>s'. loop2 m n body s = Inr s' \<and> ok s'"
  unfolding loop2_def by (rule fold_result_ok) (use assms in \<open>auto intro!: fold_result_ok [where ok = ok]\<close>)

lemma shaped_data:
  assumes "shaped m n t"
  shows "shaped m n (t\<lparr>t_data := res\<rparr>) \<longleftrightarrow> length res = m * n" "elem (t\<lparr>t_data := res\<rparr>) i j = res ! (i * n + j)"
    "set_elem (t\<lparr>t_data := res\<rparr>) i j v = t\<lparr>t_data := res[i * n + j := v]\<rparr>" "cells m n (t_data t) (elem t)"
  using assms by (simp_all add: shaped_def plain_def wf_tensor_def elem_def set_elem_def place_def cells_def)

lemma tensor_loop:
  assumes "shaped m n dst"
    and "\<And>i j u. i < m \<Longrightarrow> j < n \<Longrightarrow> shaped m n u \<Longrightarrow> body i j u = Inr (set_elem u i j (v i j (elem u i j)))"
  obtains dst' where "loop2 m n body dst = Inr dst'" "shaped m n dst'"
    "\<And>i j. i < m \<Longrightarrow> j < n \<Longrightarrow> elem dst' i j = v i j (elem dst i j)"
proof -
  note sd = shaped_data [OF assms(1)]
  have "\<exists>res. loop2 m n body (dst\<lparr>t_data := t_data dst\<rparr>) = Inr (dst\<lparr>t_data := res\<rparr>) \<and> cells m n res (\<lambda>i j. v i j (elem dst i j))"
    by (rule loop2_assign [where h = "\<lambda>res. dst\<lparr>t_data := res\<rparr>"]) (simp_all add: sd assms(2))
  then obtain res where "loop2 m n body dst = Inr (dst\<lparr>t_data := res\<rparr>)" "cells m n res (\<lambda>i j. v i j (elem dst i j))"
    by auto
  then show thesis
    by (intro that) (auto simp: sd cells_def)
qed

text \<open>The loop that adds all rows up in row 0.\<close>

lemma sum_rows_loop:
  assumes "shaped 1 n db"
    and "\<And>i j u. i < m \<Longrightarrow> j < n \<Longrightarrow> shaped 1 n u \<Longrightarrow> body i j u = Inr (set_elem u 0 j (v i j (elem u 0 j)))"
  obtains db' where "loop2 m n body db = Inr db'" "shaped 1 n db'"
    "\<And>j. j < n \<Longrightarrow> elem db' 0 j = fold (\<lambda>i. v i j) [0..<m] (elem db 0 j)"
proof -
  note sd = shaped_data [OF assms(1)]
  let ?h = "\<lambda>res. db\<lparr>t_data := res\<rparr>"
  let ?row = "\<lambda>i. fold (\<lambda>j res. res[0 * n + j := v i j (res ! (0 * n + j))]) [0..<n]"
  have row: "fold_result (body i) [0..<n] (?h res) = Inr (?h (?row i res)) \<and> length (?row i res) = n"
    if "i < m" "length res = n" for i res
    using that(2)
    by (intro fold_result_pure [where ok = "\<lambda>res. length res = n"])
      (use that sd in \<open>simp_all add: assms(2)\<close>)
  have len: "length (t_data db) = n"
    using sd(4) by (simp add: cells_def)
  have "fold_result (\<lambda>i. fold_result (body i) [0..<n]) [0..<m] (?h (t_data db)) =
      Inr (?h (fold ?row [0..<m] (t_data db))) \<and> length (fold ?row [0..<m] (t_data db)) = n"
    by (rule fold_result_pure [where ok = "\<lambda>res. length res = n" and g = ?row and h = ?h, OF _ len]) (use row in auto)
  moreover have "cells 1 n (fold ?row [0..<m] (t_data db)) (\<lambda>r c. if r = 0 then fold (\<lambda>i. v i c) [0..<m] (elem db r c) else elem db r c)"
    using inner_loop [OF sd(4), of 0 v] by simp
  ultimately show thesis
    by (intro that [of "?h (fold ?row [0..<m] (t_data db))"]) (auto simp: loop2_def sd [unfolded One_nat_def] cells_def)
qed

subsection \<open>The dense layer on matching shapes\<close>

lemma matmul_shaped:
  assumes "t_rows t = m" "t_cols t = l" "t_rows u = l" "t_cols u = n"
  obtains p where "matmul t u = Inr p" "shaped m n p" "\<And>i j. i < m \<Longrightarrow> j < n \<Longrightarrow> elem p i j = dot t u i j"
  using matmul_ok [of t u] assms by (metis shaped_def plain_def)

lemma add_bias_ok:
  assumes "shaped m n out" "shaped 1 n b"
  obtains out' where "add_bias b out = Inr out'" "shaped m n out'" "\<And>i j. i < m \<Longrightarrow> j < n \<Longrightarrow> elem out' i j = elem out i j + elem b 0 j"
proof (rule tensor_loop [OF assms(1), where v = "\<lambda>i j x. x + elem b 0 j" and
      body = "\<lambda>i j out. bind_result (at_elem b 0 j) (\<lambda>y. bind_result (at_elem out i j) (\<lambda>x. set_at out i j (x + y)))"])
  fix w assume "loop2 m n (\<lambda>i j out. bind_result (at_elem b 0 j) (\<lambda>y. bind_result (at_elem out i j) (\<lambda>x. set_at out i j (x + y)))) out = Inr w" "shaped m n w"
    "\<And>i j. i < m \<Longrightarrow> j < n \<Longrightarrow> elem w i j = elem out i j + elem b 0 j"
  with assms show thesis
    by (intro that [of w]) (simp_all add: add_bias_def shaped_dims)
qed (use assms in \<open>simp_all add: at_shaped set_at_shaped\<close>)

lemma combine_into_ok:
  assumes "shaped m n src" "shaped m n dst"
  obtains dst' where "combine_into f src dst = Inr dst'" "shaped m n dst'"
    "\<And>i j. i < m \<Longrightarrow> j < n \<Longrightarrow> elem dst' i j = f (elem dst i j) (elem src i j)"
proof (rule tensor_loop [OF assms(2), where v = "\<lambda>i j x. f x (elem src i j)" and
      body = "\<lambda>i j dst. bind_result (at_elem src i j) (\<lambda>y. bind_result (at_elem dst i j) (\<lambda>x. set_at dst i j (f x y)))"])
  fix w assume "loop2 m n (\<lambda>i j dst. bind_result (at_elem src i j) (\<lambda>y. bind_result (at_elem dst i j) (\<lambda>x. set_at dst i j (f x y)))) dst = Inr w" "shaped m n w"
    "\<And>i j. i < m \<Longrightarrow> j < n \<Longrightarrow> elem w i j = f (elem dst i j) (elem src i j)"
  with assms show thesis
    by (intro that [of w]) (simp_all add: combine_into_def shaped_dims)
qed (use assms in \<open>simp_all add: at_shaped set_at_shaped\<close>)

lemma sum_rows_into_ok:
  assumes "shaped m n g" "shaped 1 n db"
  obtains db' where "sum_rows_into g db = Inr db'" "shaped 1 n db'"
    "\<And>j. j < n \<Longrightarrow> elem db' 0 j = fold (\<lambda>i x. x + elem g i j) [0..<m] (elem db 0 j)"
proof (rule sum_rows_loop [OF assms(2), where v = "\<lambda>i j x. x + elem g i j" and
      body = "\<lambda>i j db. bind_result (at_elem g i j) (\<lambda>y. bind_result (at_elem db 0 j) (\<lambda>x. set_at db 0 j (x + y)))"])
  fix w assume "loop2 m n (\<lambda>i j db. bind_result (at_elem g i j) (\<lambda>y. bind_result (at_elem db 0 j) (\<lambda>x. set_at db 0 j (x + y)))) db = Inr w" "shaped 1 n w"
    "\<And>j. j < n \<Longrightarrow> elem w 0 j = fold (\<lambda>i x. x + elem g i j) [0..<m] (elem db 0 j)"
  with assms show thesis
    by (intro that [of w]) (simp_all add: sum_rows_into_def shaped_dims)
qed (use assms in \<open>simp_all add: at_shaped set_at_shaped\<close>)

end
