(* ===== verification/Ml_Train.thy ===== *)
theory Ml_Train
  imports Ml_Layers
begin

text \<open>
  Training: the batches of \<open>Data_Loader\<close> fed to the layers of \<open>Ml_Layers\<close> in the loop of
  \<open>example/models/train_optimize.cpp\<close>.  A network whose shapes fit throws no exception in any step
  of the loop and keeps its shapes; the dense layer accumulates the gradient of a linear functional of
  its output; what the sigmoid layer, the reported loss, the time step of Adam and the parallel
  accumulation of the bias gradient do is shown where it is not what their comments say.
\<close>

subsection \<open>Typed networks\<close>

definition dense_typed :: "nat \<Rightarrow> nat \<Rightarrow> 'a dense \<Rightarrow> bool" where
  "dense_typed n m d \<longleftrightarrow> shaped n m (weights d) \<and> shaped 1 m (bias d) \<and> shaped n m (d_weights d) \<and> shaped 1 m (d_bias d) \<and>
     (adam_initialized d \<longrightarrow> shaped n m (m_w d) \<and> shaped n m (v_w d) \<and> shaped 1 m (m_b d) \<and> shaped 1 m (v_b d))"

fun layer_out :: "nat \<Rightarrow> 'a layer \<Rightarrow> nat" where
  "layer_out n (Dense d) = t_cols (weights d)"
| "layer_out n l = n"

fun layer_typed :: "nat \<Rightarrow> 'a layer \<Rightarrow> bool" where
  "layer_typed n (Dense d) = dense_typed n (t_cols (weights d)) d"
| "layer_typed n l = True"

text \<open>The tensor kept by the forward pass on \<open>b\<close> rows of \<open>n\<close> columns.\<close>

fun layer_cached :: "nat \<Rightarrow> nat \<Rightarrow> 'a layer \<Rightarrow> bool" where
  "layer_cached b n (Dense d) = shaped b n (input_cache d)"
| "layer_cached b n (ReLU c) = shaped b n c"
| "layer_cached b n (Sigmoid c) = shaped b n c"
| "layer_cached b n (LeakyReLU c) = shaped b n c"

fun net_typed :: "nat \<Rightarrow> nat \<Rightarrow> 'a layer list \<Rightarrow> bool" where
  "net_typed n m [] = (n = m)"
| "net_typed n m (l # ls) = (layer_typed n l \<and> net_typed (layer_out n l) m ls)"

fun net_cached :: "nat \<Rightarrow> nat \<Rightarrow> 'a layer list \<Rightarrow> bool" where
  "net_cached b n [] = True"
| "net_cached b n (l # ls) = (layer_cached b n l \<and> net_cached b (layer_out n l) ls)"

lemma dense_typed_dims: "dense_typed n m d \<Longrightarrow> t_cols (weights d) = m"
  by (simp add: dense_typed_def shaped_def)

subsection \<open>Passes over one layer\<close>

lemma dense_forward_ok:
  assumes "dense_typed n m d" "shaped b n x"
  obtains y where "dense_forward d x = Inr (y, d\<lparr>input_cache := x\<rparr>)" "shaped b m y"
    "\<And>i j. i < b \<Longrightarrow> j < m \<Longrightarrow> elem y i j = dot x (weights d) i j + elem (bias d) 0 j"
proof -
  obtain p where p: "matmul x (weights d) = Inr p" "shaped b m p" "\<And>i j. i < b \<Longrightarrow> j < m \<Longrightarrow> elem p i j = dot x (weights d) i j"
    by (rule matmul_shaped [of x b n "weights d" m]) (use assms in \<open>auto simp: dense_typed_def shaped_def\<close>)
  obtain y where "add_bias (bias d) p = Inr y" "shaped b m y" "\<And>i j. i < b \<Longrightarrow> j < m \<Longrightarrow> elem y i j = elem p i j + elem (bias d) 0 j"
    by (rule add_bias_ok [OF p(2), of "bias d"]) (use assms in \<open>auto simp: dense_typed_def\<close>)
  with p show thesis
    by (intro that [of y]) (simp_all add: dense_forward_def)
qed

lemma dense_backward_ok:
  assumes "dense_typed n m d" "shaped b n (input_cache d)" "shaped b m g"
  obtains dx d' where "dense_backward d g = Inr (dx, d')" "shaped b n dx" "dense_typed n m d'"
    "\<And>i j. i < b \<Longrightarrow> j < n \<Longrightarrow> elem dx i j = dot g (transpose_view (weights d)) i j"
    "\<And>i j. i < n \<Longrightarrow> j < m \<Longrightarrow> elem (d_weights d') i j = elem (d_weights d) i j + dot (transpose_view (input_cache d)) g i j"
    "\<And>j. j < m \<Longrightarrow> elem (d_bias d') 0 j = fold (\<lambda>i s. s + elem g i j) [0..<b] (elem (d_bias d) 0 j)"
    "weights d' = weights d" "bias d' = bias d"
proof -
  obtain cur where cur: "matmul (transpose_view (input_cache d)) g = Inr cur" "shaped n m cur"
    "\<And>i j. i < n \<Longrightarrow> j < m \<Longrightarrow> elem cur i j = dot (transpose_view (input_cache d)) g i j"
    by (rule matmul_shaped [of "transpose_view (input_cache d)" n b g m]) (use assms in \<open>auto simp: shaped_def transpose_view_def\<close>)
  obtain dw where dw: "combine_into (+) cur (d_weights d) = Inr dw" "shaped n m dw"
    "\<And>i j. i < n \<Longrightarrow> j < m \<Longrightarrow> elem dw i j = elem (d_weights d) i j + elem cur i j"
    by (rule combine_into_ok [OF cur(2), of "d_weights d" "(+)"]) (use assms(1) in \<open>auto simp: dense_typed_def\<close>)
  obtain db where db: "sum_rows_into g (d_bias d) = Inr db" "shaped 1 m db"
    "\<And>j. j < m \<Longrightarrow> elem db 0 j = fold (\<lambda>i s. s + elem g i j) [0..<b] (elem (d_bias d) 0 j)"
    by (rule sum_rows_into_ok [OF assms(3), of "d_bias d"]) (use assms(1) in \<open>auto simp: dense_typed_def\<close>)
  obtain dx where dx: "matmul g (transpose_view (weights d)) = Inr dx" "shaped b n dx"
    "\<And>i j. i < b \<Longrightarrow> j < n \<Longrightarrow> elem dx i j = dot g (transpose_view (weights d)) i j"
    by (rule matmul_shaped [of g b m "transpose_view (weights d)" n]) (use assms in \<open>auto simp: dense_typed_def shaped_def transpose_view_def\<close>)
  show thesis
    by (rule that [of dx "d\<lparr>d_weights := dw, d_bias := db\<rparr>"])
      (use assms(1) cur dw db dx in \<open>simp_all add: dense_backward_def Let_def dense_typed_def\<close>)
qed

lemma shaped_map: "shaped b n t \<Longrightarrow> shaped b n ((new_tensor (t_rows t) (t_cols t) v)\<lparr>t_data := map f (t_data t)\<rparr>)"
  by (simp add: shaped_def plain_def wf_tensor_def new_tensor_def)

lemma leaky_forward_ok:
  assumes "shaped b n x"
  obtains y where "leaky_forward ops x = Inr y" "shaped b n y"
proof -
  have "\<exists>y. leaky_forward ops x = Inr y \<and> shaped b n y"
    unfolding leaky_forward_def shaped_dims [OF assms]
    by (rule loop2_ok) (use assms in \<open>auto simp: at_shaped set_at_shaped\<close>)
  then show thesis using that by blast
qed

lemma leaky_backward_ok:
  assumes "shaped b n c" "shaped b n g"
  obtains y where "leaky_backward ops c g = Inr y" "shaped b n y"
proof -
  have "\<exists>y. leaky_backward ops c g = Inr y \<and> shaped b n y"
    unfolding leaky_backward_def shaped_dims [OF assms(1)]
    by (rule loop2_ok) (use assms in \<open>auto simp: at_shaped set_at_shaped Let_def\<close>)
  then show thesis using that by blast
qed

lemma relu_shaped: "shaped b n x \<Longrightarrow> shaped b n (relu x)"
  by (simp add: relu_def shaped_map)

lemma sigmoid_shaped: "shaped b n x \<Longrightarrow> shaped b n (sigmoid f x)"
  by (simp add: sigmoid_def shaped_map)

lemma relu_backward_shaped:
  assumes "shaped b n c" "shaped b n g"
  obtains y where "relu_backward c g = Inr y" "shaped b n y"
  using assms by (simp add: relu_backward_def shaped_def plain_def wf_tensor_def new_tensor_def)

lemma sigmoid_backward_shaped:
  assumes "shaped b n c" "shaped b n g"
  obtains y where "sigmoid_backward f c g = Inr y" "shaped b n y"
  using assms by (simp add: sigmoid_backward_def shaped_def plain_def wf_tensor_def new_tensor_def)

lemma layer_forward_ok:
  assumes "layer_typed n l" "shaped b n x"
  obtains y l' where "layer_forward ops l x = Inr (y, l')" "shaped b (layer_out n l) y" "layer_typed n l'"
    "layer_cached b n l'" "layer_out n l' = layer_out n l"
proof (cases l)
  case (Dense d)
  then have d: "dense_typed n (t_cols (weights d)) d" using assms(1) by simp
  from dense_forward_ok [OF d assms(2)] obtain y where
    "dense_forward d x = Inr (y, d\<lparr>input_cache := x\<rparr>)" "shaped b (t_cols (weights d)) y" by metis
  with d show thesis
    by (intro that [of y "Dense (d\<lparr>input_cache := x\<rparr>)"]) (simp_all add: Dense assms dense_typed_def)
next
  case (ReLU c)
  then show thesis
    by (intro that [of "relu x" "ReLU (relu x)"]) (simp_all add: assms relu_shaped Let_def)
next
  case (Sigmoid c)
  then show thesis
    by (intro that [of "sigmoid (f_sigmoid ops) x" "Sigmoid (sigmoid (f_sigmoid ops) x)"]) (simp_all add: assms sigmoid_shaped Let_def)
next
  case (LeakyReLU c)
  obtain y where "leaky_forward ops x = Inr y" "shaped b n y" by (rule leaky_forward_ok [OF assms(2)])
  then show thesis
    by (intro that [of y "LeakyReLU x"]) (simp_all add: LeakyReLU assms)
qed

lemma layer_backward_ok:
  assumes "layer_typed n l" "layer_cached b n l" "shaped b (layer_out n l) g"
  obtains dx l' where "layer_backward ops l g = Inr (dx, l')" "shaped b n dx" "layer_typed n l'" "layer_out n l' = layer_out n l"
proof (cases l)
  case (Dense d)
  then have d: "dense_typed n (t_cols (weights d)) d" "shaped b n (input_cache d)" "shaped b (t_cols (weights d)) g"
    using assms by simp_all
  from dense_backward_ok [OF d] obtain dx d' where
    "dense_backward d g = Inr (dx, d')" "shaped b n dx" "dense_typed n (t_cols (weights d)) d'" "weights d' = weights d" by metis
  then show thesis
    by (intro that [of dx "Dense d'"]) (simp_all add: Dense)
next
  case (ReLU c)
  then have "shaped b n c" "shaped b n g" using assms by simp_all
  then obtain y where "relu_backward c g = Inr y" "shaped b n y" by (rule relu_backward_shaped)
  then show thesis
    by (intro that [of y l]) (simp_all add: ReLU)
next
  case (Sigmoid c)
  then have "shaped b n c" "shaped b n g" using assms by simp_all
  then obtain y where "sigmoid_backward (f_sigmoid ops) c g = Inr y" "shaped b n y" by (rule sigmoid_backward_shaped)
  then show thesis
    by (intro that [of y l]) (simp_all add: Sigmoid)
next
  case (LeakyReLU c)
  then have "shaped b n c" "shaped b n g" using assms by simp_all
  then obtain y where "leaky_backward ops c g = Inr y" "shaped b n y" by (rule leaky_backward_ok)
  then show thesis
    by (intro that [of y l]) (simp_all add: LeakyReLU)
qed

subsection \<open>Passes over the network\<close>

lemma seq_forward_ok:
  "net_typed n m ls \<Longrightarrow> shaped b n x \<Longrightarrow>
   \<exists>y ls'. seq_forward ops ls x = Inr (y, ls') \<and> shaped b m y \<and> net_typed n m ls' \<and> net_cached b n ls'"
proof (induction ls arbitrary: n x)
  case (Cons l ls)
  obtain y l' where l: "layer_forward ops l x = Inr (y, l')" "shaped b (layer_out n l) y" "layer_typed n l'"
    "layer_cached b n l'" "layer_out n l' = layer_out n l"
    by (rule layer_forward_ok [of n l b x ops]) (use Cons.prems in simp_all)
  then show ?case
    using Cons.IH [OF _ l(2)] Cons.prems by fastforce
qed simp

lemma seq_backward_ok:
  "net_typed n m ls \<Longrightarrow> net_cached b n ls \<Longrightarrow> shaped b m g \<Longrightarrow>
   \<exists>dx ls'. seq_backward ops ls g = Inr (dx, ls') \<and> shaped b n dx \<and> net_typed n m ls'"
proof (induction ls arbitrary: n)
  case (Cons l ls)
  then obtain g' ls' where ls: "seq_backward ops ls g = Inr (g', ls')" "shaped b (layer_out n l) g'" "net_typed (layer_out n l) m ls'"
    by fastforce
  obtain dx l' where "layer_backward ops l g' = Inr (dx, l')" "shaped b n dx" "layer_typed n l'" "layer_out n l' = layer_out n l"
    by (rule layer_backward_ok [of n l b g' ops]) (use Cons.prems ls(2) in simp_all)
  then show ?case
    using ls by simp
qed simp

lemma dense_zero_typed: "dense_typed n m d \<Longrightarrow> dense_typed n m (dense_zero_gradients d)"
  by (auto simp: dense_zero_gradients_def dense_typed_def fill_zero_def shaped_def plain_def wf_tensor_def)

lemma zero_grad_typed: "net_typed n m ls \<Longrightarrow> net_typed n m (zero_grad ls)"
proof (induction ls arbitrary: n)
  case (Cons l ls)
  then show ?case
    by (cases l) (auto simp: zero_grad_def dense_zero_typed dense_typed_dims [OF dense_zero_typed])
qed (simp add: zero_grad_def)

lemma map_result_typed:
  assumes "\<And>k l. layer_typed k l \<Longrightarrow> \<exists>l'. f l = Inr l' \<and> layer_typed k l' \<and> layer_out k l' = layer_out k l"
  shows "net_typed n m ls \<Longrightarrow> \<exists>ls'. map_result f ls = Inr ls' \<and> net_typed n m ls'"
proof (induction ls arbitrary: n)
  case (Cons l ls)
  obtain l' where "f l = Inr l'" "layer_typed n l'" "layer_out n l' = layer_out n l"
    using assms [of n l] Cons.prems by auto
  then show ?case
    using Cons.IH [of "layer_out n l"] Cons.prems by auto
qed simp

subsection \<open>Updates\<close>

lemma init_adam_typed:
  assumes "dense_typed n m d"
  shows "dense_typed n m (init_adam_states d)" "adam_initialized (init_adam_states d)"
    "weights (init_adam_states d) = weights d"
  using assms by (auto simp: dense_typed_def init_adam_states_def shaped_dims [of n m "weights d"] shaped_dims [of 1 m "bias d"])

lemma adam_element_ok:
  assumes "shaped n m dW" "i < n" "j < m" "case s of (W, mo, v) \<Rightarrow> shaped n m W \<and> shaped n m mo \<and> shaped n m v"
  shows "\<exists>s'. adam_element ops opt dW i j s = Inr s' \<and> (case s' of (W, mo, v) \<Rightarrow> shaped n m W \<and> shaped n m mo \<and> shaped n m v)"
  using assms by (cases s) (auto simp: adam_element_def Let_def at_shaped set_at_shaped)

lemma adam_dense_ok:
  assumes "dense_typed n m d"
  shows "\<exists>d'. adam_dense ops opt d = Inr d' \<and> dense_typed n m d'"
proof -
  let ?d = "init_adam_states d" and ?ok = "\<lambda>n s. case s of (W, mo, v) \<Rightarrow> shaped n m W \<and> shaped n m mo \<and> shaped n m v"
  have t: "shaped n m (weights ?d)" "shaped 1 m (bias ?d)" "shaped n m (d_weights ?d)" "shaped 1 m (d_bias ?d)"
    "?ok n (weights ?d, m_w ?d, v_w ?d)" "?ok 1 (bias ?d, m_b ?d, v_b ?d)"
    using init_adam_typed [OF assms] by (simp_all add: dense_typed_def)
  have "\<exists>s. loop2 n m (adam_element ops opt (d_weights ?d)) (weights ?d, m_w ?d, v_w ?d) = Inr s \<and> ?ok n s"
    by (rule loop2_ok) (use t adam_element_ok [OF t(3)] in auto)
  moreover have "\<exists>s. fold_result (adam_element ops opt (d_bias ?d) 0) [0..<m] (bias ?d, m_b ?d, v_b ?d) = Inr s \<and> ?ok 1 s"
    by (rule fold_result_ok) (use t adam_element_ok [OF t(4), of 0] in auto)
  ultimately show ?thesis
    using t init_adam_typed [OF assms] shaped_dims [OF t(1)] shaped_dims [OF t(2)]
    by (auto simp: adam_dense_def Let_def dense_typed_def)
qed

lemma adam_layer_ok: "layer_typed n l \<Longrightarrow> \<exists>l'. adam_layer ops opt l = Inr l' \<and> layer_typed n l' \<and> layer_out n l' = layer_out n l"
proof (cases l)
  case (Dense d)
  assume "layer_typed n l"
  then obtain d' where "adam_dense ops opt d = Inr d'" "dense_typed n (t_cols (weights d)) d'"
    using adam_dense_ok [of n "t_cols (weights d)" d] Dense by auto
  then show ?thesis
    using dense_typed_dims by (auto simp: Dense)
qed simp_all

lemma dense_update_ok:
  assumes "dense_typed n m d"
  shows "\<exists>d'. dense_update lr d = Inr d' \<and> dense_typed n m d'"
proof -
  obtain w where w: "combine_into (\<lambda>w dw. w - lr * dw) (d_weights d) (weights d) = Inr w" "shaped n m w"
    by (rule combine_into_ok [of n m "d_weights d" "weights d" "\<lambda>w dw. w - lr * dw"]) (use assms in \<open>auto simp: dense_typed_def\<close>)
  have b: "t_cols (bias d) = m" "shaped 1 m (bias d)" "shaped 1 m (d_bias d)"
    using assms by (auto simp: dense_typed_def shaped_def)
  have "\<exists>b. fold_result (\<lambda>j b. bind_result (at_elem (d_bias d) 0 j) (\<lambda>y. bind_result (at_elem b 0 j) (\<lambda>x. set_at b 0 j (x - lr * y))))
      [0..<m] (bias d) = Inr b \<and> shaped 1 m b"
    by (rule fold_result_ok) (use b(2,3) in \<open>auto simp: at_shaped set_at_shaped\<close>)
  then show ?thesis
    using w assms b(1) by (auto simp: dense_update_def dense_typed_def)
qed

lemma update_parameters_ok:
  "layer_typed n l \<Longrightarrow> \<exists>l'. update_parameters lr l = Inr l' \<and> layer_typed n l' \<and> layer_out n l' = layer_out n l"
proof (cases l)
  case (Dense d)
  assume "layer_typed n l"
  then obtain d' where "dense_update lr d = Inr d'" "dense_typed n (t_cols (weights d)) d'"
    using dense_update_ok [of n "t_cols (weights d)" d] Dense by auto
  then show ?thesis
    using dense_typed_dims by (auto simp: Dense)
qed simp_all

lemmas sgd_step_typed = map_result_typed [where f = "update_parameters lr" for lr, OF update_parameters_ok, folded sgd_step_def]

lemma adam_step_typed:
  assumes "net_typed n m ls"
  shows "\<exists>opt' ls'. adam_step ops opt ls = Inr (opt', ls') \<and> net_typed n m ls'"
proof -
  let ?opt = "if time_step opt < 200 then opt\<lparr>time_step := time_step opt + 1\<rparr> else opt"
  have "\<exists>ls'. map_result (adam_layer ops ?opt) ls = Inr ls' \<and> net_typed n m ls'"
    by (rule map_result_typed [OF adam_layer_ok assms])
  then show ?thesis
    unfolding adam_step_def Let_def by auto
qed

subsection \<open>Losses\<close>

lemma mse_forward_ok:
  assumes "shaped b m p" "shaped b m t"
  obtains loss where "mse_forward ops p t = Inr loss"
proof -
  have "\<exists>s. loop2 b m (\<lambda>i j total_loss. bind_result (at_elem p i j) (\<lambda>x. bind_result (at_elem t i j) (\<lambda>y.
      let diff = x - y in Inr (total_loss + diff * diff)))) 0 = Inr s \<and> True"
    by (rule loop2_ok) (use assms in \<open>auto simp: at_shaped Let_def\<close>)
  then show thesis
    using that assms by (auto simp: mse_forward_def shaped_dims)
qed

lemma mse_backward_ok:
  assumes "shaped b m p" "shaped b m t"
  obtains g where "mse_backward ops p t = Inr g" "shaped b m g"
    "\<And>i j. i < b \<Longrightarrow> j < m \<Longrightarrow> elem g i j = of_size ops 2 / of_size ops (b * m) * (elem p i j - elem t i j)"
proof (rule tensor_loop [OF shaped_new [of b m 0], where
      body = "\<lambda>i j g. bind_result (at_elem p i j) (\<lambda>x. bind_result (at_elem t i j) (\<lambda>y. set_at g i j (of_size ops 2 / of_size ops (b * m) * (x - y))))" and
      v = "\<lambda>i j _. of_size ops 2 / of_size ops (b * m) * (elem p i j - elem t i j)"])
  fix w
  assume "loop2 b m (\<lambda>i j g. bind_result (at_elem p i j) (\<lambda>x. bind_result (at_elem t i j) (\<lambda>y. set_at g i j (of_size ops 2 / of_size ops (b * m) * (x - y)))))
      (new_tensor b m 0) = Inr w" "shaped b m w"
    "\<And>i j. i < b \<Longrightarrow> j < m \<Longrightarrow> elem w i j = of_size ops 2 / of_size ops (b * m) * (elem p i j - elem t i j)"
  with assms show thesis
    by (intro that [of w]) (simp_all add: mse_backward_def shaped_dims)
qed (use assms in \<open>simp_all add: at_shaped set_at_shaped\<close>)

subsection \<open>The training loop\<close>

record 'a train =
  net :: "'a layer list"
  optimizer :: "'a adam"
  loss :: 'a
  epoch_cumulative_loss :: 'a
  batch_counter :: nat

text \<open>The body of the inner loop.\<close>

definition train_batch :: "'a float_ops \<Rightarrow> 'a::{zero,one,plus,minus,times,inverse,ord} batch \<Rightarrow> 'a train \<Rightarrow> 'a train result" where
  "train_batch ops b st =
     (let batch_inputs = fst b; batch_targets = snd b;
          model = zero_grad (net st);
          st = st\<lparr>epoch_cumulative_loss := 0, batch_counter := 0\<rparr>
      in bind_result (seq_forward ops model batch_inputs) (\<lambda>(pred, model).
         bind_result (mse_forward ops pred batch_targets) (\<lambda>l.
         let st = st\<lparr>loss := l, epoch_cumulative_loss := epoch_cumulative_loss st + l, batch_counter := batch_counter st + 1\<rparr> in
         bind_result (mse_backward ops pred batch_targets) (\<lambda>loss_grad.
         bind_result (seq_backward ops model loss_grad) (\<lambda>(_, model).
         bind_result (adam_step ops (optimizer st) model) (\<lambda>(opt, model).
           Inr (st\<lparr>net := model, optimizer := opt\<rparr>)))))))"

fun train_batches :: "nat \<Rightarrow> 'a float_ops \<Rightarrow> ('a::{zero,one,plus,minus,times,inverse,ord}, 'g) loader \<Rightarrow> 'a train \<Rightarrow>
    ('a train \<times> ('a, 'g) loader) result option" where
  "train_batches 0 ops ld st = None"
| "train_batches (Suc fuel) ops ld st =
     (case next_batch ld of
        Inl e \<Rightarrow> Some (Inl e)
      | Inr (None, ld) \<Rightarrow> Some (Inr (st, ld))
      | Inr (Some b, ld) \<Rightarrow>
          (case train_batch ops b st of Inl e \<Rightarrow> Some (Inl e) | Inr st \<Rightarrow> train_batches fuel ops ld st))"

text \<open>One epoch up to its report: \<open>avg_train_loss\<close> divides the accumulated loss by the counter.\<close>

definition train_epoch :: "'g shuffle \<Rightarrow> nat \<Rightarrow> 'a float_ops \<Rightarrow> ('a::{zero,one,plus,minus,times,inverse,ord}, 'g) loader \<Rightarrow> 'a train \<Rightarrow>
    ('a train \<times> ('a, 'g) loader \<times> 'a) result option" where
  "train_epoch shuf fuel ops ld st =
     map_option (\<lambda>r. bind_result r (\<lambda>(st, ld). Inr (st, ld, epoch_cumulative_loss st / of_size ops (batch_counter st))))
       (train_batches fuel ops (reset shuf ld) (st\<lparr>loss := of_size ops 100, epoch_cumulative_loss := 0, batch_counter := 0\<rparr>))"

lemma train_batches_fold:
  "batches fuel ld = Some (Inr (bs, ld')) \<Longrightarrow>
   train_batches fuel ops ld st = Some (bind_result (fold_result (train_batch ops) bs st) (\<lambda>st. Inr (st, ld')))"
proof (induction fuel arbitrary: ld bs st)
  case (Suc fuel)
  from Suc.prems show ?case
    by (cases rule: batches_cases) (auto simp: Suc.IH split: sum.splits)
qed simp

text \<open>After a batch: typed, and the two counters as the loop leaves them.\<close>

definition trained :: "nat \<Rightarrow> nat \<Rightarrow> 'a::{zero,plus} train \<Rightarrow> bool" where
  "trained n m st \<longleftrightarrow> net_typed n m (net st) \<and> batch_counter st = 1 \<and> epoch_cumulative_loss st = 0 + loss st"

lemma train_batch_ok:
  assumes "net_typed n m (net st)" "shaped b n x" "shaped b m t"
  shows "\<exists>st'. train_batch ops (x, t) st = Inr st' \<and> trained n m st'"
proof -
  obtain pred ls1 where f: "seq_forward ops (zero_grad (net st)) x = Inr (pred, ls1)" "shaped b m pred" "net_typed n m ls1" "net_cached b n ls1"
    using seq_forward_ok [OF zero_grad_typed [OF assms(1)] assms(2)] by blast
  obtain l where l: "mse_forward ops pred t = Inr l"
    by (rule mse_forward_ok [OF f(2) assms(3)])
  obtain g where g: "mse_backward ops pred t = Inr g" "shaped b m g"
    by (rule mse_backward_ok [OF f(2) assms(3)])
  obtain dx ls2 where b: "seq_backward ops ls1 g = Inr (dx, ls2)" "net_typed n m ls2"
    using seq_backward_ok [OF f(3,4) g(2)] by blast
  obtain opt ls3 where "adam_step ops (optimizer st) ls2 = Inr (opt, ls3)" "net_typed n m ls3"
    using adam_step_typed [OF b(2)] by blast
  then show ?thesis
    using f(1) l g(1) b(1) by (simp add: train_batch_def Let_def trained_def)
qed

lemma fold_result_last:
  assumes "\<And>x s. x \<in> set xs \<Longrightarrow> ok s \<Longrightarrow> \<exists>s'. f x s = Inr s' \<and> ok s' \<and> done' s'" "xs \<noteq> []" "ok s"
  shows "\<exists>s'. fold_result f xs s = Inr s' \<and> ok s' \<and> done' s'"
  using assms
proof (induction xs arbitrary: s)
  case (Cons x xs)
  obtain s1 where "f x s = Inr s1" "ok s1" "done' s1"
    using Cons.prems(1) [of x s] Cons.prems(3) by auto
  then show ?case
    using Cons.IH [of s1] Cons.prems(1) by (cases "xs = []") auto
qed simp

subsection \<open>Gradients\<close>

text \<open>The linear functional of the output that an incoming gradient stands for.\<close>

definition objective :: "'a::comm_ring tensor \<Rightarrow> 'a tensor \<Rightarrow> 'a" where
  "objective g y = (\<Sum>i < t_rows g. \<Sum>j < t_cols g. elem g i j * elem y i j)"

lemma fold_add: "fold (\<lambda>k s. s + f k) [0..<n] z = z + sum f {..<n}" for z :: "'a::comm_ring"
  by (induction n) (simp_all add: algebra_simps)

lemma dot_sum: "dot t u i j = (\<Sum>k < t_cols t. elem t i k * elem u k j)" for t :: "'a::comm_ring tensor"
  by (simp add: dot_def fold_add)

lemma objective_shift:
  assumes "\<And>i j. i < t_rows g \<Longrightarrow> j < t_cols g \<Longrightarrow> elem y' i j = elem y i j + e i j"
  shows "objective g y' = objective g y + (\<Sum>i < t_rows g. \<Sum>j < t_cols g. elem g i j * e i j)"
  unfolding objective_def by (simp add: assms algebra_simps sum.distrib)

lemma sum_pick: "c < m \<Longrightarrow> (\<Sum>j < m. f j * (if j = c then e else 0)) = f c * e" for f :: "nat \<Rightarrow> 'a::comm_ring"
  by (simp add: if_distrib [of "(*) _"] if_distrib sum.If_cases cong: if_cong)

lemma elem_fill_zero: "shaped n m t \<Longrightarrow> i < n \<Longrightarrow> j < m \<Longrightarrow> elem (fill_zero t) i j = 0"
  using place_in_data [of t i j] by (simp add: elem_def fill_zero_def place_def shaped_def plain_def)

lemma elem_set_shaped:
  "shaped n m t \<Longrightarrow> a < n \<Longrightarrow> c < m \<Longrightarrow> j < m \<Longrightarrow> elem (set_elem t a c v) i j = (if i = a \<and> j = c then v else elem t i j)"
  by (simp add: elem_set_elem shaped_def plain_def)

lemma weight_shift:
  fixes h :: "'a::comm_ring"
  assumes "dense_typed n m d" "shaped b n x" "shaped b m g" "a < n" "c < m"
    "dense_forward d x = Inr (y, d1)" "dense_forward (d\<lparr>weights := set_elem (weights d) a c (elem (weights d) a c + h)\<rparr>) x = Inr (y', d1')"
  shows "objective g y' = objective g y + h * (\<Sum>i < b. elem x i a * elem g i c)"
proof -
  let ?w = "set_elem (weights d) a c (elem (weights d) a c + h)"
  have w: "shaped n m (weights d)" "t_cols x = n" "t_rows g = b" "t_cols g = m"
    using assms(1-3) by (auto simp: dense_typed_def shaped_def)
  have y: "elem y i j = dot x (weights d) i j + elem (bias d) 0 j" if "i < b" "j < m" for i j
    using dense_forward_ok [OF assms(1,2)] assms(6) that by auto
  have "dense_typed n m (d\<lparr>weights := ?w\<rparr>)"
    using assms(1) by (simp add: dense_typed_def)
  then have y': "elem y' i j = dot x ?w i j + elem (bias d) 0 j" if "i < b" "j < m" for i j
    using dense_forward_ok [OF _ assms(2), of m "d\<lparr>weights := ?w\<rparr>"] assms(7) that by auto
  have "dot x ?w i j = dot x (weights d) i j + (if j = c then elem x i a * h else 0)" if "j < m" for i j
  proof -
    have "elem x i k * elem ?w k j = elem x i k * elem (weights d) k j + (if j = c then elem x i k * (if k = a then h else 0) else 0)" for k
      using elem_set_shaped [OF w(1) assms(4,5) that] by (simp add: algebra_simps)
    then show ?thesis
      using assms(4) by (simp add: dot_sum w(2) sum.distrib sum_pick del: mult_zero_right)
  qed
  then have "objective g y' = objective g y + (\<Sum>i < b. \<Sum>j < m. elem g i j * (if j = c then elem x i a * h else 0))"
    using objective_shift [of g y' y] y y' w by (simp add: algebra_simps)
  then show ?thesis
    using assms(5) by (simp add: sum_pick sum_distrib_left algebra_simps)
qed

lemma bias_shift:
  fixes h :: "'a::comm_ring"
  assumes "dense_typed n m d" "shaped b n x" "shaped b m g" "c < m"
    "dense_forward d x = Inr (y, d1)" "dense_forward (d\<lparr>bias := set_elem (bias d) 0 c (elem (bias d) 0 c + h)\<rparr>) x = Inr (y', d1')"
  shows "objective g y' = objective g y + h * (\<Sum>i < b. elem g i c)"
proof -
  let ?b = "set_elem (bias d) 0 c (elem (bias d) 0 c + h)"
  have w: "shaped 1 m (bias d)" "t_rows g = b" "t_cols g = m"
    using assms(1-3) by (auto simp: dense_typed_def shaped_def)
  have y: "elem y i j = dot x (weights d) i j + elem (bias d) 0 j" if "i < b" "j < m" for i j
    using dense_forward_ok [OF assms(1,2)] assms(5) that by auto
  have "dense_typed n m (d\<lparr>bias := ?b\<rparr>)"
    using assms(1) by (simp add: dense_typed_def)
  then have y': "elem y' i j = dot x (weights d) i j + elem ?b 0 j" if "i < b" "j < m" for i j
    using dense_forward_ok [OF _ assms(2), of m "d\<lparr>bias := ?b\<rparr>"] assms(6) that by auto
  have "elem ?b 0 j = elem (bias d) 0 j + (if j = c then h else 0)" if "j < m" for j
    using elem_set_shaped [OF w(1) _ assms(4) that] by simp
  then have "objective g y' = objective g y + (\<Sum>i < b. \<Sum>j < m. elem g i j * (if j = c then h else 0))"
    using objective_shift [of g y' y] y y' w by (simp add: algebra_simps)
  then show ?thesis
    using assms(4) by (simp add: sum_pick sum_distrib_left algebra_simps)
qed

lemma input_shift:
  fixes h :: "'a::comm_ring"
  assumes "dense_typed n m d" "shaped b n x" "shaped b m g" "a < b" "c < n"
    "dense_forward d x = Inr (y, d1)" "dense_forward d (set_elem x a c (elem x a c + h)) = Inr (y', d1')"
  shows "objective g y' = objective g y + h * (\<Sum>j < m. elem g a j * elem (weights d) c j)"
proof -
  let ?x = "set_elem x a c (elem x a c + h)"
  have w: "t_cols x = n" "t_rows g = b" "t_cols g = m"
    using assms(2,3) by (auto simp: shaped_def)
  have y: "elem y i j = dot x (weights d) i j + elem (bias d) 0 j" if "i < b" "j < m" for i j
    using dense_forward_ok [OF assms(1,2)] assms(6) that by auto
  have y': "elem y' i j = dot ?x (weights d) i j + elem (bias d) 0 j" if "i < b" "j < m" for i j
    using dense_forward_ok [OF assms(1), of b ?x] assms(2,7) that by auto
  have "dot ?x (weights d) i j = dot x (weights d) i j + (if i = a then h * elem (weights d) c j else 0)" for i j
  proof -
    have "elem ?x i k * elem (weights d) k j =
        elem x i k * elem (weights d) k j + (if i = a then elem (weights d) k j * (if k = c then h else 0) else 0)" if "k < n" for k
      using elem_set_shaped [OF assms(2,4,5) that] by (simp add: algebra_simps)
    then show ?thesis
      using assms(5) by (simp add: dot_sum w(1) sum.distrib sum_pick mult.commute del: mult_zero_right)
  qed
  then have "objective g y' = objective g y + (\<Sum>i < b. \<Sum>j < m. elem g i j * (if i = a then h * elem (weights d) c j else 0))"
    using objective_shift [of g y' y] y y' w by (simp add: algebra_simps)
  also have "(\<Sum>i < b. \<Sum>j < m. elem g i j * (if i = a then h * elem (weights d) c j else 0)) =
      (\<Sum>i < b. if i = a then \<Sum>j < m. elem g a j * (h * elem (weights d) c j) else 0)"
    by (rule sum.cong) auto
  finally show ?thesis
    using assms(4) by (simp add: sum_distrib_left algebra_simps)
qed

subsection \<open>The accumulation of the bias gradient by several threads\<close>

text \<open>The loop over the rows is shared out among threads when it has more than 256 iterations in all.  For one
  column, the iteration of row \<open>i\<close> reads \<open>d_bias(0, j)\<close> into a register and stores the register plus the
  gradient of its row.\<close>

datatype access = Load nat | Store nat

definition runs_parallel :: "nat \<Rightarrow> nat \<Rightarrow> bool" where
  "runs_parallel rows cols \<longleftrightarrow> rows * cols > 256"

fun bias_access :: "(nat \<Rightarrow> 'a::plus) \<Rightarrow> access \<Rightarrow> 'a \<times> (nat \<Rightarrow> 'a) \<Rightarrow> 'a \<times> (nat \<Rightarrow> 'a)" where
  "bias_access g (Load i) (mem, reg) = (mem, reg(i := mem))"
| "bias_access g (Store i) (mem, reg) = (reg i + g i, reg)"

fun row_of :: "access \<Rightarrow> nat" where
  "row_of (Load i) = i"
| "row_of (Store i) = i"

text \<open>Orders in which \<open>m\<close> threads, one per row, may perform their accesses.\<close>

definition interleaving :: "nat \<Rightarrow> access list \<Rightarrow> bool" where
  "interleaving m as \<longleftrightarrow> list_all (\<lambda>a. row_of a < m) as \<and>
     list_all (\<lambda>i. filter (\<lambda>a. row_of a = i) as = [Load i, Store i]) [0..<m]"

lemma filter_row: "filter (\<lambda>a. row_of a = i) (map Load xs) = map Load (filter (\<lambda>k. k = i) xs)"
  "filter (\<lambda>a. row_of a = i) (map Store xs) = map Store (filter (\<lambda>k. k = i) xs)"
  by (induction xs) auto

lemma filter_upt: "i < m \<Longrightarrow> filter (\<lambda>k. k = i) [0..<m] = [i]"
  by (induction m) (auto simp: less_Suc_eq filter_empty_conv)

lemma fold_loads: "fold (bias_access g) (map Load xs) (mem, reg) = (mem, \<lambda>i. if i \<in> set xs then mem else reg i)"
  by (induction xs arbitrary: reg) (auto simp: fun_eq_iff)

lemma fold_stores: "fst (fold (bias_access g) (map Store xs) (mem, reg)) = (if xs = [] then mem else reg (last xs) + g (last xs))"
  by (induction xs arbitrary: mem) auto

lemma fold_serial:
  "fst (fold (bias_access g) (concat (map (\<lambda>i. [Load i, Store i]) xs)) (mem, reg)) = fold (\<lambda>i s. s + g i) xs mem"
  by (induction xs arbitrary: mem reg) auto

subsection \<open>Properties\<close>

text \<open>C22: Training never throws: for a network whose shapes fit the columns of the dataset every epoch ends, with
  the network still well typed and the loader at the end of its data.  What it reports as average loss is
  the loss of its last batch over one, since the sum and the counter are reset in every iteration.\<close>
theorem training_safe:
  assumes "\<And>xs g. mset (fst (shuf xs g)) = mset xs" "loader_ok ld" "0 < batch_size ld" "0 < num_samples ld"
    "net_typed (t_cols (inputs ld)) (t_cols (targets ld)) (net st)"
  shows "\<exists>st' ld'. train_epoch shuf (Suc (num_samples ld)) ops ld st = Some (Inr (st', ld', (0 + loss st') / of_size ops 1)) \<and>
     net_typed (t_cols (inputs ld)) (t_cols (targets ld)) (net st') \<and> loader_ok ld' \<and> \<not> has_next ld'"
proof -
  let ?n = "t_cols (inputs ld)" and ?m = "t_cols (targets ld)" and ?ld = "reset shuf ld"
  let ?st = "st\<lparr>loss := of_size ops 100, epoch_cumulative_loss := 0, batch_counter := 0\<rparr>"
  note r = reset_ok [of shuf ld, OF assms(1,2)]
  obtain bs where bs: "batches (Suc (num_samples ld)) ?ld = Some (Inr (bs, ?ld\<lparr>current_index := num_samples ld\<rparr>))"
    "concat (map samples bs) = map (sample ld) (indices ?ld)" "batch_sizes_ok (batch_size ld) bs"
    "\<forall>b \<in> set bs. batch_of (inputs ld) (targets ld) b"
    using batches_ok [OF r(1), where fuel = "Suc (num_samples ld)"] assms(3) r(2-) by auto
  have "bs \<noteq> []"
    using bs(2) loader_indices(1) [OF r(1)] assms(4) r(3) by auto
  moreover have "\<exists>st'. train_batch ops b st = Inr st' \<and> net_typed ?n ?m (net st') \<and> trained ?n ?m st'"
    if "b \<in> set bs" "net_typed ?n ?m (net st)" for b st
  proof -
    have "shaped (t_rows (fst b)) ?n (fst b)" "shaped (t_rows (fst b)) ?m (snd b)"
      using bs(3,4) that(1) by (auto simp: batch_sizes_ok_def batch_of_def shaped_def)
    then show ?thesis
      using train_batch_ok [OF that(2), of "t_rows (fst b)" "fst b" "snd b" ops] by (auto simp: trained_def)
  qed
  ultimately obtain st' where st': "fold_result (train_batch ops) bs ?st = Inr st'" "trained ?n ?m st'"
    using fold_result_last [of bs "\<lambda>st. net_typed ?n ?m (net st)" "train_batch ops" "trained ?n ?m" ?st] assms(5) by auto
  then show ?thesis
    using train_batches_fold [OF bs(1), of ops ?st] r by (auto simp: train_epoch_def trained_def has_next_def)
qed

definition example_ops :: "real float_ops" where
  "example_ops = \<lparr>f_sigmoid = (\<lambda>x. x / 2), f_sqrt = sqrt, f_log = ln, f_pow = power_int, of_size = of_nat, leak = 1 / 100,
     bce_epsilon = 1 / 10000000\<rparr>"

definition example_real_data :: "real tensor" where
  "example_real_data = \<lparr>t_rows = 3, t_cols = 2, t_data = [1, 2, 3, 4, 5, 6], is_transposed = False\<rparr>"

definition example_dense :: "real dense" where
  "example_dense = \<lparr>weights = new_tensor 2 2 1, bias = new_tensor 1 2 0, input_cache = new_tensor 0 0 0, d_weights = new_tensor 2 2 0,
     d_bias = new_tensor 1 2 0, m_w = new_tensor 0 0 0, v_w = new_tensor 0 0 0, m_b = new_tensor 0 0 0, v_b = new_tensor 0 0 0,
     adam_initialized = False\<rparr>"

definition example_train :: "real train" where
  "example_train = \<lparr>net = [Dense example_dense, ReLU (new_tensor 0 0 0), Sigmoid (new_tensor 0 0 0)],
     optimizer = new_adam (1 / 10) (9 / 10) (99 / 100) 0, loss = 0, epoch_cumulative_loss = 0, batch_counter = 0\<rparr>"

definition example_real_loader :: "(real, unit) loader" where
  "example_real_loader = new_loader (\<lambda>xs g. (rev xs, g)) () example_real_data example_real_data 2 True"

lemma example_real_loader_ok:
  "loader_ok example_real_loader" "batch_size example_real_loader = 2" "num_samples example_real_loader = 3"
  "t_cols (inputs example_real_loader) = 2" "t_cols (targets example_real_loader) = 2"
  by (simp_all add: example_real_loader_def new_loader_def reset_def loader_ok_def example_real_data_def plain_def wf_tensor_def)

theorem training_safe_witness:
  "\<exists>st' ld'. train_epoch (\<lambda>xs g. (rev xs, g)) 4 example_ops example_real_loader example_train =
       Some (Inr (st', ld', (0 + loss st') / of_size example_ops 1)) \<and>
     net_typed 2 2 (net st') \<and> loader_ok ld' \<and> \<not> has_next ld'"
proof -
  have "net_typed 2 2 (net example_train)"
    by (simp add: example_train_def example_dense_def dense_typed_def)
  then show ?thesis
    using training_safe [of "\<lambda>xs g. (rev xs, g)" example_real_loader example_train example_ops]
    by (simp add: example_real_loader_ok)
qed



text \<open>The sigmoid layer keeps its output and hands it to a derivative that applies the sigmoid again: the gradient
  it passes back is \<open>g * s * (1 - s)\<close> with \<open>s\<close> the sigmoid of the output, where the comment of the code has the
  output itself.\<close>
theorem sigmoid_layer_gradient:
  assumes "shaped b n x" "shaped b n g" "layer_forward ops (Sigmoid c) x = Inr (y, l)"
  shows "\<exists>dx. layer_backward ops l g = Inr (dx, l) \<and> shaped b n dx \<and>
     (\<forall>i j. i < b \<longrightarrow> j < n \<longrightarrow> elem y i j = f_sigmoid ops (elem x i j) \<and>
        elem dx i j = elem g i j * f_sigmoid ops (elem y i j) * (1 - f_sigmoid ops (elem y i j)))"
proof -
  have y: "y = sigmoid (f_sigmoid ops) x" "l = Sigmoid y"
    using assms(3) by (auto simp: Let_def)
  have sh: "shaped b n y"
    by (simp add: y sigmoid_shaped assms(1))
  obtain dx where dx: "sigmoid_backward (f_sigmoid ops) y g = Inr dx" "shaped b n dx"
    by (rule sigmoid_backward_shaped [OF sh assms(2)])
  have "elem y i j = f_sigmoid ops (elem x i j) \<and>
      elem dx i j = elem g i j * f_sigmoid ops (elem y i j) * (1 - f_sigmoid ops (elem y i j))" if "i < b" "j < n" for i j
  proof -
    have "i * n + j < length (t_data x)" "length (t_data y) = length (t_data x)" "length (t_data g) = length (t_data x)"
      using place_less [OF that] assms(1,2) sh by (simp_all add: shaped_def plain_def wf_tensor_def)
    then show ?thesis
      using assms(1,2) sh dx
      by (auto simp: y sigmoid_def sigmoid_backward_def elem_def place_def shaped_def plain_def new_tensor_def Let_def)
  qed
  then show ?thesis
    using dx y(2) by auto
qed

theorem sigmoid_layer_gradient_witness:
  "\<exists>dx. layer_backward example_ops (Sigmoid (sigmoid (\<lambda>x. x / 2) example_real_data)) example_real_data =
     Inr (dx, Sigmoid (sigmoid (\<lambda>x. x / 2) example_real_data)) \<and> elem dx 0 0 = 3 / 16"
proof -
  have sh: "shaped 3 2 example_real_data"
    by (simp add: example_real_data_def shaped_def plain_def wf_tensor_def)
  have "layer_forward example_ops (Sigmoid (new_tensor 0 0 0)) example_real_data =
      Inr (sigmoid (\<lambda>x. x / 2) example_real_data, Sigmoid (sigmoid (\<lambda>x. x / 2) example_real_data))"
    by (simp add: example_ops_def Let_def)
  from sigmoid_layer_gradient [OF sh sh this] obtain dx where
    dx: "layer_backward example_ops (Sigmoid (sigmoid (\<lambda>x. x / 2) example_real_data)) example_real_data =
      Inr (dx, Sigmoid (sigmoid (\<lambda>x. x / 2) example_real_data))"
    "elem (sigmoid (\<lambda>x. x / 2) example_real_data) 0 0 = elem example_real_data 0 0 / 2"
    "elem dx 0 0 = elem example_real_data 0 0 * (elem (sigmoid (\<lambda>x. x / 2) example_real_data) 0 0 / 2) *
      (1 - elem (sigmoid (\<lambda>x. x / 2) example_real_data) 0 0 / 2)"
    by (auto simp: example_ops_def)
  have one: "elem example_real_data 0 0 = 1"
    by (simp add: elem_def place_def example_real_data_def)
  have "elem dx 0 0 = 3 / 16"
    unfolding dx(3) unfolding dx(2) one by simp
  with dx(1) show ?thesis
    by blast
qed

text \<open>The time step of Adam stops at 200: after any number of steps on networks that step without an exception it
  is the number of steps or 200, whichever is less, so that the corrections never get past those of
  step 200.\<close>
theorem adam_time_step:
  assumes "fold_result (\<lambda>_ (opt, ls). adam_step ops opt ls) [0..<k] (new_adam lr b1 b2 eps, ls0) = Inr (opt, ls)"
  shows "time_step opt = min (int k) 200"
  using assms
proof (induction k arbitrary: opt ls)
  case 0
  then show ?case by (auto simp: new_adam_def)
next
  case (Suc k)
  then obtain opt1 ls1 where *: "fold_result (\<lambda>_ (opt, ls). adam_step ops opt ls) [0..<k] (new_adam lr b1 b2 eps, ls0) = Inr (opt1, ls1)"
    "adam_step ops opt1 ls1 = Inr (opt, ls)"
    by (auto simp: fold_result_append bind_result_def split: sum.splits prod.splits)
  from *(2) have "opt = (if time_step opt1 < 200 then opt1\<lparr>time_step := time_step opt1 + 1\<rparr> else opt1)"
    by (auto simp: adam_step_def bind_result_def Let_def split: sum.splits)
  then show ?case
    using Suc.IH [OF *(1)] by simp
qed

theorem adam_time_step_witness:
  "fold_result (\<lambda>_ (opt, ls). adam_step example_ops opt ls) [0..<2] (new_adam 1 1 1 1, []) =
     Inr ((new_adam 1 1 1 1)\<lparr>time_step := 2\<rparr>, []) \<and> time_step ((new_adam 1 1 1 (1 :: real))\<lparr>time_step := 2\<rparr>) = min (int 2) 200"
proof -
  have "fold_result (\<lambda>_ (opt, ls). adam_step example_ops opt ls) [0..<2] (new_adam 1 1 1 1, []) =
     Inr ((new_adam 1 1 1 1)\<lparr>time_step := 2\<rparr>, [])"
    by (simp add: upt_rec adam_step_def new_adam_def)
  with adam_time_step [OF this] show ?thesis
    by blast
qed

text \<open>The loop that adds the rows of a gradient up in \<open>d_bias\<close> is shared out among threads although all its
  iterations write the same elements.  One row after the other gives the sum; but the threads may also
  all read before the first of them writes, and then the gradient of a single row is all that is
  added.  The loop does run in parallel for a batch of 200 rows and 9 outputs.\<close>
theorem bias_gradient_race:
  "interleaving m (concat (map (\<lambda>i. [Load i, Store i]) [0..<m])) \<and>
   fst (fold (bias_access g) (concat (map (\<lambda>i. [Load i, Store i]) [0..<m])) (d, reg)) = fold (\<lambda>i s. s + g i) [0..<m] d \<and>
   interleaving m (map Load [0..<m] @ map Store [0..<m]) \<and>
   fst (fold (bias_access g) (map Load [0..<m] @ map Store [0..<m]) (d, reg)) = (if m = 0 then d else d + g (m - 1)) \<and>
   runs_parallel 200 9"
proof -
  have "filter (\<lambda>a. row_of a = i) (concat (map (\<lambda>i. [Load i, Store i]) xs)) = concat (map (\<lambda>i. [Load i, Store i]) (filter (\<lambda>k. k = i) xs))" for i xs
    by (induction xs) auto
  then have "interleaving m (concat (map (\<lambda>i. [Load i, Store i]) [0..<m]))"
    by (auto simp: interleaving_def list_all_iff filter_upt)
  moreover have "interleaving m (map Load [0..<m] @ map Store [0..<m])"
    by (auto simp: interleaving_def list_all_iff filter_row filter_upt)
  moreover have "fst (fold (bias_access g) (map Load [0..<m] @ map Store [0..<m]) (d, reg)) = (if m = 0 then d else d + g (m - 1))"
    by (simp add: fold_loads fold_stores)
  ultimately show ?thesis
    by (simp add: fold_serial runs_parallel_def)
qed

end
