(* ===== verification/Ml_Vision.thy ===== *)
theory Ml_Vision
  imports Ml_Train
begin

text \<open>
  The image side of \<open>MachineLearning/include\<close>: \<open>Tensor4D.h\<close>, \<open>Conv2DLayer.h\<close>, \<open>MaxPool2DLayer.h\<close>,
  \<open>FlattenLayer.h\<close>, \<open>ImageLoader.h\<close>, and the pipeline of \<open>example/beginner/04_test_full_pipeline.cpp\<close> that
  ends in a dense layer.  Sizes are computed at 64 bits where the code subtracts; the element type is
  a type variable as in \<open>Tensor\<close>.  An access outside the vector is \<open>Undefined\<close>.  Nested \<open>for\<close> loops run over
  the products of their ranges, the last index fastest.
\<close>

subsection \<open>Tensors with four indices\<close>

record 'a tensor4 =
  t_batch :: nat
  t_channels :: nat
  t_height :: nat
  t_width :: nat
  stride_b :: nat
  stride_c :: nat
  stride_h :: nat
  t4_data :: "'a list"

definition new_tensor4 :: "nat \<Rightarrow> nat \<Rightarrow> nat \<Rightarrow> nat \<Rightarrow> 'a \<Rightarrow> 'a tensor4 result" where
  "new_tensor4 b c h w init_val =
     (let n = b * c * h * w mod 2 ^ 64 in
      if n < 2 ^ 61
      then Inr \<lparr>t_batch = b, t_channels = c, t_height = h, t_width = w, stride_b = c * h * w mod 2 ^ 64,
        stride_c = h * w mod 2 ^ 64, stride_h = w, t4_data = replicate n init_val\<rparr>
      else Inl Length_error)"

definition place4 :: "'a tensor4 \<Rightarrow> nat \<Rightarrow> nat \<Rightarrow> nat \<Rightarrow> nat \<Rightarrow> nat" where
  "place4 t b c h w = (b * stride_b t + c * stride_c t + h * stride_h t + w) mod 2 ^ 64"

definition at4 :: "'a tensor4 \<Rightarrow> nat \<Rightarrow> nat \<Rightarrow> nat \<Rightarrow> nat \<Rightarrow> 'a result" where
  "at4 t b c h w = (let i = place4 t b c h w in if i < length (t4_data t) then Inr (t4_data t ! i) else Inl Undefined)"

definition set4 :: "nat \<Rightarrow> nat \<Rightarrow> nat \<Rightarrow> nat \<Rightarrow> 'a \<Rightarrow> 'a tensor4 \<Rightarrow> 'a tensor4 result" where
  "set4 b c h w v t = (let i = place4 t b c h w in
     if i < length (t4_data t) then Inr (t\<lparr>t4_data := (t4_data t)[i := v]\<rparr>) else Inl Undefined)"

definition range2 :: "nat \<Rightarrow> nat \<Rightarrow> (nat \<times> nat) list" where
  "range2 m n = List.product [0..<m] [0..<n]"

definition range3 :: "nat \<Rightarrow> nat \<Rightarrow> nat \<Rightarrow> (nat \<times> nat \<times> nat) list" where
  "range3 l m n = List.product [0..<l] (range2 m n)"

definition range4 :: "nat \<Rightarrow> nat \<Rightarrow> nat \<Rightarrow> nat \<Rightarrow> (nat \<times> nat \<times> nat \<times> nat) list" where
  "range4 k l m n = List.product [0..<k] (range3 l m n)"

text \<open>\<open>matmul_gemm\<close>: the output container is replaced unless it has the shape of the result.\<close>

definition matmul_gemm :: "'a::{zero,plus,times} tensor4 \<Rightarrow> bool \<Rightarrow> 'a tensor4 \<Rightarrow> bool \<Rightarrow> 'a tensor4 \<Rightarrow> 'a tensor4 result" where
  "matmul_gemm A transA B transB C =
     (let A_rows = if transA then t_width A else t_height A;
          A_cols = if transA then t_height A else t_width A;
          B_rows = if transB then t_width B else t_height B;
          B_cols = if transB then t_height B else t_width B
      in if A_cols \<noteq> B_rows then Inl Invalid_argument
         else bind_result
           (if t_height C \<noteq> A_rows \<or> t_width C \<noteq> B_cols \<or> t_batch C \<noteq> t_batch A \<or> t_channels C \<noteq> t_channels A
            then new_tensor4 (t_batch A) (t_channels A) A_rows B_cols 0 else Inr C)
           (fold_result (\<lambda>(b, c, i, j) C.
              bind_result
                (fold_result (\<lambda>k accumulator.
                   let A_h = if transA then k else i; A_w = if transA then i else k;
                       B_h = if transB then j else k; B_w = if transB then k else j
                   in bind_result (at4 A b c A_h A_w) (\<lambda>x. bind_result (at4 B b c B_h B_w) (\<lambda>y. Inr (accumulator + x * y))))
                 [0..<A_cols] 0)
                (\<lambda>accumulator. set4 b c i j accumulator C))
            (range4 (t_batch A) (t_channels A) A_rows B_cols)))"

subsection \<open>Convolution\<close>

record 'a conv =
  in_channels :: nat
  out_channels :: nat
  kernel_size :: nat
  conv_stride :: nat
  padding :: nat
  conv_weights :: "'a tensor4"
  conv_bias :: "'a tensor4"
  conv_d_weights :: "'a tensor4"
  conv_d_bias :: "'a tensor4"
  conv_input :: "'a tensor4"

definition empty_tensor4 :: "'a tensor4" where
  "empty_tensor4 = \<lparr>t_batch = 0, t_channels = 0, t_height = 0, t_width = 0, stride_b = 0, stride_c = 0, stride_h = 0, t4_data = []\<rparr>"

text \<open>The constructor, with the draws of the initializer as an argument.\<close>

definition new_conv :: "(nat \<Rightarrow> nat \<Rightarrow> nat \<Rightarrow> nat \<Rightarrow> 'a) \<Rightarrow> nat \<Rightarrow> nat \<Rightarrow> nat \<Rightarrow> nat \<Rightarrow> nat \<Rightarrow> 'a::zero conv result" where
  "new_conv draw in_c out_c k_size strd pad =
     bind_result (new_tensor4 out_c in_c k_size k_size 0) (\<lambda>w.
     bind_result (new_tensor4 1 out_c 1 1 0) (\<lambda>b.
     bind_result (new_tensor4 out_c in_c k_size k_size 0) (\<lambda>dw.
     bind_result (new_tensor4 1 out_c 1 1 0) (\<lambda>db.
     bind_result (fold_result (\<lambda>(b, c, h, w). set4 b c h w (draw b c h w)) (range4 out_c in_c k_size k_size) w) (\<lambda>w.
     bind_result (fold_result (\<lambda>c. set4 0 c 0 0 0) [0..<out_c] b) (\<lambda>b.
       Inr \<lparr>in_channels = in_c, out_channels = out_c, kernel_size = k_size, conv_stride = strd, padding = pad,
         conv_weights = w, conv_bias = b, conv_d_weights = dw, conv_d_bias = db, conv_input = empty_tensor4\<rparr>))))))"

text \<open>\<open>((H + 2 * padding - kernel_size) / stride) + 1\<close> in \<open>size_t\<close>.\<close>

definition out_size :: "nat \<Rightarrow> nat \<Rightarrow> nat \<Rightarrow> nat \<Rightarrow> nat result" where
  "out_size n pad k strd =
     (if strd = 0 then Inl Undefined
      else Inr (unat ((of_nat n + 2 * of_nat pad - of_nat k :: u64) div of_nat strd + 1)))"

text \<open>The input row or column under an element of the kernel: \<open>static_cast<long long>(o * stride - padding + k)\<close>.\<close>

definition tap :: "nat \<Rightarrow> nat \<Rightarrow> nat \<Rightarrow> nat \<Rightarrow> int" where
  "tap out strd pad k = sint (of_nat out * of_nat strd - of_nat pad + of_nat k :: u64)"

definition on_axis :: "int \<Rightarrow> nat \<Rightarrow> bool" where
  "on_axis x n \<longleftrightarrow> x \<ge> 0 \<and> x < sint (of_nat n :: u64)"

text \<open>One output element: the sum over the taps inside the image, then the bias.\<close>

definition conv_element :: "'a::{zero,plus,times} conv \<Rightarrow> 'a tensor4 \<Rightarrow> nat \<Rightarrow> nat \<Rightarrow> nat \<Rightarrow> nat \<Rightarrow> 'a result" where
  "conv_element l input b oc oh ow =
     bind_result
       (fold_result (\<lambda>(ic, kh, kw) sum.
          let curr_h = tap oh (conv_stride l) (padding l) kh;
              curr_w = tap ow (conv_stride l) (padding l) kw
          in if on_axis curr_h (t_height input) \<and> on_axis curr_w (t_width input)
             then bind_result (at4 input b ic (nat curr_h) (nat curr_w)) (\<lambda>x.
                  bind_result (at4 (conv_weights l) oc ic kh kw) (\<lambda>y. Inr (sum + x * y)))
             else Inr sum)
        (range3 (in_channels l) (kernel_size l) (kernel_size l)) 0)
       (\<lambda>sum. bind_result (at4 (conv_bias l) 0 oc 0 0) (\<lambda>y. Inr (sum + y)))"

definition conv_forward :: "'a::{zero,plus,times} conv \<Rightarrow> 'a tensor4 \<Rightarrow> ('a tensor4 \<times> 'a conv) result" where
  "conv_forward l input =
     (let l = l\<lparr>conv_input := input\<rparr> in
      bind_result (out_size (t_height input) (padding l) (kernel_size l) (conv_stride l)) (\<lambda>out_H.
      bind_result (out_size (t_width input) (padding l) (kernel_size l) (conv_stride l)) (\<lambda>out_W.
      bind_result (new_tensor4 (t_batch input) (out_channels l) out_H out_W 0) (\<lambda>output.
      bind_result (fold_result (\<lambda>(b, oc, oh, ow) output. bind_result (conv_element l input b oc oh ow) (\<lambda>v. set4 b oc oh ow v output))
        (range4 (t_batch input) (out_channels l) out_H out_W) output) (\<lambda>output. Inr (output, l))))))"

definition conv_zero_gradients :: "'a::zero conv \<Rightarrow> 'a conv result" where
  "conv_zero_gradients l =
     bind_result
       (fold_result (\<lambda>b (dw, db).
          bind_result (fold_result (\<lambda>(c, h, w). set4 b c h w 0) (range3 (in_channels l) (kernel_size l) (kernel_size l)) dw) (\<lambda>dw.
          bind_result (set4 0 b 0 0 0 db) (\<lambda>db. Inr (dw, db))))
        [0..<out_channels l] (conv_d_weights l, conv_d_bias l))
       (\<lambda>(dw, db). Inr (l\<lparr>conv_d_weights := dw, conv_d_bias := db\<rparr>))"

subsection \<open>Pooling\<close>

record 'a pool2d =
  pool_size :: nat
  pool_stride :: nat
  pool_input :: "'a tensor4"

text \<open>The largest value of a window, from \<open>-INFINITY\<close> on, with the bounds check of the code.\<close>

definition pool_element :: "'a \<Rightarrow> 'a::ord pool2d \<Rightarrow> 'a tensor4 \<Rightarrow> nat \<Rightarrow> nat \<Rightarrow> nat \<Rightarrow> nat \<Rightarrow> 'a result" where
  "pool_element neg_inf l input b c oh ow =
     fold_result (\<lambda>(kh, kw) max_value.
       let curr_h = (oh * pool_stride l + kh) mod 2 ^ 64; curr_w = (ow * pool_stride l + kw) mod 2 ^ 64
       in if curr_h < t_height input \<and> curr_w < t_width input
          then bind_result (at4 input b c curr_h curr_w) (\<lambda>current_pixel.
            Inr (if current_pixel > max_value then current_pixel else max_value))
          else Inr max_value)
      (range2 (pool_size l) (pool_size l)) neg_inf"

definition pool_forward :: "'a \<Rightarrow> 'a::{zero,ord} pool2d \<Rightarrow> 'a tensor4 \<Rightarrow> ('a tensor4 \<times> 'a pool2d) result" where
  "pool_forward neg_inf l input =
     (let l = l\<lparr>pool_input := input\<rparr> in
      bind_result (out_size (t_height input) 0 (pool_size l) (pool_stride l)) (\<lambda>out_H.
      bind_result (out_size (t_width input) 0 (pool_size l) (pool_stride l)) (\<lambda>out_W.
      bind_result (new_tensor4 (t_batch input) (t_channels input) out_H out_W 0) (\<lambda>output.
      bind_result (fold_result (\<lambda>(b, c, oh, ow) output. bind_result (pool_element neg_inf l input b c oh ow) (\<lambda>v. set4 b c oh ow v output))
        (range4 (t_batch input) (t_channels input) out_H out_W) output) (\<lambda>output. Inr (output, l))))))"

subsection \<open>Flattening\<close>

record flatten_layer =
  cached_batch :: nat
  cached_channels :: nat
  cached_height :: nat
  cached_width :: nat

definition flatten_forward :: "flatten_layer \<Rightarrow> 'a::zero tensor4 \<Rightarrow> ('a tensor \<times> flatten_layer) result" where
  "flatten_forward l input =
     (let l = \<lparr>cached_batch = t_batch input, cached_channels = t_channels input, cached_height = t_height input, cached_width = t_width input\<rparr>;
          B = t_batch input;
          total_features = t_channels input * t_height input * t_width input mod 2 ^ 64
      in bind_result (alloc_tensor B total_features) (\<lambda>output.
         bind_result (fold_result (\<lambda>i output.
             if i < length (t4_data input) then set_at output (i div total_features) (i mod total_features) (t4_data input ! i)
             else Inl Undefined)
           [0..<B * total_features mod 2 ^ 64] output) (\<lambda>output. Inr (output, l))))"

definition flatten_backward :: "flatten_layer \<Rightarrow> 'a::zero tensor \<Rightarrow> 'a tensor4 result" where
  "flatten_backward l g =
     (let n = cached_channels l * cached_height l * cached_width l mod 2 ^ 64 in
      bind_result (new_tensor4 (cached_batch l) (cached_channels l) (cached_height l) (cached_width l) 0) (\<lambda>d_input.
        fold_result (\<lambda>i d_input.
            bind_result (at_elem g (i div n) (i mod n)) (\<lambda>x.
              if i < length (t4_data d_input) then Inr (d_input\<lparr>t4_data := (t4_data d_input)[i := x]\<rparr>) else Inl Undefined))
          [0..<cached_batch l * cached_channels l * cached_height l * cached_width l mod 2 ^ 64] d_input))"

subsection \<open>Images\<close>

text \<open>\<open>load_to_tensor\<close> on what \<open>stbi_load\<close> returns, and \<open>save_from_tensor\<close> up to the buffer it hands to
  \<open>stbi_write_png\<close>.  \<open>of_byte\<close> is a byte divided by 255, \<open>to_byte\<close> the value times 255, clamped and truncated.\<close>

definition load_to_tensor :: "(u8 \<Rightarrow> 'a) \<Rightarrow> (nat \<times> nat \<times> bytes) option \<Rightarrow> nat \<Rightarrow> 'a::zero tensor4 result" where
  "load_to_tensor of_byte decoded target_channels =
     (case decoded of
        None \<Rightarrow> Inl Runtime_error
      | Some (W, H, raw_pixels) \<Rightarrow>
          bind_result (new_tensor4 1 target_channels H W 0)
            (fold_result (\<lambda>(c, h, w) image_tensor.
               let raw_pixel_index = (h * W + w) * target_channels + c
               in if raw_pixel_index < length raw_pixels then set4 0 c h w (of_byte (raw_pixels ! raw_pixel_index)) image_tensor
                  else Inl Undefined)
             (range3 target_channels H W)))"

definition save_from_tensor :: "('a \<Rightarrow> u8) \<Rightarrow> 'a tensor4 \<Rightarrow> bytes result" where
  "save_from_tensor to_byte t =
     (let channels = t_channels t; H = t_height t; W = t_width t in
      fold_result (\<lambda>(c, h, w) raw_pixels.
          bind_result (at4 t 0 c h w) (\<lambda>v.
          let raw_pixel_index = (h * W + w) * channels + c
          in if raw_pixel_index < length raw_pixels then Inr (raw_pixels[raw_pixel_index := to_byte v]) else Inl Undefined))
        (range3 channels H W) (replicate (H * W * channels) 0))"

text \<open>The steps 3 and 4 of the pipeline.\<close>

definition vision_pipeline :: "'a \<Rightarrow> 'a::{zero,plus,times,ord} conv \<Rightarrow> 'a pool2d \<Rightarrow> (nat \<Rightarrow> nat \<Rightarrow> 'a) \<Rightarrow> 'a tensor4 \<Rightarrow> 'a tensor result" where
  "vision_pipeline neg_inf conv_layer pool_layer kaiming raw_image =
     bind_result (conv_forward conv_layer raw_image) (\<lambda>(feature_maps, _).
     bind_result (pool_forward neg_inf pool_layer feature_maps) (\<lambda>(pooled_maps, _).
     bind_result (flatten_forward \<lparr>cached_batch = 0, cached_channels = 0, cached_height = 0, cached_width = 0\<rparr> pooled_maps) (\<lambda>(flattened_vector, _).
     bind_result (new_dense kaiming kaiming (t_cols flattened_vector) 2 ''relu'') (\<lambda>classifier_head.
     bind_result (dense_forward classifier_head flattened_vector) (\<lambda>(output_predictions, _). Inr output_predictions)))))"

subsection \<open>Places\<close>

definition box :: "nat \<Rightarrow> nat \<Rightarrow> nat \<Rightarrow> nat \<Rightarrow> 'a tensor4 \<Rightarrow> bool" where
  "box B C H W t \<longleftrightarrow> t_batch t = B \<and> t_channels t = C \<and> t_height t = H \<and> t_width t = W \<and> stride_h t = W \<and>
     stride_c t = H * W mod 2 ^ 64 \<and> stride_b t = C * H * W mod 2 ^ 64 \<and> length (t4_data t) = B * C * H * W \<and> B * C * H * W < 2 ^ 61"

definition elem4 :: "'a tensor4 \<Rightarrow> nat \<Rightarrow> nat \<Rightarrow> nat \<Rightarrow> nat \<Rightarrow> 'a" where
  "elem4 t b c h w = t4_data t ! place4 t b c h w"

definition set_elem4 :: "'a tensor4 \<Rightarrow> nat \<Rightarrow> nat \<Rightarrow> nat \<Rightarrow> nat \<Rightarrow> 'a \<Rightarrow> 'a tensor4" where
  "set_elem4 t b c h w v = t\<lparr>t4_data := (t4_data t)[place4 t b c h w := v]\<rparr>"

lemma box_dims: "box B C H W t \<Longrightarrow> t_batch t = B \<and> t_channels t = C \<and> t_height t = H \<and> t_width t = W"
  by (simp add: box_def)

lemma box_set [simp]: "box B C H W (set_elem4 t b c h w v) = box B C H W t"
  by (simp add: box_def set_elem4_def)

lemma new_tensor4_ok:
  assumes "B * C * H * W < 2 ^ 61"
  obtains t where "new_tensor4 B C H W v = Inr t" "box B C H W t"
proof -
  have "B * C * H * W mod 2 ^ 64 = B * C * H * W"
    using assms by simp
  then have "\<exists>t. new_tensor4 B C H W v = Inr t \<and> box B C H W t"
    using assms by (simp add: new_tensor4_def box_def Let_def)
  then show thesis
    using that by blast
qed

lemma place4_box:
  assumes "box B C H W t" "b < B" "c < C" "h < H" "w < W"
  shows "place4 t b c h w = ((b * C + c) * H + h) * W + w" "((b * C + c) * H + h) * W + w < length (t4_data t)"
proof -
  have less: "((b * C + c) * H + h) * W + w < B * C * H * W"
    by (intro place_less assms)
  then show "((b * C + c) * H + h) * W + w < length (t4_data t)"
    using assms(1) by (simp add: box_def)
  have "C * H * W \<le> B * C * H * W" "H * W \<le> B * C * H * W"
    using assms(2,3) by (simp_all add: mult.assoc)
  moreover have n: "B * C * H * W < 2 ^ 64"
    using assms(1) by (simp add: box_def)
  ultimately have "C * H * W < 2 ^ 64" "H * W < 2 ^ 64"
    using le_less_trans by blast+
  then have "stride_b t = C * H * W" "stride_c t = H * W" "stride_h t = W" "((b * C + c) * H + h) * W + w < 2 ^ 64"
    using assms(1) less_trans [OF less n] by (simp_all add: box_def)
  then show "place4 t b c h w = ((b * C + c) * H + h) * W + w"
    by (simp add: place4_def algebra_simps)
qed

lemma at4_box: "box B C H W t \<Longrightarrow> b < B \<Longrightarrow> c < C \<Longrightarrow> h < H \<Longrightarrow> w < W \<Longrightarrow> at4 t b c h w = Inr (elem4 t b c h w)"
  using place4_box [of B C H W t b c h w] by (simp add: at4_def elem4_def)

lemma set4_box: "box B C H W t \<Longrightarrow> b < B \<Longrightarrow> c < C \<Longrightarrow> h < H \<Longrightarrow> w < W \<Longrightarrow> set4 b c h w v t = Inr (set_elem4 t b c h w v)"
  using place4_box [of B C H W t b c h w] by (simp add: set4_def set_elem4_def)

lemma elem4_set_elem4:
  assumes "box B C H W t" "b < B" "c < C" "h < H" "w < W" "b' < B" "c' < C" "h' < H" "w' < W"
  shows "elem4 (set_elem4 t b c h w v) b' c' h' w' = (if (b', c', h', w') = (b, c, h, w) then v else elem4 t b' c' h' w')"
proof -
  have "place4 (set_elem4 t b c h w v) b' c' h' w' = place4 t b' c' h' w'"
    by (simp add: place4_def set_elem4_def)
  moreover have "place4 t b' c' h' w' = place4 t b c h w \<longleftrightarrow> (b', c', h', w') = (b, c, h, w)"
    unfolding place4_box [OF assms(1-5)] place4_box [OF assms(1,6-9)]
    using assms(2-) by (simp add: place_inj)
  ultimately show ?thesis
    using place4_box [OF assms(1-5)] by (auto simp: elem4_def set_elem4_def nth_list_update)
qed

lemma in_range2 [simp]: "(i, j) \<in> set (range2 m n) \<longleftrightarrow> i < m \<and> j < n"
  by (simp add: range2_def)

lemma in_range3 [simp]: "(h, i, j) \<in> set (range3 l m n) \<longleftrightarrow> h < l \<and> i < m \<and> j < n"
  by (simp add: range3_def)

lemma in_range4 [simp]: "(g, h, i, j) \<in> set (range4 k l m n) \<longleftrightarrow> g < k \<and> h < l \<and> i < m \<and> j < n"
  by (simp add: range4_def)

text \<open>A loop that assigns each element once.\<close>

lemma fill_loop:
  assumes "box B C H W t"
    and "\<And>b c h w u. b < B \<Longrightarrow> c < C \<Longrightarrow> h < H \<Longrightarrow> w < W \<Longrightarrow> box B C H W u \<Longrightarrow>
      body (b, c, h, w) u = set4 b c h w (v b c h w) u"
    and "set qs \<subseteq> set (range4 B C H W)"
  shows "\<exists>u. fold_result body qs t = Inr u \<and> box B C H W u \<and>
      (\<forall>b < B. \<forall>c < C. \<forall>h < H. \<forall>w < W. elem4 u b c h w = (if (b, c, h, w) \<in> set qs then v b c h w else elem4 t b c h w))"
  using assms(3)
proof (induction qs rule: rev_induct)
  case Nil
  then show ?case using assms(1) by simp
next
  case (snoc q qs)
  obtain b c h w where q: "q = (b, c, h, w)" by (cases q)
  then have r: "b < B" "c < C" "h < H" "w < W" using snoc.prems by auto
  obtain u where u: "fold_result body qs t = Inr u" "box B C H W u"
    "\<forall>b < B. \<forall>c < C. \<forall>h < H. \<forall>w < W. elem4 u b c h w = (if (b, c, h, w) \<in> set qs then v b c h w else elem4 t b c h w)"
    using snoc by auto
  have "fold_result body (qs @ [q]) t = Inr (set_elem4 u b c h w (v b c h w))"
    using u(1) assms(2) [OF r u(2)] set4_box [OF u(2) r] by (simp add: fold_result_append q)
  then show ?case
    using u(2,3) elem4_set_elem4 [OF u(2) r] by (auto simp: q)
qed

lemma fill_all:
  assumes "box B C H W t"
    and "\<And>b c h w u. b < B \<Longrightarrow> c < C \<Longrightarrow> h < H \<Longrightarrow> w < W \<Longrightarrow> box B C H W u \<Longrightarrow>
      body (b, c, h, w) u = set4 b c h w (v b c h w) u"
  obtains u where "fold_result body (range4 B C H W) t = Inr u" "box B C H W u"
    "\<And>b c h w. b < B \<Longrightarrow> c < C \<Longrightarrow> h < H \<Longrightarrow> w < W \<Longrightarrow> elem4 u b c h w = v b c h w"
  using fill_loop [OF assms order.refl] by auto

lemma fold_result_map: "fold_result f (map g xs) s = fold_result (\<lambda>x. f (g x)) xs s"
  by (induction xs arbitrary: s) (simp_all add: bind_result_def split: sum.splits)

lemma fold_result_fold: "(\<And>x s. x \<in> set xs \<Longrightarrow> f x s = Inr (g x s)) \<Longrightarrow> fold_result f xs s = Inr (fold g xs s)"
  using fold_result_pure [of xs "\<lambda>_. True" f "\<lambda>s. s" g s] by simp

subsection \<open>Output sizes and taps\<close>

lemma out_size_ok:
  assumes "k \<le> n + 2 * pad" "n + 2 * pad < 2 ^ 62" "0 < strd" "strd < 2 ^ 64"
  shows "out_size n pad k strd = Inr ((n + 2 * pad - k) div strd + 1)"
proof -
  define m where "m = n + 2 * pad - k"
  have m: "m < 2 ^ 62"
    using assms(2) by (simp add: m_def)
  have "(of_nat n + 2 * of_nat pad - of_nat k :: u64) = of_nat m"
    using assms(1) by (simp add: m_def of_nat_diff)
  moreover have "unat (of_nat m div of_nat strd + 1 :: u64) = m div strd + 1"
  proof -
    have "m div strd + 1 < 2 ^ 64"
      using le_less_trans [OF div_le_dividend m, of strd] by simp
    moreover have "unat (of_nat m div of_nat strd :: u64) = m div strd"
      using m assms(4) by (simp add: unat_div_distrib unat_of_nat_u64)
    then have "(of_nat m div of_nat strd :: u64) = of_nat (m div strd)"
      by (metis of_nat_unat ucast_id)
    ultimately show ?thesis
      using unat_of_nat_u64 [of "m div strd + 1"] by (simp add: add.commute)
  qed
  ultimately show ?thesis
    using assms(3) by (simp add: out_size_def m_def)
qed

lemma window_fits:
  fixes s :: nat
  assumes "k \<le> m" "x < (m - k) div s + 1" "y < k"
  shows "x * s + y < m"
proof -
  have "x * s \<le> (m - k) div s * s"
    using assms(2) by (intro mult_le_mono1) simp
  also have "\<dots> \<le> m - k"
    by (rule div_times_less_eq_dividend)
  finally show ?thesis
    using assms(1,3) by linarith
qed

lemma tap_value:
  assumes "x * s + k < 2 ^ 62" "pad < 2 ^ 62"
  shows "tap x s pad k = int (x * s + k) - int pad"
proof -
  define y where "y = x * s + k"
  have e1: "(of_nat x * of_nat s - of_nat pad + of_nat k :: u64) = of_int (int y - int pad)"
    by (simp add: y_def)
  have e2: "sint (of_int (int y - int pad) :: u64) = signed_take_bit 63 (int y - int pad)"
    by (simp only: signed_of_int) simp
  have e3: "signed_take_bit 63 (int y - int pad) = int y - int pad"
    using assms unfolding y_def [symmetric] by (intro signed_take_bit_int_eq_self) simp_all
  show ?thesis
    unfolding tap_def e1 e2 e3 by (simp add: y_def)
qed

lemma on_axis_value: "n < 2 ^ 62 \<Longrightarrow> on_axis x n \<longleftrightarrow> 0 \<le> x \<and> x < int n"
proof -
  assume n: "n < 2 ^ 62"
  have "sint (of_nat n :: u64) = signed_take_bit 63 (int n)"
    by (simp only: signed_of_nat) simp
  also have "\<dots> = int n"
    using n by (intro signed_take_bit_int_eq_self) simp_all
  finally show ?thesis
    by (simp add: on_axis_def)
qed

subsection \<open>The layers\<close>

definition conv_ok :: "'a conv \<Rightarrow> bool" where
  "conv_ok l \<longleftrightarrow> box (out_channels l) (in_channels l) (kernel_size l) (kernel_size l) (conv_weights l) \<and>
     box 1 (out_channels l) 1 1 (conv_bias l) \<and> 0 < conv_stride l \<and> conv_stride l < 2 ^ 64"

text \<open>Whether the element \<open>k\<close> of a kernel at output position \<open>x\<close> lies on an axis of length \<open>n\<close>.\<close>

definition covers :: "'a conv \<Rightarrow> nat \<Rightarrow> nat \<Rightarrow> nat \<Rightarrow> bool" where
  "covers l n x k \<longleftrightarrow> padding l \<le> x * conv_stride l + k \<and> x * conv_stride l + k < n + padding l"

definition conv_sum :: "'a::{zero,plus,times} conv \<Rightarrow> 'a tensor4 \<Rightarrow> nat \<Rightarrow> nat \<Rightarrow> nat \<Rightarrow> nat \<Rightarrow> 'a" where
  "conv_sum l input b oc oh ow =
     fold (\<lambda>(ic, kh, kw) s. s + elem4 input b ic (oh * conv_stride l + kh - padding l) (ow * conv_stride l + kw - padding l) *
         elem4 (conv_weights l) oc ic kh kw)
       (filter (\<lambda>(ic, kh, kw). covers l (t_height input) oh kh \<and> covers l (t_width input) ow kw)
         (range3 (in_channels l) (kernel_size l) (kernel_size l))) 0"

lemma tap_covers:
  assumes "x * conv_stride l + k < 2 ^ 62" "padding l < 2 ^ 62" "n < 2 ^ 62"
  shows "on_axis (tap x (conv_stride l) (padding l) k) n \<longleftrightarrow> covers l n x k"
    "covers l n x k \<Longrightarrow> nat (tap x (conv_stride l) (padding l) k) = x * conv_stride l + k - padding l"
proof -
  define y where "y = x * conv_stride l + k"
  have "tap x (conv_stride l) (padding l) k = int y - int (padding l)"
    using tap_value [OF assms(1,2)] by (simp add: y_def)
  then show "on_axis (tap x (conv_stride l) (padding l) k) n \<longleftrightarrow> covers l n x k"
    "covers l n x k \<Longrightarrow> nat (tap x (conv_stride l) (padding l) k) = x * conv_stride l + k - padding l"
    using assms(3) unfolding covers_def y_def [symmetric] by (auto simp: on_axis_value)
qed

lemma fold_filter: "fold (\<lambda>x s. if P x then f x s else s) xs s = fold f (filter P xs) s"
  by (induction xs arbitrary: s) auto

lemma conv_element_ok:
  assumes "conv_ok l" "box B C H W x" "in_channels l = C" "b < B" "oc < out_channels l"
    and "kernel_size l \<le> H + 2 * padding l" "kernel_size l \<le> W + 2 * padding l"
    and "H + 2 * padding l < 2 ^ 62" "W + 2 * padding l < 2 ^ 62"
    and "oh < (H + 2 * padding l - kernel_size l) div conv_stride l + 1" "ow < (W + 2 * padding l - kernel_size l) div conv_stride l + 1"
  shows "conv_element l x b oc oh ow = Inr (conv_sum l x b oc oh ow + elem4 (conv_bias l) 0 oc 0 0)"
proof -
  let ?s = "conv_stride l" and ?p = "padding l" and ?k = "kernel_size l"
  let ?g = "\<lambda>(ic, kh, kw) s. s + elem4 x b ic (oh * ?s + kh - ?p) (ow * ?s + kw - ?p) * elem4 (conv_weights l) oc ic kh kw"
  note w = assms(1) [unfolded conv_ok_def]
  let ?f = "\<lambda>(ic, kh, kw) sum.
          let curr_h = tap oh ?s ?p kh; curr_w = tap ow ?s ?p kw
          in if on_axis curr_h (t_height x) \<and> on_axis curr_w (t_width x)
             then bind_result (at4 x b ic (nat curr_h) (nat curr_w)) (\<lambda>v. bind_result (at4 (conv_weights l) oc ic kh kw) (\<lambda>y. Inr (sum + v * y)))
             else Inr sum"
  let ?P = "\<lambda>(ic, kh, kw). covers l H oh kh \<and> covers l W ow kw"
  have "fold_result ?f (range3 (in_channels l) ?k ?k) 0 = Inr (fold (\<lambda>q s. if ?P q then ?g q s else s) (range3 (in_channels l) ?k ?k) 0)"
  proof (rule fold_result_fold)
    fix q s assume "q \<in> set (range3 (in_channels l) ?k ?k)"
    moreover obtain ic kh kw where q: "q = (ic, kh, kw)" by (cases q)
    ultimately have r: "ic < C" "kh < ?k" "kw < ?k" using assms(3) by simp_all
    have f: "oh * ?s + kh < 2 ^ 62" "ow * ?s + kw < 2 ^ 62" "?p < 2 ^ 62" "H < 2 ^ 62" "W < 2 ^ 62"
      using window_fits [OF assms(6,10) r(2)] window_fits [OF assms(7,11) r(3)] assms(8,9) by simp_all
    have "covers l H oh kh \<Longrightarrow> oh * ?s + kh - ?p < H" "covers l W ow kw \<Longrightarrow> ow * ?s + kw - ?p < W"
      by (auto simp: covers_def)
    then show "?f q s = Inr (if ?P q then ?g q s else s)"
      using r w assms(2-5) tap_covers [OF f(1,3,4)] tap_covers [OF f(2,3,5)] box_dims [OF assms(2)]
      by (auto simp: q Let_def at4_box)
  qed
  moreover have "at4 (conv_bias l) 0 oc 0 0 = Inr (elem4 (conv_bias l) 0 oc 0 0)"
    using w assms(5) by (intro at4_box [of 1 "out_channels l" 1 1]) simp_all
  ultimately show ?thesis
    using box_dims [OF assms(2)] unfolding conv_element_def conv_sum_def fold_filter by simp
qed

lemma fold_max:
  fixes v :: "'b \<Rightarrow> 'a::linorder"
  shows "fold (\<lambda>q m. if v q > m then v q else m) xs n = Max (insert n (v ` set xs))"
proof -
  have "(\<lambda>q m. if v q > m then v q else m) = max \<circ> v"
    by (auto simp: fun_eq_iff max_def not_less)
  then have "fold (\<lambda>q m. if v q > m then v q else m) xs n = fold max (map v xs) n"
    by (simp only: fold_map)
  also have "\<dots> = Max (set (n # map v xs))"
    by (rule Max.set_eq_fold [symmetric])
  finally show ?thesis
    by simp
qed

lemma pool_element_ok:
  fixes x :: "'a::linorder tensor4"
  assumes "box B C H W x" "b < B" "c < C" "H < 2 ^ 62" "W < 2 ^ 62" "pool_size l \<le> H" "pool_size l \<le> W"
    "oh < (H - pool_size l) div pool_stride l + 1" "ow < (W - pool_size l) div pool_stride l + 1"
  shows "pool_element n l x b c oh ow =
    Inr (Max (insert n ((\<lambda>(kh, kw). elem4 x b c (oh * pool_stride l + kh) (ow * pool_stride l + kw)) ` set (range2 (pool_size l) (pool_size l)))))"
proof -
  let ?v = "\<lambda>(kh, kw). elem4 x b c (oh * pool_stride l + kh) (ow * pool_stride l + kw)"
  have "pool_element n l x b c oh ow = Inr (fold (\<lambda>q m. if ?v q > m then ?v q else m) (range2 (pool_size l) (pool_size l)) n)"
    unfolding pool_element_def
  proof (rule fold_result_fold)
    fix q m assume "q \<in> set (range2 (pool_size l) (pool_size l))"
    moreover obtain kh kw where q: "q = (kh, kw)" by (cases q)
    ultimately have r: "kh < pool_size l" "kw < pool_size l" by simp_all
    have f: "oh * pool_stride l + kh < H" "ow * pool_stride l + kw < W"
      using window_fits [OF assms(6,8) r(1)] window_fits [OF assms(7,9) r(2)] .
    then have "(oh * pool_stride l + kh) mod 2 ^ 64 = oh * pool_stride l + kh" "(ow * pool_stride l + kw) mod 2 ^ 64 = ow * pool_stride l + kw"
      using assms(4,5) by simp_all
    then show "(case q of (kh, kw) \<Rightarrow> \<lambda>max_value.
        let curr_h = (oh * pool_stride l + kh) mod 2 ^ 64; curr_w = (ow * pool_stride l + kw) mod 2 ^ 64
        in if curr_h < t_height x \<and> curr_w < t_width x
           then bind_result (at4 x b c curr_h curr_w) (\<lambda>current_pixel. Inr (if current_pixel > max_value then current_pixel else max_value))
           else Inr max_value) m = Inr (if ?v q > m then ?v q else m)"
      using f box_dims [OF assms(1)] at4_box [OF assms(1-3) f] unfolding q Let_def prod.case by (simp only: f bind_result_simps if_True simp_thms)
  qed
  then show ?thesis
    by (simp only: fold_max)
qed

subsection \<open>Copies in the order of the vector\<close>

lemma fold_update: "m \<le> length res \<Longrightarrow> fold (\<lambda>i res. res[i := v i]) [0..<m] res = map v [0..<m] @ drop m res"
proof (induction m)
  case (Suc m)
  then have "drop m res = res ! m # drop (Suc m) res"
    by (simp add: Cons_nth_drop_Suc)
  then show ?case
    using Suc by (simp add: list_update_append)
qed simp

lemma copy_loop:
  assumes "\<And>i res. i < n \<Longrightarrow> length res = n \<Longrightarrow> body i (h res) = Inr (h (res[i := v i]))" "length res = n"
  shows "fold_result body [0..<n] (h res) = Inr (h (map v [0..<n]))"
  using fold_result_pure [where ok = "\<lambda>res. length res = n" and g = "\<lambda>i res. res[i := v i]" and h = h and f = body and xs = "[0..<n]" and s = res]
    assms fold_update [of n res v] by simp

lemma split_index: "i < m * n \<Longrightarrow> i div n < m \<and> i mod n < n \<and> i div n * n + i mod n = i" for i :: nat
  by (cases "n = 0") (simp_all add: less_mult_imp_div_less div_mult_mod_eq)

lemma flatten_forward_ok:
  fixes x :: "'a::zero tensor4"
  assumes "box B C H W x" "C * H * W < 2 ^ 61"
  shows "flatten_forward l x = Inr (\<lparr>t_rows = B, t_cols = C * H * W, t_data = t4_data x, is_transposed = False\<rparr>,
    \<lparr>cached_batch = B, cached_channels = C, cached_height = H, cached_width = W\<rparr>)"
proof -
  let ?n = "C * H * W"
  let ?h = "\<lambda>res. \<lparr>t_rows = B, t_cols = ?n, t_data = res, is_transposed = False\<rparr>"
  have d: "t_batch x = B" "t_channels x = C" "t_height x = H" "t_width x = W" "length (t4_data x) = B * ?n" "B * ?n < 2 ^ 61"
    using assms(1) by (simp_all add: box_def mult.assoc)
  have "fold_result (\<lambda>i output. if i < length (t4_data x) then set_at output (i div ?n) (i mod ?n) (t4_data x ! i) else Inl Undefined)
      [0..<B * ?n] (?h (replicate (B * ?n) 0)) = Inr (?h (map (\<lambda>i. t4_data x ! i) [0..<B * ?n]))"
  proof (rule copy_loop)
    fix i and res :: "'a list" assume i: "i < B * ?n" "length res = B * ?n"
    then have "i mod ?n < ?n" "i div ?n < B" "i div ?n * ?n + i mod ?n = i"
      using split_index by blast+
    then show "(if i < length (t4_data x) then set_at (?h res) (i div ?n) (i mod ?n) (t4_data x ! i) else Inl Undefined) = Inr (?h (res[i := t4_data x ! i]))"
      using i d(5) by (simp add: set_at_def in_range_def place_def set_elem_def)
  qed simp
  moreover have "map (\<lambda>i. t4_data x ! i) [0..<B * ?n] = t4_data x"
    using d(5) map_nth [of "t4_data x"] by simp
  moreover have "alloc_tensor B ?n = Inr (?h (replicate (B * ?n) (0 :: 'a)))"
    using d(6) by (simp add: alloc_tensor_ok new_tensor_def)
  moreover have "?n mod 2 ^ 64 = ?n" "B * ?n mod 2 ^ 64 = B * ?n"
    using assms(2) d(6) by simp_all
  ultimately show ?thesis
    unfolding flatten_forward_def Let_def d(1-4) by (simp only: bind_result_simps)
qed

lemma flatten_backward_ok:
  fixes x :: "'a::zero tensor4"
  assumes "box B C H W x" "C * H * W < 2 ^ 61"
  shows "flatten_backward \<lparr>cached_batch = B, cached_channels = C, cached_height = H, cached_width = W\<rparr>
    \<lparr>t_rows = B, t_cols = C * H * W, t_data = t4_data x, is_transposed = False\<rparr> = Inr x"
proof -
  let ?n = "C * H * W" and ?g = "\<lparr>t_rows = B, t_cols = C * H * W, t_data = t4_data x, is_transposed = False\<rparr>"
  have n: "?n mod 2 ^ 64 = ?n" "B * C * H * W mod 2 ^ 64 = B * ?n"
    using assms by (simp_all add: box_def mult.assoc)
  obtain t :: "'a tensor4" where t: "new_tensor4 B C H W 0 = Inr t" "box B C H W t"
    by (rule new_tensor4_ok [of B C H W 0]) (use assms(1) in \<open>simp_all add: box_def\<close>)
  let ?h = "\<lambda>res. t\<lparr>t4_data := res\<rparr>"
  have "fold_result (\<lambda>i d_input. bind_result (at_elem ?g (i div ?n) (i mod ?n)) (\<lambda>v.
        if i < length (t4_data d_input) then Inr (d_input\<lparr>t4_data := (t4_data d_input)[i := v]\<rparr>) else Inl Undefined))
      [0..<B * ?n] (?h (t4_data t)) = Inr (?h (map (\<lambda>i. t4_data x ! i) [0..<B * ?n]))"
  proof (rule copy_loop)
    fix i and res :: "'a list" assume i: "i < B * ?n" "length res = B * ?n"
    then have "i mod ?n < ?n" "i div ?n < B" "i div ?n * ?n + i mod ?n = i"
      using split_index by blast+
    then show "bind_result (at_elem ?g (i div ?n) (i mod ?n)) (\<lambda>v.
        if i < length (t4_data (?h res)) then Inr (?h res\<lparr>t4_data := (t4_data (?h res))[i := v]\<rparr>) else Inl Undefined) = Inr (?h (res[i := t4_data x ! i]))"
      using i assms(1) by (simp add: at_elem_def in_range_def place_def elem_def box_def mult.assoc)
  qed (use t(2) in \<open>simp add: box_def mult.assoc\<close>)
  moreover have "map (\<lambda>i. t4_data x ! i) [0..<B * ?n] = t4_data x"
    using assms(1) map_nth [of "t4_data x"] by (simp add: box_def mult.assoc)
  moreover have "t\<lparr>t4_data := t4_data x\<rparr> = x"
    using assms(1) t(2) by (simp add: box_def)
  ultimately show ?thesis
    unfolding flatten_backward_def Let_def flatten_layer.simps n t(1) by simp
qed

lemma new_dense_ok:
  fixes kaiming :: "nat \<Rightarrow> nat \<Rightarrow> 'a::zero"
  obtains d where "new_dense xavier kaiming n m hint = Inr d" "dense_typed n m d"
proof -
  let ?draw = "if hint = ''sigmoid'' then xavier else kaiming"
  have "\<exists>w. loop2 n m (\<lambda>i j w. set_at w i j (?draw i j)) (new_tensor n m 0) = Inr w \<and> shaped n m w"
    by (rule loop2_ok) (simp_all add: set_at_shaped)
  moreover have "\<exists>b. fold_result (\<lambda>j b. set_at b 0 j 0) [0..<m] (new_tensor 1 m (0 :: 'a)) = Inr b \<and> shaped 1 m b"
    by (rule fold_result_ok) (auto simp: set_at_shaped [of 1 m])
  ultimately have "\<exists>d. new_dense xavier kaiming n m hint = Inr d \<and> dense_typed n m d"
    by (auto simp: new_dense_def init_weights_def dense_typed_def)
  then show thesis
    using that by blast
qed

text \<open>The four products of \<open>matmul_gemm\<close>: the operands as the flags read them.\<close>

definition op4 :: "'a tensor4 \<Rightarrow> bool \<Rightarrow> nat \<Rightarrow> nat \<Rightarrow> nat \<Rightarrow> nat \<Rightarrow> 'a" where
  "op4 t flip b c i j = (if flip then elem4 t b c j i else elem4 t b c i j)"

lemma fold_assign_list:
  assumes "\<And>q res. q \<in> set qs \<Longrightarrow> length res = n \<Longrightarrow> body q res = Inr (res[f q := xs ! f q])" "length res = n" "length xs = n"
    "\<And>q. q \<in> set qs \<Longrightarrow> f q < n"
  shows "\<exists>r. fold_result body qs res = Inr r \<and> length r = n \<and> (\<forall>i < n. r ! i = (if i \<in> f ` set qs then xs ! i else res ! i))"
  using assms(1,2,4)
proof (induction qs arbitrary: res)
  case (Cons q qs)
  have "body q res = Inr (res[f q := xs ! f q])" "length (res[f q := xs ! f q]) = n"
    using Cons.prems by auto
  then show ?case
    using Cons.IH [of "res[f q := xs ! f q]"] Cons.prems(1,3) by (auto simp: nth_list_update)
qed simp

lemma conv_forward_ok:
  fixes x :: "'a::{zero,plus,times} tensor4"
  assumes "conv_ok l" "box B C H W x" "in_channels l = C"
    and "kernel_size l \<le> H + 2 * padding l" "kernel_size l \<le> W + 2 * padding l"
    and "H + 2 * padding l < 2 ^ 62" "W + 2 * padding l < 2 ^ 62"
    and "m = (H + 2 * padding l - kernel_size l) div conv_stride l + 1" "n = (W + 2 * padding l - kernel_size l) div conv_stride l + 1"
    and "B * out_channels l * m * n < 2 ^ 61"
  shows "\<exists>y. conv_forward l x = Inr (y, l\<lparr>conv_input := x\<rparr>) \<and> box B (out_channels l) m n y \<and>
     (\<forall>b oc oh ow. b < B \<and> oc < out_channels l \<and> oh < m \<and> ow < n \<longrightarrow>
        elem4 y b oc oh ow = conv_sum l x b oc oh ow + elem4 (conv_bias l) 0 oc 0 0)"
proof -
  let ?l = "l\<lparr>conv_input := x\<rparr>"
  have sz: "out_size H (padding l) (kernel_size l) (conv_stride l) = Inr m" "out_size W (padding l) (kernel_size l) (conv_stride l) = Inr n"
    using assms(1,4-9) by (simp_all add: out_size_ok conv_ok_def)
  obtain t :: "'a tensor4" where t: "new_tensor4 B (out_channels l) m n 0 = Inr t" "box B (out_channels l) m n t"
    by (rule new_tensor4_ok [OF assms(10)])
  have el: "conv_element ?l x b oc oh ow = Inr (conv_sum l x b oc oh ow + elem4 (conv_bias l) 0 oc 0 0)"
    if "b < B" "oc < out_channels l" "oh < m" "ow < n" for b oc oh ow
    using conv_element_ok [of ?l B C H W x b oc oh ow] assms(1-9) that
    by (simp add: conv_ok_def conv_sum_def covers_def)
  let ?body = "\<lambda>(b, oc, oh, ow) output. bind_result (conv_element ?l x b oc oh ow) (\<lambda>v. set4 b oc oh ow v output)"
  obtain y where y: "fold_result ?body (range4 B (out_channels l) m n) t = Inr y" "box B (out_channels l) m n y"
    "\<And>b oc oh ow. b < B \<Longrightarrow> oc < out_channels l \<Longrightarrow> oh < m \<Longrightarrow> ow < n \<Longrightarrow>
      elem4 y b oc oh ow = conv_sum l x b oc oh ow + elem4 (conv_bias l) 0 oc 0 0"
    by (rule fill_all [OF t(2), of ?body "\<lambda>b oc oh ow. conv_sum l x b oc oh ow + elem4 (conv_bias l) 0 oc 0 0"]) (simp_all add: el)
  show ?thesis
    using sz t(1) y box_dims [OF assms(2)] by (intro exI [of _ y]) (simp add: conv_forward_def)
qed

lemma pool_forward_ok:
  fixes x :: "'a::{zero,linorder} tensor4"
  assumes "box B C H W x" "H < 2 ^ 62" "W < 2 ^ 62" "pool_size l \<le> H" "pool_size l \<le> W" "0 < pool_stride l" "pool_stride l < 2 ^ 64"
    "m = (H - pool_size l) div pool_stride l + 1" "n = (W - pool_size l) div pool_stride l + 1" "B * C * m * n < 2 ^ 61"
  shows "\<exists>y. pool_forward neg_inf l x = Inr (y, l\<lparr>pool_input := x\<rparr>) \<and> box B C m n y \<and>
     (\<forall>b c oh ow. b < B \<and> c < C \<and> oh < m \<and> ow < n \<longrightarrow> elem4 y b c oh ow = Max (insert neg_inf
        ((\<lambda>(kh, kw). elem4 x b c (oh * pool_stride l + kh) (ow * pool_stride l + kw)) ` set (range2 (pool_size l) (pool_size l)))))"
proof -
  let ?l = "l\<lparr>pool_input := x\<rparr>"
  let ?v = "\<lambda>b c oh ow. Max (insert neg_inf ((\<lambda>(kh, kw). elem4 x b c (oh * pool_stride l + kh) (ow * pool_stride l + kw)) `
    set (range2 (pool_size l) (pool_size l))))"
  have sz: "out_size H 0 (pool_size l) (pool_stride l) = Inr m" "out_size W 0 (pool_size l) (pool_stride l) = Inr n"
    using assms(2-9) by (simp_all add: out_size_ok)
  obtain t :: "'a tensor4" where t: "new_tensor4 B C m n 0 = Inr t" "box B C m n t"
    by (rule new_tensor4_ok [OF assms(10)])
  have el: "pool_element neg_inf ?l x b c oh ow = Inr (?v b c oh ow)" if "b < B" "c < C" "oh < m" "ow < n" for b c oh ow
    using pool_element_ok [of B C H W x b c ?l oh ow neg_inf] assms(1-5,8,9) that by simp
  let ?body = "\<lambda>(b, c, oh, ow) output. bind_result (pool_element neg_inf ?l x b c oh ow) (\<lambda>v. set4 b c oh ow v output)"
  obtain y where y: "fold_result ?body (range4 B C m n) t = Inr y" "box B C m n y"
    "\<And>b c oh ow. b < B \<Longrightarrow> c < C \<Longrightarrow> oh < m \<Longrightarrow> ow < n \<Longrightarrow> elem4 y b c oh ow = ?v b c oh ow"
    by (rule fill_all [OF t(2), of ?body ?v]) (simp_all add: el)
  show ?thesis
    using sz t(1) y box_dims [OF assms(1)] by (intro exI [of _ y]) (simp add: pool_forward_def)
qed

text \<open>\<open>neg_inf\<close> does not count when it is below every element and the window is not empty.\<close>

lemma window_max:
  assumes "box B C H W x" "b < B" "c < C" "0 < k" "k \<le> H" "k \<le> W" "oh < (H - k) div s + 1" "ow < (W - k) div s + 1"
    "\<And>v. v \<in> set (t4_data x) \<Longrightarrow> neg_inf \<le> (v :: 'a::linorder)"
  defines "win \<equiv> (\<lambda>(kh, kw). elem4 x b c (oh * s + kh) (ow * s + kw)) ` set (range2 k k)"
  shows "Max (insert neg_inf win) = Max win"
proof -
  have "neg_inf \<le> elem4 x b c (oh * s + 0) (ow * s + 0)"
    using place4_box [OF assms(1-3) window_fits [OF assms(5,7,4)] window_fits [OF assms(6,8,4)]] by (simp add: elem4_def assms(9))
  also have "\<dots> \<le> Max win"
  proof (rule Max_ge)
    show "elem4 x b c (oh * s + 0) (ow * s + 0) \<in> win"
      unfolding win_def by (rule image_eqI [where x = "(0, 0)"]) (use assms(4) in simp_all)
  qed (simp add: win_def)
  finally show ?thesis
    by (subst Max_insert) (use assms(4) in \<open>auto simp: win_def max_absorb2 range2_def\<close>)
qed

definition example_image :: "int tensor4" where
  "example_image = \<lparr>t_batch = 1, t_channels = 1, t_height = 2, t_width = 2, stride_b = 4, stride_c = 4, stride_h = 2, t4_data = [1, 2, 3, 4]\<rparr>"

definition example_conv :: "int conv" where
  "example_conv = \<lparr>in_channels = 1, out_channels = 1, kernel_size = 3, conv_stride = 1, padding = 1,
     conv_weights = \<lparr>t_batch = 1, t_channels = 1, t_height = 3, t_width = 3, stride_b = 9, stride_c = 9, stride_h = 3,
       t4_data = [-1, 0, 1, -2, 0, 2, -1, 0, 1]\<rparr>,
     conv_bias = \<lparr>t_batch = 1, t_channels = 1, t_height = 1, t_width = 1, stride_b = 1, stride_c = 1, stride_h = 1, t4_data = [0]\<rparr>,
     conv_d_weights = empty_tensor4, conv_d_bias = empty_tensor4, conv_input = empty_tensor4\<rparr>"

definition example_pool :: "int pool2d" where
  "example_pool = \<lparr>pool_size = 2, pool_stride = 2, pool_input = empty_tensor4\<rparr>"

lemma example_vision:
  "box 1 1 2 2 example_image" "conv_ok example_conv" "in_channels example_conv = 1" "out_channels example_conv = 1"
  "kernel_size example_conv = 3" "conv_stride example_conv = 1" "padding example_conv = 1"
  "pool_size example_pool = 2" "pool_stride example_pool = 2"
  by (simp_all add: box_def conv_ok_def example_image_def example_conv_def example_pool_def)

subsection \<open>Properties\<close>

text \<open>C27: \<open>Conv2DLayer::forward\<close> is the padded convolution: the output has the size the formula gives, and each element
  is the bias plus the sum over exactly those kernel elements that lie on the image, although the code
  computes their positions in unsigned arithmetic that wraps below zero.\<close>
theorem convolution_reference:
  fixes x :: "'a::{zero,plus,times} tensor4"
  assumes "conv_ok l" "box B C H W x" "in_channels l = C"
    and "kernel_size l \<le> H + 2 * padding l" "kernel_size l \<le> W + 2 * padding l"
    and "H + 2 * padding l < 2 ^ 62" "W + 2 * padding l < 2 ^ 62"
    and "m = (H + 2 * padding l - kernel_size l) div conv_stride l + 1" "n = (W + 2 * padding l - kernel_size l) div conv_stride l + 1"
    and "B * out_channels l * m * n < 2 ^ 61"
  shows "\<exists>y. conv_forward l x = Inr (y, l\<lparr>conv_input := x\<rparr>) \<and> box B (out_channels l) m n y \<and>
     (\<forall>b oc oh ow. b < B \<and> oc < out_channels l \<and> oh < m \<and> ow < n \<longrightarrow>
        elem4 y b oc oh ow = conv_sum l x b oc oh ow + elem4 (conv_bias l) 0 oc 0 0)"
  using conv_forward_ok [OF assms] .

theorem convolution_reference_witness:
  "\<exists>y. conv_forward example_conv example_image = Inr (y, example_conv\<lparr>conv_input := example_image\<rparr>) \<and> box 1 1 2 2 y"
  using convolution_reference [OF example_vision(2,1), of 2 2] by (auto simp: example_vision)

text \<open>\<open>MaxPool2DLayer::forward\<close> takes the maximum of each window; the windows never reach past the image, so the
  bounds check of the code is never needed.\<close>
theorem pooling_maximum:
  fixes x :: "'a::{zero,linorder} tensor4"
  assumes "box B C H W x" "H < 2 ^ 62" "W < 2 ^ 62" "0 < pool_size l" "pool_size l \<le> H" "pool_size l \<le> W"
    "0 < pool_stride l" "pool_stride l < 2 ^ 64" "\<And>v. v \<in> set (t4_data x) \<Longrightarrow> neg_inf \<le> v"
    "m = (H - pool_size l) div pool_stride l + 1" "n = (W - pool_size l) div pool_stride l + 1" "B * C * m * n < 2 ^ 61"
  shows "\<exists>y. pool_forward neg_inf l x = Inr (y, l\<lparr>pool_input := x\<rparr>) \<and> box B C m n y \<and>
     (\<forall>b c oh ow. b < B \<and> c < C \<and> oh < m \<and> ow < n \<longrightarrow> elem4 y b c oh ow =
        Max ((\<lambda>(kh, kw). elem4 x b c (oh * pool_stride l + kh) (ow * pool_stride l + kw)) ` set (range2 (pool_size l) (pool_size l))))"
  using pool_forward_ok [OF assms(1-3,5-8,10-12), of neg_inf] window_max [OF assms(1) _ _ assms(4-6) _ _ assms(9)]
  unfolding assms(10,11) by metis

theorem pooling_maximum_witness:
  "\<exists>y. pool_forward (- 1000) example_pool example_image = Inr (y, example_pool\<lparr>pool_input := example_image\<rparr>) \<and> box 1 1 1 1 y"
proof -
  have "- 1000 \<le> v" if "v \<in> set (t4_data example_image)" for v
    using that by (auto simp: example_image_def)
  then show ?thesis
    using pooling_maximum [of 1 1 2 2 example_image example_pool "- 1000" 1 1] example_vision by auto
qed

text \<open>\<open>FlattenLayer\<close> lays the elements of each image out in one row, in the order of the vector, and its backward
  pass is the inverse of its forward pass.\<close>
theorem flatten_inverse:
  assumes "box B C H W x" "C * H * W < 2 ^ 61"
  shows "\<exists>y l'. flatten_forward l x = Inr (y, l') \<and> shaped B (C * H * W) y \<and> t_data y = t4_data x \<and> flatten_backward l' y = Inr x"
  using flatten_forward_ok [OF assms] flatten_backward_ok [OF assms] assms(1)
  by (auto simp: shaped_def plain_def wf_tensor_def box_def mult.assoc)

text \<open>\<open>matmul_gemm\<close> with any of the four flag combinations computes the product of the operands as the flags read them,
  for every image and channel, and refuses operands that do not fit.\<close>
theorem gemm_product:
  fixes A :: "'a::{zero,plus,times} tensor4"
  assumes "box N C Ah Aw A" "box N C Bh Bw B" "box N0 C0 H0 W0 R0" "m = (if tA then Aw else Ah)" "l = (if tA then Ah else Aw)"
    "l' = (if tB then Bw else Bh)" "n = (if tB then Bh else Bw)" "N * C * m * n < 2 ^ 61"
  shows "if l = l' then \<exists>R. matmul_gemm A tA B tB R0 = Inr R \<and> box N C m n R \<and>
       (\<forall>b c i j. b < N \<and> c < C \<and> i < m \<and> j < n \<longrightarrow>
          elem4 R b c i j = fold (\<lambda>k s. s + op4 A tA b c i k * op4 B tB b c k j) [0..<l] 0)
     else matmul_gemm A tA B tB R0 = Inl Invalid_argument"
proof -
  let ?acc = "\<lambda>b c i j. fold_result (\<lambda>k accumulator.
      bind_result (at4 A b c (if tA then k else i) (if tA then i else k)) (\<lambda>x.
      bind_result (at4 B b c (if tB then j else k) (if tB then k else j)) (\<lambda>y. Inr (accumulator + x * y)))) [0..<l] 0"
  let ?v = "\<lambda>b c i j. fold (\<lambda>k s. s + op4 A tA b c i k * op4 B tB b c k j) [0..<l] 0"
  let ?body = "\<lambda>(b, c, i, j) R. bind_result (?acc b c i j) (\<lambda>accumulator. set4 b c i j accumulator R)"
  note dims = box_dims [OF assms(1)] box_dims [OF assms(2)] box_dims [OF assms(3)]
  have e: "t_batch A = N" "t_channels A = C" "(if tA then t_width A else t_height A) = m" "(if tA then t_height A else t_width A) = l"
    "(if tB then t_width B else t_height B) = l'" "(if tB then t_height B else t_width B) = n"
    using dims(1,2) assms(4-7) by simp_all
  show ?thesis
  proof (cases "l = l'")
    case True
    have acc: "?acc b c i j = Inr (?v b c i j)" if "b < N" "c < C" "i < m" "j < n" for b c i j
    proof (rule fold_result_fold)
      fix k s assume "k \<in> set [0..<l]"
      then have "k < l" by simp
      then show "bind_result (at4 A b c (if tA then k else i) (if tA then i else k)) (\<lambda>x.
          bind_result (at4 B b c (if tB then j else k) (if tB then k else j)) (\<lambda>y. Inr (s + x * y))) =
          Inr (s + op4 A tA b c i k * op4 B tB b c k j)"
        using that True assms(4-7) by (cases tA; cases tB) (simp_all add: op4_def at4_box [OF assms(1)] at4_box [OF assms(2)])
    qed
    obtain t where t: "(if t_height R0 \<noteq> m \<or> t_width R0 \<noteq> n \<or> t_batch R0 \<noteq> N \<or> t_channels R0 \<noteq> C then new_tensor4 N C m n 0 else Inr R0) = Inr t"
      "box N C m n t"
      by (cases "t_height R0 \<noteq> m \<or> t_width R0 \<noteq> n \<or> t_batch R0 \<noteq> N \<or> t_channels R0 \<noteq> C")
        (use new_tensor4_ok [OF assms(8), of "0 :: 'a"] assms(3) dims(3) in auto)
    obtain R where "fold_result ?body (range4 N C m n) t = Inr R" "box N C m n R"
      "\<And>b c i j. b < N \<Longrightarrow> c < C \<Longrightarrow> i < m \<Longrightarrow> j < n \<Longrightarrow> elem4 R b c i j = ?v b c i j"
      by (rule fill_all [OF t(2), of ?body ?v]) (simp_all add: acc)
    moreover have "matmul_gemm A tA B tB R0 = bind_result
        (if t_height R0 \<noteq> m \<or> t_width R0 \<noteq> n \<or> t_batch R0 \<noteq> N \<or> t_channels R0 \<noteq> C then new_tensor4 N C m n 0 else Inr R0)
        (fold_result ?body (range4 N C m n))"
      unfolding matmul_gemm_def Let_def e using True by simp
    ultimately show ?thesis
      unfolding t(1) using True by auto
  next
    case False
    then show ?thesis
      unfolding matmul_gemm_def Let_def e by simp
  qed
qed

text \<open>C28: The pipeline of the vision example (convolution 3 by 3 with padding 1, pooling 2 by 2, flattening, dense layer with
  two outputs) returns its two predictions for every image of one channel with at least two rows and
  columns, whatever its size.\<close>
theorem vision_pipeline_safe:
  fixes img :: "'a::{zero,plus,times,linorder} tensor4"
  assumes "box 1 1 H W img" "2 \<le> H" "2 \<le> W" "conv_ok cl" "in_channels cl = 1" "out_channels cl = 1" "kernel_size cl = 3"
    "conv_stride cl = 1" "padding cl = 1" "pool_size pl = 2" "pool_stride pl = 2" "H < 2 ^ 61" "W < 2 ^ 61"
  shows "\<exists>p. vision_pipeline neg_inf cl pl kaiming img = Inr p \<and> shaped 1 2 p"
proof -
  let ?h = "(H - 2) div 2 + 1" and ?w = "(W - 2) div 2 + 1"
  have HW: "1 * 1 * H * W < 2 ^ 61"
    using assms(1) by (simp add: box_def)
  have le: "?h \<le> H" "?w \<le> W"
    using assms(2,3) by linarith+
  have hw: "?h * ?w < 2 ^ 61"
    using mult_le_mono [OF le] HW by (simp only: mult_1)
  obtain y where y: "conv_forward cl img = Inr (y, cl\<lparr>conv_input := img\<rparr>)" "box 1 1 H W y"
    using conv_forward_ok [OF assms(4,1), of H W] assms(2,3,5-9,12,13) HW by auto
  have "1 * 1 * ?h * ?w < 2 ^ 61"
    using hw by simp
  then obtain z where z: "pool_forward neg_inf pl y = Inr (z, pl\<lparr>pool_input := y\<rparr>)" "box 1 1 ?h ?w z"
    using pool_forward_ok [OF y(2), of pl ?h ?w neg_inf] assms(2,3,10-13) by auto
  obtain d where d: "new_dense kaiming kaiming (1 * ?h * ?w) 2 ''relu'' = Inr d" "dense_typed (1 * ?h * ?w) 2 d"
    by (rule new_dense_ok)
  let ?x = "\<lparr>t_rows = 1, t_cols = 1 * ?h * ?w, t_data = t4_data z, is_transposed = False\<rparr>"
  have f: "flatten_forward l z = Inr (?x, \<lparr>cached_batch = 1, cached_channels = 1, cached_height = ?h, cached_width = ?w\<rparr>)" for l
    using z(2) hw by (intro flatten_forward_ok) simp_all
  have "shaped 1 (1 * ?h * ?w) ?x"
    using z(2) by (simp add: box_def shaped_def plain_def wf_tensor_def)
  then obtain p where "dense_forward d ?x = Inr (p, d\<lparr>input_cache := ?x\<rparr>)" "shaped 1 2 p"
    using dense_forward_ok [OF d(2)] by metis
  then show ?thesis
    using y(1) z(1) f d(1) by (simp add: vision_pipeline_def)
qed

theorem vision_pipeline_safe_witness:
  "\<exists>p. vision_pipeline (- 1000) example_conv example_pool (\<lambda>i j. 1) example_image = Inr p \<and> shaped 1 2 p"
  by (rule vision_pipeline_safe [of 2 2]) (simp_all only: example_vision, simp_all)

text \<open>An image loaded into a tensor and saved again gives the bytes of the decoder back, in the order of the file, if every byte
  survives the conversion to a number and back; a file that cannot be decoded is an error.\<close>
theorem image_roundtrip:
  fixes of_byte :: "u8 \<Rightarrow> 'a::zero"
  assumes "\<And>p. to_byte (of_byte p) = p" "length px = H * W * ch" "H * W * ch < 2 ^ 61"
  shows "\<exists>t. load_to_tensor of_byte (Some (W, H, px)) ch = Inr t \<and> box 1 ch H W t \<and> save_from_tensor to_byte t = Inr px"
proof -
  let ?f = "\<lambda>(c, h, w). (h * W + w) * ch + c"
  have f: "(h * W + w) * ch + c < H * W * ch" if "c < ch" "h < H" "w < W" for c h w
    by (intro place_less that)
  have onto: "i \<in> ?f ` set (range3 ch H W)" if "i < H * W * ch" for i
    using split_index [OF that] split_index [of "i div ch" H W]
    by (intro image_eqI [where x = "(i mod ch, i div ch div W, i div ch mod W)"]) auto
  obtain t0 :: "'a tensor4" where t0: "new_tensor4 1 ch H W 0 = Inr t0" "box 1 ch H W t0"
    by (rule new_tensor4_ok [of 1 ch H W 0]) (use assms(3) in \<open>simp_all add: ac_simps\<close>)
  let ?body = "\<lambda>(b, c, h, w) t. let i = (h * W + w) * ch + c in if i < length px then set4 b c h w (of_byte (px ! i)) t else Inl Undefined"
  obtain t where t: "fold_result ?body (range4 1 ch H W) t0 = Inr t" "box 1 ch H W t"
    "\<And>b c h w. b < 1 \<Longrightarrow> c < ch \<Longrightarrow> h < H \<Longrightarrow> w < W \<Longrightarrow> elem4 t b c h w = of_byte (px ! ((h * W + w) * ch + c))"
    by (rule fill_all [OF t0(2), of ?body "\<lambda>b c h w. of_byte (px ! ((h * W + w) * ch + c))"]) (use f assms(2) in auto)
  have "fold_result ?body (range4 1 ch H W) t0 = fold_result (\<lambda>q. ?body (0, q)) (range3 ch H W) t0"
    by (simp add: range4_def fold_result_map)
  then have load: "load_to_tensor of_byte (Some (W, H, px)) ch = Inr t"
    using t(1) t0(1) by (simp add: load_to_tensor_def Let_def)
  let ?save = "\<lambda>(c, h, w) raw. bind_result (at4 t 0 c h w) (\<lambda>v.
      let i = (h * W + w) * ch + c in if i < length raw then Inr (raw[i := to_byte v]) else Inl Undefined)"
  have "\<exists>r. fold_result ?save (range3 ch H W) (replicate (H * W * ch) 0) = Inr r \<and> length r = H * W * ch \<and>
      (\<forall>i < H * W * ch. r ! i = (if i \<in> ?f ` set (range3 ch H W) then px ! i else replicate (H * W * ch) 0 ! i))"
    by (rule fold_assign_list) (use f t(3) at4_box [OF t(2)] assms(1,2) in auto)
  then obtain r where "fold_result ?save (range3 ch H W) (replicate (H * W * ch) 0) = Inr r" "length r = H * W * ch"
    "\<forall>i < H * W * ch. r ! i = px ! i"
    using onto by auto
  moreover from this have "r = px"
    using assms(2) by (auto intro: nth_equalityI)
  ultimately show ?thesis
    using load t(2) box_dims [OF t(2)] by (auto simp: save_from_tensor_def)
qed

end
