(* ===== verification/Ml_Checkpoint.thy ===== *)
theory Ml_Checkpoint
  imports Ml_Layers "HOL-Library.List_Lexorder" "HOL-Library.Char_ord"
begin

text \<open>
  Checkpoints: \<open>ModelCheckpoint.h\<close> and \<open>save\<close> and \<open>load\<close> of \<open>Sequential.h\<close>.  A pointer to a parameter is the
  index of its layer with the name of the field, the dictionary is a list sorted by key, the way
  \<open>std::map\<close> iterates, and the file is a list of bytes read from a position, since the code skips
  tensors it does not know by seeking.  Values that were read past the end of the file are not
  initialised: what the code does with them is \<open>Undefined\<close>.
\<close>

subsection \<open>The dictionary\<close>

datatype param = Weights | Bias

type_synonym param_ref = "nat \<times> param"
type_synonym state_dict = "(string \<times> param_ref) list"

text \<open>\<open>m[k] = v\<close> for an ordered map.\<close>

fun dict_put :: "string \<Rightarrow> 'v \<Rightarrow> (string \<times> 'v) list \<Rightarrow> (string \<times> 'v) list" where
  "dict_put k v [] = [(k, v)]"
| "dict_put k v ((k', v') # d) =
     (if k < k' then (k, v) # (k', v') # d else if k' < k then (k', v') # dict_put k v d else (k, v) # d)"

fun get_parameters :: "string \<Rightarrow> nat \<Rightarrow> 'a layer \<Rightarrow> state_dict" where
  "get_parameters prefix i (Dense d) =
     dict_put (prefix @ ''.bias'') (i, Bias) (dict_put (prefix @ ''.weights'') (i, Weights) [])"
| "get_parameters prefix i l = []"

definition register_parameter :: "string \<Rightarrow> param_ref \<Rightarrow> state_dict \<Rightarrow> state_dict" where
  "register_parameter name parameter state_dict = dict_put name parameter state_dict"

text \<open>The loop with which both \<open>save\<close> and \<open>load\<close> of a model begin.\<close>

definition collect_layer :: "'a layer list \<Rightarrow> nat \<Rightarrow> state_dict \<Rightarrow> state_dict" where
  "collect_layer layers i dict =
     (let prefix = ''layer_'' @ show_nat i; layer_params = get_parameters prefix i (layers ! i)
      in fold (\<lambda>(name, tensor_ptr) dict. register_parameter name tensor_ptr dict) layer_params dict)"

definition collect_parameters :: "'a layer list \<Rightarrow> state_dict" where
  "collect_parameters layers = fold (collect_layer layers) [0..<length layers] []"

fun field :: "param \<Rightarrow> 'a dense \<Rightarrow> 'a tensor" where
  "field Weights d = weights d"
| "field Bias d = bias d"

fun set_field :: "param \<Rightarrow> 'a tensor \<Rightarrow> 'a dense \<Rightarrow> 'a dense" where
  "set_field Weights t d = d\<lparr>weights := t\<rparr>"
| "set_field Bias t d = d\<lparr>bias := t\<rparr>"

definition deref :: "'a layer list \<Rightarrow> param_ref \<Rightarrow> 'a tensor" where
  "deref ls p = field (snd p) (dense_of (ls ! fst p))"

definition assign :: "param_ref \<Rightarrow> 'a tensor \<Rightarrow> 'a layer list \<Rightarrow> 'a layer list" where
  "assign p t ls = ls[fst p := Dense (set_field (snd p) t (dense_of (ls ! fst p)))]"

subsection \<open>The file\<close>

definition name_bytes :: "string \<Rightarrow> bytes" where
  "name_bytes s = map (\<lambda>c. of_nat (of_char c)) s"

definition bytes_name :: "bytes \<Rightarrow> string" where
  "bytes_name bs = map (\<lambda>b. char_of (unat b)) bs"

definition write_entry :: "('a \<Rightarrow> bytes) \<Rightarrow> 'a layer list \<Rightarrow> string \<times> param_ref \<Rightarrow> bytes" where
  "write_entry enc ls = (\<lambda>(name, tensor_ptr).
     le_bytes 8 (of_nat (length name) :: u64) @ name_bytes name @ write_binary enc (deref ls tensor_ptr))"

text \<open>\<open>ModelCheckpoint::save\<close>; \<open>can_open\<close> is whether the file can be opened.\<close>

definition checkpoint_save :: "('a \<Rightarrow> bytes) \<Rightarrow> bool \<Rightarrow> state_dict \<Rightarrow> 'a layer list \<Rightarrow> bytes result" where
  "checkpoint_save enc can_open state_dict ls =
     (if \<not> can_open then Inl Runtime_error
      else Inr (le_bytes 8 (of_nat (length state_dict) :: u64) @ concat (map (write_entry enc ls) state_dict)))"

text \<open>The loop of \<open>ModelCheckpoint::load\<close>.  A seek takes the product of the sizes as a signed offset; one that ends
  before the file fails, and so does every read after it.\<close>

fun load_entries :: "('a \<Rightarrow> bytes) \<Rightarrow> (bytes \<Rightarrow> 'a) \<Rightarrow> state_dict \<Rightarrow> bytes \<Rightarrow> nat \<Rightarrow> nat \<Rightarrow> 'a layer list \<Rightarrow> 'a layer list result" where
  "load_entries enc dec state_dict is pos 0 ls = Inr ls"
| "load_entries enc dec state_dict is pos (Suc k) ls =
     bind_result (read_size (drop pos is)) (\<lambda>(name_len, bs).
     if name_len \<ge> 2 ^ 63 then Inl Length_error
     else if unat name_len > length bs then Inl Undefined
     else
       let name = bytes_name (take (unat name_len) bs); bs = drop (unat name_len) bs in
       case map_of state_dict name of
         Some it \<Rightarrow>
           bind_result (read_binary enc dec bs (deref ls it)) (\<lambda>(t, rest).
             load_entries enc dec state_dict is (length is - length rest) k (assign it t ls))
       | None \<Rightarrow>
           bind_result (read_size bs) (\<lambda>(skip_rows, bs).
           bind_result (read_size bs) (\<lambda>(skip_cols, bs).
             let target = int (length is - length bs) + sint (skip_rows * skip_cols * 4)
             in if target \<ge> 0 then load_entries enc dec state_dict is (nat target) k ls
                else if k = 0 then Inr ls else Inl Undefined)))"

definition checkpoint_load :: "('a \<Rightarrow> bytes) \<Rightarrow> (bytes \<Rightarrow> 'a) \<Rightarrow> bytes option \<Rightarrow> state_dict \<Rightarrow> 'a layer list \<Rightarrow> 'a layer list result" where
  "checkpoint_load enc dec fil state_dict ls =
     (case fil of
        None \<Rightarrow> Inl Runtime_error
      | Some is \<Rightarrow> bind_result (read_size is) (\<lambda>(num_tensors, _). load_entries enc dec state_dict is 8 (unat num_tensors) ls))"

definition seq_save :: "('a \<Rightarrow> bytes) \<Rightarrow> bool \<Rightarrow> 'a layer list \<Rightarrow> bytes result" where
  "seq_save enc can_open layers = checkpoint_save enc can_open (collect_parameters layers) layers"

definition seq_load :: "('a \<Rightarrow> bytes) \<Rightarrow> (bytes \<Rightarrow> 'a) \<Rightarrow> bytes option \<Rightarrow> 'a layer list \<Rightarrow> 'a layer list result" where
  "seq_load enc dec fil layers = checkpoint_load enc dec fil (collect_parameters layers) layers"

subsection \<open>Names\<close>

fun suffix :: "param \<Rightarrow> string" where
  "suffix Weights = ''.weights''"
| "suffix Bias = ''.bias''"

definition param_name :: "param_ref \<Rightarrow> string" where
  "param_name p = ''layer_'' @ show_nat (fst p) @ suffix (snd p)"

lemma param_name_inj [simp]: "param_name p = param_name q \<longleftrightarrow> p = q"
proof
  assume eq: "param_name p = param_name q"
  have split: "takeWhile is_digit (show_nat i @ suffix f) = show_nat i \<and> dropWhile is_digit (show_nat i @ suffix f) = suffix f" for i f
  proof -
    have "\<not> is_digit (hd (suffix f))" "suffix f \<noteq> []"
      by (cases f; simp add: is_digit_def)+
    then show ?thesis
      using show_nat_digits [of i] by (cases "suffix f") (auto simp: list_all_iff takeWhile_append2 dropWhile_append2)
  qed
  have e: "show_nat (fst p) @ suffix (snd p) = show_nat (fst q) @ suffix (snd q)"
    using eq by (simp add: param_name_def)
  from arg_cong [OF e, of "takeWhile is_digit"] have "show_nat (fst p) = show_nat (fst q)"
    by (simp only: split)
  from arg_cong [OF this, of read_nat] have "fst p = fst q"
    by simp
  moreover from arg_cong [OF e, of "dropWhile is_digit"] have "suffix (snd p) = suffix (snd q)"
    by (simp only: split)
  then have "snd p = snd q"
    by (cases "snd p"; cases "snd q") simp_all
  ultimately show "p = q"
    by (rule prod_eqI)
qed simp

lemma name_bytes_inverse [simp]: "bytes_name (name_bytes s) = s" "length (name_bytes s) = length s"
proof -
  have "unat (of_nat (of_char c) :: u8) = of_char c" for c
    by (simp add: unat_of_nat take_bit_eq_mod)
  then show "bytes_name (name_bytes s) = s"
    by (simp add: bytes_name_def name_bytes_def o_def)
qed (simp add: name_bytes_def)

lemma length_show_nat: "length (show_nat n) \<le> Suc n"
  by (induction n rule: show_nat.induct) (subst show_nat.simps, auto)

lemma length_param_name: "length (param_name p) \<le> 15 + fst p"
  using length_show_nat [of "fst p"] by (cases "snd p") (simp_all add: param_name_def)

subsection \<open>Ordered maps\<close>

lemma map_of_dict_put [simp]: "map_of (dict_put k v d) = (map_of d)(k \<mapsto> v)"
  by (induction d) (auto simp: fun_eq_iff)

lemma dict_put_keys: "fst ` set (dict_put k v d) = insert k (fst ` set d)"
proof (induction d)
  case (Cons e d)
  then show ?case
    by (cases e; cases k "fst e" rule: linorder_cases) (simp_all add: insert_commute)
qed simp

lemma dict_put_sorted: "sorted_wrt (<) (map fst d) \<Longrightarrow> sorted_wrt (<) (map fst (dict_put k v d))"
proof (induction d)
  case (Cons e d)
  have "\<forall>x \<in> fst ` set (dict_put k v d). fst e < x" if "fst e < k"
    using that Cons.prems by (auto simp: dict_put_keys)
  then show ?case
    using Cons by (cases e) (auto intro: less_trans)
qed simp


text \<open>What the dictionary of a model holds.\<close>

fun is_dense :: "'a layer \<Rightarrow> bool" where
  "is_dense (Dense d) = True"
| "is_dense l = False"

definition refs :: "'a layer list \<Rightarrow> param_ref set" where
  "refs ls = {p. fst p < length ls \<and> is_dense (ls ! fst p)}"

lemma less_append_left: "xs @ ys < xs @ zs \<longleftrightarrow> ys < zs" for ys zs :: string
  by (induction xs) simp_all

lemma collect_layer_entries:
  "collect_layer ls i d =
     (if is_dense (ls ! i) then dict_put (param_name (i, Weights)) (i, Weights) (dict_put (param_name (i, Bias)) (i, Bias) d) else d)"
proof (cases "ls ! i")
  case (Dense dl)
  have "(''layer_'' @ show_nat i) @ ''.bias'' < (''layer_'' @ show_nat i) @ ''.weights''"
    by (simp only: less_append_left) (simp add: less_char_def)
  then show ?thesis
    by (simp add: collect_layer_def Let_def Dense register_parameter_def param_name_def)
qed (simp_all add: collect_layer_def)

lemma collect_prefix:
  "k \<le> length ls \<Longrightarrow> sorted_wrt (<) (map fst (fold (collect_layer ls) [0..<k] [])) \<and>
     (\<forall>nm p. map_of (fold (collect_layer ls) [0..<k] []) nm = Some p \<longleftrightarrow> fst p < k \<and> is_dense (ls ! fst p) \<and> nm = param_name p)"
proof (induction k)
  case (Suc k)
  define d where "d = fold (collect_layer ls) [0..<k] []"
  have d: "fold (collect_layer ls) [0..<Suc k] [] = collect_layer ls k d" "sorted_wrt (<) (map fst d)"
    "\<And>nm p. map_of d nm = Some p \<longleftrightarrow> fst p < k \<and> is_dense (ls ! fst p) \<and> nm = param_name p"
    using Suc unfolding d_def by auto
  have [simp]: "f \<noteq> Weights \<longleftrightarrow> f = Bias" for f
    by (cases f) simp_all
  show ?case
    unfolding d(1) using d(2,3) by (auto simp: collect_layer_entries dict_put_sorted less_Suc_eq)
qed simp

lemma collect_sorted: "sorted_wrt (<) (map fst (collect_parameters ls))"
  using collect_prefix [of "length ls" ls] unfolding collect_parameters_def by blast

lemma collect_lookup: "map_of (collect_parameters ls) nm = Some p \<longleftrightarrow> p \<in> refs ls \<and> nm = param_name p"
  using collect_prefix [of "length ls" ls] unfolding collect_parameters_def refs_def by (cases p) simp

lemma collect_set: "set (collect_parameters ls) = (\<lambda>p. (param_name p, p)) ` refs ls"
proof -
  have d: "distinct (map fst (collect_parameters ls))"
    using collect_sorted [of ls] by (simp add: strict_sorted_iff)
  have "(nm, p) \<in> set (collect_parameters ls) \<longleftrightarrow> p \<in> refs ls \<and> nm = param_name p" for nm p
    using map_of_eq_Some_iff [OF d] collect_lookup by metis
  then show ?thesis
    by (auto simp: image_iff)
qed

lemma length_collect: "length (collect_parameters ls) \<le> 2 * length ls"
proof -
  have f: "finite ({..<length ls} \<times> {Weights, Bias})" and sub: "refs ls \<subseteq> {..<length ls} \<times> {Weights, Bias}"
    by (auto simp: refs_def intro: param.exhaust)
  have "length (collect_parameters ls) = card (set (collect_parameters ls))"
    using collect_sorted [of ls] by (simp add: strict_sorted_iff distinct_card distinct_map)
  also have "\<dots> \<le> card (refs ls)"
    unfolding collect_set by (rule card_image_le) (rule finite_subset [OF sub f])
  also have "\<dots> \<le> 2 * length ls"
    using card_mono [OF f sub] by (simp add: card_cartesian_product)
  finally show ?thesis .
qed

subsection \<open>Reading a file back\<close>

lemma deref_assign:
  assumes "p \<in> refs ls" "q \<in> refs ls"
  shows "deref (assign p t ls) q = (if q = p then t else deref ls q)" "refs (assign p t ls) = refs ls"
proof -
  show "refs (assign p t ls) = refs ls"
    using assms(1) by (auto simp: refs_def assign_def nth_list_update)
  show "deref (assign p t ls) q = (if q = p then t else deref ls q)"
    using assms by (cases p; cases q; cases "snd p"; cases "snd q") (auto simp: refs_def deref_def assign_def nth_list_update)
qed

text \<open>Parameters that can be loaded from one model into another: of the same shape where both have them, and of
  a size whose bytes a signed offset can count.\<close>

definition loadable :: "'a layer list \<Rightarrow> 'a layer list \<Rightarrow> bool" where
  "loadable M N \<longleftrightarrow> length M < 2 ^ 62 \<and>
     (\<forall>p \<in> refs M. plain (deref M p) \<and> t_rows (deref M p) < 2 ^ 64 \<and> t_cols (deref M p) < 2 ^ 64 \<and>
        4 * (t_rows (deref M p) * t_cols (deref M p)) < 2 ^ 63) \<and>
     (\<forall>p \<in> refs M \<inter> refs N. shaped (t_rows (deref M p)) (t_cols (deref M p)) (deref N p))"

text \<open>The assignment of one parameter, if the model has it.\<close>

definition restore :: "'a layer list \<Rightarrow> param_ref set \<Rightarrow> param_ref \<Rightarrow> 'a layer list \<Rightarrow> 'a layer list" where
  "restore M R p N = (if p \<in> R then assign p (deref M p) N else N)"

lemma refs_restore: "R = refs N \<Longrightarrow> refs (restore M R p N) = refs N"
  by (simp add: restore_def deref_assign)

lemma loadable_restore: "loadable M N \<Longrightarrow> p \<in> refs M \<Longrightarrow> R = refs N \<Longrightarrow> loadable M (restore M R p N)"
  unfolding loadable_def refs_restore restore_def by (auto simp: deref_assign shaped_def)

lemma drop_suffix: "drop pos xs = ys @ zs \<Longrightarrow> pos \<le> length xs \<Longrightarrow> drop (length xs - length zs) xs = zs"
proof -
  assume *: "drop pos xs = ys @ zs" "pos \<le> length xs"
  have "length xs - pos = length ys + length zs"
    unfolding length_drop [symmetric] *(1) by simp
  then have l: "length xs - length zs = length ys + pos"
    using *(2) by linarith
  show ?thesis
    unfolding l drop_drop [symmetric] *(1) by simp
qed

lemma name_len_ok:
  assumes "n < 2 ^ 63"
  shows "\<not> (2 ^ 63 \<le> (of_nat n :: u64))"
proof -
  have "unat (of_nat n :: u64) = n"
    using assms by (intro unat_of_nat_u64) simp
  then show ?thesis
    using assms by (simp add: word_le_nat_alt)
qed

lemma skip_size:
  assumes "4 * (r * c) < 2 ^ 63"
  shows "sint (of_nat r * of_nat c * 4 :: u64) = int (4 * (r * c))"
proof -
  define m where "m = 4 * (r * c)"
  have m: "m < 2 ^ 63"
    using assms by (simp add: m_def)
  have "(of_nat r * of_nat c * 4 :: u64) = of_nat m"
    by (simp add: m_def mult.commute)
  also have "sint (of_nat m :: u64) = signed_take_bit 63 (int m)"
    by (simp only: signed_of_nat) simp
  also have "\<dots> = int m"
    using m by (intro signed_take_bit_int_eq_self) simp_all
  finally show ?thesis
    by (simp add: m_def)
qed

lemma read_entry:
  assumes enc: "\<And>x. length (enc x) = 4" "\<And>x. dec (enc x) = x"
    and ok: "loadable M N" "p \<in> refs M"
    and fil: "drop pos is = write_entry enc M (param_name p, p) @ rest" "pos \<le> length is"
    and same: "refs N0 = refs N"
  shows "load_entries enc dec (collect_parameters N0) is pos (Suc k) N =
      load_entries enc dec (collect_parameters N0) is (length is - length rest) k (restore M (refs N0) p N)"
proof -
  let ?nm = "param_name p" and ?t = "deref M p"
  have t: "plain ?t" "t_rows ?t < 2 ^ 64" "t_cols ?t < 2 ^ 64" "4 * (t_rows ?t * t_cols ?t) < 2 ^ 63" "length M < 2 ^ 62" "fst p < length M"
    using ok unfolding loadable_def by (blast, blast, blast, blast, blast, simp add: refs_def)
  have len: "length ?nm < 2 ^ 63"
    using length_param_name [of p] t(5,6) by simp
  have ul: "unat (of_nat (length ?nm) :: u64) = length ?nm"
    using len by (intro unat_of_nat_u64) simp
  have bs: "read_size (drop pos is) = Inr (of_nat (length ?nm), name_bytes ?nm @ write_binary enc ?t @ rest)"
    unfolding fil(1) by (simp add: write_entry_def)
  show ?thesis
  proof (cases "p \<in> refs N0")
    case True
    then have look: "map_of (collect_parameters N0) ?nm = Some p"
      by (simp add: collect_lookup)
    have n: "shaped (t_rows ?t) (t_cols ?t) (deref N p)"
      using ok True same by (auto simp: loadable_def)
    then have "read_binary enc dec (write_binary enc ?t @ rest) (deref N p) = Inr (deref N p\<lparr>t_data := t_data ?t\<rparr>, rest)"
      using t(1) by (intro read_write_binary enc) (simp_all add: shaped_def plain_def)
    moreover have "deref N p\<lparr>t_data := t_data ?t\<rparr> = ?t"
      using n t(1) by (simp add: shaped_def plain_def)
    ultimately show ?thesis
      using bs name_len_ok [OF len] ul look True by (simp add: restore_def)
  next
    case False
    then have look: "map_of (collect_parameters N0) ?nm = None"
      by (metis collect_lookup not_None_eq param_name_inj)
    have data: "length (concat (map enc (t_data ?t))) = 4 * (t_rows ?t * t_cols ?t)"
      using t(1) enc(1) by (simp add: length_concat o_def sum_list_triv plain_def wf_tensor_def)
    have "length is - pos = length (drop pos is)"
      by simp
    then have "length is \<ge> length (concat (map enc (t_data ?t))) + length rest"
      unfolding fil(1) by (simp add: write_entry_def write_binary_def)
    then have "int (length is - length (concat (map enc (t_data ?t)) @ rest)) + int (4 * (t_rows ?t * t_cols ?t)) =
        int (length is - length rest)"
      unfolding data by (simp add: data)
    moreover have "\<not> length (name_bytes ?nm @ xs) < length ?nm" for xs
      by simp
    ultimately show ?thesis
      using bs name_len_ok [OF len] ul look False
      by (simp add: restore_def write_binary_def skip_size [OF t(4)] del: length_append)
  qed
qed

lemma load_all:
  assumes enc: "\<And>x. length (enc x) = 4" "\<And>x. dec (enc x) = x"
  shows "loadable M N \<Longrightarrow> set ps \<subseteq> refs M \<Longrightarrow> refs N0 = refs N \<Longrightarrow> pos \<le> length is \<Longrightarrow>
    drop pos is = concat (map (\<lambda>p. write_entry enc M (param_name p, p)) ps) \<Longrightarrow>
    load_entries enc dec (collect_parameters N0) is pos (length ps) N = Inr (fold (restore M (refs N0)) ps N)"
proof (induction ps arbitrary: pos N)
  case (Cons p ps)
  let ?rest = "concat (map (\<lambda>p. write_entry enc M (param_name p, p)) ps)"
  have d: "drop pos is = write_entry enc M (param_name p, p) @ ?rest" "p \<in> refs M"
    using Cons.prems by simp_all
  have "load_entries enc dec (collect_parameters N0) is (length is - length ?rest) (length ps) (restore M (refs N0) p N) =
      Inr (fold (restore M (refs N0)) ps (restore M (refs N0) p N))"
    by (rule Cons.IH)
      (use Cons.prems drop_suffix [OF d(1)] in \<open>simp_all add: loadable_restore refs_restore\<close>)
  then show ?case
    using read_entry [OF enc Cons.prems(1) d(2,1) Cons.prems(4,3)] by simp
qed simp

text \<open>A layer with the weights and the bias of another, if both have them.\<close>

fun restore_layer :: "'a layer \<Rightarrow> 'a layer \<Rightarrow> 'a layer" where
  "restore_layer (Dense d) (Dense e) = Dense (e\<lparr>weights := weights d, bias := bias d\<rparr>)"
| "restore_layer l l' = l'"

definition restored :: "'a layer list \<Rightarrow> 'a layer list \<Rightarrow> 'a layer list" where
  "restored M N = map (\<lambda>i. if i < length M then restore_layer (M ! i) (N ! i) else N ! i) [0..<length N]"

text \<open>Layer \<open>i\<close> after the parameters in \<open>P\<close> have been restored.\<close>

definition partly :: "'a layer list \<Rightarrow> param_ref set \<Rightarrow> nat \<Rightarrow> 'a layer \<Rightarrow> 'a layer" where
  "partly M P i l = (case l of
     Dense e \<Rightarrow> Dense (e\<lparr>weights := if (i, Weights) \<in> P then weights (dense_of (M ! i)) else weights e,
                        bias := if (i, Bias) \<in> P then bias (dense_of (M ! i)) else bias e\<rparr>)
   | _ \<Rightarrow> l)"

lemma fold_restore:
  "fold (restore M (refs N)) ps N = map (\<lambda>i. partly M (set ps) i (N ! i)) [0..<length N]"
proof (induction ps rule: rev_induct)
  case Nil
  show ?case
    by (rule nth_equalityI) (auto simp: partly_def split: layer.splits)
next
  case (snoc p ps)
  obtain k f where p: "p = (k, f)" by (cases p)
  have "restore M (refs N) p (map (\<lambda>i. partly M (set ps) i (N ! i)) [0..<length N]) =
      map (\<lambda>i. partly M (insert p (set ps)) i (N ! i)) [0..<length N]"
  proof (rule nth_equalityI)
    fix i assume "i < length (restore M (refs N) p (map (\<lambda>i. partly M (set ps) i (N ! i)) [0..<length N]))"
    then have "i < length N" by (simp add: restore_def assign_def split: if_splits)
    then show "restore M (refs N) p (map (\<lambda>i. partly M (set ps) i (N ! i)) [0..<length N]) ! i =
        map (\<lambda>i. partly M (insert p (set ps)) i (N ! i)) [0..<length N] ! i"
      by (cases f; cases "i = k") (auto simp: p restore_def assign_def refs_def deref_def partly_def split: layer.splits)
  qed (simp add: restore_def assign_def)
  then show ?case
    by (simp add: snoc.IH)
qed

lemma restored_partly: "restored M N = map (\<lambda>i. partly M (refs M) i (N ! i)) [0..<length N]"
  unfolding restored_def
proof (rule map_cong)
  fix i
  show "(if i < length M then restore_layer (M ! i) (N ! i) else N ! i) = partly M (refs M) i (N ! i)"
    by (cases "M ! i"; cases "N ! i") (auto simp: partly_def refs_def)
qed simp

subsection \<open>Properties\<close>

text \<open>C24: A model saved to a file and loaded into another gives the other the weights and the biases of the first
  in every dense layer that both have, and changes nothing else; entries of layers the other model does
  not have are skipped.  Shapes agree where both have the layer, and an element is determined by its four bytes.\<close>
theorem checkpoint_roundtrip:
  assumes "\<And>x. length (enc x) = 4" "\<And>x. dec (enc x) = x" "loadable M N"
  shows "\<exists>bs. seq_save enc True M = Inr bs \<and> seq_load enc dec (Some bs) N = Inr (restored M N)"
proof -
  define ps where "ps = map snd (collect_parameters M)"
  have es: "collect_parameters M = map (\<lambda>p. (param_name p, p)) ps"
    unfolding ps_def map_map by (rule map_idI [symmetric]) (auto simp: collect_set)
  have set: "set ps = refs M"
    by (simp add: ps_def collect_set image_image)
  define bs where "bs = le_bytes 8 (of_nat (length ps) :: u64) @ concat (map (\<lambda>p. write_entry enc M (param_name p, p)) ps)"
  have "seq_save enc True M = Inr bs"
    by (simp add: seq_save_def checkpoint_save_def es bs_def o_def)
  moreover have "load_entries enc dec (collect_parameters N) bs 8 (length ps) N = Inr (fold (restore M (refs N)) ps N)"
    by (rule load_all [OF assms]) (simp_all add: set bs_def)
  moreover have "unat (of_nat (length ps) :: u64) = length ps"
    using length_collect [of M] assms(3) by (intro unat_of_nat_u64) (simp add: loadable_def ps_def)
  ultimately show ?thesis
    by (simp add: seq_load_def checkpoint_load_def bs_def fold_restore set restored_partly)
qed

definition example_net :: "u32 layer list" where
  "example_net = [Dense \<lparr>weights = new_tensor 2 3 7, bias = new_tensor 1 3 5, input_cache = new_tensor 0 0 0, d_weights = new_tensor 2 3 0,
     d_bias = new_tensor 1 3 0, m_w = new_tensor 0 0 0, v_w = new_tensor 0 0 0, m_b = new_tensor 0 0 0, v_b = new_tensor 0 0 0,
     adam_initialized = False\<rparr>, ReLU (new_tensor 0 0 0)]"

theorem checkpoint_roundtrip_witness:
  "\<exists>bs. seq_save (le_bytes 4) True example_net = Inr bs \<and>
     seq_load (le_bytes 4) of_le (Some bs) example_net = Inr (restored example_net example_net)"
proof (rule checkpoint_roundtrip)
  have "i < length example_net \<and> is_dense (example_net ! i) \<longleftrightarrow> i = 0" for i
    by (auto simp: example_net_def less_Suc_eq)
  moreover have "f = Weights \<or> f = Bias" for f
    by (cases f) simp_all
  ultimately have "refs example_net = {(0, Weights), (0, Bias)}"
    unfolding refs_def by (simp add: set_eq_iff) blast
  then show "loadable example_net example_net"
    by (simp add: loadable_def example_net_def deref_def)
qed (simp_all add: of_le_bytes)

end
