(* ===== verification/Chardev.thy ===== *)
theory Chardev
  imports Prelude
begin

text \<open>
  The character driver \<open>adv_chardev.c\<close>: a 256-byte ring buffer behind \<open>read\<close>, \<open>write\<close>, \<open>ioctl\<close> and
  \<open>llseek\<close>, and the module's \<open>adv_init\<close> and \<open>adv_exit\<close>.  The kernel's \<open>copy_to_user\<close> and
  \<open>copy_from_user\<close> are parameters, described by \<open>usercopy\<close>: what they leave uncopied is counted in
  the result, a complete copy moved every byte, an incomplete \<open>copy_from_user\<close> pads with zeros, and
  a length above \<open>INT_MAX\<close> is refused.  \<open>contents\<close> reads the ring as a queue of bytes; the lemmas
  show that a write appends to it and drops the oldest bytes, that a read up to the end of the
  storage takes from its front, that a read across the end of the storage always fails, and that
  every handler leaves the mutex free and the ring well formed.
\<close>

subsection \<open>User memory\<close>

type_synonym umem = "u64 \<Rightarrow> u8"

text \<open>\<open>copy_to_user(to, from, n)\<close> gets the bytes from the kernel pointer on; \<open>copy_from_user\<close> gives
  the \<open>n\<close> bytes that end up at the kernel pointer.  Both give the number of bytes not copied.\<close>

type_synonym copy_to = "umem \<Rightarrow> u64 \<Rightarrow> bytes \<Rightarrow> u64 \<Rightarrow> umem \<times> u64"
type_synonym copy_from = "umem \<Rightarrow> u64 \<Rightarrow> u64 \<Rightarrow> bytes \<times> u64"

definition user_store :: "umem \<Rightarrow> u64 \<Rightarrow> bytes \<Rightarrow> umem" where
  "user_store um p bs = (\<lambda>a. if unat (a - p) < length bs then bs ! unat (a - p) else um a)"

definition user_load :: "umem \<Rightarrow> u64 \<Rightarrow> nat \<Rightarrow> bytes" where
  "user_load um p n = map (\<lambda>i. um (p + of_nat i)) [0..<n]"

definition INT_MAX :: u64 where
  "INT_MAX = 0x7FFFFFFF"

definition usercopy :: "copy_to \<Rightarrow> copy_from \<Rightarrow> bool" where
  "usercopy ct cf \<longleftrightarrow>
     (\<forall>um p src n. INT_MAX < n \<longrightarrow> ct um p src n = (um, n)) \<and>
     (\<forall>um p src n. snd (ct um p src n) = 0 \<and> n \<le> INT_MAX \<longrightarrow>
        fst (ct um p src n) = user_store um p (take (unat n) src)) \<and>
     (\<forall>um p n. n \<le> INT_MAX \<longrightarrow> length (fst (cf um p n)) = unat n) \<and>
     (\<forall>um p n. snd (cf um p n) = 0 \<and> n \<le> INT_MAX \<longrightarrow> fst (cf um p n) = user_load um p (unat n))"

subsection \<open>The device\<close>

definition BUFFER_SIZE :: u64 where
  "BUFFER_SIZE = 256"

definition ERESTARTSYS :: int where "ERESTARTSYS = 512"
definition EFAULT :: int where "EFAULT = 14"
definition ENOTTY :: int where "ENOTTY = 25"
definition ESPIPE :: int where "ESPIPE = 29"
definition ENOMEM :: int where "ENOMEM = 12"

text \<open>\<open>buffer\<close> holds the bytes the pointer owns (none for a null pointer); \<open>buf_mutex\<close> tells
  whether the mutex is held.\<close>

record advanced_dev =
  buffer :: bytes
  head :: u64
  tail :: u64
  fill :: u64
  buf_mutex :: bool

record inode =
  i_cdev :: u64

record file_struct =
  private_data :: "u64 option"
  f_pos :: int

definition mutex_lock :: "advanced_dev \<Rightarrow> advanced_dev" where
  "mutex_lock dev = dev\<lparr>buf_mutex := True\<rparr>"

definition mutex_unlock :: "advanced_dev \<Rightarrow> advanced_dev" where
  "mutex_unlock dev = dev\<lparr>buf_mutex := False\<rparr>"

text \<open>\<open>memcpy\<close>-like store of bytes at an offset of the buffer.\<close>

definition put_bytes :: "bytes \<Rightarrow> nat \<Rightarrow> bytes \<Rightarrow> bytes" where
  "put_bytes b i bs = take i b @ bs @ drop (i + length bs) b"

definition dev_open :: "inode \<Rightarrow> file_struct \<Rightarrow> file_struct \<times> int" where
  "dev_open ino f = (f\<lparr>private_data := Some (i_cdev ino)\<rparr>, 0)"

definition dev_release :: "inode \<Rightarrow> file_struct \<Rightarrow> file_struct \<times> int" where
  "dev_release ino f = (f, 0)"

text \<open>In every handler \<open>intr\<close> tells that a signal interrupted \<open>mutex_lock_interruptible\<close>.\<close>

definition read_finish :: "advanced_dev \<Rightarrow> u64 \<Rightarrow> advanced_dev" where
  "read_finish dev n = mutex_unlock (dev\<lparr>tail := (tail dev + n) mod BUFFER_SIZE, fill := fill dev - n\<rparr>)"

definition dev_read :: "copy_to \<Rightarrow> bool \<Rightarrow> umem \<Rightarrow> advanced_dev \<Rightarrow> u64 \<Rightarrow> u64 \<Rightarrow> advanced_dev \<times> umem \<times> int" where
  "dev_read ct intr um dev0 buf len =
     (if intr then (dev0, um, - ERESTARTSYS)
      else let dev = mutex_lock dev0; available = fill dev in
        if available = 0 then (mutex_unlock dev, um, 0)
        else let n = (if len > available then available else len) in
          if tail dev + n > BUFFER_SIZE then
            let first_part = BUFFER_SIZE - tail dev;
                second_part = - first_part;
                (um1, left1) = ct um buf (drop (unat (tail dev)) (buffer dev)) first_part
            in if left1 \<noteq> 0 then (mutex_unlock dev, um1, - EFAULT)
               else let (um2, left2) = ct um1 (buf + first_part) (buffer dev) second_part
                 in if left2 \<noteq> 0 then (mutex_unlock dev, um2, - EFAULT)
                    else (read_finish dev n, um2, int (unat n))
          else let (um1, left1) = ct um buf (drop (unat (tail dev)) (buffer dev)) n
            in if left1 \<noteq> 0 then (mutex_unlock dev, um1, - EFAULT)
               else (read_finish dev n, um1, int (unat n)))"

definition write_finish :: "advanced_dev \<Rightarrow> u64 \<Rightarrow> advanced_dev" where
  "write_finish dev n =
     (let dev1 = dev\<lparr>head := (head dev + n) mod BUFFER_SIZE, fill := fill dev + n\<rparr>;
          dev2 = (if fill dev1 > BUFFER_SIZE then dev1\<lparr>fill := BUFFER_SIZE, tail := head dev1\<rparr> else dev1)
      in mutex_unlock dev2)"

definition dev_write :: "copy_from \<Rightarrow> bool \<Rightarrow> umem \<Rightarrow> advanced_dev \<Rightarrow> u64 \<Rightarrow> u64 \<Rightarrow> advanced_dev \<times> int" where
  "dev_write cf intr um dev0 buf len =
     (let n = (if len > BUFFER_SIZE then BUFFER_SIZE else len) in
      if intr then (dev0, - ERESTARTSYS)
      else let dev = mutex_lock dev0 in
        if head dev + n > BUFFER_SIZE then
          let first_part = BUFFER_SIZE - head dev;
              second_part = n - first_part;
              (bs1, left1) = cf um buf first_part;
              dev1 = dev\<lparr>buffer := put_bytes (buffer dev) (unat (head dev)) bs1\<rparr>
          in if left1 \<noteq> 0 then (mutex_unlock dev1, - EFAULT)
             else let (bs2, left2) = cf um (buf + first_part) second_part;
                      dev2 = dev1\<lparr>buffer := put_bytes (buffer dev1) 0 bs2\<rparr>
               in if left2 \<noteq> 0 then (mutex_unlock dev2, - EFAULT)
                  else (write_finish dev2 n, int (unat n))
        else let (bs1, left1) = cf um buf n;
                 dev1 = dev\<lparr>buffer := put_bytes (buffer dev) (unat (head dev)) bs1\<rparr>
          in if left1 \<noteq> 0 then (mutex_unlock dev1, - EFAULT)
             else (write_finish dev1 n, int (unat n)))"

text \<open>\<open>head = tail = size = 0\<close> and \<open>memset\<close>, shared by the reset command and the seek.\<close>

definition reset_buffer :: "advanced_dev \<Rightarrow> advanced_dev" where
  "reset_buffer dev = dev\<lparr>head := 0, tail := 0, fill := 0, buffer := put_bytes (buffer dev) 0 (replicate 256 0)\<rparr>"

definition IOCTL_RESET_BUFFER :: u32 where
  "IOCTL_RESET_BUFFER = 0x6B01"

definition IOCTL_GET_STATUS :: u32 where
  "IOCTL_GET_STATUS = 0x80046B02"

definition dev_ioctl :: "copy_to \<Rightarrow> bool \<Rightarrow> umem \<Rightarrow> advanced_dev \<Rightarrow> u32 \<Rightarrow> u64 \<Rightarrow> advanced_dev \<times> umem \<times> int" where
  "dev_ioctl ct intr um dev cmd arg =
     (if cmd = IOCTL_RESET_BUFFER then
        if intr then (dev, um, - ERESTARTSYS)
        else (mutex_unlock (reset_buffer (mutex_lock dev)), um, 0)
      else if cmd = IOCTL_GET_STATUS then
        if intr then (dev, um, - ERESTARTSYS)
        else let dev1 = mutex_lock dev; current_occupancy = (ucast (fill dev1) :: u32); dev2 = mutex_unlock dev1;
                 (um1, left1) = ct um arg (le_bytes 4 current_occupancy) 4
             in if left1 \<noteq> 0 then (dev2, um1, - EFAULT) else (dev2, um1, 0)
      else (dev, um, - ENOTTY))"

definition SEEK_SET :: int where
  "SEEK_SET = 0"

definition device_set_llseek :: "bool \<Rightarrow> file_struct \<Rightarrow> advanced_dev \<Rightarrow> int \<Rightarrow> int \<Rightarrow> file_struct \<times> advanced_dev \<times> int" where
  "device_set_llseek intr f dev0 offset whence =
     (if intr then (f, dev0, - ERESTARTSYS)
      else let dev = mutex_lock dev0 in
        if whence = SEEK_SET \<and> offset = 0 then (f\<lparr>f_pos := 0\<rparr>, mutex_unlock (reset_buffer dev), 0)
        else (f, mutex_unlock dev, - ESPIPE))"

subsection \<open>Loading and unloading the module\<close>

text \<open>What the kernel answers to the calls of \<open>adv_init\<close>: the return codes of
  \<open>alloc_chrdev_region\<close> and \<open>cdev_add\<close>, the error pointers of \<open>class_create\<close> and \<open>device_create\<close>
  (\<open>None\<close> for a valid pointer) and whether the two \<open>kzalloc\<close> calls find memory.\<close>

record init_env =
  region_result :: int
  class_error :: "int option"
  dev_memory :: bool
  buffer_memory :: bool
  cdev_result :: int
  device_error :: "int option"

datatype resource = Region | Dev_class | Dev_memory | Buf_memory | Cdev | Dev_node

datatype event = Acquire resource | Release resource

text \<open>\<open>kfree\<close> of a null pointer does nothing.\<close>

definition kfree_buffer :: "advanced_dev \<Rightarrow> event list" where
  "kfree_buffer dev = (if buffer dev = [] then [] else [Release Buf_memory])"

definition adv_init :: "init_env \<Rightarrow> int \<times> advanced_dev option \<times> event list" where
  "adv_init env =
     (if region_result env < 0 then (-1, None, [])
      else let log1 = [Acquire Region] in
        case class_error env of
          Some e \<Rightarrow> (e, None, log1 @ [Release Region])
        | None \<Rightarrow> let log2 = log1 @ [Acquire Dev_class] in
          if \<not> dev_memory env then (- ENOMEM, None, log2 @ [Release Dev_class, Release Region])
          else let buf = (if buffer_memory env then replicate 256 0 else []);
                   my_dev = \<lparr>buffer = buf, head = 0, tail = 0, fill = 0, buf_mutex = False\<rparr>;
                   log3 = log2 @ [Acquire Dev_memory] @ (if buffer_memory env then [Acquire Buf_memory] else [])
            in if cdev_result env < 0 then
                 (-1, None, log3 @ kfree_buffer my_dev @ [Release Dev_memory, Release Dev_class, Release Region])
               else let log4 = log3 @ [Acquire Cdev] in
                 if device_error env \<noteq> None then
                   (-1, None, log4 @ [Release Cdev] @ kfree_buffer my_dev @
                      [Release Dev_memory, Release Dev_class, Release Region])
                 else (0, Some my_dev, log4 @ [Acquire Dev_node]))"

definition adv_exit :: "advanced_dev \<Rightarrow> event list" where
  "adv_exit dev = [Release Dev_node, Release Cdev] @ kfree_buffer dev @
     [Release Dev_memory, Release Dev_class, Release Region]"

text \<open>The resources held after a log, newest first; \<open>None\<close> when something is released that is not
  the newest resource held.\<close>

fun holds_after :: "resource list \<Rightarrow> event list \<Rightarrow> resource list option" where
  "holds_after held [] = Some held"
| "holds_after held (Acquire r # es) = holds_after (r # held) es"
| "holds_after [] (Release r # es) = None"
| "holds_after (h # held) (Release r # es) = (if h = r then holds_after held es else None)"

subsection \<open>The queue the ring stands for\<close>

definition contents :: "advanced_dev \<Rightarrow> bytes" where
  "contents dev = map (\<lambda>i. buffer dev ! ((unat (tail dev) + i) mod 256)) [0..<unat (fill dev)]"

definition dev_inv :: "advanced_dev \<Rightarrow> bool" where
  "dev_inv dev \<longleftrightarrow> length (buffer dev) = 256 \<and> head dev < BUFFER_SIZE \<and> tail dev < BUFFER_SIZE \<and>
     fill dev \<le> BUFFER_SIZE \<and> unat (head dev) = (unat (tail dev) + unat (fill dev)) mod 256 \<and> \<not> buf_mutex dev"

definition wraps :: "advanced_dev \<Rightarrow> nat \<Rightarrow> bool" where
  "wraps dev n \<longleftrightarrow> 256 < unat (tail dev) + min n (unat (fill dev))"

text \<open>The last 256 bytes of a queue after the first 256 bytes of a message were appended.\<close>

definition ring_append :: "bytes \<Rightarrow> bytes \<Rightarrow> bytes" where
  "ring_append q m = (let m' = take 256 m in drop (length q + length m' - 256) (q @ m'))"

subsection \<open>Arithmetic of the ring\<close>

lemma unat_BUFFER_SIZE [simp]: "unat BUFFER_SIZE = 256"
  by (simp add: BUFFER_SIZE_def)

lemma buffer_less [simp]: "x < BUFFER_SIZE \<longleftrightarrow> unat x < 256" "x \<le> BUFFER_SIZE \<longleftrightarrow> unat x \<le> 256"
  "BUFFER_SIZE < x \<longleftrightarrow> 256 < unat x"
  by (simp_all add: word_less_nat_alt word_le_nat_alt)

lemma unat_small_add: "unat x \<le> 256 \<Longrightarrow> unat y \<le> 256 \<Longrightarrow> unat (x + y :: u64) = unat x + unat y"
  using unat_of_nat_u64 [of "unat x + unat y"] by simp

lemma unat_mod_BUFFER_SIZE: "unat (x mod BUFFER_SIZE) = unat x mod 256"
  by (simp add: unat_mod_distrib)

lemma unat_small_sub: "unat y \<le> unat x \<Longrightarrow> unat (x - y :: u64) = unat x - unat y"
  by (simp add: unat_sub word_le_nat_alt)

lemma small_le_INT_MAX: "unat x \<le> 256 \<Longrightarrow> x \<le> INT_MAX"
  by (simp add: word_le_nat_alt INT_MAX_def)

lemmas ring_arith = unat_small_add unat_mod_BUFFER_SIZE unat_small_sub

lemma length_put_bytes [simp]: "i + length bs \<le> length b \<Longrightarrow> length (put_bytes b i bs) = length b"
  by (simp add: put_bytes_def)

lemma put_bytes_nth:
  "i + length bs \<le> length b \<Longrightarrow> j < length b \<Longrightarrow>
     put_bytes b i bs ! j = (if i \<le> j \<and> j < i + length bs then bs ! (j - i) else b ! j)"
  by (auto simp: put_bytes_def nth_append min_def)

text \<open>Both branches of \<open>dev_write\<close> store byte \<open>i\<close> of the message \<open>i\<close> places after the head,
  modulo the size of the storage, and leave every other place alone.\<close>

definition ring_stored :: "bytes \<Rightarrow> nat \<Rightarrow> bytes \<Rightarrow> bytes \<Rightarrow> bool" where
  "ring_stored b h m b' \<longleftrightarrow> length b' = 256 \<and>
     (\<forall>i < 256. b' ! ((h + i) mod 256) = (if i < length m then m ! i else b ! ((h + i) mod 256)))"

lemma mod_ring: "x < 512 \<Longrightarrow> x mod 256 = (if x < 256 then x else x - 256)" for x :: nat
  by (simp add: le_mod_geq)

lemma ring_stored_straight:
  assumes "length b = 256" "h < 256" "h + length m \<le> 256"
  shows "ring_stored b h m (put_bytes b h m)"
  unfolding ring_stored_def
proof (intro conjI allI impI)
  fix i :: nat assume "i < 256"
  then show "put_bytes b h m ! ((h + i) mod 256) = (if i < length m then m ! i else b ! ((h + i) mod 256))"
    using assms by (cases "h + i < 256") (auto simp: put_bytes_nth mod_ring)
qed (use assms in simp)

lemma ring_stored_wrapped:
  assumes "length b = 256" "h < 256" "length m1 = 256 - h" "length m1 + length m2 \<le> 256"
  shows "ring_stored b h (m1 @ m2) (put_bytes (put_bytes b h m1) 0 m2)"
  unfolding ring_stored_def
proof (intro conjI allI impI)
  fix i :: nat assume "i < 256"
  then show "put_bytes (put_bytes b h m1) 0 m2 ! ((h + i) mod 256) =
      (if i < length (m1 @ m2) then (m1 @ m2) ! i else b ! ((h + i) mod 256))"
    using assms by (cases "h + i < 256") (auto simp: put_bytes_nth nth_append mod_ring add.commute)
qed (use assms in simp)

lemma ring_stored_contents:
  assumes st: "ring_stored b h m b'" and b: "length m \<le> 256" "s \<le> 256" "t < 256"
    and h: "h = (t + s) mod 256"
    and s': "s' = min 256 (s + length m)"
    and t': "t' = (if 256 < s + length m then (h + length m) mod 256 else t)"
  shows "map (\<lambda>i. b' ! ((t' + i) mod 256)) [0..<s'] =
         drop (s + length m - 256) (map (\<lambda>i. b ! ((t + i) mod 256)) [0..<s] @ m)"
    (is "?new = drop ?d (?old @ m)")
proof (rule nth_equalityI)
  show "length ?new = length (drop ?d (?old @ m))"
    using b s' by auto
  fix k assume "k < length ?new"
  then have k: "k < s'" by simp
  let ?i = "(256 - s + ?d + k) mod 256"
  have pos: "(t' + k) mod 256 = (h + ?i) mod 256"
  proof (cases "256 < s + length m")
    case True
    then have "256 - s + ?d + k = length m + k"
      using b by arith
    then show ?thesis
      unfolding t' using True by (simp add: mod_simps add.assoc)
  next
    case False
    then have "t + s + (256 - s + ?d + k) = t + k + 256"
      using b by arith
    then have "(t + s + (256 - s + ?d + k)) mod 256 = (t + k) mod 256"
      by (simp only: mod_add_self2)
    moreover have "t' = t"
      using t' False by simp
    ultimately show ?thesis
      unfolding h mod_add_eq by (simp only:)
  qed
  have place: "b' ! ((t' + k) mod 256) = (if ?i < length m then m ! ?i else b ! ((h + ?i) mod 256))"
    using st unfolding ring_stored_def pos by simp
  have drop: "drop ?d (?old @ m) ! k = (?old @ m) ! (?d + k)"
    using b k s' by (intro nth_drop) simp
  show "?new ! k = drop ?d (?old @ m) ! k"
  proof (cases "?d + k < s")
    case True
    then have i: "?i = 256 - s + ?d + k" "\<not> ?i < length m"
      using b s' k mod_ring [of "256 - s + ?d + k"] by auto
    have "t + s + (256 - s + ?d + k) = t + (?d + k) + 256"
      using b by arith
    then have "(h + ?i) mod 256 = (t + (?d + k)) mod 256"
      unfolding h mod_add_eq by (simp only: mod_add_self2)
    moreover have "(?old @ m) ! (?d + k) = b ! ((t + (?d + k)) mod 256)"
      using True by (simp add: nth_append)
    ultimately show ?thesis
      unfolding drop using k place i(2) by simp
  next
    case False
    then have i: "?i = ?d + k - s" "?i < length m"
      using b s' k mod_ring [of "256 - s + ?d + k"] by auto
    have "(?old @ m) ! (?d + k) = m ! (?d + k - s)"
      using False by (simp add: nth_append)
    then show ?thesis
      unfolding drop using k place i by simp
  qed
qed

subsection \<open>The copies\<close>

lemma take_user_load [simp]: "take k (user_load um p n) = user_load um p (min k n)"
  by (rule nth_equalityI) (auto simp: user_load_def)

lemma length_user_load [simp]: "length (user_load um p n) = n"
  by (simp add: user_load_def)

lemma user_load_add: "user_load um p (a + b) = user_load um p a @ user_load um (p + of_nat a) b"
  by (rule nth_equalityI) (auto simp: user_load_def nth_append simp flip: of_nat_add)

lemma user_load_store:
  assumes "length bs \<le> 2 ^ 64"
  shows "user_load (user_store um p bs) p (length bs) = bs"
proof (rule nth_equalityI)
  fix i assume "i < length (user_load (user_store um p bs) p (length bs))"
  with assms have "i < length bs" "unat (of_nat i :: u64) = i"
    by (simp_all add: unat_of_nat_u64)
  then show "user_load (user_store um p bs) p (length bs) ! i = bs ! i"
    by (simp add: user_load_def user_store_def)
qed simp

lemma usercopy_refuses: "usercopy ct cf \<Longrightarrow> INT_MAX < n \<Longrightarrow> ct um p src n = (um, n)"
  by (simp add: usercopy_def)

lemma usercopy_to: "usercopy ct cf \<Longrightarrow> unat n \<le> 256 \<Longrightarrow> ct um p src n = (um', l) \<Longrightarrow> l = 0 \<Longrightarrow>
    um' = user_store um p (take (unat n) src)"
  unfolding usercopy_def by (metis fst_conv snd_conv small_le_INT_MAX)

lemma usercopy_from: "usercopy ct cf \<Longrightarrow> unat n \<le> 256 \<Longrightarrow> cf um p n = (bs, l) \<Longrightarrow> l = 0 \<Longrightarrow>
    bs = user_load um p (unat n)"
  unfolding usercopy_def by (metis fst_conv snd_conv small_le_INT_MAX)

lemma usercopy_from_length: "usercopy ct cf \<Longrightarrow> unat n \<le> 256 \<Longrightarrow> cf um p n = (bs, left) \<Longrightarrow>
    length bs = unat n"
  unfolding usercopy_def by (metis fst_conv small_le_INT_MAX)

subsection \<open>Handlers\<close>

lemma length_contents [simp]: "length (contents dev) = unat (fill dev)"
  by (simp add: contents_def)

lemma dev_invD:
  assumes "dev_inv dev"
  shows "length (buffer dev) = 256" "unat (head dev) < 256" "unat (tail dev) < 256"
    "unat (fill dev) \<le> 256" "unat (head dev) = (unat (tail dev) + unat (fill dev)) mod 256" "\<not> buf_mutex dev"
  using assms by (simp_all add: dev_inv_def)

lemma write_finish_ok:
  assumes inv: "dev_inv dev" and st: "ring_stored (buffer dev) (unat (head dev)) m b'"
    and n: "length m = unat n" "unat n \<le> 256"
    and dev1: "dev1 = (mutex_lock dev)\<lparr>buffer := b'\<rparr>"
  shows "dev_inv (write_finish dev1 n)"
    and "contents (write_finish dev1 n) = drop (unat (fill dev) + length m - 256) (contents dev @ m)"
proof -
  note d = dev_invD [OF inv]
  let ?w = "write_finish dev1 n"
  have sum: "unat (fill dev + n) = unat (fill dev) + unat n"
    "unat ((head dev + n) mod BUFFER_SIZE) = (unat (head dev) + unat n) mod 256"
    using d n by (simp_all add: ring_arith)
  have w: "buffer ?w = b'" "unat (head ?w) = (unat (head dev) + unat n) mod 256"
    "unat (fill ?w) = min 256 (unat (fill dev) + length m)"
    "unat (tail ?w) = (if 256 < unat (fill dev) + length m then (unat (head dev) + length m) mod 256 else unat (tail dev))"
    "\<not> buf_mutex ?w"
    using sum n by (simp_all add: write_finish_def dev1 mutex_lock_def mutex_unlock_def Let_def)
  show "contents ?w = drop (unat (fill dev) + length m - 256) (contents dev @ m)"
    unfolding contents_def w(1) using d n
    by (intro ring_stored_contents [OF st _ _ _ d(5)] w(3,4)) simp_all
  have "unat (head ?w) = (unat (tail ?w) + unat (fill ?w)) mod 256"
  proof (cases "256 < unat (fill dev) + length m")
    case True
    then show ?thesis unfolding w by (simp add: n)
  next
    case False
    then show ?thesis unfolding w d(5) by (simp add: n mod_simps add.assoc)
  qed
  then show "dev_inv ?w"
    using st w d by (simp add: dev_inv_def ring_stored_def)
qed

lemma lock_unlock [simp]: "dev_inv dev \<Longrightarrow> mutex_unlock (mutex_lock dev) = dev"
  by (cases dev) (simp add: dev_inv_def mutex_lock_def mutex_unlock_def)

lemma unlock_buffer [simp]:
  "dev_inv dev \<Longrightarrow> mutex_unlock ((mutex_lock dev)\<lparr>buffer := b\<rparr>) = dev\<lparr>buffer := b\<rparr>"
  by (cases dev) (simp add: dev_inv_def mutex_lock_def mutex_unlock_def)

lemma locked_fields [simp]:
  "buffer (mutex_lock dev) = buffer dev" "head (mutex_lock dev) = head dev"
  "tail (mutex_lock dev) = tail dev" "fill (mutex_lock dev) = fill dev"
  by (simp_all add: mutex_lock_def)

definition write_count :: "u64 \<Rightarrow> u64" where
  "write_count len = (if len > BUFFER_SIZE then BUFFER_SIZE else len)"

lemma unat_write_count [simp]: "unat (write_count len) = min 256 (unat len)"
  by (simp add: write_count_def)

lemma dev_write_wrapped:
  assumes uc: "usercopy ct cf" and inv: "dev_inv dev"
    and run: "dev_write cf intr um dev buf len = (dev', r)" and r: "0 \<le> r"
    and wrap: "256 < unat (head dev + write_count len)"
  shows "r = int (unat (write_count len)) \<and>
    (\<exists>b'. ring_stored (buffer dev) (unat (head dev)) (user_load um buf (unat (write_count len))) b' \<and>
      dev' = write_finish ((mutex_lock dev)\<lparr>buffer := b'\<rparr>) (write_count len))"
proof -
  note d = dev_invD [OF inv]
  let ?n = "write_count len" and ?f = "BUFFER_SIZE - head dev"
  have f: "unat ?f = 256 - unat (head dev)" "unat (?n - ?f) = unat ?n - unat ?f" "unat ?n = unat ?f + unat (?n - ?f)"
    using wrap d by (simp_all add: ring_arith)
  obtain bs1 l1 bs2 l2 where c: "cf um buf ?f = (bs1, l1)" "cf um (buf + ?f) (?n - ?f) = (bs2, l2)"
    by fastforce
  have ok: "l1 = 0" "l2 = 0" "r = int (unat ?n)"
    "dev' = write_finish ((mutex_lock dev)\<lparr>buffer := put_bytes (put_bytes (buffer dev) (unat (head dev)) bs1) 0 bs2\<rparr>) ?n"
    using run r wrap c unfolding dev_write_def write_count_def [symmetric]
    by (auto simp: Let_def ERESTARTSYS_def EFAULT_def split: if_splits)
  have "unat ?f \<le> 256" "unat (?n - ?f) \<le> 256"
    unfolding f(1,2) by simp_all
  then have bs: "bs1 = user_load um buf (unat ?f)" "bs2 = user_load um (buf + ?f) (unat (?n - ?f))"
    using usercopy_from [OF uc _ c(1) ok(1)] usercopy_from [OF uc _ c(2) ok(2)] by blast+
  then have "bs1 @ bs2 = user_load um buf (unat ?n)"
    unfolding f(3) user_load_add by simp
  moreover have "ring_stored (buffer dev) (unat (head dev)) (bs1 @ bs2) (put_bytes (put_bytes (buffer dev) (unat (head dev)) bs1) 0 bs2)"
    using d f bs by (intro ring_stored_wrapped) simp_all
  ultimately show ?thesis
    using ok by auto
qed

lemma dev_write_straight:
  assumes uc: "usercopy ct cf" and inv: "dev_inv dev"
    and run: "dev_write cf intr um dev buf len = (dev', r)" and r: "0 \<le> r"
    and fits: "\<not> 256 < unat (head dev + write_count len)"
  shows "r = int (unat (write_count len)) \<and>
    (\<exists>b'. ring_stored (buffer dev) (unat (head dev)) (user_load um buf (unat (write_count len))) b' \<and>
      dev' = write_finish ((mutex_lock dev)\<lparr>buffer := b'\<rparr>) (write_count len))"
proof -
  note d = dev_invD [OF inv]
  let ?n = "write_count len"
  obtain bs1 l1 where c: "cf um buf ?n = (bs1, l1)"
    by fastforce
  have ok: "l1 = 0" "r = int (unat ?n)"
    "dev' = write_finish ((mutex_lock dev)\<lparr>buffer := put_bytes (buffer dev) (unat (head dev)) bs1\<rparr>) ?n"
    using run r fits c unfolding dev_write_def write_count_def [symmetric]
    by (auto simp: Let_def ERESTARTSYS_def EFAULT_def split: if_splits)
  then have "bs1 = user_load um buf (unat ?n)"
    using usercopy_from [OF uc _ c(1)] by simp
  moreover have "ring_stored (buffer dev) (unat (head dev)) bs1 (put_bytes (buffer dev) (unat (head dev)) bs1)"
    using d fits calculation by (intro ring_stored_straight) (simp_all add: ring_arith)
  ultimately show ?thesis
    using ok by auto
qed

lemma dev_write_ok:
  assumes uc: "usercopy ct cf" and inv: "dev_inv dev"
    and run: "dev_write cf intr um dev buf len = (dev', r)" and r: "0 \<le> r"
  shows "r = int (min 256 (unat len))" "dev_inv dev'"
    "contents dev' = ring_append (contents dev) (user_load um buf (unat len))"
proof -
  let ?n = "write_count len"
  obtain b' where w: "r = int (unat ?n)" "ring_stored (buffer dev) (unat (head dev)) (user_load um buf (unat ?n)) b'"
    "dev' = write_finish ((mutex_lock dev)\<lparr>buffer := b'\<rparr>) ?n"
    using dev_write_wrapped [OF uc inv run r] dev_write_straight [OF uc inv run r] by blast
  note fin = write_finish_ok [OF inv w(2) _ _ refl]
  show "r = int (min 256 (unat len))"
    using w by simp
  show "dev_inv dev'" "contents dev' = ring_append (contents dev) (user_load um buf (unat len))"
    unfolding w(3) using fin by (simp_all add: ring_append_def Let_def)
qed

text \<open>A write that fails half way may have overwritten bytes of the queue, but the ring stays well
  formed and keeps its length.\<close>

lemma dev_write_failed:
  assumes uc: "usercopy ct cf" and inv: "dev_inv dev"
    and run: "dev_write cf intr um dev buf len = (dev', r)" and r: "r < 0"
  shows "dev_inv dev'" "length (contents dev') = length (contents dev)" "r = - ERESTARTSYS \<or> r = - EFAULT"
proof -
  note d = dev_invD [OF inv]
  let ?n = "write_count len" and ?f = "BUFFER_SIZE - head dev"
  have f: "unat ?f = 256 - unat (head dev)" "unat ?f \<le> 256"
    using d by (simp_all add: ring_arith)
  have g: "256 < unat (head dev + ?n) \<Longrightarrow> unat (?n - ?f) \<le> 256"
    using d f by (simp add: ring_arith)
  obtain bs1 l1 bs2 l2 bs3 l3 where c: "cf um buf ?f = (bs1, l1)" "cf um (buf + ?f) (?n - ?f) = (bs2, l2)"
    "cf um buf ?n = (bs3, l3)"
    by fastforce
  have len: "length bs1 = 256 - unat (head dev)" "256 < unat (head dev + ?n) \<Longrightarrow> length bs2 \<le> 256"
    "length bs3 = min 256 (unat len)"
    using usercopy_from_length [OF uc _ c(1)] usercopy_from_length [OF uc _ c(2)]
      usercopy_from_length [OF uc _ c(3)] f g by simp_all
  have "length (buffer dev') = 256 \<and> head dev' = head dev \<and> tail dev' = tail dev \<and> fill dev' = fill dev \<and>
      buf_mutex dev' = buf_mutex dev \<and> (r = - ERESTARTSYS \<or> r = - EFAULT)"
  proof (cases "256 < unat (head dev + ?n)")
    case True
    then show ?thesis
      using run r c len d(1,2) inv unfolding dev_write_def write_count_def [symmetric]
      by (auto simp: Let_def split: if_splits)
  next
    case False
    then have "unat (head dev) + min 256 (unat len) \<le> 256"
      using d by (simp add: ring_arith)
    then show ?thesis
      using False run r c len(3) d(1,2) inv unfolding dev_write_def write_count_def [symmetric]
      by (auto simp: Let_def split: if_splits)
  qed
  then show "dev_inv dev'" "length (contents dev') = length (contents dev)" "r = - ERESTARTSYS \<or> r = - EFAULT"
    using inv by (simp_all add: dev_inv_def)
qed

lemma read_finish_ok:
  assumes inv: "dev_inv dev" and n: "unat n \<le> unat (fill dev)"
  shows "dev_inv (read_finish (mutex_lock dev) n)"
    and "contents (read_finish (mutex_lock dev) n) = drop (unat n) (contents dev)"
proof -
  note d = dev_invD [OF inv]
  let ?r = "read_finish (mutex_lock dev) n"
  have r: "buffer ?r = buffer dev" "head ?r = head dev" "unat (tail ?r) = (unat (tail dev) + unat n) mod 256"
    "unat (fill ?r) = unat (fill dev) - unat n" "\<not> buf_mutex ?r"
    using d n by (simp_all add: read_finish_def mutex_unlock_def ring_arith)
  have "(unat (tail ?r) + unat (fill ?r)) mod 256 = (unat (tail dev) + unat (fill dev)) mod 256"
    unfolding r mod_add_left_eq using n by (metis add.assoc le_add_diff_inverse)
  then show "dev_inv ?r"
    using d r by (simp add: dev_inv_def)
  show "contents ?r = drop (unat n) (contents dev)"
  proof (rule nth_equalityI)
    fix i assume "i < length (contents ?r)"
    then have "unat n + i < unat (fill dev)" "i < unat (fill dev) - unat n"
      using r by simp_all
    then show "contents ?r ! i = drop (unat n) (contents dev) ! i"
      by (simp add: contents_def r mod_simps add.assoc)
  qed (use r in simp)
qed

lemma dev_read_wraps:
  assumes uc: "usercopy ct cf" and inv: "dev_inv dev" and wrap: "wraps dev (unat len)"
  obtains um' where "dev_read ct False um dev buf len = (dev, um', - EFAULT)"
proof -
  note d = dev_invD [OF inv]
  let ?n = "if len > fill dev then fill dev else len" and ?f = "BUFFER_SIZE - tail dev"
  have n: "unat ?n = min (unat len) (unat (fill dev))"
    by (auto simp: word_less_nat_alt)
  then have cross: "256 < unat (tail dev + ?n)" "fill dev \<noteq> 0"
    using wrap d by (auto simp: wraps_def ring_arith)
  have "unat ?f = 256 - unat (tail dev)"
    using d by (simp add: ring_arith)
  then have f: "0 < unat ?f" "unat ?f \<le> 256"
    using d by simp_all
  have "0 < ?f"
    using f by (simp add: word_less_nat_alt)
  then have "unat (- ?f) = 2 ^ 64 - unat ?f"
    using unat_sub_wrap [of 0 ?f] by simp
  then have "INT_MAX < - ?f"
    using f by (simp add: word_less_nat_alt INT_MAX_def)
  then have refused: "ct um1 (buf + ?f) (buffer dev) (- ?f) = (um1, - ?f)" "- ?f \<noteq> 0" for um1
    using usercopy_refuses [OF uc] \<open>0 < ?f\<close> by auto
  obtain um1 l1 where c: "ct um buf (drop (unat (tail dev)) (buffer dev)) ?f = (um1, l1)"
    by fastforce
  have "dev_read ct False um dev buf len = (dev, um1, - EFAULT)"
    unfolding dev_read_def using cross c refused inv by (auto simp: Let_def)
  then show ?thesis
    by (rule that)
qed

lemma dev_read_ok:
  assumes uc: "usercopy ct cf" and inv: "dev_inv dev"
    and run: "dev_read ct intr um dev buf len = (dev', um', r)" and r: "0 \<le> r"
  shows "r = int (min (unat len) (unat (fill dev)))" "dev_inv dev'"
    "user_load um' buf (nat r) = take (nat r) (contents dev)" "contents dev' = drop (nat r) (contents dev)"
proof -
  note d = dev_invD [OF inv]
  let ?n = "if len > fill dev then fill dev else len"
  have n: "unat ?n = min (unat len) (unat (fill dev))"
    by (auto simp: word_less_nat_alt)
  have i: "\<not> intr"
    using run r by (auto simp: dev_read_def ERESTARTSYS_def)
  have straight: "unat (tail dev) + unat ?n \<le> 256"
    using dev_read_wraps [OF uc inv, of len um buf] run r i n by (fastforce simp: wraps_def EFAULT_def)
  obtain um1 l1 where c: "ct um buf (drop (unat (tail dev)) (buffer dev)) ?n = (um1, l1)"
    by fastforce
  consider (moved) "r = int (unat ?n)" "dev' = read_finish (mutex_lock dev) ?n" "um' = um1" "l1 = 0"
    | (empty) "r = 0" "fill dev = 0" "dev' = dev"
    using run r i straight c inv d n unfolding dev_read_def
    by (auto simp: Let_def EFAULT_def ring_arith split: if_splits)
  then have "r = int (min (unat len) (unat (fill dev))) \<and> dev_inv dev' \<and>
    user_load um' buf (nat r) = take (nat r) (contents dev) \<and> contents dev' = drop (nat r) (contents dev)"
  proof cases
    case moved
    let ?bs = "take (unat ?n) (drop (unat (tail dev)) (buffer dev))"
    have bs: "?bs = take (unat ?n) (contents dev)" "length ?bs = unat ?n"
      using straight d n by (auto intro!: nth_equalityI simp: contents_def)
    have "um' = user_store um buf ?bs"
      using usercopy_to [OF uc _ c moved(4)] moved(3) n d by simp
    then have "user_load um' buf (length ?bs) = ?bs"
      using user_load_store [of ?bs um buf] bs(2) straight by simp
    then have "user_load um' buf (nat r) = take (nat r) (contents dev)"
      unfolding bs(2) by (simp add: moved(1) bs(1))
    then show ?thesis
      using read_finish_ok [OF inv, of ?n] n moved by simp
  qed (use inv in \<open>auto simp: user_load_def contents_def\<close>)
  then show "r = int (min (unat len) (unat (fill dev)))" "dev_inv dev'"
    "user_load um' buf (nat r) = take (nat r) (contents dev)" "contents dev' = drop (nat r) (contents dev)"
    by blast+
qed

lemma dev_read_failed:
  assumes uc: "usercopy ct cf" and inv: "dev_inv dev"
    and run: "dev_read ct intr um dev buf len = (dev', um', r)" and r: "r < 0"
  shows "dev' = dev" "r = - ERESTARTSYS \<or> r = - EFAULT"
  using run r inv unfolding dev_read_def
  by (auto simp: Let_def split: if_splits prod.splits)

lemma reset_buffer_ok [simp]:
  assumes "dev_inv dev"
  shows "dev_inv (mutex_unlock (reset_buffer (mutex_lock dev)))"
    "contents (mutex_unlock (reset_buffer (mutex_lock dev))) = []"
  using assms by (simp_all add: dev_inv_def contents_def reset_buffer_def mutex_unlock_def)

lemma dev_ioctl_ok:
  assumes "dev_inv dev" "dev_ioctl ct intr um dev cmd arg = (dev', um', r)"
  shows "dev_inv dev'" "contents dev' = (if cmd = IOCTL_RESET_BUFFER \<and> r = 0 then [] else contents dev)"
  using assms unfolding dev_ioctl_def
  by (auto simp: Let_def IOCTL_RESET_BUFFER_def IOCTL_GET_STATUS_def ERESTARTSYS_def ENOTTY_def
      split: if_splits prod.splits)

lemma device_set_llseek_ok:
  assumes "dev_inv dev" "device_set_llseek intr f dev offset whence = (f', dev', r)"
  shows "dev_inv dev'" "contents dev' = (if r = 0 then [] else contents dev)"
  using assms unfolding device_set_llseek_def
  by (auto simp: Let_def ERESTARTSYS_def ESPIPE_def split: if_splits)

subsection \<open>Sequences of system calls\<close>

text \<open>The calls of \<open>fops\<close> on an open file, each with the user memory it sees; a call gives its return
  value and, for a read, the bytes it left in the caller's buffer.\<close>

datatype dev_call =
    Read bool umem u64 u64
  | Write bool umem u64 u64
  | Ioctl bool umem u32 u64
  | Llseek bool file_struct int int

fun fops_call :: "copy_to \<Rightarrow> copy_from \<Rightarrow> dev_call \<Rightarrow> advanced_dev \<Rightarrow> advanced_dev \<times> int \<times> bytes" where
  "fops_call ct cf (Read intr um buf len) dev =
     (case dev_read ct intr um dev buf len of (dev', um', r) \<Rightarrow> (dev', r, user_load um' buf (nat r)))"
| "fops_call ct cf (Write intr um buf len) dev =
     (case dev_write cf intr um dev buf len of (dev', r) \<Rightarrow> (dev', r, []))"
| "fops_call ct cf (Ioctl intr um cmd arg) dev =
     (case dev_ioctl ct intr um dev cmd arg of (dev', um', r) \<Rightarrow> (dev', r, []))"
| "fops_call ct cf (Llseek intr f offset whence) dev =
     (case device_set_llseek intr f dev offset whence of (f', dev', r) \<Rightarrow> (dev', r, []))"

text \<open>What a queue of bytes does on the same calls, given their return values: a read takes the
  number of bytes it reports from the front, an accepted write appends its message and drops what
  no longer fits, a reset or an accepted seek empties the queue, a refused call changes nothing.\<close>

fun queue_call :: "dev_call \<Rightarrow> int \<Rightarrow> bytes \<Rightarrow> bytes \<times> bytes" where
  "queue_call (Read intr um buf len) r q = (drop (nat r) q, take (nat r) q)"
| "queue_call (Write intr um buf len) r q = (if 0 \<le> r then ring_append q (user_load um buf (unat len)) else q, [])"
| "queue_call (Ioctl intr um cmd arg) r q = (if cmd = IOCTL_RESET_BUFFER \<and> r = 0 then [] else q, [])"
| "queue_call (Llseek intr f offset whence) r q = (if r = 0 then [] else q, [])"

text \<open>A write whose user buffer is readable: \<open>copy_from_user\<close> succeeds on each part it is asked for.\<close>

definition readable :: "copy_from \<Rightarrow> bool" where
  "readable cf \<longleftrightarrow> (\<forall>um p n. n \<le> BUFFER_SIZE \<longrightarrow> snd (cf um p n) = 0)"

lemma dev_write_readable:
  assumes cf: "readable cf" and inv: "dev_inv dev"
    and run: "dev_write cf intr um dev buf len = (dev', r)" and r: "r < 0"
  shows "dev' = dev"
proof -
  note d = dev_invD [OF inv]
  let ?n = "write_count len" and ?f = "BUFFER_SIZE - head dev"
  have "unat ?f \<le> 256" "256 < unat (head dev + ?n) \<Longrightarrow> unat (?n - ?f) \<le> 256" "unat ?n \<le> 256"
    using d by (simp_all add: ring_arith)
  then have "snd (cf um buf ?f) = 0" "256 < unat (head dev + ?n) \<Longrightarrow> snd (cf um (buf + ?f) (?n - ?f)) = 0"
    "snd (cf um buf ?n) = 0"
    using cf by (simp_all add: readable_def)
  then show ?thesis
    using run r unfolding dev_write_def write_count_def [symmetric]
    by (auto simp: Let_def split: if_splits prod.splits)
qed

lemma fops_call_inv:
  assumes "usercopy ct cf" "dev_inv dev" "fops_call ct cf c dev = (dev', r, out)"
  shows "dev_inv dev'"
proof (cases c)
  case (Read intr um buf len)
  then show ?thesis
    using assms dev_read_ok(2) [OF assms(1,2)] dev_read_failed(1) [OF assms(1,2)]
    by (fastforce split: prod.splits)
next
  case (Write intr um buf len)
  then show ?thesis
    using assms dev_write_ok(2) [OF assms(1,2)] dev_write_failed(1) [OF assms(1,2)]
    by (fastforce split: prod.splits)
qed (use assms in \<open>auto split: prod.splits dest: dev_ioctl_ok(1) device_set_llseek_ok(1)\<close>)

lemma fops_call_queue:
  assumes "usercopy ct cf" "readable cf" "dev_inv dev" "fops_call ct cf c dev = (dev', r, out)"
  shows "queue_call c r (contents dev) = (contents dev', out)"
proof (cases c)
  case (Read intr um buf len)
  then obtain um' where run: "dev_read ct intr um dev buf len = (dev', um', r)" "out = user_load um' buf (nat r)"
    using assms(4) by (auto split: prod.splits)
  show ?thesis
  proof (cases "0 \<le> r")
    case True
    then show ?thesis
      using dev_read_ok(3,4) [OF assms(1,3) run(1)] run(2) Read by simp
  next
    case False
    then show ?thesis
      using dev_read_failed(1) [OF assms(1,3) run(1)] run(2) Read by (simp add: user_load_def)
  qed
next
  case (Write intr um buf len)
  then show ?thesis
    using assms(4) dev_write_ok(3) [OF assms(1,3)] dev_write_readable [OF assms(2,3), of intr um buf len dev' r]
    by (cases "0 \<le> r") (auto split: prod.splits)
qed (use assms in \<open>auto split: prod.splits if_splits dest: dev_ioctl_ok(2) device_set_llseek_ok(2)\<close>)

interpretation fops: call_refinement "\<lambda>c. usercopy ct cf \<and> readable cf" dev_inv contents "fops_call ct cf" queue_call
  for ct cf
proof unfold_locales
  fix c s s' r out
  assume "usercopy ct cf \<and> readable cf" "dev_inv s" "fops_call ct cf c s = (s', r, out)"
  then show "dev_inv s'" "queue_call c r (contents s) = (contents s', out)"
    using fops_call_inv [of ct cf s c s' r out] fops_call_queue [of ct cf s c s' r out] by simp_all
qed

lemma adv_init_device:
  assumes "adv_init env = (r, Some dev, log)"
  shows "r = 0" "head dev = 0" "tail dev = 0" "fill dev = 0" "\<not> buf_mutex dev"
    "buffer dev = (if buffer_memory env then replicate 256 0 else [])"
  using assms by (auto simp: adv_init_def Let_def split: if_splits option.splits)

subsection \<open>Copies that never fault\<close>

text \<open>Two copies with all user memory mapped, for the concrete instances below.\<close>

definition mapped_copy_to :: copy_to where
  "mapped_copy_to um p src n = (if INT_MAX < n then (um, n) else (user_store um p (take (unat n) src), 0))"

definition mapped_copy_from :: copy_from where
  "mapped_copy_from um p n = (user_load um p (unat n), 0)"

lemma mapped_copies: "usercopy mapped_copy_to mapped_copy_from" "readable mapped_copy_from"
  by (auto simp: usercopy_def readable_def mapped_copy_to_def mapped_copy_from_def)

definition example_env :: init_env where
  "example_env = \<lparr>region_result = 0, class_error = None, dev_memory = True, buffer_memory = True,
     cdev_result = 0, device_error = None\<rparr>"

definition example_ring :: advanced_dev where
  "example_ring = \<lparr>buffer = replicate 256 7, head = 4, tail = 250, fill = 10, buf_mutex = False\<rparr>"

subsection \<open>Properties\<close>



text \<open>A read that would cross the end of the storage always fails with \<open>-EFAULT\<close> and leaves the
  device as it was: the length of its second part is computed as the negated first part, which no
  copy accepts.\<close>
theorem wrapped_read_fails:
  assumes "usercopy ct cf" "dev_inv dev" "wraps dev (unat len)"
  shows "\<exists>um'. dev_read ct False um dev buf len = (dev, um', - EFAULT)"
  using dev_read_wraps [OF assms] by metis

theorem wrapped_read_fails_witness:
  "dev_inv example_ring \<and> wraps example_ring (unat (8 :: u64)) \<and>
     (\<exists>um'. dev_read mapped_copy_to False (\<lambda>a. 0) example_ring 64 8 = (example_ring, um', - EFAULT))"
proof -
  have "dev_inv example_ring" "wraps example_ring (unat (8 :: u64))"
    by (simp_all add: dev_inv_def wraps_def example_ring_def)
  then show ?thesis
    using wrapped_read_fails [OF mapped_copies(1), of example_ring 8 "\<lambda>a. 0" 64] by simp
qed

text \<open>C30: Whatever fails while the module is loaded, what \<open>adv_init\<close> acquired is released, newest
  first, before it returns without a device, and after a successful load \<open>adv_exit\<close> releases everything.\<close>
theorem module_balanced:
  "case adv_init env of
     (r, None, log) \<Rightarrow> holds_after [] log = Some []
   | (r, Some dev, log) \<Rightarrow> r = 0 \<and> holds_after [] (log @ adv_exit dev) = Some []"
  by (auto simp: adv_init_def Let_def kfree_buffer_def adv_exit_def split: option.splits)

text \<open>The buffer's own allocation is not checked: when only it fails, \<open>adv_init\<close> still reports
  success and leaves a device without storage.\<close>
theorem unchecked_buffer:
  assumes "0 \<le> region_result env" "class_error env = None" "dev_memory env" "\<not> buffer_memory env"
    "0 \<le> cdev_result env" "device_error env = None"
  shows "\<exists>dev log. adv_init env = (0, Some dev, log) \<and> buffer dev = [] \<and> \<not> dev_inv dev"
  using assms by (simp add: adv_init_def Let_def dev_inv_def)

end
