(* ===== verification/Sysfs.thy ===== *)
theory Sysfs
  imports Prelude
begin

text \<open>
  The sysfs driver \<open>dummy_module.c\<close>: a simulated device whose frequency, power, temperature, enable
  bit and power mode are files under \<open>/sys/kernel/hw_simulator\<close>.  The kernel's parsers and string
  helpers are the record \<open>klib\<close>; \<open>klib_ok\<close> states what is documented of them.  The lemmas show which
  values the files can hold after any sequence of reads and writes, what a write to the frequency
  file does on each branch, and that writes to the frequency and to the mode do not look at the
  enable bit.
\<close>

subsection \<open>The kernel's helpers\<close>

text \<open>\<open>kstrtouint\<close> (base 10) and \<open>kstrtobool\<close> give a negative code or the value; \<open>strscpy\<close> gives the text
  left in a buffer of the given size; \<open>strim\<close> the text left in the buffer it works on.\<close>

record klib =
  kstrtouint :: "string \<Rightarrow> int + u32"
  kstrtobool :: "string \<Rightarrow> int + bool"
  strscpy :: "string \<Rightarrow> nat \<Rightarrow> string"
  strim :: "string \<Rightarrow> string"

definition is_space :: "char \<Rightarrow> bool" where
  "is_space c \<longleftrightarrow> of_char c \<in> {9, 10, 11, 12, 13, 32 :: nat}"

definition drop_spaces_end :: "string \<Rightarrow> string" where
  "drop_spaces_end s = rev (dropWhile is_space (rev s))"

definition klib_ok :: "klib \<Rightarrow> bool" where
  "klib_ok k \<longleftrightarrow>
     (\<forall>s e. kstrtouint k s = Inl e \<longrightarrow> e < 0) \<and> (\<forall>s e. kstrtobool k s = Inl e \<longrightarrow> e < 0) \<and>
     (\<forall>n. n < 2 ^ 32 \<longrightarrow> kstrtouint k (show_nat n @ [CHR 0x0A]) = Inr (of_nat n)) \<and>
     kstrtobool k (''0'' @ [CHR 0x0A]) = Inr False \<and> kstrtobool k (''1'' @ [CHR 0x0A]) = Inr True \<and>
     (\<forall>s n. 0 < n \<and> CHR 0x00 \<notin> set s \<longrightarrow> strscpy k s n = take (n - 1) s) \<and>
     (\<forall>s n. 0 < n \<longrightarrow> length (strscpy k s n) < n) \<and>
     (\<forall>s. strim k s = drop_spaces_end s)"

subsection \<open>The device\<close>

definition MIN_FREQ_MHZ :: u32 where "MIN_FREQ_MHZ = 100"
definition MAX_FREQ_MHZ :: u32 where "MAX_FREQ_MHZ = 4000"
definition MAX_MODE_LEN :: nat where "MAX_MODE_LEN = 16"
definition EINVAL :: int where "EINVAL = 22"
definition ENOMEM :: int where "ENOMEM = 12"

record hw_sim =
  m_frequency_mhz :: u32
  m_power_mwatts :: u32
  m_temperature_c :: int
  m_is_enabled :: bool
  m_power_mode :: string

definition init_hw :: hw_sim where
  "init_hw = \<lparr>m_frequency_mhz = 1200, m_power_mwatts = 2500, m_temperature_c = 45, m_is_enabled = True,
     m_power_mode = ''balanced''\<rparr>"

text \<open>The text a \<open>show\<close> function leaves in the page; its return value is the length.  Every handler
  runs under \<open>hw_lock\<close>, so it is one step.\<close>

definition freq_show :: "hw_sim \<Rightarrow> string" where
  "freq_show hw = show_nat (unat (m_frequency_mhz hw)) @ '' MHz'' @ [CHR 0x0A]"

definition freq_store :: "klib \<Rightarrow> string \<Rightarrow> nat \<Rightarrow> hw_sim \<Rightarrow> hw_sim \<times> int" where
  "freq_store k buf count hw =
     (case kstrtouint k buf of
        Inl ret \<Rightarrow> (hw, ret)
      | Inr val \<Rightarrow>
          if val < MIN_FREQ_MHZ \<or> val > MAX_FREQ_MHZ then (hw, - EINVAL)
          else (hw\<lparr>m_frequency_mhz := val\<rparr>, int count))"

definition power_consumption_show :: "hw_sim \<Rightarrow> string" where
  "power_consumption_show hw = show_nat (unat (m_power_mwatts hw)) @ '' mW'' @ [CHR 0x0A]"

definition temperature_show :: "hw_sim \<Rightarrow> string" where
  "temperature_show hw = show_int (m_temperature_c hw) @ '' C'' @ [CHR 0x0A]"

definition enable_show :: "hw_sim \<Rightarrow> string" where
  "enable_show hw = show_nat (if m_is_enabled hw then 1 else 0) @ [CHR 0x0A]"

definition enable_store :: "klib \<Rightarrow> string \<Rightarrow> nat \<Rightarrow> hw_sim \<Rightarrow> hw_sim \<times> int" where
  "enable_store k buf count hw =
     (case kstrtobool k buf of
        Inl ret \<Rightarrow> (hw, ret)
      | Inr val \<Rightarrow>
          let hw1 = hw\<lparr>m_is_enabled := val\<rparr> in
          (if \<not> m_is_enabled hw1 then hw1\<lparr>m_frequency_mhz := 0, m_power_mwatts := 0\<rparr>
           else hw1\<lparr>m_frequency_mhz := 1200, m_power_mwatts := 2500\<rparr>, int count))"

definition mode_show :: "hw_sim \<Rightarrow> string" where
  "mode_show hw = m_power_mode hw @ [CHR 0x0A]"

definition mode_store :: "klib \<Rightarrow> string \<Rightarrow> nat \<Rightarrow> hw_sim \<Rightarrow> hw_sim \<times> int" where
  "mode_store k buf count hw =
     (let mode = strim k (strscpy k buf MAX_MODE_LEN); hw1 = hw\<lparr>m_power_mode := mode\<rparr> in
      (if mode = ''performance'' then hw1\<lparr>m_frequency_mhz := 4000, m_power_mwatts := 8000\<rparr>
       else if mode = ''powersave'' then hw1\<lparr>m_frequency_mhz := 800, m_power_mwatts := 1000\<rparr>
       else hw1, int count))"

text \<open>The attribute files and their callbacks: reading a file runs its \<open>show\<close>; the frequency, the enable
  bit and the mode have a \<open>store\<close> too.\<close>

datatype attr = Frequency | Power_consumption | Temperature | Enable | Power_mode

datatype attr_call = Show attr | Store_frequency string | Store_enable string | Store_mode string

fun attr_show :: "attr \<Rightarrow> hw_sim \<Rightarrow> string" where
  "attr_show Frequency = freq_show"
| "attr_show Power_consumption = power_consumption_show"
| "attr_show Temperature = temperature_show"
| "attr_show Enable = enable_show"
| "attr_show Power_mode = mode_show"

fun attr_step :: "klib \<Rightarrow> attr_call \<Rightarrow> hw_sim \<Rightarrow> hw_sim \<times> int \<times> string" where
  "attr_step k (Show a) hw = (hw, int (length (attr_show a hw)), attr_show a hw)"
| "attr_step k (Store_frequency buf) hw = (case freq_store k buf (length buf) hw of (hw', r) \<Rightarrow> (hw', r, []))"
| "attr_step k (Store_enable buf) hw = (case enable_store k buf (length buf) hw of (hw', r) \<Rightarrow> (hw', r, []))"
| "attr_step k (Store_mode buf) hw = (case mode_store k buf (length buf) hw of (hw', r) \<Rightarrow> (hw', r, []))"

text \<open>\<open>hw_sim_init\<close> with the outcomes of \<open>kobject_create_and_add\<close> and \<open>sysfs_create_group\<close>, and
  \<open>hw_sim_exit\<close>: the references held on the object.\<close>

definition hw_sim_init :: "bool \<Rightarrow> int \<Rightarrow> int \<times> int" where
  "hw_sim_init created group_error =
     (if \<not> created then (0, - ENOMEM)
      else if group_error \<noteq> 0 then (1 - 1, group_error)
      else (1, 0))"

definition hw_sim_exit :: "int \<Rightarrow> int" where
  "hw_sim_exit refs = refs - 1"

subsection \<open>What the files can hold\<close>

definition hw_inv :: "hw_sim \<Rightarrow> bool" where
  "hw_inv hw \<longleftrightarrow> (unat (m_frequency_mhz hw) = 0 \<or> unat (m_frequency_mhz hw) \<in> {100..4000}) \<and>
     unat (m_power_mwatts hw) \<in> {0, 1000, 2500, 8000} \<and> m_temperature_c hw = 45 \<and>
     length (m_power_mode hw) < 16"

lemma init_hw_inv: "hw_inv init_hw"
  by (simp add: hw_inv_def init_hw_def)

lemma length_drop_spaces_end: "length (drop_spaces_end s) \<le> length s"
  unfolding drop_spaces_end_def using length_dropWhile_le [of is_space "rev s"] by simp

lemma mode_length:
  assumes "klib_ok k"
  shows "length (strim k (strscpy k buf MAX_MODE_LEN)) < 16"
proof -
  have "length (strscpy k buf 16) < 16" "strim k s = drop_spaces_end s" for s
    using assms by (simp_all add: klib_ok_def)
  then show ?thesis
    using length_drop_spaces_end [of "strscpy k buf 16"] by (simp add: MAX_MODE_LEN_def)
qed

lemma freq_store_inv: "hw_inv hw \<Longrightarrow> freq_store k buf count hw = (hw', r) \<Longrightarrow> hw_inv hw'"
  by (auto simp: freq_store_def hw_inv_def MIN_FREQ_MHZ_def MAX_FREQ_MHZ_def word_less_nat_alt
      split: sum.splits if_splits)

lemma enable_store_inv: "hw_inv hw \<Longrightarrow> enable_store k buf count hw = (hw', r) \<Longrightarrow> hw_inv hw'"
  by (auto simp: enable_store_def hw_inv_def Let_def split: sum.splits if_splits)

lemma mode_store_inv: "klib_ok k \<Longrightarrow> hw_inv hw \<Longrightarrow> mode_store k buf count hw = (hw', r) \<Longrightarrow> hw_inv hw'"
  using mode_length [of k buf] by (auto simp: mode_store_def hw_inv_def Let_def split: if_splits)

lemma attr_step_inv: "klib_ok k \<Longrightarrow> hw_inv hw \<Longrightarrow> attr_step k c hw = (hw', r, out) \<Longrightarrow> hw_inv hw'"
  by (cases c) (auto split: prod.splits dest: freq_store_inv enable_store_inv mode_store_inv)

subsection \<open>The specification by operating point\<close>

text \<open>What the files say of the device: frequency, power, enable bit and mode.  A call is one of the
  moves of this smaller machine; which one depends on what the helpers make of the text.\<close>

type_synonym point = "nat \<times> nat \<times> bool \<times> string"

definition point_of :: "hw_sim \<Rightarrow> point" where
  "point_of hw = (unat (m_frequency_mhz hw), unat (m_power_mwatts hw), m_is_enabled hw, m_power_mode hw)"

fun point_text :: "attr \<Rightarrow> point \<Rightarrow> string" where
  "point_text Frequency (f, w, e, m) = show_nat f @ '' MHz'' @ [CHR 0x0A]"
| "point_text Power_consumption (f, w, e, m) = show_nat w @ '' mW'' @ [CHR 0x0A]"
| "point_text Temperature (f, w, e, m) = ''45 C'' @ [CHR 0x0A]"
| "point_text Enable (f, w, e, m) = (if e then ''1'' else ''0'') @ [CHR 0x0A]"
| "point_text Power_mode (f, w, e, m) = m @ [CHR 0x0A]"

definition mode_of :: "klib \<Rightarrow> string \<Rightarrow> string" where
  "mode_of k buf = strim k (strscpy k buf MAX_MODE_LEN)"

definition profile :: "string \<Rightarrow> nat \<times> nat \<Rightarrow> nat \<times> nat" where
  "profile m fw = (if m = ''performance'' then (4000, 8000) else if m = ''powersave'' then (800, 1000) else fw)"

fun point_call :: "klib \<Rightarrow> attr_call \<Rightarrow> int \<Rightarrow> point \<Rightarrow> point \<times> string" where
  "point_call k (Show a) r p = (p, point_text a p)"
| "point_call k (Store_frequency buf) r (f, w, e, m) =
     ((if 0 \<le> r then unat (projr (kstrtouint k buf)) else f, w, e, m), [])"
| "point_call k (Store_enable buf) r (f, w, e, m) =
     (if r < 0 then (f, w, e, m)
      else if projr (kstrtobool k buf) then (1200, 2500, True, m) else (0, 0, False, m), [])"
| "point_call k (Store_mode buf) r (f, w, e, m) =
     (case profile (mode_of k buf) (f, w) of (f', w') \<Rightarrow> ((f', w', e, mode_of k buf), []))"

lemma klib_errors: "klib_ok k \<Longrightarrow> kstrtouint k buf = Inl x \<Longrightarrow> x < 0" "klib_ok k \<Longrightarrow> kstrtobool k buf = Inl x \<Longrightarrow> x < 0"
  by (simp_all add: klib_ok_def)

lemma klib_strings: "klib_ok k \<Longrightarrow> 0 < n \<Longrightarrow> CHR 0x00 \<notin> set s \<Longrightarrow> strscpy k s n = take (n - 1) s"
  "klib_ok k \<Longrightarrow> strim k s = drop_spaces_end s"
  by (simp_all add: klib_ok_def)

lemma show_nat_small [simp]: "show_nat 0 = ''0''" "show_nat (Suc 0) = ''1''" "show_nat 45 = ''45''"
  by code_simp+

lemma attr_step_point:
  assumes "klib_ok k" "hw_inv hw" "attr_step k c hw = (hw', r, out)"
  shows "point_call k c r (point_of hw) = (point_of hw', out)"
proof (cases c)
  case (Show a)
  then show ?thesis
    using assms by (cases a) (auto simp: point_of_def freq_show_def power_consumption_show_def
      temperature_show_def enable_show_def mode_show_def hw_inv_def show_int_def)
next
  case (Store_frequency buf)
  then show ?thesis
    using assms klib_errors(1) [OF assms(1), of buf]
    by (auto simp: point_of_def freq_store_def EINVAL_def split: sum.splits if_splits)
next
  case (Store_enable buf)
  then show ?thesis
    using assms klib_errors(2) [OF assms(1), of buf]
    by (auto simp: point_of_def enable_store_def Let_def split: sum.splits if_splits)
next
  case (Store_mode buf)
  then show ?thesis
    using assms by (auto simp: point_of_def mode_store_def mode_of_def profile_def Let_def split: if_splits)
qed

interpretation files: call_refinement "\<lambda>c. klib_ok k" hw_inv point_of "attr_step k" "point_call k" for k
  by unfold_locales (auto dest: attr_step_inv attr_step_point)

subsection \<open>A concrete instance of the helpers\<close>

definition example_klib :: klib where
  "example_klib = \<lparr>
     kstrtouint = (\<lambda>s. let t = (if s \<noteq> [] \<and> last s = CHR 0x0A then butlast s else s) in
       if t \<noteq> [] \<and> list_all is_digit t \<and> read_nat t < 2 ^ 32 then Inr (of_nat (read_nat t)) else Inl (- EINVAL)),
     kstrtobool = (\<lambda>s. if s \<noteq> [] \<and> hd s = CHR ''0'' then Inr False else if s \<noteq> [] \<and> hd s = CHR ''1'' then Inr True
       else Inl (- EINVAL)),
     strscpy = (\<lambda>s n. take (n - 1) (takeWhile (\<lambda>c. c \<noteq> CHR 0x00) s)),
     strim = drop_spaces_end\<rparr>"

lemma example_klib_ok: "klib_ok example_klib"
proof -
  have "strscpy example_klib s n = take (n - 1) s" if "CHR 0x00 \<notin> set s" for s n
  proof -
    have "takeWhile (\<lambda>c. c \<noteq> CHR 0x00) s = s"
      using that by (auto simp: takeWhile_eq_all_conv)
    then show ?thesis
      unfolding example_klib_def by (simp del: takeWhile_eq_all_conv)
  qed
  moreover have "length (strscpy example_klib s n) < n" if "0 < n" for s n
    using that by (auto simp: example_klib_def)
  moreover have "kstrtobool example_klib (''0'' @ [CHR 0x0A]) = Inr False"
    "kstrtobool example_klib (''1'' @ [CHR 0x0A]) = Inr True" "strim example_klib s = drop_spaces_end s" for s
    by (simp_all add: example_klib_def)
  moreover have "kstrtouint example_klib (show_nat n @ [CHR 0x0A]) = Inr (of_nat n)" if "n < 2 ^ 32" for n
    using that show_nat_digits [of n] by (simp add: example_klib_def)
  moreover have "e < 0" if "kstrtouint example_klib s = Inl e" for s e
    using that by (simp add: example_klib_def EINVAL_def Let_def split: if_splits)
  moreover have "e < 0" if "kstrtobool example_klib s = Inl e" for s e
    using that by (simp add: example_klib_def EINVAL_def split: if_splits)
  ultimately show ?thesis
    unfolding klib_ok_def by blast
qed

subsection \<open>Properties\<close>

text \<open>C31: After any sequence of reads and writes of the attribute files, the frequency is 0 or between
  100 and 4000 MHz, the power is that of one of the four operating points, the mode fits its buffer,
  and every file shows what the machine of operating points shows.\<close>
theorem files_show_operating_point:
  assumes "klib_ok k" "run_calls (attr_step k) cs init_hw = (hw, rs)"
  shows "hw_inv hw \<and> spec_calls (point_call k) (zip cs (map fst rs)) (point_of init_hw) = (point_of hw, map snd rs)"
  using files.calls_refine [where k = k, OF _ init_hw_inv assms(2)] assms(1) by (simp add: list_all_iff)

theorem files_show_operating_point_witness:
  "\<exists>hw rs. run_calls (attr_step example_klib) [Store_frequency (show_nat 2500 @ [CHR 0x0A]), Show Frequency] init_hw = (hw, rs) \<and>
     hw_inv hw \<and> spec_calls (point_call example_klib)
       (zip [Store_frequency (show_nat 2500 @ [CHR 0x0A]), Show Frequency] (map fst rs)) (point_of init_hw) = (point_of hw, map snd rs)"
proof -
  obtain hw rs where r: "run_calls (attr_step example_klib)
      [Store_frequency (show_nat 2500 @ [CHR 0x0A]), Show Frequency] init_hw = (hw, rs)"
    by fastforce
  show ?thesis
    using files_show_operating_point [OF example_klib_ok r] r by blast
qed

text \<open>Writing a number to the frequency file sets the frequency exactly when it lies between 100
  and 4000, and reading the file then gives the number back; any other number is refused with
  \<open>-EINVAL\<close> and changes nothing.\<close>
theorem frequency_file:
  assumes "klib_ok k" "n < 2 ^ 32"
  shows "case freq_store k (show_nat n @ [CHR 0x0A]) count hw of (hw', r) \<Rightarrow>
    if 100 \<le> n \<and> n \<le> 4000 then r = int count \<and> freq_show hw' = show_nat n @ '' MHz'' @ [CHR 0x0A]
    else r = - EINVAL \<and> hw' = hw"
proof -
  have "kstrtouint k (show_nat n @ [CHR 0x0A]) = Inr (of_nat n)" "unat (of_nat n :: u32) = n"
    using assms by (simp_all add: klib_ok_def unat_of_nat)
  then show ?thesis
    by (auto simp: freq_store_def freq_show_def MIN_FREQ_MHZ_def MAX_FREQ_MHZ_def word_less_nat_alt)
qed

theorem frequency_file_witness:
  "freq_store example_klib (show_nat 5000 @ [CHR 0x0A]) 5 init_hw = (init_hw, - EINVAL)"
  using frequency_file [OF example_klib_ok, of 5000 5 init_hw] by auto

text \<open>The enable bit guards nothing: after the device is disabled, which sets its frequency and
  power to 0, choosing the performance mode runs it at 4000 MHz and 8000 mW while it still shows as
  disabled.\<close>
theorem disabled_device_runs:
  assumes "klib_ok k"
  shows "\<exists>hw rs. run_calls (attr_step k)
      [Store_enable (''0'' @ [CHR 0x0A]), Store_mode (''performance'' @ [CHR 0x0A])] init_hw = (hw, rs) \<and>
    \<not> m_is_enabled hw \<and> m_frequency_mhz hw = 4000 \<and> m_power_mwatts hw = 8000"
proof -
  let ?s = "''performance'' @ [CHR 0x0A]"
  have e: "kstrtobool k (''0'' @ [CHR 0x0A]) = Inr False"
    using assms by (simp add: klib_ok_def)
  have "strscpy k ?s 16 = take 15 ?s"
    using klib_strings(1) [OF assms, of 16 ?s] by simp
  moreover have "drop_spaces_end (take 15 ?s) = ''performance''"
    by code_simp
  ultimately have "strim k (strscpy k ?s 16) = ''performance''"
    using klib_strings(2) [OF assms] by simp
  then show ?thesis
    using e by (simp add: enable_store_def mode_store_def Let_def MAX_MODE_LEN_def init_hw_def)
qed

theorem disabled_device_runs_witness:
  "\<exists>hw rs. run_calls (attr_step example_klib)
      [Store_enable (''0'' @ [CHR 0x0A]), Store_mode (''performance'' @ [CHR 0x0A])] init_hw = (hw, rs) \<and>
    \<not> m_is_enabled hw \<and> m_frequency_mhz hw = 4000 \<and> m_power_mwatts hw = 8000"
  by (rule disabled_device_runs [OF example_klib_ok])

end
