(* ===== verification/Xor_List.thy ===== *)
theory Xor_List
  imports Prelude "HOL-Library.Multiset" "HOL-Library.Monad_Syntax"
begin

text \<open>
  The two exercises on exclusive or in \<open>c/unit/xor_solutions\<close>: a doubly linked list whose nodes keep the
  exclusive or of their neighbours' addresses, and the search for the number that occurs twice.  The
  list lives in an explicit heap; the addresses \<open>malloc\<close> returns are given to \<open>linklist_append\<close>, and
  a null dereference, a failed assertion or a read outside an array is \<open>None\<close>.  \<open>linked\<close> says which
  heap cells hold a list between two neighbours; it is symmetric, which is why one field is enough
  to walk the list both ways.
\<close>

subsection \<open>The list\<close>

record node =
  value_of :: int
  xored :: u64

type_synonym heap = "u64 \<rightharpoonup> node"

record link_list =
  ll_begin :: u64
  ll_end :: u64

text \<open>\<open>node_create\<close> with the address \<open>malloc\<close> returned; \<open>memset\<close> of a null pointer is undefined.\<close>

definition node_create :: "u64 \<Rightarrow> int \<Rightarrow> heap \<Rightarrow> heap option" where
  "node_create addr v h = (if addr = 0 then None else Some (h(addr \<mapsto> \<lparr>value_of = v, xored = 0\<rparr>)))"

definition set_xored :: "u64 \<Rightarrow> (u64 \<Rightarrow> u64) \<Rightarrow> heap \<Rightarrow> heap option" where
  "set_xored a f h = (case h a of None \<Rightarrow> None | Some n \<Rightarrow> Some (h(a \<mapsto> n\<lparr>xored := f (xored n)\<rparr>)))"

definition linklist_append :: "u64 \<Rightarrow> int \<Rightarrow> heap \<times> link_list \<Rightarrow> (heap \<times> link_list) option" where
  "linklist_append addr v s = (let (h, ll) = s in
     if ll_end ll = 0 then
       if ll_begin ll \<noteq> 0 then None
       else do {
         h1 \<leftarrow> node_create addr v h;
         Some (h1, \<lparr>ll_begin = addr, ll_end = addr\<rparr>)
       }
     else do {
       h1 \<leftarrow> node_create addr v h;
       h2 \<leftarrow> set_xored addr (\<lambda>_. ll_end ll) h1;
       h3 \<leftarrow> set_xored (ll_end ll) (\<lambda>x. x XOR addr) h2;
       Some (h3, ll\<lparr>ll_end := addr\<rparr>)
     })"

definition node_next :: "heap \<Rightarrow> u64 \<Rightarrow> u64 \<Rightarrow> (u64 \<times> u64) option" where
  "node_next h a prev = (case h a of None \<Rightarrow> None | Some n \<Rightarrow> Some (xored n XOR prev, a))"

text \<open>The printing loop of \<open>main\<close>: the values it prints from a node on.\<close>

partial_function (option) print_from :: "heap \<Rightarrow> u64 \<Rightarrow> u64 \<Rightarrow> int list option" where
  "print_from h iter prev =
     (if iter = 0 then Some []
      else do {
        n \<leftarrow> h iter;
        (iter', prev') \<leftarrow> node_next h iter prev;
        rest \<leftarrow> print_from h iter' prev';
        Some (value_of n # rest)
      })"

definition empty_list :: "heap \<times> link_list" where
  "empty_list = (Map.empty, \<lparr>ll_begin = 0, ll_end = 0\<rparr>)"

fun append_all :: "(u64 \<times> int) list \<Rightarrow> heap \<times> link_list \<Rightarrow> (heap \<times> link_list) option" where
  "append_all [] s = Some s"
| "append_all ((a, v) # r) s = do { s1 \<leftarrow> linklist_append a v s; append_all r s1 }"

text \<open>\<open>main\<close>, given the six addresses \<open>malloc\<close> returns: both printed sequences.\<close>

definition xor_main :: "u64 list \<Rightarrow> (int list \<times> int list) option" where
  "xor_main addrs = do {
     (h, xs) \<leftarrow> append_all (zip addrs [5, 6, 7, 8, 9, 10]) empty_list;
     forwards \<leftarrow> print_from h (ll_begin xs) 0;
     backwards \<leftarrow> print_from h (ll_end xs) 0;
     Some (forwards, backwards)
   }"

subsection \<open>The repeated number\<close>

text \<open>The 32-bit \<open>int x\<close>: first the loop over \<open>0..100\<close>, then the loop over the array, which runs for
  \<open>i <= n\<close>.\<close>

definition xor_to_100 :: u32 where
  "xor_to_100 = fold (\<lambda>i x. x XOR of_nat i) [0..<101] 0"

fun xor_array :: "u32 list \<Rightarrow> nat list \<Rightarrow> u32 \<Rightarrow> u32 option" where
  "xor_array xs [] x = Some x"
| "xor_array xs (i # is) x = (if i < length xs then xor_array xs is (x XOR xs ! i) else None)"

definition find_dup :: "u32 list \<Rightarrow> u32 option" where
  "find_dup xs = xor_array xs [0..<Suc (length xs)] xor_to_100"

text \<open>The numbers \<open>build_array_with_one_dup\<close> prints when \<open>rand() % 100 + 1\<close> is \<open>dup\<close>.\<close>

definition build_array_with_one_dup :: "nat \<Rightarrow> nat list" where
  "build_array_with_one_dup dup = concat (map (\<lambda>i. if i = dup then [i, i] else [i]) [1..<101])"

subsection \<open>Lists in the heap\<close>

fun linked :: "heap \<Rightarrow> u64 \<Rightarrow> (u64 \<times> int) list \<Rightarrow> u64 \<Rightarrow> bool" where
  "linked h p [] n \<longleftrightarrow> True"
| "linked h p ((a, v) # r) n \<longleftrightarrow>
     a \<noteq> 0 \<and> h a = Some \<lparr>value_of = v, xored = p XOR hd (map fst r @ [n])\<rparr> \<and> linked h a r n"

lemma linked_append:
  "linked h p (xs @ ys) n \<longleftrightarrow>
     linked h p xs (hd (map fst ys @ [n])) \<and> linked h (last (p # map fst xs)) ys n"
  by (induction h p xs n rule: linked.induct) (auto simp: hd_append)

lemma linked_rev: "linked h p xs n \<Longrightarrow> linked h n (rev xs) p"
proof (induction h p xs n rule: linked.induct)
  case (2 h p a v r n)
  have "last (n # map fst (rev r)) = hd (map fst r @ [n])"
    by (cases r) auto
  then show ?case
    using 2 by (auto simp: linked_append xor.commute)
qed simp

lemma linked_cong: "(\<And>a. a \<in> set (map fst xs) \<Longrightarrow> h a = h' a) \<Longrightarrow> linked h p xs n = linked h' p xs n"
  by (induction h p xs n rule: linked.induct) auto

lemma print_from_linked: "linked h p xs 0 \<Longrightarrow> print_from h (hd (map fst xs @ [0])) p = Some (map snd xs)"
proof (induction h p xs "0 :: u64" rule: linked.induct)
  case (1 h p)
  then show ?case by (subst print_from.simps) simp
next
  case (2 h p a v r)
  then have "(p XOR hd (map fst r @ [0])) XOR p = hd (map fst r @ [0])"
    by (simp add: xor.commute xor.left_commute)
  then show ?case
    using 2 by (subst print_from.simps) (simp add: node_next_def)
qed

definition list_state :: "heap \<times> link_list \<Rightarrow> (u64 \<times> int) list \<Rightarrow> bool" where
  "list_state s xs \<longleftrightarrow> (case s of (h, ll) \<Rightarrow> linked h 0 xs 0 \<and> distinct (map fst xs) \<and>
     ll_begin ll = hd (map fst xs @ [0]) \<and> ll_end ll = last (0 # map fst xs))"

lemma linklist_append_ok:
  assumes st: "list_state s xs" and a: "a \<noteq> 0" "a \<notin> fst ` set xs"
  shows "\<exists>s'. linklist_append a v s = Some s' \<and> list_state s' (xs @ [(a, v)])"
proof (cases xs rule: rev_cases)
  case Nil
  then show ?thesis
    using st a by (cases s) (auto simp: list_state_def linklist_append_def node_create_def)
next
  case (snoc ys e)
  obtain h ll where s: "s = (h, ll)" by fastforce
  obtain b w where e: "e = (b, w)" by fastforce
  let ?p = "last (0 # map fst ys)"
  have lk: "linked h 0 ys b" "h b = Some \<lparr>value_of = w, xored = ?p\<rparr>" "b \<noteq> 0"
    and d: "distinct (map fst ys)" "b \<notin> fst ` set ys"
    and ll: "ll_end ll = b" "ll_begin ll = hd (map fst ys @ [b])"
    using st unfolding list_state_def s snoc e by (auto simp: linked_append hd_append split: if_splits)
  define h' where "h' = h(a \<mapsto> \<lparr>value_of = v, xored = b\<rparr>, b \<mapsto> \<lparr>value_of = w, xored = ?p XOR a\<rparr>)"
  have ne: "a \<noteq> b" "a \<notin> fst ` set ys"
    using a snoc e by auto
  have run: "linklist_append a v s = Some (h', ll\<lparr>ll_end := a\<rparr>)"
    unfolding linklist_append_def s h'_def using a lk ll ne
    by (auto simp: node_create_def set_xored_def fun_upd_twist)
  have "h x = h' x" if "x \<in> set (map fst ys)" for x
    using that d ne by (auto simp: h'_def)
  then have "linked h' 0 ys b"
    using lk(1) linked_cong [of ys h h' 0 b] by blast
  then have "linked h' 0 (xs @ [(a, v)]) 0"
    using a lk ne by (simp add: snoc e linked_append h'_def)
  then have "list_state (h', ll\<lparr>ll_end := a\<rparr>) (xs @ [(a, v)])"
    using a d ne ll st by (auto simp: list_state_def snoc e s hd_append)
  then show ?thesis
    using run by blast
qed

lemma append_all_ok:
  "list_state s xs \<Longrightarrow> distinct (map fst (xs @ ys)) \<Longrightarrow> 0 \<notin> fst ` set ys \<Longrightarrow>
     \<exists>s'. append_all ys s = Some s' \<and> list_state s' (xs @ ys)"
proof (induction ys arbitrary: s xs)
  case (Cons y ys)
  obtain a v where y: "y = (a, v)" by fastforce
  obtain s1 where s1: "linklist_append a v s = Some s1" "list_state s1 (xs @ [(a, v)])"
    using linklist_append_ok [of s xs a v] Cons.prems y by auto
  then show ?case
    using Cons.IH [OF s1(2)] Cons.prems y by auto
qed simp

subsection \<open>Exclusive or of a list\<close>

definition xor_list :: "u32 list \<Rightarrow> u32 \<Rightarrow> u32" where
  "xor_list = fold (\<lambda>y x. x XOR y)"

lemma xor_list_start: "xor_list ys a = a XOR xor_list ys 0"
proof (induction ys arbitrary: a)
  case (Cons y ys)
  have "xor_list ys (a XOR y) = (a XOR y) XOR xor_list ys 0" "xor_list ys (0 XOR y) = (0 XOR y) XOR xor_list ys 0"
    by (rule Cons.IH)+
  then show ?case
    by (simp add: xor_list_def xor.assoc)
qed (simp add: xor_list_def)

lemma xor_list_twice: "xor_list ys (xor_list ys a) = a"
  using xor_list_start [of ys a] xor_list_start [of ys "xor_list ys a"] by (simp add: xor.assoc)

lemma xor_list_mset: "mset xs = mset ys \<Longrightarrow> xor_list xs = xor_list ys"
  unfolding xor_list_def by (rule fold_multiset_equiv) (auto simp: fun_eq_iff xor.assoc xor.commute xor.left_commute)

lemma xor_array_range: "xor_array xs [i..<length xs] x = Some (xor_list (drop i xs) x)"
proof (induction "length xs - i" arbitrary: i x)
  case (Suc n)
  then have "[i..<length xs] = i # [Suc i..<length xs]" "drop i xs = xs ! i # drop (Suc i) xs"
    by (simp_all add: upt_conv_Cons Cons_nth_drop_Suc)
  then show ?case
    using Suc by (simp add: xor_list_def)
qed (simp add: xor_list_def)

lemma xor_array_stops: "xor_array xs (is @ [length xs]) x = None"
  by (induction "is" arbitrary: x) auto

lemma mset_build: "1 \<le> d \<Longrightarrow> d \<le> 100 \<Longrightarrow> mset (build_array_with_one_dup d) = add_mset d (mset [1..<101])"
proof -
  assume d: "1 \<le> d" "d \<le> 100"
  have "mset (concat (map (\<lambda>i. if i = d then [i, i] else [i]) ns)) =
      mset ns + replicate_mset (count (mset ns) d) d" for ns
    by (induction ns) auto
  moreover have "count (mset [1..<101]) d = 1"
    using d by (simp add: count_mset_set)
  ultimately show ?thesis
    unfolding build_array_with_one_dup_def by simp
qed

lemma xor_to_100_list: "xor_to_100 = xor_list (map of_nat [1..<101]) 0"
proof -
  have "[0..<101] = 0 # [1..<101]"
    by (simp add: upt_conv_Cons)
  then show ?thesis
    unfolding xor_to_100_def xor_list_def by (simp add: fold_map comp_def)
qed

subsection \<open>Properties\<close>

text \<open>C39: Whatever distinct non-null addresses the nodes get, a list built by appending is printed
  forwards in the order of the appends and backwards in the reverse order, and both walks end.\<close>
theorem xor_list_both_ways:
  assumes "length addrs = length vs" "distinct addrs" "0 \<notin> set addrs"
  shows "\<exists>h ll. append_all (zip addrs vs) empty_list = Some (h, ll) \<and>
    print_from h (ll_begin ll) 0 = Some vs \<and> print_from h (ll_end ll) 0 = Some (rev vs)"
proof -
  let ?xs = "zip addrs vs"
  have keys: "map fst ?xs = addrs" "map snd ?xs = vs" "map snd (rev ?xs) = rev vs"
    using assms by (simp_all flip: rev_map)
  have "list_state empty_list []"
    by (simp add: list_state_def empty_list_def)
  moreover have "0 \<notin> fst ` set ?xs"
    using assms keys by (metis set_map)
  ultimately obtain h ll where run: "append_all ?xs empty_list = Some (h, ll)" "list_state (h, ll) ?xs"
    using append_all_ok [of empty_list "[]" ?xs] assms keys by auto
  have "hd (map fst (rev ?xs) @ [0]) = last (0 # map fst ?xs)"
    by (cases ?xs rule: rev_cases) auto
  then have "print_from h (ll_begin ll) 0 = Some vs" "print_from h (ll_end ll) 0 = Some (rev vs)"
    using run(2) print_from_linked [of h 0 ?xs] print_from_linked [OF linked_rev [of h 0 ?xs 0]] keys
    unfolding list_state_def by auto
  then show ?thesis
    using run(1) by blast
qed

theorem xor_list_both_ways_witness:
  "\<exists>h ll. append_all (zip [16, 48, 32] [5, 6, 7]) empty_list = Some (h, ll) \<and>
    print_from h (ll_begin ll) 0 = Some [5, 6, 7] \<and> print_from h (ll_end ll) 0 = Some (rev [5, 6, 7])"
  by (rule xor_list_both_ways) simp_all

text \<open>For any order of the numbers \<open>build_array_with_one_dup\<close> prints, the exclusive or over 0 to 100
  and over the array is the repeated number; \<open>find\<close> itself never gets there, because its second loop
  reads one element past the end of every array.\<close>
theorem find_dup_overruns:
  assumes "1 \<le> d" "d \<le> 100" "mset xs = mset (map of_nat (build_array_with_one_dup d))"
  shows "xor_array xs [0..<length xs] xor_to_100 = Some (of_nat d) \<and> find_dup xs = None"
proof
  let ?ns = "map of_nat [1..<101] :: u32 list"
  have "mset xs = mset (of_nat d # ?ns)"
    using mset_build [OF assms(1,2)] unfolding assms(3) mset_map mset.simps by (simp only: image_mset_add_mset list.map mset.simps mset_map)
  then have "xor_list xs xor_to_100 = xor_list (of_nat d # ?ns) xor_to_100"
    using xor_list_mset by metis
  also have "\<dots> = xor_list ?ns (xor_list ?ns (of_nat d))"
    unfolding xor_to_100_list
    by (metis (no_types, lifting) fold_simps(2) xor.commute xor_list_def xor_list_start)
  finally show "xor_array xs [0..<length xs] xor_to_100 = Some (of_nat d)"
    unfolding xor_array_range xor_list_twice by simp
  show "find_dup xs = None"
    unfolding find_dup_def by (simp add: xor_array_stops)
qed

theorem find_dup_overruns_witness:
  "find_dup (map of_nat (build_array_with_one_dup 41)) = None"
  using find_dup_overruns [of 41 "map of_nat (build_array_with_one_dup 41)"] by simp

end
