(* ===== verification/Dungeon.thy ===== *)
theory Dungeon
  imports Prelude "HOL-Library.Monad_Syntax"
begin

text \<open>
  The text adventure \<open>c/collection/dungeon/dungeon.c\<close>: the player, the eight room slots, the commands
  of the menu and the main loop.  The state is \<open>world\<close>: the two globals \<open>player\<close> and \<open>rooms\<close>, the
  position in the sequence of numbers \<open>rand\<close> returns (a parameter), and the text still to be read
  from standard input.  What is printed is a list of messages, without colours and frames.  Arrays
  are lists of their declared length with the counter the code keeps.
\<close>

subsection \<open>Data\<close>

definition MAX_ITEMS :: nat where "MAX_ITEMS = 10"
definition MAX_ROOMS :: nat where "MAX_ROOMS = 8"

record item =
  item_name :: string
  item_desc :: string
  heal_amount :: int
  damage_bonus :: int
  item_value :: int

record player =
  player_name :: string
  hp :: int
  max_hp :: int
  attack :: int
  defense :: int
  gold :: int
  level :: int
  experience :: int
  inventory :: "item list"
  inventory_count :: nat
  current_room :: int

record room =
  room_name :: string
  room_desc :: string
  north :: int
  south :: int
  east :: int
  west :: int
  items :: "item list"
  item_count :: nat
  enemy_hp :: int
  enemy_name :: string
  enemy_attack :: int
  cleared :: bool

record world =
  hero :: player
  rooms :: "room list"
  rand_pos :: nat
  stdin :: string

datatype msg =
    Room_title string
  | Room_text string
  | Exits "string list"
  | Items_here "string list"
  | Enemy_here string int int
  | Enemy_defeated
  | Stats string int int int int int int
  | Menu
  | Inventory_title
  | Inventory_empty
  | Inventory_line nat string string
  | Cannot_go
  | Moved_to string
  | No_items
  | Inventory_full
  | Pick_prompt "string list"
  | Picked_gold string int
  | Picked string
  | Invalid_item
  | Use_prompt nat
  | Healed string int
  | Equipped string int
  | No_enemy
  | Hit string int
  | Defeated string
  | Reward int int
  | Level_up int int int int
  | Hit_back string int
  | Farewell
  | Invalid_choice
  | Game_over int int
  | Victory int int

text \<open>Static storage starts out zeroed.\<close>

definition no_item :: item where
  "no_item = \<lparr>item_name = [], item_desc = [], heal_amount = 0, damage_bonus = 0, item_value = 0\<rparr>"

definition no_room :: room where
  "no_room = \<lparr>room_name = [], room_desc = [], north = 0, south = 0, east = 0, west = 0,
     items = replicate 10 no_item, item_count = 0, enemy_hp = 0, enemy_name = [], enemy_attack = 0, cleared = False\<rparr>"

subsection \<open>Initial state\<close>

definition potion :: item where
  "potion = \<lparr>item_name = ''Health Potion'', item_desc = ''Restore 30 HP'', heal_amount = 30, damage_bonus = 0, item_value = 10\<rparr>"

definition iron_sword :: item where
  "iron_sword = \<lparr>item_name = ''Iron Sword'', item_desc = ''A sturdy blade (+5 attack)'', heal_amount = 0,
     damage_bonus = 5, item_value = 25\<rparr>"

definition gold_coins :: item where
  "gold_coins = \<lparr>item_name = ''Gold Coins'', item_desc = ''A pile of shiny gold (+50 gold)'', heal_amount = 0,
     damage_bonus = 0, item_value = 50\<rparr>"

definition init_rooms :: "room list" where
  "init_rooms =
    [no_room\<lparr>room_name := ''Entrance Hall'',
       room_desc := ''You stand in a dimly lit stone hallway.Torches flicker on the walls, casting dancing shadows. The air is '' @
         ''cold and damp.'',
       north := 1, south := -1, east := 2, west := -1, cleared := True\<rparr>,
     no_room\<lparr>room_name := ''Guard Room'',
       room_desc := ''A small chamber with broken furniture. A goblin guard snarls at you, clutching a rusty dagger!'',
       north := -1, south := 0, east := 3, west := -1,
       enemy_name := ''Goblin Guard'', enemy_hp := 30, enemy_attack := 8\<rparr>,
     no_room\<lparr>room_name := ''Storage Room'',
       room_desc := ''Dusty crates and barrels line the walls. You spot something shiny among the debris'',
       north := 3, south := -1, east := -1, west := 0,
       items := [iron_sword, potion] @ replicate 8 no_item, item_count := 2, cleared := True\<rparr>,
     no_room\<lparr>room_name := ''Dark Corridor'',
       room_desc := ''A narrow passage stretches before you. Strange scratching sounds echo from the shadows'',
       north := 4, south := 2, east := -1, west := 1,
       enemy_name := ''Giant Rat'', enemy_hp := 20, enemy_attack := 6\<rparr>,
     no_room\<lparr>room_name := ''Treasure Chamber'',
       room_desc := ''Gold coins and jewels glitter in a stone chest! But a massive creature guards it too...'',
       north := -1, south := 3, east := 5, west := -1,
       items := gold_coins # replicate 9 no_item, item_count := 1,
       enemy_name := ''Orc Warrior'', enemy_hp := 50, enemy_attack := 12\<rparr>,
     no_room\<lparr>room_name := ''Dragon's Lair'',
       room_desc := ''A massive cavern filled with treasure. A fearsome dragon awakens, smoke curling from its nostrils!'',
       north := -1, south := -1, east := -1, west := 4,
       enemy_name := ''Ancient Dragon'', enemy_hp := 100, enemy_attack := 20\<rparr>,
     no_room, no_room]"

definition init_player :: player where
  "init_player = \<lparr>player_name = ''Hero'', hp = 100, max_hp = 100, attack = 15, defense = 5, gold = 20, level = 1,
     experience = 0, inventory = potion # replicate 9 no_item, inventory_count = 1, current_room = 0\<rparr>"

definition init_game :: "string \<Rightarrow> world" where
  "init_game input = \<lparr>hero = init_player, rooms = init_rooms, rand_pos = 0, stdin = input\<rparr>"

subsection \<open>Input\<close>

text \<open>\<open>scanf("%d", &input)\<close> skips white space, takes an optional sign and the digits that follow, and
  leaves the rest; \<open>None\<close> when there is no number (or no input left).\<close>

definition is_space :: "char \<Rightarrow> bool" where
  "is_space c \<longleftrightarrow> of_char c \<in> {9, 10, 11, 12, 13, 32 :: nat}"

definition scan_int :: "string \<Rightarrow> int option \<times> string" where
  "scan_int s0 =
     (let s = dropWhile is_space s0;
          sign = (case s of [] \<Rightarrow> 1 | c # r \<Rightarrow> (if c = CHR ''-'' then -1 else 1));
          t = (case s of [] \<Rightarrow> s | c # r \<Rightarrow> (if c = CHR ''-'' \<or> c = CHR ''+'' then r else s));
          digits = takeWhile is_digit t
      in if digits = [] then (None, t) else (Some (sign * int (read_nat digits)), dropWhile is_digit t))"

definition clear_input_buffer :: "string \<Rightarrow> string" where
  "clear_input_buffer s = drop 1 (dropWhile (\<lambda>c. c \<noteq> CHR 0x0A) s)"

definition get_input :: "world \<Rightarrow> int \<times> world" where
  "get_input w = (case scan_int (stdin w) of
     (None, s) \<Rightarrow> (-1, w\<lparr>stdin := clear_input_buffer s\<rparr>)
   | (Some i, s) \<Rightarrow> (i, w\<lparr>stdin := clear_input_buffer s\<rparr>))"

subsection \<open>Display\<close>

abbreviation here :: "world \<Rightarrow> room" where
  "here w \<equiv> rooms w ! nat (current_room (hero w))"

definition set_here :: "room \<Rightarrow> world \<Rightarrow> world" where
  "set_here r w = w\<lparr>rooms := (rooms w)[nat (current_room (hero w)) := r]\<rparr>"

definition display_stats :: "world \<Rightarrow> msg list" where
  "display_stats w = (let p = hero w in
     [Stats (player_name p) (level p) (hp p) (max_hp p) (attack p) (defense p) (gold p)])"

definition display_room :: "world \<Rightarrow> msg list" where
  "display_room w = (let room = here w in
     [Room_title (room_name room), Room_text (room_desc room),
      Exits ((if north room \<noteq> -1 then [''North''] else []) @ (if south room \<noteq> -1 then [''South''] else []) @
             (if east room \<noteq> -1 then [''East''] else []) @ (if west room \<noteq> -1 then [''West''] else []))] @
     (if item_count room > 0 then [Items_here (map item_name (take (item_count room) (items room)))] else []) @
     (if \<not> cleared room \<and> enemy_hp room > 0 then [Enemy_here (enemy_name room) (enemy_hp room) (enemy_attack room)]
      else if cleared room \<and> enemy_hp room > 0 then [Enemy_defeated]
      else []))"

definition display_inventory :: "world \<Rightarrow> msg list" where
  "display_inventory w = (let p = hero w in
     Inventory_title #
     (if inventory_count p = 0 then [Inventory_empty]
      else map (\<lambda>i. Inventory_line (i + 1) (item_name (inventory p ! i)) (item_desc (inventory p ! i)))
             [0..<inventory_count p]))"

subsection \<open>Commands\<close>

definition exit_towards :: "int \<Rightarrow> room \<Rightarrow> int" where
  "exit_towards direction room =
     (if direction = 0 then north room else if direction = 1 then south room
      else if direction = 2 then east room else if direction = 3 then west room else -1)"

definition move_player :: "int \<Rightarrow> world \<Rightarrow> world \<times> msg list" where
  "move_player direction w =
     (let new_room = exit_towards direction (here w) in
      if new_room = -1 then (w, [Cannot_go])
      else (w\<lparr>hero := (hero w)\<lparr>current_room := new_room\<rparr>\<rparr>, [Moved_to (room_name (rooms w ! nat new_room))]))"

text \<open>\<open>for (int i = choice - 1; i < count - 1; i++) a[i] = a[i + 1];\<close>\<close>

function shift_down :: "nat \<Rightarrow> nat \<Rightarrow> 'a list \<Rightarrow> 'a list" where
  "shift_down i n xs = (if Suc i < n then shift_down (Suc i) n (xs[i := xs ! Suc i]) else xs)"
  by pat_completeness auto
termination
  by (relation "measure (\<lambda>(i, n, xs). n - i)") auto

declare shift_down.simps [simp del]

definition pickup_item :: "world \<Rightarrow> world \<times> msg list" where
  "pickup_item w =
     (let room = here w in
      if item_count room = 0 then (w, [No_items])
      else if inventory_count (hero w) \<ge> MAX_ITEMS then (w, [Inventory_full])
      else let prompt = Pick_prompt (map item_name (take (item_count room) (items room)));
               (choice, w1) = get_input w in
        if choice \<ge> 1 \<and> choice \<le> int (item_count room) then
          let c = nat (choice - 1);
              it = items room ! c;
              p = (hero w1)\<lparr>inventory := (inventory (hero w1))[inventory_count (hero w1) := it],
                            inventory_count := inventory_count (hero w1) + 1\<rparr>;
              (p', m) = (if item_name it = ''Gold Coins''
                         then (p\<lparr>gold := gold p + item_value it, inventory_count := inventory_count p - 1\<rparr>,
                               Picked_gold (item_name (inventory p ! (inventory_count p - 1))) (item_value it))
                         else (p, Picked (item_name (inventory p ! (inventory_count p - 1)))));
              room' = room\<lparr>items := shift_down c (item_count room) (items room), item_count := item_count room - 1\<rparr>
          in (set_here room' (w1\<lparr>hero := p'\<rparr>), [prompt, m])
        else (w1, [prompt, Invalid_item]))"

definition apply_item :: "item \<Rightarrow> player \<Rightarrow> player \<times> msg list" where
  "apply_item it p =
     (if heal_amount it > 0 then
        let h = hp p + heal_amount it; h' = (if h > max_hp p then max_hp p else h)
        in (p\<lparr>hp := h'\<rparr>, [Healed (item_name it) h'])
      else if damage_bonus it > 0 then
        (p\<lparr>attack := attack p + damage_bonus it\<rparr>, [Equipped (item_name it) (attack p + damage_bonus it)])
      else (p, []))"

definition use_item :: "world \<Rightarrow> world \<times> msg list" where
  "use_item w =
     (if inventory_count (hero w) = 0 then (w, [Inventory_empty])
      else let shown = display_inventory w @ [Use_prompt (inventory_count (hero w))];
               (choice, w1) = get_input w; p = hero w1 in
        if choice \<ge> 1 \<and> choice \<le> int (inventory_count p) then
          let c = nat (choice - 1);
              (p', ms) = apply_item (inventory p ! c) p;
              p'' = p'\<lparr>inventory := shift_down c (inventory_count p) (inventory p'),
                       inventory_count := inventory_count p - 1\<rparr>
          in (w1\<lparr>hero := p''\<rparr>, shown @ ms)
        else (w1, shown @ [Invalid_item]))"

definition level_up :: "player \<Rightarrow> player \<times> msg list" where
  "level_up p =
     (if experience p \<ge> level p * 50 then
        let p' = p\<lparr>level := level p + 1, max_hp := max_hp p + 20, hp := max_hp p + 20,
                   attack := attack p + 3, defense := defense p + 2\<rparr>
        in (p', [Level_up (level p') (max_hp p') (attack p') (defense p')])
      else (p, []))"

definition attack_enemy :: "(nat \<Rightarrow> nat) \<Rightarrow> world \<Rightarrow> world \<times> msg list" where
  "attack_enemy rnd w =
     (let room = here w; p = hero w; k = rand_pos w in
      if cleared room \<or> enemy_hp room \<le> 0 then (w, [No_enemy])
      else let player_damage = attack p + int (rnd k mod 5);
               room1 = room\<lparr>enemy_hp := enemy_hp room - player_damage\<rparr>;
               hit = Hit (enemy_name room) player_damage in
        if enemy_hp room1 \<le> 0 then
          let exp_gain = 20 + int (rnd (k + 1) mod 15);
              gold_gain = 10 + int (rnd (k + 2) mod 20);
              p1 = p\<lparr>experience := experience p + exp_gain, gold := gold p + gold_gain\<rparr>;
              (p2, ms) = level_up p1
          in ((set_here (room1\<lparr>cleared := True\<rparr>) w)\<lparr>hero := p2, rand_pos := k + 3\<rparr>,
              [hit, Defeated (enemy_name room), Reward exp_gain gold_gain] @ ms)
        else
          let d = enemy_attack room + int (rnd (k + 1) mod 4) - defense p;
              enemy_damage = (if d < 1 then 1 else d)
          in ((set_here room1 w)\<lparr>hero := p\<lparr>hp := hp p - enemy_damage\<rparr>, rand_pos := k + 2\<rparr>,
              [hit, Hit_back (enemy_name room) enemy_damage]))"

definition check_death :: "world \<Rightarrow> msg list" where
  "check_death w = (if hp (hero w) \<le> 0 then [Game_over (level (hero w)) (gold (hero w))] else [])"

text \<open>\<open>check_victory\<close> ends the process with \<open>exit(0)\<close>: the flag tells that it does.\<close>

definition check_victory :: "world \<Rightarrow> bool \<times> msg list" where
  "check_victory w = (let r = rooms w ! 5 in
     if cleared r \<and> enemy_hp r \<le> 0 then (True, [Victory (level (hero w)) (gold (hero w))]) else (False, []))"

subsection \<open>The main loop\<close>

datatype status = Playing | Stopped | Exited

text \<open>The switch of \<open>main\<close>: the new state, what is printed, and \<open>is_playing\<close>.\<close>

definition do_choice :: "(nat \<Rightarrow> nat) \<Rightarrow> int \<Rightarrow> world \<Rightarrow> world \<times> msg list \<times> bool" where
  "do_choice rnd choice w =
     (if 1 \<le> choice \<and> choice \<le> 4 then case move_player (choice - 1) w of (w', ms) \<Rightarrow> (w', ms, True)
      else if choice = 5 then case pickup_item w of (w', ms) \<Rightarrow> (w', ms, True)
      else if choice = 6 then case use_item w of (w', ms) \<Rightarrow> (w', ms, True)
      else if choice = 7 then (w, display_inventory w, True)
      else if choice = 8 then case attack_enemy rnd w of (w', ms) \<Rightarrow> (w', ms, True)
      else if choice = 9 then (w, [Farewell], False)
      else (w, [Invalid_choice], True))"

definition turn :: "(nat \<Rightarrow> nat) \<Rightarrow> world \<Rightarrow> world \<times> msg list \<times> status" where
  "turn rnd w =
     (let shown = display_room w @ display_stats w @ [Menu];
          (choice, w1) = get_input w;
          (w2, ms, is_playing) = do_choice rnd choice w1;
          died = check_death w2;
          (won, vs) = check_victory w2;
          st = (if won then Exited else if \<not> is_playing \<or> hp (hero w2) \<le> 0 then Stopped else Playing)
      in (w2, shown @ ms @ died @ vs, st))"

partial_function (option) main_loop :: "(nat \<Rightarrow> nat) \<Rightarrow> world \<Rightarrow> (world \<times> msg list \<times> status) option" where
  "main_loop rnd w = (case turn rnd w of (w', ms, st) \<Rightarrow>
     if st = Playing then do {
       (w'', ms', st') \<leftarrow> main_loop rnd w';
       Some (w'', ms @ ms', st')
     } else Some (w', ms, st))"

definition dungeon_main :: "(nat \<Rightarrow> nat) \<Rightarrow> string \<Rightarrow> (world \<times> msg list \<times> status) option" where
  "dungeon_main rnd input = main_loop rnd (init_game input)"

subsection \<open>What every command keeps\<close>

text \<open>The part of a room that never changes.\<close>

definition layout :: "room \<Rightarrow> string \<times> int list \<times> string \<times> int" where
  "layout r = (room_name r, [north r, south r, east r, west r], enemy_name r, enemy_attack r)"

text \<open>Everything that can still be picked up or used, and the enemies alive.\<close>

definition stock :: "world \<Rightarrow> item list" where
  "stock w = take (inventory_count (hero w)) (inventory (hero w)) @
     concat (map (\<lambda>r. take (item_count r) (items r)) (take 6 (rooms w)))"

definition weight :: "(item \<Rightarrow> int) \<Rightarrow> world \<Rightarrow> int" where
  "weight f w = sum_list (map f (stock w))"

definition alive :: "world \<Rightarrow> int" where
  "alive w = sum_list (map (\<lambda>r. if cleared r then 0 else 1) (take 6 (rooms w)))"

definition gold_worth :: "item \<Rightarrow> int" where
  "gold_worth it = (if item_name it = ''Gold Coins'' then item_value it else 0)"

definition shape :: "world \<Rightarrow> bool" where
  "shape w \<longleftrightarrow> map layout (rooms w) = map layout init_rooms \<and>
     0 \<le> current_room (hero w) \<and> current_room (hero w) \<le> 5 \<and>
     length (inventory (hero w)) = 10 \<and> inventory_count (hero w) \<le> 10 \<and>
     list_all (\<lambda>r. length (items r) = 10 \<and> item_count r \<le> 10 \<and> (cleared r \<longleftrightarrow> enemy_hp r \<le> 0)) (take 6 (rooms w)) \<and>
     set (stock w) \<subseteq> {potion, iron_sword, gold_coins}"

text \<open>Level, strength and wealth against what is still to be gained.\<close>

definition tally :: "world \<Rightarrow> bool" where
  "tally w \<longleftrightarrow> (let p = hero w in
     hp p \<le> max_hp p \<and> max_hp p = 80 + 20 * level p \<and> defense p = 3 + 2 * level p \<and>
     1 \<le> level p \<and> level p + alive w \<le> 5 \<and>
     15 \<le> attack p \<and> attack p + weight damage_bonus w + 3 * alive w \<le> 32 \<and>
     0 \<le> experience p \<and> experience p + 34 * alive w \<le> 136 \<and>
     20 \<le> gold p \<and> gold p + weight gold_worth w + 29 * alive w \<le> 186 \<and>
     weight (\<lambda>_. 1) w \<le> 4)"

lemma shift_down_length [simp]: "length (shift_down i n xs) = length xs"
  by (induction i n xs rule: shift_down.induct) (subst shift_down.simps, simp)

lemma take_shift_down:
  "i < n \<Longrightarrow> n \<le> length xs \<Longrightarrow> take (n - 1) (shift_down i n xs) = take i xs @ drop (Suc i) (take n xs)"
proof (induction i n xs rule: shift_down.induct)
  case (1 i n xs)
  show ?case
  proof (cases "Suc i < n")
    case True
    then have "drop (Suc i) (take n xs) = xs ! Suc i # drop (Suc (Suc i)) (take n xs)"
      using 1 by (metis Cons_nth_drop_Suc length_take min.absorb2 nth_take)
    moreover have "take (Suc i) (xs[i := xs ! Suc i]) = take i xs @ [xs ! Suc i]"
      using 1 True by (simp add: take_Suc_conv_app_nth)
    ultimately show ?thesis
      using 1 True by (subst shift_down.simps) (simp add: take_update_swap drop_update_swap)
  next
    case False
    then have "n = Suc i"
      using 1 by simp
    then show ?thesis
      by (subst shift_down.simps) simp
  qed
qed

lemma sum_list_update_int:
  "k < length xs \<Longrightarrow> sum_list (map f (xs[k := x])) = sum_list (map f xs) - f (xs ! k) + (f x :: int)"
  by (induction xs arbitrary: k) (auto split: nat.splits)

lemma sum_removed: "i < n \<Longrightarrow> n \<le> length xs \<Longrightarrow>
    sum_list (map f (take (n - 1) (shift_down i n xs))) = sum_list (map f (take n xs)) - (f (xs ! i) :: int)"
proof -
  assume i: "i < n" "n \<le> length xs"
  then have "take n xs = take i xs @ xs ! i # drop (Suc i) (take n xs)"
    using id_take_nth_drop [of i "take n xs"] by simp
  then have "sum_list (map f (take n xs)) = sum_list (map f (take i xs @ xs ! i # drop (Suc i) (take n xs)))"
    by simp
  then show ?thesis
    unfolding take_shift_down [OF i] by simp
qed

lemma set_removed: "i < n \<Longrightarrow> n \<le> length xs \<Longrightarrow> set (take (n - 1) (shift_down i n xs)) \<subseteq> set (take n xs)"
proof -
  assume i: "i < n" "n \<le> length xs"
  then have "take i xs = take i (take n xs)"
    by simp
  then show ?thesis
    unfolding take_shift_down [OF i] using set_take_subset [of i "take n xs"] set_drop_subset [of "Suc i" "take n xs"] by simp
qed

definition carried :: "player \<Rightarrow> item list" where
  "carried p = take (inventory_count p) (inventory p)"

definition lying :: "room \<Rightarrow> item list" where
  "lying r = take (item_count r) (items r)"

definition worth :: "(item \<Rightarrow> int) \<Rightarrow> item list \<Rightarrow> int" where
  "worth f its = sum_list (map f its)"

definition over_rooms :: "(room \<Rightarrow> int) \<Rightarrow> room list \<Rightarrow> int" where
  "over_rooms g rs = sum_list (map g (take 6 rs))"

lemma worth_concat: "worth f (concat xss) = sum_list (map (worth f) xss)"
  by (induction xss) (simp_all add: worth_def)

lemma weight_split: "weight f w = worth f (carried (hero w)) + over_rooms (\<lambda>r. worth f (lying r)) (rooms w)"
proof -
  have "weight f w = worth f (carried (hero w)) + worth f (concat (map lying (take 6 (rooms w))))"
    by (simp add: weight_def stock_def worth_def carried_def lying_def [abs_def])
  then show ?thesis
    unfolding worth_concat by (simp add: over_rooms_def comp_def)
qed

lemma alive_split: "alive w = over_rooms (\<lambda>r. if cleared r then 0 else 1) (rooms w)"
  by (simp add: alive_def over_rooms_def)

lemma set_stock: "set (stock w) = set (carried (hero w)) \<union> (\<Union>r \<in> set (take 6 (rooms w)). set (lying r))"
  by (auto simp: stock_def carried_def lying_def)

lemma take_6_update: "i < 6 \<Longrightarrow> take 6 (rs[i := r]) = (take 6 rs)[i := r]"
  by (simp add: take_update_swap)

lemma over_rooms_update:
  "i < 6 \<Longrightarrow> 6 \<le> length rs \<Longrightarrow> over_rooms g (rs[i := r]) = over_rooms g rs - g (rs ! i) + g r"
  by (simp add: over_rooms_def take_6_update sum_list_update_int)

lemma over_rooms_nonneg: "(\<And>r. r \<in> set (take 6 rs) \<Longrightarrow> 0 \<le> g r) \<Longrightarrow> 0 \<le> over_rooms g rs"
  unfolding over_rooms_def by (induction "take 6 rs") (auto intro!: sum_list_nonneg)

lemma length_init_rooms [simp]: "length init_rooms = 8"
  by (simp add: init_rooms_def)

lemma layout_simps [simp]:
  "layout (r\<lparr>items := x\<rparr>) = layout r" "layout (r\<lparr>item_count := n\<rparr>) = layout r"
  "layout (r\<lparr>enemy_hp := h\<rparr>) = layout r" "layout (r\<lparr>cleared := c\<rparr>) = layout r"
  by (simp_all add: layout_def)

lemma shapeD:
  assumes "shape w"
  shows "length (rooms w) = 8" "nat (current_room (hero w)) < 6"
    "length (items (here w)) = 10" "item_count (here w) \<le> 10" "cleared (here w) \<longleftrightarrow> enemy_hp (here w) \<le> 0"
    "set (carried (hero w)) \<subseteq> {potion, iron_sword, gold_coins}" "set (lying (here w)) \<subseteq> {potion, iron_sword, gold_coins}"
    "layout (here w) = layout (init_rooms ! nat (current_room (hero w)))"
proof -
  show len: "length (rooms w) = 8"
    using assms map_eq_imp_length_eq [of layout "rooms w" layout init_rooms] by (simp add: shape_def)
  show i: "nat (current_room (hero w)) < 6"
    using assms by (simp add: shape_def nat_less_iff)
  have mem: "here w \<in> set (take 6 (rooms w))"
    using len i by (auto simp: in_set_conv_nth intro!: exI [of _ "nat (current_room (hero w))"])
  show "length (items (here w)) = 10" "item_count (here w) \<le> 10" "cleared (here w) \<longleftrightarrow> enemy_hp (here w) \<le> 0"
    using assms mem by (auto simp: shape_def list_all_iff)
  show "set (carried (hero w)) \<subseteq> {potion, iron_sword, gold_coins}" "set (lying (here w)) \<subseteq> {potion, iron_sword, gold_coins}"
    using assms mem by (auto simp: shape_def set_stock)
  have "map layout (rooms w) ! nat (current_room (hero w)) = map layout init_rooms ! nat (current_room (hero w))"
    using assms by (simp add: shape_def)
  then show "layout (here w) = layout (init_rooms ! nat (current_room (hero w)))"
    using len i by simp
qed

lemma shape_hero:
  assumes "shape w" "current_room p = current_room (hero w)" "length (inventory p) = 10" "inventory_count p \<le> 10"
    "set (carried p) \<subseteq> {potion, iron_sword, gold_coins}"
  shows "shape (w\<lparr>hero := p\<rparr>)"
  using assms by (auto simp: shape_def set_stock)

lemma shape_rooms:
  assumes "shape w" "map layout rs = map layout (rooms w)" "set (take 6 rs) \<subseteq> insert r (set (take 6 (rooms w)))"
    "length (items r) = 10" "item_count r \<le> 10" "cleared r \<longleftrightarrow> enemy_hp r \<le> 0"
    "set (lying r) \<subseteq> {potion, iron_sword, gold_coins}"
  shows "shape (w\<lparr>rooms := rs\<rparr>)"
proof -
  let ?ok = "\<lambda>r. length (items r) = 10 \<and> item_count r \<le> 10 \<and> (cleared r \<longleftrightarrow> enemy_hp r \<le> 0)"
  let ?known = "{potion, iron_sword, gold_coins}"
  have old: "?ok x" "set (lying x) \<subseteq> ?known" if "x \<in> set (take 6 (rooms w))" for x
    using assms(1) that unfolding shape_def set_stock list_all_iff by blast+
  then have "?ok x" "set (lying x) \<subseteq> ?known" if "x \<in> set (take 6 rs)" for x
    using assms(3-7) that by blast+
  then have "list_all ?ok (take 6 rs)" "set (stock (w\<lparr>rooms := rs\<rparr>)) \<subseteq> ?known"
    using assms(1) by (auto simp: list_all_iff set_stock shape_def)
  then show ?thesis
    using assms(1,2) unfolding shape_def by simp
qed

lemma shape_set_here:
  assumes sh: "shape w" and r: "layout r = layout (here w)" "length (items r) = 10" "item_count r \<le> 10"
    "cleared r \<longleftrightarrow> enemy_hp r \<le> 0" "set (lying r) \<subseteq> {potion, iron_sword, gold_coins}"
  shows "shape (set_here r w)"
  unfolding set_here_def
proof (rule shape_rooms [OF sh _ _ r(2-5)])
  show "set (take 6 ((rooms w)[nat (current_room (hero w)) := r])) \<subseteq> insert r (set (take 6 (rooms w)))"
    using shapeD [OF sh] by (simp add: take_6_update set_update_subset_insert)
  show "map layout ((rooms w)[nat (current_room (hero w)) := r]) = map layout (rooms w)"
    unfolding map_update r(1) by (simp only: map_update [symmetric] list_update_id)
qed

end
