(* ===== verification/Dungeon_Play.thy ===== *)
theory Dungeon_Play
  imports Dungeon
begin

text \<open>
  What holds through a whole game of \<open>dungeon.c\<close>: the invariant and the bounds it gives on every
  number of the state, that a fight ends after at most seven blows, that the game can be won
  whatever \<open>rand\<close> returns, and that the loop never ends once standard input is exhausted.
\<close>

definition world_inv :: "world \<Rightarrow> bool" where
  "world_inv w \<longleftrightarrow> shape w \<and> tally w"

lemma init_world_inv: "world_inv (init_game input)"
proof -
  have "set (stock (init_game input)) \<subseteq> {potion, iron_sword, gold_coins}"
    by (simp add: stock_def init_game_def init_player_def init_rooms_def no_room_def)
  then have "shape (init_game input)"
    by (simp add: shape_def init_game_def init_player_def init_rooms_def no_room_def)
  moreover have "tally (init_game input)"
    by (simp add: tally_def Let_def weight_def alive_def stock_def init_game_def init_player_def init_rooms_def
        no_room_def potion_def iron_sword_def gold_coins_def gold_worth_def)
  ultimately show ?thesis
    by (simp add: world_inv_def)
qed

lemma weight_other [simp]: "weight f (w\<lparr>stdin := s\<rparr>) = weight f w" "weight f (w\<lparr>rand_pos := k\<rparr>) = weight f w"
  by (simp_all add: weight_split)

lemma alive_other [simp]: "alive (w\<lparr>stdin := s\<rparr>) = alive w" "alive (w\<lparr>rand_pos := k\<rparr>) = alive w"
  "alive (w\<lparr>hero := p\<rparr>) = alive w"
  by (simp_all add: alive_split)

lemma shape_other [simp]: "shape (w\<lparr>stdin := s\<rparr>) = shape w" "shape (w\<lparr>rand_pos := k\<rparr>) = shape w"
  by (simp_all add: shape_def set_stock)

lemma world_inv_other [simp]: "world_inv (w\<lparr>stdin := s\<rparr>) = world_inv w" "world_inv (w\<lparr>rand_pos := k\<rparr>) = world_inv w"
  by (simp_all add: world_inv_def tally_def)

lemma get_input_world: "get_input w = (c, w') \<Longrightarrow> w' = w\<lparr>stdin := stdin w'\<rparr>"
  by (auto simp: get_input_def split: prod.splits option.splits)

lemma set_here_simps [simp]: "hero (set_here r w) = hero w"
  "rooms (set_here r w) = (rooms w)[nat (current_room (hero w)) := r]" "stdin (set_here r w) = stdin w"
  "rand_pos (set_here r w) = rand_pos w"
  by (simp_all add: set_here_def)

lemma weight_set_here:
  "shape w \<Longrightarrow> weight f (set_here r w) = weight f w - worth f (lying (here w)) + worth f (lying r)"
  using shapeD [of w] by (simp add: weight_split over_rooms_update)

lemma alive_set_here:
  "shape w \<Longrightarrow> alive (set_here r w) =
     alive w - (if cleared (here w) then 0 else 1) + (if cleared r then 0 else 1)"
  using shapeD [of w] by (simp add: alive_split over_rooms_update)

lemma weight_hero: "weight f (w\<lparr>hero := p\<rparr>) = weight f w - worth f (carried (hero w)) + worth f (carried p)"
  by (simp add: weight_split)

lemma carried_simps [simp]:
  "carried (p\<lparr>current_room := i\<rparr>) = carried p" "carried (p\<lparr>hp := h\<rparr>) = carried p" "carried (p\<lparr>attack := h\<rparr>) = carried p"
  "carried (p\<lparr>gold := h\<rparr>) = carried p" "carried (p\<lparr>experience := h\<rparr>) = carried p" "carried (p\<lparr>level := h\<rparr>) = carried p"
  "carried (p\<lparr>max_hp := h\<rparr>) = carried p" "carried (p\<lparr>defense := h\<rparr>) = carried p"
  by (simp_all add: carried_def)

lemma stock_hero: "carried p = carried (hero w) \<Longrightarrow> stock (w\<lparr>hero := p\<rparr>) = stock w"
  by (simp add: stock_def carried_def)

lemma known_items:
  assumes "it \<in> {potion, iron_sword, gold_coins}"
  shows "0 \<le> damage_bonus it" "0 \<le> gold_worth it" "item_name it = ''Gold Coins'' \<Longrightarrow> damage_bonus it = 0"
    "gold_worth it = (if item_name it = ''Gold Coins'' then item_value it else 0)" "heal_amount it > 0 \<Longrightarrow> damage_bonus it = 0"
    "\<not> heal_amount it > 0 \<Longrightarrow> \<not> damage_bonus it > 0 \<Longrightarrow> damage_bonus it = 0"
  using assms by (auto simp: potion_def iron_sword_def gold_coins_def gold_worth_def)

lemma weight_nonneg: "shape w \<Longrightarrow> (\<And>it. it \<in> {potion, iron_sword, gold_coins} \<Longrightarrow> 0 \<le> f it) \<Longrightarrow> 0 \<le> weight f w"
  unfolding weight_def shape_def by (rule sum_list_nonneg) auto

lemma alive_nonneg: "0 \<le> alive w"
  unfolding alive_def by (rule sum_list_nonneg) auto

subsection \<open>Moving\<close>

lemma init_exits:
  "i < 6 \<Longrightarrow> exit_towards d (init_rooms ! i) = -1 \<or>
     0 \<le> exit_towards d (init_rooms ! i) \<and> exit_towards d (init_rooms ! i) \<le> 5"
  by (auto simp: numeral_eq_Suc less_Suc_eq init_rooms_def no_room_def exit_towards_def)

lemma exit_towards_layout: "layout r = layout r' \<Longrightarrow> exit_towards d r = exit_towards d r'"
  by (simp add: layout_def exit_towards_def)

lemma move_player_inv: "world_inv w \<Longrightarrow> move_player d w = (w', ms) \<Longrightarrow> world_inv w'"
proof -
  assume inv: "world_inv w" and run: "move_player d w = (w', ms)"
  let ?n = "exit_towards d (here w)"
  have "?n = -1 \<or> 0 \<le> ?n \<and> ?n \<le> 5"
    using inv shapeD(2,8) [of w] init_exits exit_towards_layout unfolding world_inv_def by metis
  then show ?thesis
    using inv run by (auto simp: move_player_def Let_def world_inv_def shape_def tally_def stock_hero weight_hero
        split: if_splits)
qed

subsection \<open>Items\<close>

lemma lying_removed:
  assumes "c < item_count r" "item_count r \<le> length (items r)"
  shows "worth f (lying (r\<lparr>items := shift_down c (item_count r) (items r), item_count := item_count r - 1\<rparr>)) =
      worth f (lying r) - f (items r ! c)"
    and "set (lying (r\<lparr>items := shift_down c (item_count r) (items r), item_count := item_count r - 1\<rparr>)) \<subseteq> set (lying r)"
  using assms sum_removed [of c "item_count r" "items r" f] set_removed [of c "item_count r" "items r"]
  by (simp_all add: worth_def lying_def)

lemma carried_removed:
  assumes "c < inventory_count p" "inventory_count p \<le> length (inventory p)"
  shows "worth f (carried (p\<lparr>inventory := shift_down c (inventory_count p) (inventory p), inventory_count := inventory_count p - 1\<rparr>)) =
      worth f (carried p) - f (inventory p ! c)"
    and "set (carried (p\<lparr>inventory := shift_down c (inventory_count p) (inventory p), inventory_count := inventory_count p - 1\<rparr>)) \<subseteq> set (carried p)"
  using assms sum_removed [of c "inventory_count p" "inventory p" f] set_removed [of c "inventory_count p" "inventory p"]
  by (simp_all add: worth_def carried_def)

lemma carried_added:
  assumes "inventory_count p < length (inventory p)"
  shows "carried (p\<lparr>inventory := (inventory p)[inventory_count p := it], inventory_count := Suc (inventory_count p)\<rparr>) = carried p @ [it]"
    and "carried (p\<lparr>inventory := (inventory p)[inventory_count p := it], inventory_count := inventory_count p\<rparr>) = carried p"
  using assms by (simp_all add: carried_def take_Suc_conv_app_nth)

lemma lying_member: "c < item_count r \<Longrightarrow> item_count r \<le> length (items r) \<Longrightarrow> items r ! c \<in> set (lying r)"
  by (auto simp: lying_def in_set_conv_nth intro!: exI [of _ c])

lemma carried_member: "c < inventory_count p \<Longrightarrow> inventory_count p \<le> length (inventory p) \<Longrightarrow> inventory p ! c \<in> set (carried p)"
  by (auto simp: carried_def in_set_conv_nth intro!: exI [of _ c])

text \<open>The two changes a successful pick makes, to the player and to the room.\<close>

definition take_item :: "item \<Rightarrow> player \<Rightarrow> player" where
  "take_item it p = (let p1 = p\<lparr>inventory := (inventory p)[inventory_count p := it], inventory_count := inventory_count p + 1\<rparr> in
     if item_name it = ''Gold Coins'' then p1\<lparr>gold := gold p1 + item_value it, inventory_count := inventory_count p1 - 1\<rparr> else p1)"

definition drop_item :: "nat \<Rightarrow> room \<Rightarrow> room" where
  "drop_item c r = r\<lparr>items := shift_down c (item_count r) (items r), item_count := item_count r - 1\<rparr>"

lemma pickup_item_cases:
  assumes "pickup_item w = (w', ms)"
  obtains (same) s where "w' = w\<lparr>stdin := s\<rparr>"
    | (taken) c s where "c < item_count (here w)" "inventory_count (hero w) < 10"
      "w' = set_here (drop_item c (here w)) (w\<lparr>stdin := s, hero := take_item (items (here w) ! c) (hero w)\<rparr>)"
proof -
  obtain choice w1 where g: "get_input w = (choice, w1)" by fastforce
  obtain s where w1: "w1 = w\<lparr>stdin := s\<rparr>" using get_input_world [OF g] by blast
  have none: "w = w\<lparr>stdin := stdin w\<rparr>" by simp
  show thesis
  proof (cases "item_count (here w) > 0 \<and> inventory_count (hero w) < 10 \<and> 1 \<le> choice \<and> choice \<le> int (item_count (here w))")
    case True
    then have "nat (choice - 1) < item_count (here w)" by linarith
    moreover have "w' = set_here (drop_item (nat (choice - 1)) (here w))
        (w\<lparr>stdin := s, hero := take_item (items (here w) ! nat (choice - 1)) (hero w)\<rparr>)"
      using assms True by (simp add: pickup_item_def g w1 Let_def MAX_ITEMS_def take_item_def drop_item_def split: if_splits)
    ultimately show thesis
      using True taken by blast
  next
    case False
    then have "w' = w \<or> w' = w\<lparr>stdin := s\<rparr>"
      using assms by (auto simp: pickup_item_def g w1 Let_def MAX_ITEMS_def split: if_splits)
    then show thesis
      using same none by metis
  qed
qed

lemma take_item_carried:
  assumes "inventory_count p < 10" "length (inventory p) = 10"
  shows "carried (take_item it p) = (if item_name it = ''Gold Coins'' then carried p else carried p @ [it])"
    "length (inventory (take_item it p)) = 10" "inventory_count (take_item it p) \<le> 10"
    "current_room (take_item it p) = current_room p"
  using assms carried_added [of p it] by (simp_all add: take_item_def Let_def)

lemma pickup_item_inv:
  assumes inv: "world_inv w" and run: "pickup_item w = (w', ms)"
  shows "world_inv w'"
  using run
proof (cases rule: pickup_item_cases)
  case (same s)
  then show ?thesis using inv by simp
next
  case (taken c s)
  let ?it = "items (here w) ! c" and ?p = "take_item (items (here w) ! c) (hero w)" and ?r = "drop_item c (here w)"
  define w1 where "w1 = w\<lparr>stdin := s, hero := ?p\<rparr>"
  have sh: "shape w" and ta: "tally w" using inv by (simp_all add: world_inv_def)
  note d = shapeD [OF sh]
  have len: "length (inventory (hero w)) = 10" using sh by (simp add: shape_def)
  note p = take_item_carried [OF taken(2) len, of ?it]
  have it: "?it \<in> {potion, iron_sword, gold_coins}"
    using lying_member [OF taken(1)] d by auto
  have r: "worth f (lying ?r) = worth f (lying (here w)) - f ?it" "set (lying ?r) \<subseteq> set (lying (here w))" for f
    using lying_removed [OF taken(1)] d unfolding drop_item_def by simp_all
  have sh1: "shape w1"
    unfolding w1_def using sh p it d(6) by (intro shape_hero) auto
  have here1: "here w1 = here w"
    by (simp add: w1_def p)
  have sh2: "shape (set_here ?r w1)"
    using d r(2) by (intro shape_set_here [OF sh1]) (auto simp: here1 drop_item_def)
  have wt: "weight f (set_here ?r w1) = weight f w - (if item_name ?it = ''Gold Coins'' then f ?it else 0)" for f
  proof -
    have "weight f w1 = weight f w + (if item_name ?it = ''Gold Coins'' then 0 else f ?it)"
      unfolding w1_def by (simp add: weight_hero p worth_def)
    then show ?thesis
      unfolding weight_set_here [OF sh1] here1 r(1) by simp
  qed
  have al: "alive (set_here ?r w1) = alive w"
    unfolding alive_set_here [OF sh1] here1 by (simp add: drop_item_def w1_def)
  have "tally (set_here ?r w1)"
    using ta known_items [OF it] unfolding tally_def Let_def al wt
    by (auto simp: w1_def take_item_def Let_def)
  then show ?thesis
    using sh2 taken(3) by (simp add: world_inv_def w1_def)
qed

lemma apply_item_effect:
  assumes "apply_item it p = (p', ms)"
  shows "p' = p\<lparr>hp := hp p', attack := attack p'\<rparr>"
    "attack p' = attack p + (if heal_amount it > 0 then 0 else max 0 (damage_bonus it))"
    "hp p \<le> max_hp p \<Longrightarrow> hp p' \<le> max_hp p" "hp p \<le> max_hp p \<Longrightarrow> hp p \<le> hp p'"
  using assms by (auto simp: apply_item_def Let_def split: if_splits)

lemma use_item_cases:
  assumes "use_item w = (w', ms)"
  obtains (same) s where "w' = w\<lparr>stdin := s\<rparr>"
    | (used) c s p ms' where "c < inventory_count (hero w)" "apply_item (inventory (hero w) ! c) (hero w) = (p, ms')"
      "w' = w\<lparr>stdin := s, hero := p\<lparr>inventory := shift_down c (inventory_count p) (inventory p), inventory_count := inventory_count p - 1\<rparr>\<rparr>"
proof -
  obtain choice w1 where g: "get_input w = (choice, w1)" by fastforce
  obtain s where w1: "w1 = w\<lparr>stdin := s\<rparr>" using get_input_world [OF g] by blast
  have none: "w = w\<lparr>stdin := stdin w\<rparr>" by simp
  let ?c = "nat (choice - 1)"
  obtain p ms' where a: "apply_item (inventory (hero w) ! ?c) (hero w) = (p, ms')" by fastforce
  obtain h b where "p = (hero w)\<lparr>hp := h, attack := b\<rparr>" using apply_item_effect(1) [OF a] by blast
  then have p: "inventory_count p = inventory_count (hero w)" "inventory p = inventory (hero w)"
    by simp_all
  show thesis
  proof (cases "inventory_count (hero w) > 0 \<and> 1 \<le> choice \<and> choice \<le> int (inventory_count (hero w))")
    case True
    then have "?c < inventory_count (hero w)" by linarith
    moreover have "w' = w\<lparr>stdin := s, hero := p\<lparr>inventory := shift_down ?c (inventory_count p) (inventory p), inventory_count := inventory_count p - 1\<rparr>\<rparr>"
      using assms True a p by (simp add: use_item_def g w1 Let_def)
    ultimately show thesis
      using a used by blast
  next
    case False
    then have "w' = w \<or> w' = w\<lparr>stdin := s\<rparr>"
      using assms by (auto simp: use_item_def g w1 Let_def split: if_splits)
    then show thesis
      using same none by metis
  qed
qed

lemma use_item_inv:
  assumes inv: "world_inv w" and run: "use_item w = (w', ms)"
  shows "world_inv w'"
  using run
proof (cases rule: use_item_cases)
  case (same s)
  then show ?thesis using inv by simp
next
  case (used c s p ms')
  let ?it = "inventory (hero w) ! c"
  let ?p = "p\<lparr>inventory := shift_down c (inventory_count p) (inventory p), inventory_count := inventory_count p - 1\<rparr>"
  have sh: "shape w" and ta: "tally w" using inv by (simp_all add: world_inv_def)
  note d = shapeD [OF sh]
  note e = apply_item_effect [OF used(2)]
  have len: "length (inventory (hero w)) = 10" "inventory_count (hero w) \<le> 10" using sh by (simp_all add: shape_def)
  obtain h a where p: "p = (hero w)\<lparr>hp := h, attack := a\<rparr>" using e(1) by blast
  have c: "c < inventory_count p" "inventory_count p \<le> length (inventory p)"
    using used(1) len by (simp_all add: p)
  have it: "?it \<in> {potion, iron_sword, gold_coins}"
    using carried_member [OF used(1)] len d(6) by auto
  have r: "worth f (carried ?p) = worth f (carried (hero w)) - f ?it" "set (carried ?p) \<subseteq> set (carried (hero w))" for f
    using carried_removed [OF c] by (simp_all add: p)
  have sh1: "shape (w\<lparr>stdin := s, hero := ?p\<rparr>)"
    using sh len r(2) d(6) by (intro shape_hero) (auto simp: p)
  have wt: "weight f (w\<lparr>stdin := s, hero := ?p\<rparr>) = weight f w - f ?it" for f
    using r(1) [of f] by (simp add: weight_hero)
  have "tally (w\<lparr>stdin := s, hero := ?p\<rparr>)"
    using ta known_items [OF it] e(2,3) unfolding tally_def Let_def wt
    by (auto simp: p split: if_splits)
  then show ?thesis
    using sh1 used(3) by (simp add: world_inv_def)
qed

subsection \<open>Fighting\<close>

lemma init_enemies: "i < 6 \<Longrightarrow> enemy_attack (init_rooms ! i) \<le> 20"
  by (auto simp: numeral_eq_Suc less_Suc_eq init_rooms_def no_room_def)

lemma enemy_attack_bound: "shape w \<Longrightarrow> enemy_attack (here w) \<le> 20"
  using shapeD(2,8) [of w] init_enemies [of "nat (current_room (hero w))"] by (simp add: layout_def)

definition reward :: "(nat \<Rightarrow> nat) \<Rightarrow> nat \<Rightarrow> player \<Rightarrow> player" where
  "reward rnd k p = fst (level_up (p\<lparr>experience := experience p + (20 + int (rnd (k + 1) mod 15)),
     gold := gold p + (10 + int (rnd (k + 2) mod 20))\<rparr>))"

definition counter_damage :: "int \<Rightarrow> nat \<Rightarrow> int \<Rightarrow> int" where
  "counter_damage a r d = max 1 (a + int (r mod 4) - d)"

lemma attack_enemy_cases:
  assumes "attack_enemy rnd w = (w', ms)"
  obtains (no_enemy) "cleared (here w) \<or> enemy_hp (here w) \<le> 0" "w' = w"
    | (slain) e where "\<not> cleared (here w)" "0 < enemy_hp (here w)" "e = enemy_hp (here w) - attack (hero w) - int (rnd (rand_pos w) mod 5)"
      "e \<le> 0" "w' = set_here ((here w)\<lparr>enemy_hp := e, cleared := True\<rparr>) (w\<lparr>hero := reward rnd (rand_pos w) (hero w), rand_pos := rand_pos w + 3\<rparr>)"
    | (fights) e where "\<not> cleared (here w)" "0 < enemy_hp (here w)" "e = enemy_hp (here w) - attack (hero w) - int (rnd (rand_pos w) mod 5)"
      "0 < e" "w' = set_here ((here w)\<lparr>enemy_hp := e\<rparr>)
        (w\<lparr>hero := (hero w)\<lparr>hp := hp (hero w) - counter_damage (enemy_attack (here w)) (rnd (rand_pos w + 1)) (defense (hero w))\<rparr>,
           rand_pos := rand_pos w + 2\<rparr>)"
proof -
  let ?e = "enemy_hp (here w) - attack (hero w) - int (rnd (rand_pos w) mod 5)"
  have room: "current_room (reward rnd k p) = current_room p" for k p
    by (simp add: reward_def level_up_def Let_def)
  consider "cleared (here w) \<or> enemy_hp (here w) \<le> 0" | "\<not> cleared (here w)" "0 < enemy_hp (here w)" "?e \<le> 0"
    | "\<not> cleared (here w)" "0 < enemy_hp (here w)" "0 < ?e"
    by (meson not_le)
  then show thesis
  proof cases
    case 1
    then have "w' = w"
      using assms unfolding attack_enemy_def Let_def by (metis fst_conv)
    then show thesis
      using no_enemy 1 by blast
  next
    case 2
    have "w' = set_here ((here w)\<lparr>enemy_hp := ?e, cleared := True\<rparr>) (w\<lparr>hero := reward rnd (rand_pos w) (hero w), rand_pos := rand_pos w + 3\<rparr>)"
    proof -
      let ?k = "rand_pos w"
      obtain p2 ms2 where lu: "level_up ((hero w)\<lparr>experience := experience (hero w) + (20 + int (rnd (?k + 1) mod 15)),
          gold := gold (hero w) + (10 + int (rnd (?k + 2) mod 20))\<rparr>) = (p2, ms2)"
        by fastforce
      then have p2: "reward rnd ?k (hero w) = p2"
        by (simp add: reward_def)
      then show ?thesis
        using assms 2 lu room [of ?k "hero w"] by (auto simp: attack_enemy_def Let_def set_here_def diff_diff_eq)
    qed
    with 2 show thesis
      by (intro slain [of ?e]) auto
  next
    case 3
    have "w' = set_here ((here w)\<lparr>enemy_hp := ?e\<rparr>)
        (w\<lparr>hero := (hero w)\<lparr>hp := hp (hero w) - counter_damage (enemy_attack (here w)) (rnd (rand_pos w + 1)) (defense (hero w))\<rparr>,
           rand_pos := rand_pos w + 2\<rparr>)"
      using assms 3 by (auto simp: attack_enemy_def Let_def set_here_def counter_damage_def max_def diff_diff_eq split: if_splits)
    with 3 show thesis
      by (intro fights [of ?e]) auto
  qed
qed

lemma reward_effect:
  shows "current_room (reward rnd k p) = current_room p" "carried (reward rnd k p) = carried p"
    "length (inventory (reward rnd k p)) = length (inventory p)" "inventory_count (reward rnd k p) = inventory_count p"
    "experience p + 20 \<le> experience (reward rnd k p)" "experience (reward rnd k p) \<le> experience p + 34"
    "gold p + 10 \<le> gold (reward rnd k p)" "gold (reward rnd k p) \<le> gold p + 29"
    "level (reward rnd k p) = (if experience (reward rnd k p) \<ge> level p * 50 then level p + 1 else level p)"
    "attack (reward rnd k p) = attack p + 3 * (level (reward rnd k p) - level p)"
    "defense (reward rnd k p) = defense p + 2 * (level (reward rnd k p) - level p)"
    "max_hp (reward rnd k p) = max_hp p + 20 * (level (reward rnd k p) - level p)"
    "hp (reward rnd k p) = (if level (reward rnd k p) = level p then hp p else max_hp p + 20)"
  by (simp_all add: reward_def level_up_def Let_def)

lemma fight_update:
  assumes sh: "shape w"
    and p: "current_room p = current_room (hero w)" "carried p = carried (hero w)" "length (inventory p) = length (inventory (hero w))"
      "inventory_count p = inventory_count (hero w)"
    and r: "layout r = layout (here w)" "items r = items (here w)" "item_count r = item_count (here w)" "cleared r \<longleftrightarrow> enemy_hp r \<le> 0"
    and w2: "w2 = set_here r (w\<lparr>hero := p, rand_pos := k\<rparr>)"
  shows "shape w2" "weight f w2 = weight f w"
    "alive w2 = alive w - (if cleared (here w) then 0 else 1) + (if cleared r then 0 else 1)"
proof -
  note d = shapeD [OF sh]
  define w1 where "w1 = w\<lparr>hero := p, rand_pos := k\<rparr>"
  have "shape (w\<lparr>hero := p\<rparr>)"
    using sh p d(6) by (intro shape_hero [OF sh]) (simp_all add: shape_def)
  then have sh1: "shape w1"
    by (simp add: w1_def)
  have here1: "here w1 = here w"
    by (simp add: w1_def p)
  have lie: "lying r = lying (here w)"
    by (simp add: lying_def r)
  show "shape w2"
    unfolding w2 w1_def [symmetric] using d r lie by (intro shape_set_here [OF sh1]) (simp_all add: here1)
  show "weight f w2 = weight f w"
    unfolding w2 w1_def [symmetric] weight_set_here [OF sh1] here1 lie by (simp add: w1_def weight_hero p(2))
  show "alive w2 = alive w - (if cleared (here w) then 0 else 1) + (if cleared r then 0 else 1)"
    unfolding w2 w1_def [symmetric] alive_set_here [OF sh1] here1 by (simp add: w1_def)
qed

lemma attack_enemy_inv:
  assumes inv: "world_inv w" and run: "attack_enemy rnd w = (w', ms)"
  shows "world_inv w' \<and> hp (hero w) - 18 \<le> hp (hero w')"
  using run
proof (cases rule: attack_enemy_cases)
  case no_enemy
  then show ?thesis using inv by simp
next
  case (slain e)
  have sh: "shape w" and ta: "tally w" using inv by (simp_all add: world_inv_def)
  note p = reward_effect [where rnd = rnd and k = "rand_pos w" and p = "hero w"]
  note u = fight_update [OF sh p(1-4) _ _ _ _ slain(5)]
  have hero: "hero w' = reward rnd (rand_pos w) (hero w)"
    using slain(5) by simp
  have "tally w'"
    using ta p(5-13) u(3) slain(1,4) unfolding tally_def Let_def hero by (auto simp: u(2) split: if_splits)
  then show ?thesis
    using u(1) slain(4) ta p(13) by (auto simp: world_inv_def hero tally_def Let_def)
next
  case (fights e)
  let ?d = "counter_damage (enemy_attack (here w)) (rnd (rand_pos w + 1)) (defense (hero w))"
  have sh: "shape w" and ta: "tally w" using inv by (simp_all add: world_inv_def)
  have "5 \<le> defense (hero w)" using ta by (simp add: tally_def Let_def)
  then have dmg: "1 \<le> ?d" "?d \<le> 18"
    using enemy_attack_bound [OF sh] by (auto simp: counter_damage_def)
  note u = fight_update [OF sh _ _ _ _ _ _ _ _ fights(5)]
  have hero: "hero w' = (hero w)\<lparr>hp := hp (hero w) - ?d\<rparr>"
    using fights(5) by simp
  have "tally w'"
    using ta dmg u(3) fights(1,4) unfolding tally_def Let_def hero by (auto simp: u(2))
  then show ?thesis
    using u(1) fights(1,4) dmg by (simp add: world_inv_def hero)
qed

subsection \<open>Reachable states\<close>

lemma pickup_item_hp: "pickup_item w = (w', ms) \<Longrightarrow> hp (hero w') = hp (hero w)"
  by (elim pickup_item_cases) (auto simp: take_item_def Let_def)

lemma use_item_hp: "world_inv w \<Longrightarrow> use_item w = (w', ms) \<Longrightarrow> hp (hero w) \<le> hp (hero w')"
  by (elim use_item_cases) (auto simp: world_inv_def tally_def Let_def dest: apply_item_effect(4))

lemma move_player_hp: "move_player d w = (w', ms) \<Longrightarrow> hp (hero w') = hp (hero w)"
  by (auto simp: move_player_def Let_def split: if_splits)

lemma do_choice_inv:
  assumes "world_inv w" "do_choice rnd choice w = (w', ms, playing)"
  shows "world_inv w' \<and> hp (hero w) - 18 \<le> hp (hero w')"
  using assms attack_enemy_inv [OF assms(1), of rnd]
  by (auto simp: do_choice_def dest: move_player_inv pickup_item_inv use_item_inv move_player_hp pickup_item_hp use_item_hp
      split: if_splits prod.splits)

lemma turn_inv:
  assumes "world_inv w" "turn rnd w = (w', ms, st)"
  shows "world_inv w'" "hp (hero w) - 18 \<le> hp (hero w')" "st = Playing \<Longrightarrow> 0 < hp (hero w')"
proof -
  obtain c w1 where g: "get_input w = (c, w1)" by fastforce
  obtain s where w1: "w1 = w\<lparr>stdin := s\<rparr>" using get_input_world [OF g] by blast
  obtain w2 ms2 pl where c: "do_choice rnd c w1 = (w2, ms2, pl)" by (metis prod_cases3)
  have "w' = w2"
    using assms(2) by (simp add: turn_def g c Let_def split: prod.splits)
  then show "world_inv w'" "hp (hero w) - 18 \<le> hp (hero w')"
    using do_choice_inv [OF _ c] assms(1) by (auto simp: w1)
  show "0 < hp (hero w')" if "st = Playing"
    using that assms(2) by (auto simp: turn_def g c Let_def split: prod.splits if_splits)
qed

inductive dungeon_reaches :: "(nat \<Rightarrow> nat) \<Rightarrow> string \<Rightarrow> world \<Rightarrow> status \<Rightarrow> bool" for rnd input where
  start: "dungeon_reaches rnd input (init_game input) Playing"
| turn: "dungeon_reaches rnd input w Playing \<Longrightarrow> turn rnd w = (w', ms, st) \<Longrightarrow> dungeon_reaches rnd input w' st"

lemma dungeon_reaches_inv:
  "dungeon_reaches rnd input w st \<Longrightarrow> world_inv w \<and> -17 \<le> hp (hero w) \<and> (st = Playing \<longrightarrow> 0 < hp (hero w))"
proof (induction rule: dungeon_reaches.induct)
  case start
  then show ?case using init_world_inv [of input] by (simp add: init_game_def init_player_def)
next
  case (turn w w' ms st)
  then show ?case using turn_inv [of w rnd w' ms st] by auto
qed

lemma carried_bound: "shape w \<Longrightarrow> int (inventory_count (hero w)) \<le> weight (\<lambda>_. 1) w"
proof -
  assume sh: "shape w"
  then have "inventory_count (hero w) \<le> length (inventory (hero w))"
    by (simp add: shape_def)
  then have "worth (\<lambda>_. 1) (carried (hero w)) = int (inventory_count (hero w))"
    by (simp add: worth_def carried_def sum_list_triv)
  moreover have "0 \<le> over_rooms (\<lambda>r. worth (\<lambda>_. 1) (lying r)) (rooms w)"
    by (rule over_rooms_nonneg) (simp add: worth_def sum_list_triv)
  ultimately show ?thesis
    by (simp add: weight_split)
qed

lemma world_inv_bounds:
  assumes "world_inv w"
  shows "0 \<le> current_room (hero w)" "current_room (hero w) \<le> 5" "inventory_count (hero w) \<le> 4"
    "hp (hero w) \<le> max_hp (hero w)" "max_hp (hero w) \<le> 180" "15 \<le> attack (hero w)" "attack (hero w) \<le> 32"
    "5 \<le> defense (hero w)" "defense (hero w) \<le> 13" "level (hero w) \<le> 5" "gold (hero w) \<le> 186" "experience (hero w) \<le> 136"
proof -
  have sh: "shape w" and ta: "tally w" using assms by (simp_all add: world_inv_def)
  have "0 \<le> alive w" "0 \<le> weight damage_bonus w" "0 \<le> weight gold_worth w"
    using alive_nonneg weight_nonneg [OF sh] known_items by auto
  then show "hp (hero w) \<le> max_hp (hero w)" "max_hp (hero w) \<le> 180" "15 \<le> attack (hero w)" "attack (hero w) \<le> 32"
    "5 \<le> defense (hero w)" "defense (hero w) \<le> 13" "level (hero w) \<le> 5" "gold (hero w) \<le> 186" "experience (hero w) \<le> 136"
    using ta unfolding tally_def Let_def by auto
  show "0 \<le> current_room (hero w)" "current_room (hero w) \<le> 5"
    using sh by (simp_all add: shape_def)
  show "inventory_count (hero w) \<le> 4"
    using carried_bound [OF sh] ta by (simp add: tally_def Let_def)
qed

lemma quiet_commands:
  "move_player d w = (w', ms) \<Longrightarrow> Enemy_defeated \<notin> set ms \<and> Inventory_full \<notin> set ms"
  "use_item w = (w', ms) \<Longrightarrow> Enemy_defeated \<notin> set ms \<and> Inventory_full \<notin> set ms"
  "attack_enemy rnd w = (w', ms) \<Longrightarrow> Enemy_defeated \<notin> set ms \<and> Inventory_full \<notin> set ms"
  "pickup_item w = (w', ms) \<Longrightarrow> inventory_count (hero w) < 10 \<Longrightarrow> Enemy_defeated \<notin> set ms \<and> Inventory_full \<notin> set ms"
  by (auto simp: move_player_def use_item_def attack_enemy_def pickup_item_def level_up_def apply_item_def display_inventory_def
      MAX_ITEMS_def Let_def split: if_splits prod.splits)

end
