(* ===== verification/Dungeon_Win.thy ===== *)
theory Dungeon_Win
  imports Dungeon_Play
begin

text \<open>
  Properties of whole games of \<open>dungeon.c\<close>: the bounds of every reachable state and the two branches
  no game reaches, the end of every fight, a sequence of commands that wins against any dice, and
  the loop that does not end when standard input does.
\<close>

subsection \<open>One turn\<close>

definition lines_of :: "string \<Rightarrow> string" where
  "lines_of cs = concat (map (\<lambda>c. [c, CHR 0x0A]) cs)"

lemma lines_of_simps [simp]: "lines_of [] = []" "lines_of (c # cs) = c # CHR 0x0A # lines_of cs"
  by (simp_all add: lines_of_def)

lemma lines_of_append: "lines_of (a @ b) = lines_of a @ lines_of b"
  by (simp add: lines_of_def)

lemma get_input_line:
  assumes "stdin w = c # CHR 0x0A # s" "is_digit c"
  shows "get_input w = (int (of_char c) - 48, w\<lparr>stdin := s\<rparr>)"
proof -
  have c: "\<not> is_space c" "c \<noteq> CHR ''-''" "c \<noteq> CHR ''+''" "\<not> is_digit (CHR 0x0A)" "48 \<le> (of_char c :: nat)"
    using assms(2) by (auto simp: is_digit_def is_space_def)
  then show ?thesis
    using assms by (simp add: get_input_def scan_int_def clear_input_buffer_def read_nat_def Let_def)
qed

lemma get_input_eof: "stdin w = [] \<Longrightarrow> get_input w = (-1, w\<lparr>stdin := []\<rparr>)"
  by (simp add: get_input_def scan_int_def clear_input_buffer_def)

definition status_after :: "bool \<Rightarrow> world \<Rightarrow> status" where
  "status_after playing w = (if cleared (rooms w ! 5) \<and> enemy_hp (rooms w ! 5) \<le> 0 then Exited
     else if \<not> playing \<or> hp (hero w) \<le> 0 then Stopped else Playing)"

lemma turn_eq:
  assumes "get_input w = (c, w1)" "do_choice rnd c w1 = (w2, ms, playing)"
  shows "\<exists>ms'. turn rnd w = (w2, ms', status_after playing w2)"
  using assms by (simp add: turn_def check_victory_def status_after_def Let_def)

lemma turn_line:
  assumes "stdin w = c # CHR 0x0A # s" "is_digit c" "do_choice rnd (int (of_char c) - 48) (w\<lparr>stdin := s\<rparr>) = (w2, ms, playing)"
  shows "\<exists>ms'. turn rnd w = (w2, ms', status_after playing w2)"
  using turn_eq [OF get_input_line [OF assms(1,2)] assms(3)] .

lemma turn_attack:
  assumes "stdin w = CHR ''8'' # CHR 0x0A # s" "attack_enemy rnd (w\<lparr>stdin := s\<rparr>) = (w2, ms)"
  shows "\<exists>ms'. turn rnd w = (w2, ms', status_after True w2)"
  using assms by (intro turn_line [OF assms(1)]) (simp_all add: is_digit_def do_choice_def)

subsection \<open>Winning\<close>

definition wins :: "(nat \<Rightarrow> nat) \<Rightarrow> world \<Rightarrow> bool" where
  "wins rnd w \<longleftrightarrow> (\<exists>w' ms. main_loop rnd w = Some (w', ms, Exited) \<and> 0 < hp (hero w'))"

lemma wins_now: "turn rnd w = (w', ms, Exited) \<Longrightarrow> 0 < hp (hero w') \<Longrightarrow> wins rnd w"
  unfolding wins_def by (subst main_loop.simps) simp

lemma wins_next: "turn rnd w = (w', ms, Playing) \<Longrightarrow> wins rnd w' \<Longrightarrow> wins rnd w"
  unfolding wins_def by (subst main_loop.simps) auto

lemma counter_damage_bounds: "1 \<le> counter_damage a r d" "counter_damage a r d \<le> max 1 (a + 3 - d)"
proof -
  have "int (r mod 4) \<le> 3" by simp
  then show "1 \<le> counter_damage a r d" "counter_damage a r d \<le> max 1 (a + 3 - d)"
    by (simp_all add: counter_damage_def max_def)
qed

text \<open>Both sides of a blow, when the player is in a room with a live enemy.\<close>

lemma blow:
  assumes st: "stdin w = CHR ''8'' # CHR 0x0A # s" and e: "\<not> cleared (here w)" "0 < enemy_hp (here w)"
    and i: "nat (current_room (hero w)) < length (rooms w)"
  obtains (slain) h w' ms where "enemy_hp (here w) \<le> attack (hero w) + 4" "w' = set_here ((here w)\<lparr>enemy_hp := h, cleared := True\<rparr>)
        (w\<lparr>stdin := s, hero := reward rnd (rand_pos w) (hero w), rand_pos := rand_pos w + 3\<rparr>)" "h \<le> 0"
      "turn rnd w = (w', ms, status_after True w')"
    | (fights) h d w' ms where "attack (hero w) < enemy_hp (here w)" "0 < h"
      "enemy_hp (here w) - attack (hero w) - 4 \<le> h" "h \<le> enemy_hp (here w) - attack (hero w)"
      "1 \<le> d" "d \<le> max 1 (enemy_attack (here w) + 3 - defense (hero w))"
      "w' = set_here ((here w)\<lparr>enemy_hp := h\<rparr>)
        (w\<lparr>stdin := s, hero := (hero w)\<lparr>hp := hp (hero w) - d\<rparr>, rand_pos := rand_pos w + 2\<rparr>)"
      "turn rnd w = (w', ms, status_after True w')"
proof -
  let ?r = "int (rnd (rand_pos w) mod 5)"
  have r: "0 \<le> ?r" "?r \<le> 4" by simp_all
  obtain w' ms0 where a: "attack_enemy rnd (w\<lparr>stdin := s\<rparr>) = (w', ms0)" by fastforce
  obtain ms where t: "turn rnd w = (w', ms, status_after True w')"
    using turn_attack [OF st a] by blast
  from a show thesis
  proof (cases rule: attack_enemy_cases)
    case no_enemy
    then show thesis using e by simp
  next
    case (slain h)
    show thesis
      by (rule that(1) [of w' h ms]) (use slain r t in \<open>auto\<close>)
  next
    case (fights h)
    show thesis
      by (rule that(2) [OF _ _ _ _ _ _ _ t]) (use fights r counter_damage_bounds in \<open>auto\<close>)
  qed
qed

lemma reward_alive: "0 < hp p \<Longrightarrow> 0 \<le> max_hp p \<Longrightarrow> 0 < hp (reward rnd k p)"
  using reward_effect(13) [of rnd k p] by auto

text \<open>After a blow that does not end the fight, enough strength is left for the blows that remain.\<close>

lemma fight_reserve:
  assumes "h \<le> a * int k" "0 < h" "d \<le> D" "D * (int (Suc k) - 1) < x" "0 \<le> D"
  shows "0 < x - d" "D * (int k - 1) < x - d"
proof -
  show "D * (int k - 1) < x - d"
    using assms(3,4) by (simp add: algebra_simps)
  moreover have "0 < k"
    using assms(1,2) by (cases k) auto
  then have "0 \<le> D * (int k - 1)"
    using assms(5) by simp
  ultimately show "0 < x - d"
    by linarith
qed

lemma last_blow:
  assumes "e \<le> a + 4" "(a + 4) * (int (Suc k) - 1) < e" "(0 :: int) < a"
  shows "k = 0"
proof (rule ccontr)
  assume "k \<noteq> 0"
  then have "(a + 4) * 1 \<le> (a + 4) * int k"
    using assms(3) by (intro mult_left_mono) auto
  then show False
    using assms(1,2) by simp
qed

text \<open>The last fight: enough blows in the dragon's lair win the game.\<close>

lemma last_fight:
  assumes "current_room (hero w) = 5" "length (rooms w) = 8" "\<not> cleared (here w)" "0 < enemy_hp (here w)"
    "enemy_hp (here w) \<le> attack (hero w) * int k" "max 1 (enemy_attack (here w) + 3 - defense (hero w)) \<le> D"
    "D * (int k - 1) < hp (hero w)" "0 \<le> max_hp (hero w)" "0 < attack (hero w)" "stdin w = lines_of (replicate k CHR ''8'') @ s"
  shows "0 < hp (hero w) \<Longrightarrow> wins rnd w"
  using assms
proof (induction k arbitrary: w)
  case (Suc k)
  have st: "stdin w = CHR ''8'' # CHR 0x0A # lines_of (replicate k CHR ''8'') @ s"
    using Suc.prems by simp
  have i: "nat (current_room (hero w)) < length (rooms w)"
    using Suc.prems by simp
  show ?case
    using st Suc.prems(4,5) i
  proof (cases rule: blow [where rnd = rnd])
    case (slain h w' ms)
    then have "status_after True w' = Exited"
      using Suc.prems by (simp add: status_after_def reward_effect)
    then show ?thesis
      using slain wins_now [of rnd w w' ms] reward_alive Suc.prems by simp
  next
    case (fights h d w' ms)
    have hero: "hero w' = (hero w)\<lparr>hp := hp (hero w) - d\<rparr>" and here: "here w' = (here w)\<lparr>enemy_hp := h\<rparr>"
      and len: "length (rooms w') = 8" and st': "stdin w' = lines_of (replicate k CHR ''8'') @ s"
      and here5: "rooms w' ! 5 = (rooms w ! 5)\<lparr>enemy_hp := h\<rparr>"
      using fights(7) Suc.prems(2,3) by simp_all
    have k: "h \<le> attack (hero w) * int k"
      using fights(4) Suc.prems(6) by (simp add: algebra_simps)
    have hp: "0 < hp (hero w')" "D * (int k - 1) < hp (hero w')"
      using fight_reserve [OF k fights(2) order.trans [OF fights(6) Suc.prems(7)] Suc.prems(8)] Suc.prems(7) by (simp_all add: hero)
    have "status_after True w' = Playing"
      using hp(1) here Suc.prems(2,4) hero by (simp add: status_after_def)
    then have "turn rnd w = (w', ms, Playing)"
      using fights(8) by simp
    moreover have "wins rnd w'"
      by (rule Suc.IH) (use hp len st' k Suc.prems fights(2) in \<open>simp_all add: hero here5\<close>)
    ultimately show ?thesis
      by (rule wins_next)
  qed
qed simp

text \<open>A fight before that, against an enemy that takes exactly \<open>k\<close> blows.\<close>

lemma fight_through:
  assumes "nat (current_room (hero w)) < 5" "length (rooms w) = 8" "\<not> cleared (here w)" "0 < enemy_hp (here w)"
    "enemy_hp (here w) \<le> attack (hero w) * int k" "(attack (hero w) + 4) * (int k - 1) < enemy_hp (here w)"
    "max 1 (enemy_attack (here w) + 3 - defense (hero w)) \<le> D" "D * (int k - 1) < hp (hero w)" "0 \<le> max_hp (hero w)"
    "\<not> cleared (rooms w ! 5)" "stdin w = lines_of (replicate k CHR ''8'') @ s" "0 < hp (hero w)" "0 < attack (hero w)"
    and cont: "\<And>h j x. h \<le> 0 \<Longrightarrow> x \<le> hp (hero w) \<Longrightarrow> hp (hero w) - D * (int k - 1) \<le> x \<Longrightarrow>
      wins rnd (set_here ((here w)\<lparr>enemy_hp := h, cleared := True\<rparr>)
        (w\<lparr>stdin := s, hero := reward rnd j ((hero w)\<lparr>hp := x\<rparr>), rand_pos := j + 3\<rparr>))"
  shows "wins rnd w"
  using assms
proof (induction k arbitrary: w)
  case (Suc k)
  have st: "stdin w = CHR ''8'' # CHR 0x0A # lines_of (replicate k CHR ''8'') @ s"
    using Suc.prems by simp
  have i: "nat (current_room (hero w)) < length (rooms w)"
    using Suc.prems by simp
  show ?case
    using st Suc.prems(3,4) i
  proof (cases rule: blow [where rnd = rnd])
    case (slain h w' ms)
    have "k = 0"
      by (rule last_blow [OF slain(1) Suc.prems(6,13)])
    then have w': "w' = set_here ((here w)\<lparr>enemy_hp := h, cleared := True\<rparr>)
        (w\<lparr>stdin := s, hero := reward rnd (rand_pos w) ((hero w)\<lparr>hp := hp (hero w)\<rparr>), rand_pos := rand_pos w + 3\<rparr>)"
      using slain(2) by simp
    have "status_after True w' = Playing"
      unfolding w' using Suc.prems(1,2,10,12) reward_alive [of "hero w" rnd "rand_pos w"] Suc.prems(9)
      by (simp add: status_after_def reward_effect)
    then have "turn rnd w = (w', ms, Playing)"
      using slain(4) by simp
    moreover have "wins rnd w'"
      unfolding w' by (rule Suc.prems(14)) (use slain(3) \<open>k = 0\<close> in simp_all)
    ultimately show ?thesis
      by (rule wins_next)
  next
    case (fights h d w' ms)
    have hero: "hero w' = (hero w)\<lparr>hp := hp (hero w) - d\<rparr>" and here: "here w' = (here w)\<lparr>enemy_hp := h\<rparr>"
      and len: "length (rooms w') = 8" and st': "stdin w' = lines_of (replicate k CHR ''8'') @ s"
      and room5: "rooms w' ! 5 = rooms w ! 5"
      and here0: "rooms w' ! nat (current_room (hero w)) = (here w)\<lparr>enemy_hp := h\<rparr>"
      using fights(7) Suc.prems(1,2) by simp_all
    have k: "h \<le> attack (hero w) * int k" "(attack (hero w) + 4) * (int k - 1) < h"
      using fights(3,4) Suc.prems(5,6) by (simp_all add: algebra_simps)
    have d: "d \<le> D"
      using fights(6) Suc.prems(7) by (rule order.trans)
    have hp: "0 < hp (hero w')" "D * (int k - 1) < hp (hero w')"
      using fight_reserve [OF k(1) fights(2) d Suc.prems(8)] Suc.prems(7) by (simp_all add: hero)
    have "status_after True w' = Playing"
      using hp(1) room5 Suc.prems(10) by (simp add: status_after_def)
    then have "turn rnd w = (w', ms, Playing)"
      using fights(8) by simp
    moreover have "wins rnd w'"
    proof (rule Suc.IH)
      fix h' x :: int and j :: nat assume x: "h' \<le> 0" "x \<le> hp (hero w')" "hp (hero w') - D * (int k - 1) \<le> x"
      have "set_here ((here w')\<lparr>enemy_hp := h', cleared := True\<rparr>)
          (w'\<lparr>stdin := s, hero := reward rnd j ((hero w')\<lparr>hp := x\<rparr>), rand_pos := j + 3\<rparr>) =
        set_here ((here w)\<lparr>enemy_hp := h', cleared := True\<rparr>)
          (w\<lparr>stdin := s, hero := reward rnd j ((hero w)\<lparr>hp := x\<rparr>), rand_pos := j + 3\<rparr>)"
        unfolding here hero using i by (simp add: fights(7) set_here_def reward_effect)
      then show "wins rnd (set_here ((here w')\<lparr>enemy_hp := h', cleared := True\<rparr>)
          (w'\<lparr>stdin := s, hero := reward rnd j ((hero w')\<lparr>hp := x\<rparr>), rand_pos := j + 3\<rparr>))"
        using Suc.prems(14) [of h' x j] x d fights(5) by (simp add: hero algebra_simps)
    qed (use hp len st' k Suc.prems fights(2) room5 in \<open>simp_all add: hero here0\<close>)
    ultimately show ?thesis
      by (rule wins_next)
  qed
qed simp

subsection \<open>The winning commands\<close>

text \<open>East to the storage room, take the sword, wield it, north to the rat, north to the orc, east to
  the dragon.\<close>

definition winning_input :: string where
  "winning_input = lines_of ''351621'' @ lines_of ''8'' @ lines_of ''1'' @ lines_of ''888'' @ lines_of ''3'' @ lines_of ''88888''"

text \<open>What matters of the rooms on the way.\<close>

definition en_route :: "nat \<Rightarrow> world \<Rightarrow> bool" where
  "en_route i w \<longleftrightarrow> length (rooms w) = 8 \<and> current_room (hero w) = int i \<and>
     (\<forall>j \<in> {i..5}. rooms w ! j = init_rooms ! j) \<and> 100 \<le> max_hp (hero w)"

lemma turn_move:
  assumes "stdin w = c # CHR 0x0A # s" "c \<in> set ''1234''" "exit_towards (int (of_char c) - 49) (here w) = n" "n \<noteq> -1"
    "\<not> cleared (rooms w ! 5)" "0 < hp (hero w)"
  shows "\<exists>ms. turn rnd w = (w\<lparr>stdin := s, hero := (hero w)\<lparr>current_room := n\<rparr>\<rparr>, ms, Playing)"
proof -
  have "is_digit c"
    using assms(2) by (auto simp: is_digit_def)
  moreover have "do_choice rnd (int (of_char c) - 48) (w\<lparr>stdin := s\<rparr>) =
      (w\<lparr>stdin := s, hero := (hero w)\<lparr>current_room := n\<rparr>\<rparr>, [Moved_to (room_name (rooms w ! nat n))], True)"
  proof -
    have "1 \<le> int (of_char c) - 48" "int (of_char c) - 48 \<le> 4"
      using assms(2) by auto
    moreover have "move_player (int (of_char c) - 48 - 1) (w\<lparr>stdin := s\<rparr>) =
        (w\<lparr>stdin := s, hero := (hero w)\<lparr>current_room := n\<rparr>\<rparr>, [Moved_to (room_name (rooms w ! nat n))])"
      using assms(3,4) unfolding move_player_def by (simp add: Let_def)
    ultimately show ?thesis
      unfolding do_choice_def by simp
  qed
  ultimately obtain ms where "turn rnd w = (w\<lparr>stdin := s, hero := (hero w)\<lparr>current_room := n\<rparr>\<rparr>, ms,
      status_after True (w\<lparr>stdin := s, hero := (hero w)\<lparr>current_room := n\<rparr>\<rparr>))"
    using turn_line [OF assms(1)] by blast
  moreover have "status_after True (w\<lparr>stdin := s, hero := (hero w)\<lparr>current_room := n\<rparr>\<rparr>) = Playing"
    using assms(5,6) by (simp add: status_after_def)
  ultimately show ?thesis
    by auto
qed

lemma wins_move:
  assumes "stdin w = c # CHR 0x0A # s" "c \<in> set ''1234''" "exit_towards (int (of_char c) - 49) (here w) = n" "n \<noteq> -1"
    "\<not> cleared (rooms w ! 5)" "0 < hp (hero w)" "wins rnd (w\<lparr>stdin := s, hero := (hero w)\<lparr>current_room := n\<rparr>\<rparr>)"
  shows "wins rnd w"
  using turn_move [OF assms(1-6)] wins_next [OF _ assms(7)] by blast

lemma init_room_facts:
  "\<not> cleared (init_rooms ! 3)" "enemy_hp (init_rooms ! 3) = 20" "enemy_attack (init_rooms ! 3) = 6" "north (init_rooms ! 3) = 4"
  "\<not> cleared (init_rooms ! 4)" "enemy_hp (init_rooms ! 4) = 50" "enemy_attack (init_rooms ! 4) = 12" "east (init_rooms ! 4) = 5"
  "\<not> cleared (init_rooms ! 5)" "enemy_hp (init_rooms ! 5) = 100" "enemy_attack (init_rooms ! 5) = 20"
  "north (init_rooms ! 2) = 3" "east (init_rooms ! 0) = 2"
  by (simp_all add: init_rooms_def no_room_def)

lemma beat_dragon:
  assumes "en_route 5 w" "80 \<le> hp (hero w)" "20 \<le> attack (hero w)" "5 \<le> defense (hero w)" "stdin w = lines_of ''88888'' @ s"
  shows "wins rnd w"
proof (rule last_fight [where k = 5 and D = 18 and s = s])
  show "stdin w = lines_of (replicate 5 CHR ''8'') @ s"
    using assms(5) by (simp add: numeral_eq_Suc)
qed (use assms in \<open>auto simp: en_route_def init_room_facts\<close>)

lemma beat_orc:
  assumes "en_route 4 w" "hp (hero w) = 100" "attack (hero w) = 20" "defense (hero w) = 5" "level (hero w) = 1"
    and "stdin w = lines_of ''888'' @ lines_of ''3'' @ lines_of ''88888'' @ s"
  shows "wins rnd w"
proof (rule fight_through [where k = 3 and D = 10 and s = "lines_of ''3'' @ lines_of ''88888'' @ s"])
  show "stdin w = lines_of (replicate 3 CHR ''8'') @ lines_of ''3'' @ lines_of ''88888'' @ s"
    using assms(6) by (simp add: numeral_eq_Suc)
next
  fix h x :: int and j :: nat
  assume x: "h \<le> 0" "x \<le> hp (hero w)" "hp (hero w) - 10 * (int 3 - 1) \<le> x"
  let ?p = "reward rnd j ((hero w)\<lparr>hp := x\<rparr>)"
  let ?w = "set_here ((here w)\<lparr>enemy_hp := h, cleared := True\<rparr>)
      (w\<lparr>stdin := lines_of ''3'' @ lines_of ''88888'' @ s, hero := ?p, rand_pos := j + 3\<rparr>)"
  have p: "80 \<le> hp ?p" "20 \<le> attack ?p" "5 \<le> defense ?p" "100 \<le> max_hp ?p" "current_room ?p = current_room (hero w)"
    using reward_effect [where rnd = rnd and k = j and p = "(hero w)\<lparr>hp := x\<rparr>"] assms x by (auto simp: en_route_def)
  show "wins rnd ?w"
  proof (rule wins_move [where c = "CHR ''3''" and n = 5 and s = "lines_of ''88888'' @ s"])
    show "wins rnd (?w\<lparr>stdin := lines_of ''88888'' @ s, hero := (hero ?w)\<lparr>current_room := 5\<rparr>\<rparr>)"
      by (rule beat_dragon [where s = s]) (use assms p in \<open>simp_all add: en_route_def\<close>)
  qed (use assms p in \<open>simp_all add: en_route_def exit_towards_def init_room_facts\<close>)
qed (use assms in \<open>simp_all add: en_route_def init_room_facts\<close>)

lemma beat_rat:
  assumes "en_route 3 w" "hp (hero w) = 100" "attack (hero w) = 20" "defense (hero w) = 5" "level (hero w) = 1" "experience (hero w) = 0"
    and "stdin w = lines_of ''8'' @ lines_of ''1'' @ lines_of ''888'' @ lines_of ''3'' @ lines_of ''88888'' @ s"
  shows "wins rnd w"
proof (rule fight_through [where k = 1 and D = 4 and s = "lines_of ''1'' @ lines_of ''888'' @ lines_of ''3'' @ lines_of ''88888'' @ s"])
  fix h x :: int and j :: nat
  assume x: "h \<le> 0" "x \<le> hp (hero w)" "hp (hero w) - 4 * (int 1 - 1) \<le> x"
  let ?p = "reward rnd j ((hero w)\<lparr>hp := x\<rparr>)" and ?s = "lines_of ''888'' @ lines_of ''3'' @ lines_of ''88888'' @ s"
  let ?w = "set_here ((here w)\<lparr>enemy_hp := h, cleared := True\<rparr>) (w\<lparr>stdin := lines_of ''1'' @ ?s, hero := ?p, rand_pos := j + 3\<rparr>)"
  have p: "hp ?p = 100" "attack ?p = 20" "defense ?p = 5" "level ?p = 1" "100 \<le> max_hp ?p" "current_room ?p = current_room (hero w)"
    using reward_effect [where rnd = rnd and k = j and p = "(hero w)\<lparr>hp := x\<rparr>"] assms x by (auto simp: en_route_def)
  show "wins rnd ?w"
  proof (rule wins_move [where c = "CHR ''1''" and n = 4 and s = ?s])
    show "wins rnd (?w\<lparr>stdin := ?s, hero := (hero ?w)\<lparr>current_room := 4\<rparr>\<rparr>)"
      by (rule beat_orc [where s = s]) (use assms p in \<open>simp_all add: en_route_def\<close>)
  qed (use assms p in \<open>simp_all add: en_route_def exit_towards_def init_room_facts\<close>)
qed (use assms in \<open>simp_all add: en_route_def init_room_facts\<close>)

text \<open>The player with the sword in the pack, and the storage room without it.\<close>

definition armed :: player where
  "armed = init_player\<lparr>current_room := 2, inventory := [potion, iron_sword] @ replicate 8 no_item, inventory_count := 2\<rparr>"

definition looted :: "room list" where
  "looted = init_rooms[2 := drop_item 0 (init_rooms ! 2)]"

lemma input_digit: "get_input (w\<lparr>stdin := CHR ''1'' # CHR 0x0A # s\<rparr>) = (1, w\<lparr>stdin := s\<rparr>)"
  "get_input (w\<lparr>stdin := CHR ''2'' # CHR 0x0A # s\<rparr>) = (2, w\<lparr>stdin := s\<rparr>)"
  using get_input_line [of "w\<lparr>stdin := CHR ''1'' # CHR 0x0A # s\<rparr>" "CHR ''1''" s]
    get_input_line [of "w\<lparr>stdin := CHR ''2'' # CHR 0x0A # s\<rparr>" "CHR ''2''" s] by (simp_all add: is_digit_def)

lemma status_start: "\<not> cleared (rooms w ! 5) \<Longrightarrow> 0 < hp (hero w) \<Longrightarrow> status_after True w = Playing"
  by (simp add: status_after_def)

lemma take_sword:
  assumes "wins rnd \<lparr>hero = armed, rooms = looted, rand_pos = 0, stdin = s\<rparr>"
  shows "wins rnd \<lparr>hero = init_player\<lparr>current_room := 2\<rparr>, rooms = init_rooms, rand_pos = 0, stdin = lines_of ''51'' @ s\<rparr>"
    (is "wins rnd ?w")
proof -
  let ?w' = "\<lparr>hero = armed, rooms = looted, rand_pos = 0, stdin = s\<rparr>"
  have room: "item_count (init_rooms ! 2) = 2" "items (init_rooms ! 2) = [iron_sword, potion] @ replicate 8 no_item"
    by (simp_all add: init_rooms_def)
  have pack: "(inventory init_player)[Suc 0 := iron_sword] = [potion, iron_sword] @ replicate 8 no_item"
    "inventory_count init_player = 1" "item_name iron_sword \<noteq> ''Gold Coins''"
    by (simp_all add: init_player_def iron_sword_def numeral_eq_Suc)
  obtain ms where "pickup_item (?w\<lparr>stdin := CHR ''1'' # CHR 0x0A # s\<rparr>) = (?w', ms)"
    unfolding pickup_item_def input_digit
    by (simp add: Let_def room pack set_here_def drop_item_def MAX_ITEMS_def armed_def looted_def)
  then have "do_choice rnd (int (of_char (CHR ''5'')) - 48) (?w\<lparr>stdin := CHR ''1'' # CHR 0x0A # s\<rparr>) = (?w', ms, True)"
    by (simp add: do_choice_def)
  then obtain ms' where "turn rnd ?w = (?w', ms', status_after True ?w')"
    using turn_line [of ?w "CHR ''5''" "CHR ''1'' # CHR 0x0A # s" rnd] by (auto simp: is_digit_def)
  moreover have "status_after True ?w' = Playing"
    by (rule status_start) (simp_all add: looted_def armed_def init_player_def init_room_facts)
  ultimately show ?thesis
    using wins_next assms by metis
qed

lemma wield_sword:
  assumes "\<And>p. hp p = 100 \<Longrightarrow> max_hp p = 100 \<Longrightarrow> attack p = 20 \<Longrightarrow> defense p = 5 \<Longrightarrow> level p = 1 \<Longrightarrow> experience p = 0 \<Longrightarrow>
    current_room p = 2 \<Longrightarrow> wins rnd \<lparr>hero = p, rooms = looted, rand_pos = 0, stdin = s\<rparr>"
  shows "wins rnd \<lparr>hero = armed, rooms = looted, rand_pos = 0, stdin = lines_of ''62'' @ s\<rparr>"
    (is "wins rnd ?w")
proof -
  obtain p ms where u: "use_item (?w\<lparr>stdin := CHR ''2'' # CHR 0x0A # s\<rparr>) = (\<lparr>hero = p, rooms = looted, rand_pos = 0, stdin = s\<rparr>, ms)"
    and p: "hp p = 100" "max_hp p = 100" "attack p = 20" "defense p = 5" "level p = 1" "experience p = 0" "current_room p = 2"
    unfolding use_item_def input_digit
    by (simp add: Let_def armed_def init_player_def apply_item_def iron_sword_def)
  let ?w' = "\<lparr>hero = p, rooms = looted, rand_pos = 0, stdin = s\<rparr>"
  have "do_choice rnd (int (of_char (CHR ''6'')) - 48) (?w\<lparr>stdin := CHR ''2'' # CHR 0x0A # s\<rparr>) = (?w', ms, True)"
    using u by (simp add: do_choice_def)
  then obtain ms' where "turn rnd ?w = (?w', ms', status_after True ?w')"
    using turn_line [of ?w "CHR ''6''" "CHR ''2'' # CHR 0x0A # s" rnd] by (auto simp: is_digit_def)
  moreover have "status_after True ?w' = Playing"
    by (rule status_start) (simp_all add: looted_def p init_room_facts)
  ultimately show ?thesis
    using wins_next assms p by metis
qed

lemma winning_input_wins: "wins rnd (init_game (winning_input @ s))"
proof -
  let ?s1 = "lines_of ''8'' @ lines_of ''1'' @ lines_of ''888'' @ lines_of ''3'' @ lines_of ''88888'' @ s"
  have north: "wins rnd \<lparr>hero = p, rooms = looted, rand_pos = 0, stdin = lines_of ''1'' @ ?s1\<rparr>"
    if p: "hp p = 100" "max_hp p = 100" "attack p = 20" "defense p = 5" "level p = 1" "experience p = 0" "current_room p = 2" for p
  proof (rule wins_move [where c = "CHR ''1''" and n = 3 and s = ?s1])
    let ?w = "\<lparr>hero = p, rooms = looted, rand_pos = 0, stdin = lines_of ''1'' @ ?s1\<rparr>"
    show "wins rnd (?w\<lparr>stdin := ?s1, hero := (hero ?w)\<lparr>current_room := 3\<rparr>\<rparr>)"
      by (rule beat_rat [where s = s]) (use p in \<open>simp_all add: en_route_def looted_def\<close>)
  qed (use p in \<open>simp_all add: exit_towards_def looted_def drop_item_def init_room_facts\<close>)
  have "wins rnd \<lparr>hero = init_player\<lparr>current_room := 2\<rparr>, rooms = init_rooms, rand_pos = 0,
      stdin = lines_of ''51'' @ lines_of ''62'' @ lines_of ''1'' @ ?s1\<rparr>"
    by (rule take_sword [OF wield_sword [OF north]])
  moreover have "winning_input @ s = CHR ''3'' # CHR 0x0A # lines_of ''51'' @ lines_of ''62'' @ lines_of ''1'' @ ?s1"
    by (simp add: winning_input_def)
  ultimately have won: "wins rnd ((init_game (winning_input @ s))\<lparr>stdin := lines_of ''51'' @ lines_of ''62'' @ lines_of ''1'' @ ?s1,
      hero := (hero (init_game (winning_input @ s)))\<lparr>current_room := 2\<rparr>\<rparr>)"
    and st: "stdin (init_game (winning_input @ s)) = CHR ''3'' # CHR 0x0A # lines_of ''51'' @ lines_of ''62'' @ lines_of ''1'' @ ?s1"
    unfolding init_game_def by simp_all
  show ?thesis
    by (rule wins_move [OF st _ _ _ _ _ won]) (simp_all add: init_game_def init_player_def exit_towards_def init_room_facts)
qed

subsection \<open>Input that ends\<close>

definition won :: "world \<Rightarrow> bool" where
  "won w \<longleftrightarrow> cleared (rooms w ! 5) \<and> enemy_hp (rooms w ! 5) \<le> 0"

lemma turn_eof:
  assumes "stdin w = []" "\<not> won w" "0 < hp (hero w)"
  shows "\<exists>ms. turn rnd w = (w, ms, Playing)"
proof -
  have w: "w\<lparr>stdin := []\<rparr> = w"
    using assms(1) by simp
  have c: "do_choice rnd (-1) w = (w, [Invalid_choice], True)"
    by (simp add: do_choice_def)
  show ?thesis
    using turn_eq [OF get_input_eof [OF assms(1), unfolded w] c] assms(2,3) by (auto simp: status_after_def won_def)
qed

lemma main_loop_eof:
  assumes "main_loop rnd w = Some r" "stdin w = []" "\<not> won w" "0 < hp (hero w)"
  shows False
proof -
  have "stdin w = [] \<longrightarrow> won w \<or> hp (hero w) \<le> 0"
  proof (rule main_loop.raw_induct [of "\<lambda>rnd w r. stdin w = [] \<longrightarrow> won w \<or> hp (hero w) \<le> 0", OF _ assms(1)])
    fix f rnd w r
    assume f: "\<And>rnd w r. f rnd w = Some r \<Longrightarrow> stdin w = [] \<longrightarrow> won w \<or> hp (hero w) \<le> 0"
      and body: "(case turn rnd w of (w', ms, st) \<Rightarrow>
        if st = Playing then do { (w'', ms', st') \<leftarrow> f rnd w'; Some (w'', ms @ ms', st') } else Some (w', ms, st)) = Some r"
    show "stdin w = [] \<longrightarrow> won w \<or> hp (hero w) \<le> 0"
    proof (rule ccontr)
      assume "\<not> ?thesis"
      then obtain ms where "turn rnd w = (w, ms, Playing)" and eof: "stdin w = []" "\<not> won w" "\<not> hp (hero w) \<le> 0"
        using turn_eof [of w rnd] by auto
      then obtain r' where "f rnd w = Some r'"
        using body by (auto split: option.splits bind_splits)
      then show False
        using f eof by blast
    qed
  qed
  then show False
    using assms by simp
qed

lemma turn_playing: "turn rnd w = (w', ms, Playing) \<Longrightarrow> \<not> won w'"
  by (auto simp: turn_def check_victory_def won_def Let_def split: prod.splits if_splits)

lemma dungeon_reaches_not_won: "dungeon_reaches rnd input w st \<Longrightarrow> st = Playing \<Longrightarrow> \<not> won w"
proof (induction rule: dungeon_reaches.induct)
  case start
  then show ?case by (simp add: init_game_def won_def init_room_facts)
next
  case (turn w w' ms st)
  then show ?case using turn_playing by blast
qed

subsection \<open>Fights end\<close>

text \<open>The loop for \<open>n\<close> turns, or fewer when it stops.\<close>

fun turns :: "(nat \<Rightarrow> nat) \<Rightarrow> nat \<Rightarrow> world \<Rightarrow> world \<times> status" where
  "turns rnd 0 w = (w, Playing)"
| "turns rnd (Suc n) w = (case turn rnd w of (w', ms, st) \<Rightarrow> if st = Playing then turns rnd n w' else (w', st))"

lemma fight_stops:
  assumes "world_inv w" "\<not> won w" "\<not> cleared (here w)" "0 < enemy_hp (here w)"
    "enemy_hp (here w) \<le> 15 * int k" "stdin w = lines_of (replicate k CHR ''8'') @ s"
  shows "\<exists>n w' st. n \<le> k \<and> turns rnd n w = (w', st) \<and> (cleared (rooms w' ! nat (current_room (hero w))) \<or> hp (hero w') \<le> 0)"
  using assms
proof (induction k arbitrary: w)
  case (Suc k)
  have st: "stdin w = CHR ''8'' # CHR 0x0A # lines_of (replicate k CHR ''8'') @ s"
    using Suc.prems by simp
  have i: "nat (current_room (hero w)) < length (rooms w)"
    using shapeD [of w] Suc.prems(1) by (simp add: world_inv_def)
  show ?case
    using st Suc.prems(3,4) i
  proof (cases rule: blow [where rnd = rnd])
    case (slain h w' ms)
    then have "cleared (rooms w' ! nat (current_room (hero w)))"
      using i by (simp add: reward_effect)
    then show ?thesis
      using slain(4) by (intro exI [of _ 1]) auto
  next
    case (fights h d w' ms)
    have w': "current_room (hero w') = current_room (hero w)" "here w' = (here w)\<lparr>enemy_hp := h\<rparr>"
      "stdin w' = lines_of (replicate k CHR ''8'') @ s"
      using fights(7) i by simp_all
    have "\<not> won w'"
      using Suc.prems(2,3) fights(7) i by (cases "nat (current_room (hero w)) = 5") (auto simp: won_def)
    then have go: "0 < hp (hero w') \<Longrightarrow> turn rnd w = (w', ms, Playing)"
      using fights(8) by (simp add: status_after_def won_def)
    show ?thesis
    proof (cases "0 < hp (hero w')")
      case True
      have "world_inv w'" "15 \<le> attack (hero w)"
        using turn_inv(1) [OF Suc.prems(1) fights(8)] world_inv_bounds [OF Suc.prems(1)] by simp_all
      then have "\<exists>n w'' st. n \<le> k \<and> turns rnd n w' = (w'', st) \<and> (cleared (rooms w'' ! nat (current_room (hero w'))) \<or> hp (hero w'') \<le> 0)"
        using Suc.prems(3,5) fights(2,4) w' \<open>\<not> won w'\<close> by (intro Suc.IH) simp_all
      then obtain n w'' st where "n \<le> k" "turns rnd n w' = (w'', st)" "cleared (rooms w'' ! nat (current_room (hero w))) \<or> hp (hero w'') \<le> 0"
        using w'(1) by auto
      then show ?thesis
        using go [OF True] by (intro exI [of _ "Suc n"]) auto
    next
      case False
      then show ?thesis
        using fights(8) by (intro exI [of _ 1]) auto
    qed
  qed
qed simp

subsection \<open>Properties\<close>

lemma turn_messages:
  assumes "world_inv w" "turn rnd w = (w', ms, st)"
  shows "Enemy_defeated \<notin> set ms" "Inventory_full \<notin> set ms"
proof -
  obtain c w1 where g: "get_input w = (c, w1)" by fastforce
  obtain s where w1: "w1 = w\<lparr>stdin := s\<rparr>" using get_input_world [OF g] by blast
  obtain w2 ms2 pl where c: "do_choice rnd c w1 = (w2, ms2, pl)" by (metis prod_cases3)
  have "inventory_count (hero w1) < 10"
    using world_inv_bounds(3) [OF assms(1)] by (simp add: w1)
  then have cmd: "Enemy_defeated \<notin> set ms2 \<and> Inventory_full \<notin> set ms2"
    using c by (auto simp: do_choice_def display_inventory_def Let_def split: if_splits prod.splits
        dest: quiet_commands)
  have room: "Enemy_defeated \<notin> set (display_room w)" "Inventory_full \<notin> set (display_room w)"
    using shapeD(5) [of w] assms(1) by (auto simp: display_room_def Let_def world_inv_def)
  then show "Enemy_defeated \<notin> set ms" "Inventory_full \<notin> set ms"
    using assms(2) cmd by (auto simp: turn_def g c Let_def display_stats_def check_death_def check_victory_def split: if_splits)
qed



text \<open>No game ever prints that an enemy is defeated when a room is shown, nor that the inventory is
  full: a cleared room never has an enemy with hit points, and there are four items in all.\<close>
theorem unreached_messages:
  assumes "dungeon_reaches rnd input w Playing" "turn rnd w = (w', ms, st)"
  shows "Enemy_defeated \<notin> set ms \<and> Inventory_full \<notin> set ms"
  using turn_messages [OF _ assms(2)] dungeon_reaches_inv [OF assms(1)] by blast

theorem unreached_messages_witness:
  "\<exists>w' ms st. turn (\<lambda>i. 0) (init_game []) = (w', ms, st) \<and> Enemy_defeated \<notin> set ms \<and> Inventory_full \<notin> set ms"
proof -
  obtain w' ms st where t: "turn (\<lambda>i. 0) (init_game []) = (w', ms, st)"
    by (metis prod_cases3)
  show ?thesis
    using unreached_messages [OF dungeon_reaches.start t] t by blast
qed

text \<open>A fight ends: if the enemy has at most \<open>15 * k\<close> hit points and the player keeps attacking, then
  after at most \<open>k\<close> turns the enemy is defeated or the player has fallen.\<close>
theorem fight_ends:
  assumes "dungeon_reaches rnd input w Playing" "\<not> cleared (here w)" "enemy_hp (here w) \<le> 15 * int k"
    "stdin w = lines_of (replicate k CHR ''8'') @ s"
  shows "\<exists>n w' st. n \<le> k \<and> turns rnd n w = (w', st) \<and>
    (cleared (rooms w' ! nat (current_room (hero w))) \<or> hp (hero w') \<le> 0)"
proof -
  have inv: "world_inv w" "\<not> won w"
    using dungeon_reaches_inv [OF assms(1)] dungeon_reaches_not_won [OF assms(1)] by simp_all
  then have "0 < enemy_hp (here w)"
    using shapeD(5) [of w] assms(2) by (simp add: world_inv_def)
  then show ?thesis
    using fight_stops [OF inv assms(2) _ assms(3,4)] by blast
qed

definition example_fight :: world where
  "example_fight = (init_game (lines_of ''188''))\<lparr>stdin := lines_of ''88'', hero := init_player\<lparr>current_room := 1\<rparr>\<rparr>"

lemma example_fight_reached: "dungeon_reaches (\<lambda>i. i) (lines_of ''188'') example_fight Playing"
proof -
  let ?w = "init_game (lines_of ''188'')"
  have "\<exists>ms. turn (\<lambda>i. i) ?w = (?w\<lparr>stdin := lines_of ''88'', hero := (hero ?w)\<lparr>current_room := 1\<rparr>\<rparr>, ms, Playing)"
    by (rule turn_move [where c = "CHR ''1''"])
      (simp_all add: init_game_def init_player_def init_room_facts exit_towards_def init_rooms_def no_room_def)
  then obtain ms where "turn (\<lambda>i. i) ?w = (example_fight, ms, Playing)"
    by (auto simp: example_fight_def init_game_def)
  then show ?thesis
    by (rule dungeon_reaches.turn [OF dungeon_reaches.start])
qed

theorem fight_ends_witness:
  "\<exists>n w' st. n \<le> 2 \<and> turns (\<lambda>i. i) n example_fight = (w', st) \<and>
    (cleared (rooms w' ! nat (current_room (hero example_fight))) \<or> hp (hero w') \<le> 0)"
  by (rule fight_ends [OF example_fight_reached, where s = "[]"])
    (simp_all add: example_fight_def init_game_def init_player_def init_rooms_def no_room_def numeral_eq_Suc)

text \<open>The game can be won: one fixed sequence of commands defeats the dragon and ends the program
  with the player alive, whatever numbers \<open>rand\<close> returns and whatever input follows.\<close>
theorem game_can_be_won:
  "\<exists>w ms. dungeon_main rnd (winning_input @ s) = Some (w, ms, Exited) \<and> 0 < hp (hero w)"
  using winning_input_wins [of rnd s] unfolding wins_def dungeon_main_def .

text \<open>Once standard input is exhausted the program never ends: reading fails, the choice is invalid,
  and the loop shows the same room again and again.\<close>
theorem eof_never_ends:
  assumes "dungeon_reaches rnd input w Playing" "stdin w = []"
  shows "main_loop rnd w = None"
proof (rule ccontr)
  assume "main_loop rnd w \<noteq> None"
  then obtain r where "main_loop rnd w = Some r" by blast
  then show False
    using main_loop_eof assms(2) dungeon_reaches_inv [OF assms(1)] dungeon_reaches_not_won [OF assms(1)] by blast
qed

theorem eof_never_ends_witness: "main_loop (\<lambda>i. i) (init_game []) = None"
  by (rule eof_never_ends [OF dungeon_reaches.start]) (simp add: init_game_def)

lemma texts_fit:
  "list_all (\<lambda>r. length (room_name r) < 50 \<and> length (enemy_name r) < 50 \<and> length (room_desc r) < 200) init_rooms"
  "list_all (\<lambda>i. length (item_name i) < 50 \<and> length (item_desc i) < 200) [potion, iron_sword, gold_coins]"
  by (simp_all add: init_rooms_def no_room_def potion_def iron_sword_def gold_coins_def)

end
