(* ===== verification/Ro_Protocol.thy ===== *)
theory Ro_Protocol
  imports Prelude
begin

text \<open>
  The wire protocol of RoCommLink (\<open>RoCommLink/include/core/protocol\<close>,
  \<open>RoCommLink/src/core/protocol\<close> and \<open>common/byte_utilities.h\<close>): the packet structures, the
  additive 16-bit checksum, \<open>PacketSerializer\<close> and the byte-at-a-time state machine
  \<open>RoCommLinkParser::parse_byte\<close>.

  The parser is a record of its C++ members and \<open>parse_byte\<close> a state-passing function.  The one
  place where the C++ can leave the defined behaviour of the language, the write
  \<open>payload[_bytes_read] = byte\<close>, is the result \<open>None\<close>.  The early-filter callback takes the packet
  and the state by reference, so it is a function that returns its verdict together with both.
\<close>

section \<open>Data\<close>

subsection \<open>Packets (packet.h)\<close>

record PacketHeader =
  magic :: u8
  version :: u8
  system_id :: u8
  component_id :: u8
  msg_id :: u16
  sequence :: u16
  payload_len :: u16

record Packet =
  header :: PacketHeader
  payload :: bytes
  checksum :: u16

definition default_header :: PacketHeader where
  "default_header = \<lparr>magic = 0x5A, version = 1, system_id = 0, component_id = 0,
     msg_id = 0, sequence = 0, payload_len = 0\<rparr>"

definition default_packet :: Packet where
  "default_packet = \<lparr>header = default_header, payload = [], checksum = 0\<rparr>"

text \<open>\<open>enum class CommandResult : uint8_t\<close>.  The receiver casts an arbitrary byte to it, so its
  values are the bytes and the enumerators name four of them.\<close>

type_synonym CommandResult = u8

definition ACCEPTED :: CommandResult where "ACCEPTED = 0"
definition TEMPORARILY_REJECTED :: CommandResult where "TEMPORARILY_REJECTED = 1"
definition DENIED :: CommandResult where "DENIED = 2"
definition FAILED :: CommandResult where "FAILED = 3"

record CommandAckPayload =
  command_msg_id :: u16
  target_sequence :: u16
  ack_result :: u8

text \<open>\<open>memcpy\<close> of the packed structure on a little-endian machine, both ways.\<close>

definition ack_to_bytes :: "CommandAckPayload \<Rightarrow> bytes" where
  "ack_to_bytes a = [lo8 (command_msg_id a), hi8 (command_msg_id a),
     lo8 (target_sequence a), hi8 (target_sequence a), ack_result a]"

definition ack_of_bytes :: "bytes \<Rightarrow> CommandAckPayload" where
  "ack_of_bytes bs = \<lparr>command_msg_id = or8 (shl8 (bs ! 1)) (bs ! 0),
     target_sequence = or8 (shl8 (bs ! 3)) (bs ! 2), ack_result = bs ! 4\<rparr>"

abbreviation sizeof_CommandAckPayload :: nat where
  "sizeof_CommandAckPayload \<equiv> 5"

subsection \<open>Byte utilities and serializer\<close>

fun checksum_from :: "u16 \<Rightarrow> bytes \<Rightarrow> u16" where
  "checksum_from acc [] = acc"
| "checksum_from acc (b # data) = checksum_from (acc + ucast b) data"

definition calculate_checksum :: "bytes \<Rightarrow> u16" where
  "calculate_checksum data = checksum_from 0 data"

definition serialize_header :: "Packet \<Rightarrow> bytes" where
  "serialize_header packet =
     (let h = header packet; actual_payload_len = (of_nat (length (payload packet)) :: u16)
      in [magic h, version h, system_id h, component_id h,
          hi8 (msg_id h), lo8 (msg_id h), hi8 (sequence h), lo8 (sequence h),
          hi8 actual_payload_len, lo8 actual_payload_len])"

definition serialize :: "Packet \<Rightarrow> bytes" where
  "serialize packet =
     (let frame = serialize_header packet @ payload packet;
          computed_checksum = calculate_checksum frame
      in frame @ [hi8 computed_checksum, lo8 computed_checksum])"

text \<open>\<open>pack_struct\<close>: the object representation of the trivially copyable structure is the
  argument \<open>custom_struct\<close>.\<close>

definition pack_struct :: "u8 \<Rightarrow> u16 \<Rightarrow> bytes \<Rightarrow> Packet" where
  "pack_struct sys mid custom_struct =
     \<lparr>header = \<lparr>magic = 0xAA, version = 1, system_id = sys, component_id = 0, msg_id = mid,
        sequence = 0, payload_len = of_nat (length custom_struct)\<rparr>,
      payload = custom_struct, checksum = 0\<rparr>"

section \<open>The parser\<close>

datatype State =
    WaitStartOfTransmission
  | WaitSystemIdentifier
  | WaitMessageIdentifierHighByte
  | WaitMessageIdentifierLowByte
  | WaitPayloadLength
  | WaitPayloadData
  | WaitPayloadSkip
  | ForwardActive
  | WaitChecksumVerification

datatype ParseStatus = Processing | Complete | StreamForwardByte

record ParseResult =
  pr_status :: ParseStatus
  pr_packet :: "Packet option"

type_synonym EarlyFilterCallback = "Packet \<Rightarrow> State \<Rightarrow> bool \<times> Packet \<times> State"

record RoCommLinkParser =
  st :: State
  current_packet :: Packet
  payload_length :: u8
  bytes_read :: u8
  raw_frame_buffer :: bytes
  early_filter_cb :: "EarlyFilterCallback option"

definition init_parser :: RoCommLinkParser where
  "init_parser = \<lparr>st = WaitStartOfTransmission, current_packet = default_packet,
     payload_length = 0, bytes_read = 0, raw_frame_buffer = [], early_filter_cb = None\<rparr>"

definition register_early_filter :: "EarlyFilterCallback option \<Rightarrow> RoCommLinkParser \<Rightarrow> RoCommLinkParser" where
  "register_early_filter cb p = p\<lparr>early_filter_cb := cb\<rparr>"

definition execute_early_filter :: "RoCommLinkParser \<Rightarrow> bool \<times> RoCommLinkParser" where
  "execute_early_filter p =
     (case early_filter_cb p of
        None \<Rightarrow> (False, p)
      | Some f \<Rightarrow> (let (verdict, pk, s) = f (current_packet p) (st p)
                  in (verdict, p\<lparr>current_packet := pk, st := s\<rparr>)))"

text \<open>\<open>std::vector::resize\<close> with value-initialised new elements.\<close>

definition resize :: "nat \<Rightarrow> bytes \<Rightarrow> bytes" where
  "resize n xs = take n xs @ replicate (n - length xs) 0"

definition push_raw :: "u8 \<Rightarrow> RoCommLinkParser \<Rightarrow> RoCommLinkParser" where
  "push_raw byte p = p\<lparr>raw_frame_buffer := raw_frame_buffer p @ [byte]\<rparr>"

definition map_header :: "(PacketHeader \<Rightarrow> PacketHeader) \<Rightarrow> RoCommLinkParser \<Rightarrow> RoCommLinkParser" where
  "map_header f p = p\<lparr>current_packet := (current_packet p)\<lparr>header := f (header (current_packet p))\<rparr>\<rparr>"

abbreviation processing :: ParseResult where
  "processing \<equiv> \<lparr>pr_status = Processing, pr_packet = None\<rparr>"

text \<open>\<open>std::move(_current_packet)\<close> into the result leaves the member with an empty payload.\<close>

definition moved_from :: "Packet \<Rightarrow> Packet" where
  "moved_from pk = pk\<lparr>payload := []\<rparr>"

definition parse_byte :: "u8 \<Rightarrow> RoCommLinkParser \<Rightarrow> (RoCommLinkParser \<times> ParseResult) option" where
  "parse_byte byte p =
     (case st p of
        WaitStartOfTransmission \<Rightarrow>
          (if byte = 0x5A \<or> byte = 0xAA
           then Some (p\<lparr>current_packet :=
                          default_packet\<lparr>header := default_header\<lparr>magic := byte\<rparr>\<rparr>,
                        raw_frame_buffer := [byte],
                        st := WaitSystemIdentifier, bytes_read := 0\<rparr>, processing)
           else Some (p, processing))
      | WaitSystemIdentifier \<Rightarrow>
          (let p = push_raw byte p in
           if bytes_read p = 0
           then Some ((map_header (version_update (\<lambda>_. byte)) p)\<lparr>bytes_read := 1\<rparr>, processing)
           else Some ((map_header (system_id_update (\<lambda>_. byte)) p)
                        \<lparr>st := WaitMessageIdentifierHighByte\<rparr>, processing))
      | WaitMessageIdentifierHighByte \<Rightarrow>
          (let p = push_raw byte p in
           Some ((map_header (component_id_update (\<lambda>_. byte)) p)
                   \<lparr>st := WaitMessageIdentifierLowByte\<rparr>, processing))
      | WaitMessageIdentifierLowByte \<Rightarrow>
          (let p = push_raw byte p in
           if bytes_read p = 1
           then Some ((map_header (msg_id_update (\<lambda>_. shl8 byte)) p)\<lparr>bytes_read := 2\<rparr>, processing)
           else Some ((map_header (msg_id_update (\<lambda>m. or8 m byte)) p)
                        \<lparr>st := WaitPayloadLength, bytes_read := 0\<rparr>, processing))
      | WaitPayloadLength \<Rightarrow>
          (let p = push_raw byte p in
           if bytes_read p = 0
           then Some ((map_header (sequence_update (\<lambda>_. shl8 byte)) p)\<lparr>bytes_read := 1\<rparr>, processing)
           else if bytes_read p = 1
           then Some ((map_header (sequence_update (\<lambda>s. or8 s byte)) p)\<lparr>bytes_read := 2\<rparr>, processing)
           else if bytes_read p = 2
           then Some ((map_header (payload_len_update (\<lambda>_. shl8 byte)) p)\<lparr>bytes_read := 3\<rparr>, processing)
           else
             (let p = map_header (payload_len_update (\<lambda>l. or8 l byte)) p;
                  p = p\<lparr>payload_length := lo8 (payload_len (header (current_packet p))),
                        bytes_read := 0\<rparr>
              in if payload_length p > 0
                 then (let (filtered, p) = execute_early_filter p
                       in if filtered then Some (p, processing)
                          else Some (p\<lparr>current_packet := (current_packet p)
                                         \<lparr>payload := resize (unat (payload_length p))
                                                      (payload (current_packet p))\<rparr>,
                                       st := WaitPayloadData\<rparr>, processing))
                 else Some (p\<lparr>st := WaitChecksumVerification\<rparr>, processing)))
      | WaitPayloadData \<Rightarrow>
          (let p = push_raw byte p in
           if unat (bytes_read p) < length (payload (current_packet p))
           then
             (let p = p\<lparr>current_packet := (current_packet p)
                          \<lparr>payload := (payload (current_packet p))[unat (bytes_read p) := byte]\<rparr>,
                        bytes_read := bytes_read p + 1\<rparr>
              in if bytes_read p \<ge> payload_length p
                 then Some (p\<lparr>bytes_read := 0, st := WaitChecksumVerification\<rparr>, processing)
                 else Some (p, processing))
           else None)
      | WaitPayloadSkip \<Rightarrow>
          (let p = push_raw byte p;
               p = p\<lparr>bytes_read := bytes_read p + 1\<rparr>
           in if (ucast (bytes_read p) :: u16) \<ge> payload_len (header (current_packet p))
              then Some (p\<lparr>bytes_read := 0, st := WaitChecksumVerification\<rparr>, processing)
              else Some (p, processing))
      | WaitChecksumVerification \<Rightarrow>
          (if bytes_read p = 0
           then (let p = p\<lparr>current_packet := (current_packet p)\<lparr>checksum := shl8 byte\<rparr>,
                           bytes_read := 1\<rparr>;
                     (_, p) = execute_early_filter p
                 in Some (p, processing))
           else
             (let p = p\<lparr>current_packet := (current_packet p)
                          \<lparr>checksum := or8 (checksum (current_packet p)) byte\<rparr>,
                        st := WaitStartOfTransmission\<rparr>;
                  computed_checksum = calculate_checksum (raw_frame_buffer p)
              in if computed_checksum = checksum (current_packet p)
                 then Some (p\<lparr>current_packet := moved_from (current_packet p)\<rparr>,
                            \<lparr>pr_status = Complete, pr_packet = Some (current_packet p)\<rparr>)
                 else Some (p, processing)))
      | ForwardActive \<Rightarrow>
          Some (p\<lparr>st := WaitStartOfTransmission, current_packet := moved_from (current_packet p)\<rparr>,
                \<lparr>pr_status = StreamForwardByte, pr_packet = Some (current_packet p)\<rparr>))"

text \<open>The driver loop \<open>for (char byte : bytes) parser_ptr->parse_byte(byte)\<close>, collecting the
  results in order.\<close>

fun parse_bytes :: "bytes \<Rightarrow> RoCommLinkParser \<Rightarrow> (RoCommLinkParser \<times> ParseResult list) option" where
  "parse_bytes [] p = Some (p, [])"
| "parse_bytes (b # bs) p =
     (case parse_byte b p of
        None \<Rightarrow> None
      | Some (p', r) \<Rightarrow>
          (case parse_bytes bs p' of
             None \<Rightarrow> None
           | Some (p'', rs) \<Rightarrow> Some (p'', r # rs)))"

text \<open>The packets a run hands to the dispatch line.\<close>

definition completed :: "ParseResult list \<Rightarrow> Packet list" where
  "completed rs = List.map_filter (\<lambda>r. if pr_status r = Complete then pr_packet r else None) rs"


text \<open>Packets the parser can carry: a start byte it recognises and a payload whose length fits
  the eight bits of \<open>_payload_length\<close>.  \<open>received\<close> is what the peer sees of a packet: the
  length and checksum fields are those the serializer computed.\<close>

definition wire_ok :: "Packet \<Rightarrow> bool" where
  "wire_ok pk \<longleftrightarrow> (magic (header pk) = 0x5A \<or> magic (header pk) = 0xAA) \<and> length (payload pk) < 256"

definition received :: "Packet \<Rightarrow> Packet" where
  "received pk = \<lparr>header = (header pk)\<lparr>payload_len := of_nat (length (payload pk))\<rparr>,
     payload = payload pk, checksum = calculate_checksum (serialize_header pk @ payload pk)\<rparr>"

text \<open>Line noise between frames: bytes that are not a start byte.\<close>

definition noise :: "bytes \<Rightarrow> bool" where
  "noise g \<longleftrightarrow> 0x5A \<notin> set g \<and> 0xAA \<notin> set g"

text \<open>A parser that waits for a frame and has no early filter.\<close>

definition listening :: "RoCommLinkParser \<Rightarrow> bool" where
  "listening p \<longleftrightarrow> st p = WaitStartOfTransmission \<and> early_filter_cb p = None"

text \<open>The write index of the payload stays inside the payload.\<close>

definition parser_inv :: "RoCommLinkParser \<Rightarrow> bool" where
  "parser_inv p \<longleftrightarrow> (st p = WaitPayloadData \<longrightarrow>
     bytes_read p < payload_length p \<and> unat (payload_length p) \<le> length (payload (current_packet p)))"

text \<open>What the parser needs of an early filter: it may steer the parser anywhere but into the
  payload state, whose buffer only \<open>parse_byte\<close> itself sizes.\<close>

definition filter_ok :: "EarlyFilterCallback option \<Rightarrow> bool" where
  "filter_ok cb \<longleftrightarrow> (\<forall>f pk s. cb = Some f \<longrightarrow> s \<noteq> WaitPayloadData \<longrightarrow> snd (snd (f pk s)) \<noteq> WaitPayloadData)"

text \<open>A run during which no byte produced a result.\<close>

abbreviation silent :: "bytes \<Rightarrow> ParseResult list" where
  "silent xs \<equiv> map (\<lambda>_. processing) xs"

section \<open>Checksums\<close>

lemma checksum_from_add: "checksum_from (a + b) xs = a + checksum_from b xs"
  by (induction xs arbitrary: b) (simp_all add: add.assoc)

lemma checksum_from_acc: "checksum_from a xs = a + checksum_from 0 xs"
  using checksum_from_add [of a 0 xs] by simp

lemma checksum_from_append: "checksum_from a (xs @ ys) = checksum_from (checksum_from a xs) ys"
  by (induction xs arbitrary: a) simp_all

lemma calculate_checksum_append: "calculate_checksum (xs @ ys) = calculate_checksum xs + calculate_checksum ys"
  unfolding calculate_checksum_def checksum_from_append by (rule checksum_from_acc)

lemma calculate_checksum_Cons: "calculate_checksum (b # ys) = ucast b + calculate_checksum ys"
  unfolding calculate_checksum_def by (simp add: checksum_from_acc [of "ucast b"])

lemma checksum_update_neq:
  assumes "i < length xs" and "b \<noteq> xs ! i"
  shows "calculate_checksum (xs[i := b]) \<noteq> calculate_checksum xs"
proof -
  have xs: "xs = take i xs @ xs ! i # drop (Suc i) xs"
    using assms(1) by (rule id_take_nth_drop)
  have up: "xs[i := b] = take i xs @ b # drop (Suc i) xs"
    using assms(1) by (rule upd_conv_take_nth_drop)
  show ?thesis
    using assms(2) by (subst (2) xs, subst up)
      (simp add: calculate_checksum_append calculate_checksum_Cons)
qed

section \<open>Running the parser\<close>

lemma parse_bytes_append:
  "parse_bytes (xs @ ys) p =
     (case parse_bytes xs p of None \<Rightarrow> None
      | Some (q, rs) \<Rightarrow> (case parse_bytes ys q of None \<Rightarrow> None
                        | Some (q', rs') \<Rightarrow> Some (q', rs @ rs')))"
  by (induction xs arbitrary: p) (auto split: option.splits)

lemma completed_simps [simp]:
  "completed [] = []"
  "completed (processing # rs) = completed rs"
  "completed (\<lparr>pr_status = Complete, pr_packet = Some k\<rparr> # rs) = k # completed rs"
  by (simp_all add: completed_def List.map_filter_simps)

lemma completed_append [simp]: "completed (xs @ ys) = completed xs @ completed ys"
  by (simp add: completed_def List.map_filter_def)

lemma completed_silent [simp]: "completed (silent xs) = []"
  by (induction xs) simp_all

lemmas parser_unfold = parse_byte_def push_raw_def map_header_def execute_early_filter_def

lemma parse_noise:
  "noise g \<Longrightarrow> st p = WaitStartOfTransmission \<Longrightarrow>
   parse_bytes g p = Some (p, silent g)"
  by (induction g) (auto simp: noise_def parse_byte_def)

lemma payload_len_small:
  assumes "n < 256"
  shows "lo8 (of_nat n) = (of_nat n :: u8)" and "(0 < (of_nat n :: u8)) = (0 < n)"
    and "unat (of_nat n :: u8) = n"
proof -
  show u: "unat (of_nat n :: u8) = n"
    using assms by (simp add: unat_of_nat)
  then show "(0 < (of_nat n :: u8)) = (0 < n)"
    by (metis gr0I unat_0 unat_gt_0 word_gt_0)
qed (rule lo8_of_nat)

lemma parse_header:
  assumes "listening p" and "wire_ok pk"
  shows "parse_bytes (serialize_header pk) p =
    Some (p\<lparr>st := if payload pk = [] then WaitChecksumVerification else WaitPayloadData,
            current_packet := \<lparr>header = (header pk)\<lparr>payload_len := of_nat (length (payload pk))\<rparr>,
               payload = replicate (length (payload pk)) 0, checksum = 0\<rparr>,
            payload_length := of_nat (length (payload pk)), bytes_read := 0,
            raw_frame_buffer := serialize_header pk\<rparr>, silent (serialize_header pk))"
  using assms
  by (cases "header pk"; cases p; cases "payload pk = []")
     (auto simp: serialize_header_def Let_def listening_def wire_ok_def parser_unfold payload_len_small
        default_packet_def default_header_def resize_def)

lemma of_nat_u8_le: "m < 256 \<Longrightarrow> n < 256 \<Longrightarrow> ((of_nat m :: u8) \<le> of_nat n) = (m \<le> n)"
  by (simp add: word_le_nat_alt payload_len_small)

lemma parse_payload:
  assumes "st p = WaitPayloadData" and "rest \<noteq> []"
    and "payload (current_packet p) = got @ replicate (length rest) 0"
    and "bytes_read p = of_nat (length got)"
    and "payload_length p = of_nat (length got + length rest)"
    and "length got + length rest < 256"
  shows "parse_bytes rest p =
    Some (p\<lparr>st := WaitChecksumVerification,
            current_packet := (current_packet p)\<lparr>payload := got @ rest\<rparr>,
            bytes_read := 0, raw_frame_buffer := raw_frame_buffer p @ rest\<rparr>, silent rest)"
  using assms
proof (induction rest arbitrary: p got)
  case Nil
  then show ?case by simp
next
  case (Cons b rest)
  have inc: "(of_nat (length got) :: u8) + 1 = of_nat (Suc (length got))"
    by simp
  have step: "parse_byte b p = Some (if rest = [] then
       p\<lparr>st := WaitChecksumVerification, current_packet := (current_packet p)\<lparr>payload := got @ [b]\<rparr>,
         bytes_read := 0, raw_frame_buffer := raw_frame_buffer p @ [b]\<rparr>
     else p\<lparr>current_packet := (current_packet p)\<lparr>payload := (got @ [b]) @ replicate (length rest) 0\<rparr>,
         bytes_read := of_nat (length (got @ [b])), raw_frame_buffer := raw_frame_buffer p @ [b]\<rparr>,
     processing)"
    using Cons.prems
    by (cases p) (auto simp: parser_unfold payload_len_small inc of_nat_u8_le list_update_append
        simp del: of_nat_Suc)
  show ?case
  proof (cases "rest = []")
    case True
    with step show ?thesis by simp
  next
    case False
    let ?q = "p\<lparr>current_packet := (current_packet p)\<lparr>payload := (got @ [b]) @ replicate (length rest) 0\<rparr>,
         bytes_read := of_nat (length (got @ [b])), raw_frame_buffer := raw_frame_buffer p @ [b]\<rparr>"
    have "parse_bytes rest ?q =
      Some (?q\<lparr>st := WaitChecksumVerification,
              current_packet := (current_packet ?q)\<lparr>payload := (got @ [b]) @ rest\<rparr>,
              bytes_read := 0, raw_frame_buffer := raw_frame_buffer ?q @ rest\<rparr>, silent rest)"
      using Cons.prems False by (intro Cons.IH) simp_all
    with step False show ?thesis by (cases p) simp
  qed
qed

text \<open>A whole frame, with any payload of the announced length and any checksum \<open>c\<close>.\<close>

lemma parse_frame:
  assumes l: "listening p" and w: "wire_ok pk" and len: "length bs = length (payload pk)"
  shows "\<exists>p'. listening p' \<and>
    parse_bytes (serialize_header pk @ bs @ [hi8 c, lo8 c]) p =
      Some (p', silent (serialize_header pk @ bs @ [0]) @
        [if calculate_checksum (serialize_header pk @ bs) = c
         then \<lparr>pr_status = Complete, pr_packet = Some
            \<lparr>header = (header pk)\<lparr>payload_len := of_nat (length (payload pk))\<rparr>,
             payload = bs, checksum = c\<rparr>\<rparr>
         else processing])"
proof -
  let ?h = "(header pk)\<lparr>payload_len := of_nat (length (payload pk))\<rparr>"
  let ?q = "p\<lparr>st := WaitChecksumVerification,
              current_packet := \<lparr>header = ?h, payload = bs, checksum = 0\<rparr>,
              payload_length := of_nat (length (payload pk)), bytes_read := 0,
              raw_frame_buffer := serialize_header pk @ bs\<rparr>"
  have body: "parse_bytes (serialize_header pk @ bs) p = Some (?q, silent (serialize_header pk @ bs))"
  proof (cases "bs = []")
    case True
    with len show ?thesis using parse_header [OF l w] by (cases p) simp
  next
    case False
    with len w show ?thesis
      using parse_header [OF l w]
      by (cases p) (auto simp: parse_bytes_append parse_payload [where got = "[]"] wire_ok_def)
  qed
  from l have "early_filter_cb ?q = None" by (simp add: listening_def)
  then show ?thesis
    using l by (subst append_assoc [symmetric], subst parse_bytes_append)
      (auto simp: body parser_unfold listening_def)
qed

lemma parse_serialize:
  assumes "listening p" and "wire_ok pk"
  shows "\<exists>p' rs. listening p' \<and> parse_bytes (serialize pk) p = Some (p', rs) \<and> completed rs = [received pk]"
  using parse_frame [OF assms refl, of "calculate_checksum (serialize_header pk @ payload pk)"]
  by (auto simp: serialize_def Let_def received_def)

lemma stream_lemma:
  assumes "listening p" and "\<forall>(g, pk) \<in> set fs. noise g \<and> wire_ok pk"
  shows "\<exists>p' rs. listening p' \<and>
     parse_bytes (concat (map (\<lambda>(g, pk). g @ serialize pk) fs)) p = Some (p', rs) \<and>
     completed rs = map (received \<circ> snd) fs"
  using assms
proof (induction fs arbitrary: p)
  case Nil
  then show ?case by simp
next
  case (Cons f fs)
  obtain g pk where f: "f = (g, pk)" by force
  with Cons.prems obtain p' rs where 1: "listening p'"
      "parse_bytes (serialize pk) p = Some (p', rs)" "completed rs = [received pk]"
    using parse_serialize by fastforce
  with Cons.IH [of p'] Cons.prems obtain p'' rs' where 2: "listening p''"
      "parse_bytes (concat (map (\<lambda>(g, pk). g @ serialize pk) fs)) p' = Some (p'', rs')"
      "completed rs' = map (received \<circ> snd) fs"
    by auto
  from f Cons.prems have "parse_bytes g p = Some (p, silent g)"
    by (simp add: parse_noise listening_def)
  with f 1 2 show ?case
    by (auto simp: parse_bytes_append)
qed

section \<open>Memory safety of the parser\<close>

lemma length_resize [simp]: "length (resize n xs) = n"
  by (simp add: resize_def)

lemma parser_inv_init: "parser_inv init_parser"
  by (simp add: parser_inv_def init_parser_def)

lemma filter_ok_execute:
  "filter_ok (early_filter_cb p) \<Longrightarrow> execute_early_filter p = (v, q) \<Longrightarrow> st p \<noteq> WaitPayloadData \<Longrightarrow>
   early_filter_cb q = early_filter_cb p \<and> st q \<noteq> WaitPayloadData \<and>
   payload_length q = payload_length p \<and> bytes_read q = bytes_read p"
  by (auto simp: execute_early_filter_def filter_ok_def Let_def split: option.splits prod.splits)
     (metis snd_conv)

lemma u8_inc_less: "(b :: u8) < n \<Longrightarrow> \<not> n \<le> b + 1 \<Longrightarrow> b + 1 < n"
  by simp

lemma parse_byte_safe:
  assumes inv: "parser_inv p" and f: "filter_ok (early_filter_cb p)"
  shows "\<exists>q r. parse_byte byte p = Some (q, r) \<and> parser_inv q \<and> early_filter_cb q = early_filter_cb p"
proof (cases "st p")
  case WaitPayloadLength
  let ?p = "map_header (payload_len_update (\<lambda>l. or8 l byte)) (push_raw byte p)"
  let ?q = "?p\<lparr>payload_length := lo8 (payload_len (header (current_packet ?p))), bytes_read := 0\<rparr>"
  obtain v q where e: "execute_early_filter ?q = (v, q)" by force
  have ok: "filter_ok (early_filter_cb ?q)" "st ?q \<noteq> WaitPayloadData"
    using f WaitPayloadLength by (simp_all add: map_header_def push_raw_def)
  from filter_ok_execute [OF ok(1) e ok(2)] WaitPayloadLength e show ?thesis
    by (auto simp: parse_byte_def Let_def parser_inv_def map_header_def push_raw_def word_gt_0)
next
  case WaitChecksumVerification
  let ?q = "p\<lparr>current_packet := (current_packet p)\<lparr>checksum := shl8 byte\<rparr>, bytes_read := 1\<rparr>"
  obtain v q where e: "execute_early_filter ?q = (v, q)" by force
  have ok: "filter_ok (early_filter_cb ?q)" "st ?q \<noteq> WaitPayloadData"
    using f WaitChecksumVerification by simp_all
  from filter_ok_execute [OF ok(1) e ok(2)] WaitChecksumVerification e show ?thesis
    by (auto simp: parse_byte_def Let_def parser_inv_def)
next
  case WaitPayloadData
  with inv have "unat (bytes_read p) < length (payload (current_packet p))"
    by (auto simp: parser_inv_def word_less_nat_alt)
  with inv WaitPayloadData show ?thesis
    by (auto simp: parse_byte_def Let_def parser_inv_def push_raw_def)
qed (use inv in \<open>auto simp: parser_unfold parser_inv_def Let_def\<close>)

section \<open>Properties\<close>


definition example_packet :: Packet where
  "example_packet = default_packet\<lparr>header := default_header\<lparr>system_id := 5, msg_id := 1, sequence := 888\<rparr>,
     payload := [1, 2, 0xAA]\<rparr>"


text \<open>C5: A frame in which any one payload byte was changed on the way is dropped: the parser
  delivers nothing and listens again.\<close>

theorem corrupted_payload_rejected:
  assumes "listening p" and "wire_ok pk" and "i < length (payload pk)" and "b \<noteq> payload pk ! i"
  shows "\<exists>p' rs. listening p' \<and> parse_bytes ((serialize pk)[10 + i := b]) p = Some (p', rs) \<and> completed rs = []"
proof -
  let ?c = "calculate_checksum (serialize_header pk @ payload pk)"
  have len: "length (serialize_header pk) = 10"
    by (simp add: serialize_header_def Let_def)
  have upd: "(serialize pk)[10 + i := b] =
      serialize_header pk @ (payload pk)[i := b] @ [hi8 ?c, lo8 ?c]"
    using assms(3) by (simp add: serialize_def Let_def list_update_append len)
  have "calculate_checksum (serialize_header pk @ (payload pk)[i := b]) \<noteq> ?c"
    using checksum_update_neq [OF assms(3,4)] by (simp add: calculate_checksum_append)
  with parse_frame [OF assms(1,2), of "(payload pk)[i := b]" ?c] show ?thesis
    unfolding upd by auto
qed

theorem corrupted_payload_rejected_witness:
  "\<exists>p' rs. listening p' \<and>
     parse_bytes ((serialize example_packet)[10 + 1 := 9]) init_parser = Some (p', rs) \<and> completed rs = []"
  by (rule corrupted_payload_rejected)
     (simp_all add: listening_def init_parser_def wire_ok_def example_packet_def
        default_packet_def default_header_def)

text \<open>C6: Memory safety.  Starting from a fresh parser with any early filter that does not steer
  into the payload state, no byte stream whatsoever makes \<open>parse_byte\<close> write outside the payload
  vector: every run is defined, byte for byte.\<close>

theorem parse_bytes_safe:
  assumes "filter_ok cb"
  shows "\<exists>q rs. parse_bytes bs (register_early_filter cb init_parser) = Some (q, rs) \<and>
     length rs = length bs \<and> parser_inv q"
proof -
  have "parser_inv p \<Longrightarrow> filter_ok (early_filter_cb p) \<Longrightarrow>
    \<exists>q rs. parse_bytes bs p = Some (q, rs) \<and> length rs = length bs \<and> parser_inv q" for p
  proof (induction bs arbitrary: p)
    case (Cons b bs)
    from parse_byte_safe [OF Cons.prems, of b] obtain q r where
      "parse_byte b p = Some (q, r)" "parser_inv q" "early_filter_cb q = early_filter_cb p"
      by blast
    with Cons.IH [of q] Cons.prems show ?case by auto
  qed simp
  then show ?thesis
    using assms parser_inv_init by (auto simp: register_early_filter_def parser_inv_def)
qed

text \<open>The filter of a gateway with system identifier 2.\<close>

definition gateway_filter :: EarlyFilterCallback where
  "gateway_filter pk s = (if system_id (header pk) \<noteq> 2 then (True, pk, ForwardActive)
     else (False, pk, s))"

theorem parse_bytes_safe_witness:
  "\<exists>q rs. parse_bytes (serialize example_packet) (register_early_filter (Some gateway_filter) init_parser)
       = Some (q, rs) \<and> length rs = length (serialize example_packet) \<and> parser_inv q"
  by (rule parse_bytes_safe) (simp add: filter_ok_def gateway_filter_def)

text \<open>The skipping state counts in eight bits and compares with the sixteen-bit length, so a
  filter that selects it for a payload of more than 255 bytes leaves the parser skipping forever,
  whatever follows on the line.\<close>

theorem payload_skip_never_ends:
  assumes "st p = WaitPayloadSkip" and "payload_len (header (current_packet p)) > 255"
  shows "\<exists>q. parse_bytes bs p = Some (q, silent bs) \<and> st q = WaitPayloadSkip"
  using assms
proof (induction bs arbitrary: p)
  case (Cons b bs)
  have "\<not> payload_len (header (current_packet p)) \<le> (ucast c :: u16)" for c :: u8
    using Cons.prems(2) unat_u8_less [of c] by (simp add: word_le_nat_alt word_less_nat_alt unat_ucast_u8_u16)
  then have "parse_byte b p = Some (p\<lparr>raw_frame_buffer := raw_frame_buffer p @ [b],
      bytes_read := bytes_read p + 1\<rparr>, processing)" (is "_ = Some (?q, _)")
    using Cons.prems(1) by (simp add: parser_unfold Let_def)
  moreover obtain q where "parse_bytes bs ?q = Some (q, silent bs)" "st q = WaitPayloadSkip"
    using Cons.IH [of ?q] Cons.prems by auto
  ultimately show ?case by simp
qed simp

definition skipping_parser :: RoCommLinkParser where
  "skipping_parser = init_parser\<lparr>st := WaitPayloadSkip,
     current_packet := default_packet\<lparr>header := default_header\<lparr>payload_len := 300\<rparr>\<rparr>\<rparr>"

theorem payload_skip_never_ends_witness:
  "\<exists>q. parse_bytes (replicate 400 0) skipping_parser = Some (q, silent (replicate 400 0)) \<and> st q = WaitPayloadSkip"
  by (rule payload_skip_never_ends) (simp_all add: skipping_parser_def default_packet_def default_header_def)

definition long_packet :: Packet where
  "long_packet = default_packet\<lparr>payload := replicate 256 0\<rparr>"

text \<open>The limit of 255 payload bytes in the round trip is sharp.  The serializer frames a
  packet of 256 payload bytes without complaint (its length field is sixteen bits wide), but the
  parser keeps the low byte of the length only and never delivers the packet.\<close>

theorem long_payload_lost:
  "map_option (\<lambda>(p, rs). completed rs) (parse_bytes (serialize long_packet) init_parser) = Some []"
  by code_simp

end
