(* ===== verification/Ro_Tracker.thy ===== *)
theory Ro_Tracker
  imports Ro_Protocol
begin

text \<open>
  \<open>CommandTracker\<close> (\<open>RoCommLink/include/core/service/command_tracker.h\<close>): the table of commands
  that wait for an acknowledgement, with retransmission after 500 ms and failure after three
  retries.  Every method runs under the tracker's mutex, so each is one atomic function on the
  state.  The promise of a transaction is represented by what it is set to: \<open>resolved\<close> lists the
  values set, in order, each with the sequence number of its transaction.  Time is the steady
  clock in nanoseconds, an argument wherever the code reads the clock.

  The locale \<open>ack_table\<close> is the contract the communication service relies on; the tracker
  interprets it.
\<close>

type_synonym time = int

definition ms :: "int \<Rightarrow> time" where
  "ms n = n * 1000000"

section \<open>State and operations\<close>

record Transaction =
  t_seq :: u16
  t_packet :: Packet
  t_last_sent :: time
  t_retries :: u8

record CommandTracker =
  transactions :: "(u16 \<times> Transaction) list"
  resolved :: "(u16 \<times> CommandResult) list"

definition init_tracker :: CommandTracker where
  "init_tracker = \<lparr>transactions = [], resolved = []\<rparr>"

text \<open>\<open>emplace\<close> keeps an existing entry, and asking its promise for the future a second time throws
  \<open>std::future_error\<close>.\<close>

datatype tracker_error = FutureAlreadyRetrieved

definition track :: "time \<Rightarrow> u16 \<Rightarrow> Packet \<Rightarrow> CommandTracker \<Rightarrow> tracker_error + CommandTracker" where
  "track now seq pkt t =
     (case al_find seq (transactions t) of
        Some _ \<Rightarrow> Inl FutureAlreadyRetrieved
      | None \<Rightarrow> Inr (t\<lparr>transactions := transactions t @
          [(seq, \<lparr>t_seq = seq, t_packet = pkt, t_last_sent = now, t_retries = 0\<rparr>)]\<rparr>))"

definition resolve :: "u16 \<Rightarrow> CommandResult \<Rightarrow> CommandTracker \<Rightarrow> CommandTracker" where
  "resolve seq result t =
     (case al_find seq (transactions t) of
        Some _ \<Rightarrow> t\<lparr>resolved := resolved t @ [(seq, result)],
                    transactions := al_erase seq (transactions t)\<rparr>
      | None \<Rightarrow> t)"

definition timeout_duration :: time where
  "timeout_duration = ms 500"

definition max_retries :: u8 where
  "max_retries = 3"

text \<open>The loop of \<open>check_timeouts\<close> over the table: what is left of it, the packets handed to the
  retry callback and the promises set, both in loop order.\<close>

fun check_loop :: "time \<Rightarrow> (u16 \<times> Transaction) list \<Rightarrow>
    (u16 \<times> Transaction) list \<times> Packet list \<times> (u16 \<times> CommandResult) list" where
  "check_loop now [] = ([], [], [])"
| "check_loop now ((k, tr) # rest) =
     (let (m, retried, failed) = check_loop now rest in
      if now - t_last_sent tr > timeout_duration
      then if t_retries tr < max_retries
           then ((k, tr\<lparr>t_retries := t_retries tr + 1, t_last_sent := now\<rparr>) # m,
                 t_packet tr # retried, failed)
           else (m, retried, (k, FAILED) # failed)
      else ((k, tr) # m, retried, failed))"

definition check_timeouts :: "time \<Rightarrow> CommandTracker \<Rightarrow> CommandTracker \<times> Packet list" where
  "check_timeouts now t =
     (let (m, retried, failed) = check_loop now (transactions t)
      in (t\<lparr>transactions := m, resolved := resolved t @ failed\<rparr>, retried))"

text \<open>The timeout thread polls repeatedly; \<open>run_checks\<close> is a sequence of polls at given times.\<close>

fun run_checks :: "time list \<Rightarrow> CommandTracker \<Rightarrow> CommandTracker \<times> Packet list" where
  "run_checks [] t = (t, [])"
| "run_checks (now # ts) t =
     (let (t', sent) = check_timeouts now t; (t'', sent') = run_checks ts t' in (t'', sent @ sent'))"

text \<open>Interleavings of the three methods.  A failing \<open>track\<close> (the exception) leaves the tracker as
  it is.\<close>

datatype tracker_op = Track time u16 Packet | Resolve u16 CommandResult | CheckTimeouts time

fun tracker_step :: "tracker_op \<Rightarrow> CommandTracker \<Rightarrow> CommandTracker" where
  "tracker_step (Track now seq pkt) t = (case track now seq pkt t of Inl _ \<Rightarrow> t | Inr t' \<Rightarrow> t')"
| "tracker_step (Resolve seq r) t = resolve seq r t"
| "tracker_step (CheckTimeouts now) t = fst (check_timeouts now t)"

fun tracker_run :: "tracker_op list \<Rightarrow> CommandTracker \<Rightarrow> CommandTracker" where
  "tracker_run [] t = t"
| "tracker_run (x # xs) t = tracker_run xs (tracker_step x t)"

text \<open>The number of commands with sequence number \<open>seq\<close> that a run accepts.\<close>

fun accepted_tracks :: "u16 \<Rightarrow> tracker_op list \<Rightarrow> CommandTracker \<Rightarrow> nat" where
  "accepted_tracks seq [] t = 0"
| "accepted_tracks seq (x # xs) t =
     (case x of Track now s pkt \<Rightarrow> (if s = seq \<and> al_find s (transactions t) = None then 1 else 0)
      | _ \<Rightarrow> 0) + accepted_tracks seq xs (tracker_step x t)"

definition pending :: "CommandTracker \<Rightarrow> u16 \<Rightarrow> bool" where
  "pending t seq \<longleftrightarrow> al_find seq (transactions t) \<noteq> None"

definition tracker_inv :: "CommandTracker \<Rightarrow> bool" where
  "tracker_inv t \<longleftrightarrow> distinct (al_keys (transactions t)) \<and>
     (\<forall>(k, tr) \<in> set (transactions t). t_seq tr = k \<and> t_retries tr \<le> max_retries)"

text \<open>Polls of which each finds the timeout expired since the one before.\<close>

fun due_after :: "time \<Rightarrow> time list \<Rightarrow> bool" where
  "due_after prev [] = True"
| "due_after prev (now # ts) = (now - prev > timeout_duration \<and> due_after now ts)"

section \<open>The contract of an acknowledgement table\<close>

locale ack_table =
  fixes inv :: "'t \<Rightarrow> bool"
    and waiting :: "'t \<Rightarrow> 'k \<Rightarrow> bool"
    and outcomes :: "'t \<Rightarrow> ('k \<times> 'r) list"
    and settle :: "'k \<Rightarrow> 'r \<Rightarrow> 't \<Rightarrow> 't"
  assumes settle_inv: "inv t \<Longrightarrow> inv (settle k r t)"
    and settle_waiting: "inv t \<Longrightarrow> waiting (settle k r t) k' \<longleftrightarrow> waiting t k' \<and> k' \<noteq> k"
    and settle_outcome: "inv t \<Longrightarrow> outcomes (settle k r t) = outcomes t @ (if waiting t k then [(k, r)] else [])"
begin

lemma settle_absent: "inv t \<Longrightarrow> \<not> waiting t k \<Longrightarrow> outcomes (settle k r t) = outcomes t"
  by (simp add: settle_outcome)

text \<open>A second acknowledgement of the same key has no effect.\<close>

lemma settle_twice:
  "inv t \<Longrightarrow> waiting t k \<Longrightarrow> outcomes (settle k r' (settle k r t)) = outcomes t @ [(k, r)]"
  by (simp add: settle_outcome settle_inv settle_waiting)

lemma settle_commute_waiting:
  "inv t \<Longrightarrow> waiting (settle k r (settle k' r' t)) x = waiting (settle k' r' (settle k r t)) x"
  by (auto simp: settle_inv settle_waiting)

end

section \<open>Lemmas\<close>

lemma track_cases:
  "track now seq pkt t = Inr t' \<longleftrightarrow> al_find seq (transactions t) = None \<and>
     t' = t\<lparr>transactions := transactions t @
       [(seq, \<lparr>t_seq = seq, t_packet = pkt, t_last_sent = now, t_retries = 0\<rparr>)]\<rparr>"
  by (auto simp: track_def split: option.splits)

lemma set_al_erase: "set (al_erase k m) \<subseteq> set m"
  by (induction k m rule: al_erase.induct) auto

lemma check_loop_keys:
  "check_loop now m = (m', retried, failed) \<Longrightarrow>
   fst ` set m' \<subseteq> fst ` set m \<and> (distinct (al_keys m) \<longrightarrow> distinct (al_keys m'))"
  by (induction now m arbitrary: m' retried failed rule: check_loop.induct)
     (force simp: Let_def image_subset_iff split: prod.splits if_splits)+

lemma retry_bound: "(r :: u8) < max_retries \<Longrightarrow> r + 1 \<le> max_retries"
  by (simp add: inc_le)

lemma check_loop_retries:
  "check_loop now m = (m', retried, failed) \<Longrightarrow>
   \<forall>(k, tr) \<in> set m. t_seq tr = k \<and> t_retries tr \<le> max_retries \<Longrightarrow>
   \<forall>(k, tr) \<in> set m'. t_seq tr = k \<and> t_retries tr \<le> max_retries"
  by (induction now m arbitrary: m' retried failed rule: check_loop.induct)
     (auto simp: Let_def retry_bound split: prod.splits if_splits)

text \<open>What one poll does to one transaction.\<close>

definition polled :: "time \<Rightarrow> Transaction \<Rightarrow> Transaction option" where
  "polled now tr =
     (if now - t_last_sent tr > timeout_duration
      then if t_retries tr < max_retries
           then Some (tr\<lparr>t_retries := t_retries tr + 1, t_last_sent := now\<rparr>) else None
      else Some tr)"

lemma check_loop_find:
  "check_loop now m = (m', retried, failed) \<Longrightarrow> distinct (al_keys m) \<Longrightarrow>
   al_find k m' = Option.bind (al_find k m) (polled now) \<and>
   count_list (map fst failed) k = (if al_find k m \<noteq> None \<and> al_find k m' = None then 1 else 0) \<and>
   set failed \<subseteq> fst ` set m \<times> {FAILED}"
proof (induction now m arbitrary: m' retried failed rule: check_loop.induct)
  case (2 now k0 tr rest)
  obtain m1 r1 f1 where l: "check_loop now rest = (m1, r1, f1)"
    by (metis prod_cases3)
  from 2 l have IH: "al_find k m1 = Option.bind (al_find k rest) (polled now)"
      "count_list (map fst f1) k = (if al_find k rest \<noteq> None \<and> al_find k m1 = None then 1 else 0)"
      "set f1 \<subseteq> fst ` set rest \<times> {FAILED}"
    by auto
  have k0: "k0 \<notin> fst ` set rest" using 2(3) by simp
  then have n: "al_find k0 rest = None" by (simp add: al_find_None)
  from check_loop_keys [OF l] k0 have "al_find k0 m1 = None" by (auto simp: al_find_None)
  with 2(2) l IH n show ?case
    by (cases "k = k0") (auto simp: Let_def polled_def [of now tr] split: if_splits)
qed simp

lemma tracker_inv_init: "tracker_inv init_tracker"
  by (simp add: tracker_inv_def init_tracker_def)

lemma tracker_inv_track: "tracker_inv t \<Longrightarrow> track now seq pkt t = Inr t' \<Longrightarrow> tracker_inv t'"
  by (auto simp: track_cases tracker_inv_def al_find_None max_retries_def image_iff)

lemma tracker_inv_resolve: "tracker_inv t \<Longrightarrow> tracker_inv (resolve seq r t)"
  using set_al_erase by (fastforce simp: resolve_def tracker_inv_def split: option.splits)

lemma tracker_inv_check: "tracker_inv t \<Longrightarrow> tracker_inv (fst (check_timeouts now t))"
  using check_loop_keys check_loop_retries
  by (fastforce simp: check_timeouts_def tracker_inv_def Let_def split: prod.splits)

lemma tracker_inv_step: "tracker_inv t \<Longrightarrow> tracker_inv (tracker_step x t)"
  by (cases x) (auto simp: tracker_inv_resolve tracker_inv_check dest: tracker_inv_track split: sum.splits)

interpretation tracker: ack_table tracker_inv pending resolved resolve
proof
  fix t k r
  show "tracker_inv t \<Longrightarrow> tracker_inv (resolve k r t)" by (rule tracker_inv_resolve)
next
  fix t :: CommandTracker and k r k'
  show "tracker_inv t \<Longrightarrow> pending (resolve k r t) k' = (pending t k' \<and> k' \<noteq> k)"
    by (auto simp: pending_def resolve_def tracker_inv_def split: option.splits)
next
  fix t :: CommandTracker and k r
  show "tracker_inv t \<Longrightarrow> resolved (resolve k r t) = resolved t @ (if pending t k then [(k, r)] else [])"
    by (auto simp: pending_def resolve_def split: option.splits)
qed

lemma pending_track: "track now seq pkt t = Inr t' \<Longrightarrow> pending t' k \<longleftrightarrow> k = seq \<or> pending t k"
  by (auto simp: track_cases pending_def al_find_append split: option.splits)

lemma resolved_track: "track now seq pkt t = Inr t' \<Longrightarrow> resolved t' = resolved t"
  by (auto simp: track_cases)

lemma check_timeouts_find:
  "tracker_inv t \<Longrightarrow> al_find k (transactions (fst (check_timeouts now t))) =
     Option.bind (al_find k (transactions t)) (polled now)"
  using check_loop_find by (fastforce simp: check_timeouts_def tracker_inv_def Let_def split: prod.splits)

lemma check_timeouts_count:
  "tracker_inv t \<Longrightarrow> count_list (map fst (resolved (fst (check_timeouts now t)))) k =
     count_list (map fst (resolved t)) k +
     (if pending t k \<and> \<not> pending (fst (check_timeouts now t)) k then 1 else 0)"
  using check_loop_find
  by (fastforce simp: check_timeouts_def tracker_inv_def pending_def Let_def split: prod.splits)

lemma check_timeouts_failed:
  assumes "tracker_inv t" and "pending t k" and "\<not> pending (fst (check_timeouts now t)) k"
  shows "(k, FAILED) \<in> set (resolved (fst (check_timeouts now t)))"
proof -
  obtain m retried failed where l: "check_loop now (transactions t) = (m, retried, failed)"
    by (metis prod_cases3)
  from check_loop_find [OF l, of k] assms l
  have "count_list (map fst failed) k = 1" and f: "set failed \<subseteq> fst ` set (transactions t) \<times> {FAILED}"
    by (auto simp: tracker_inv_def pending_def check_timeouts_def)
  then have "k \<in> fst ` set failed"
    by (metis count_notin list.set_map one_neq_zero)
  with f l show ?thesis by (force simp: check_timeouts_def)
qed

lemma check_timeouts_pending_mono: "tracker_inv t \<Longrightarrow> pending (fst (check_timeouts now t)) k \<Longrightarrow> pending t k"
  by (cases "al_find k (transactions t)") (auto simp: pending_def check_timeouts_find)

lemma check_timeouts_resolved_mono: "set (resolved t) \<subseteq> set (resolved (fst (check_timeouts now t)))"
  by (auto simp: check_timeouts_def Let_def split: prod.splits)

lemma fst_run_checks_Cons: "fst (run_checks (now # ts) t) = fst (run_checks ts (fst (check_timeouts now t)))"
  by (simp add: Let_def split: prod.splits)

lemma run_checks_settled:
  "tracker_inv t \<Longrightarrow> \<not> pending t k \<Longrightarrow> (k, r) \<in> set (resolved t) \<Longrightarrow>
   \<not> pending (fst (run_checks ts t)) k \<and> (k, r) \<in> set (resolved (fst (run_checks ts t)))"
proof (induction ts arbitrary: t)
  case (Cons now ts)
  with check_timeouts_pending_mono check_timeouts_resolved_mono show ?case
    unfolding fst_run_checks_Cons by (intro Cons.IH tracker_inv_check) blast+
qed simp

text \<open>Retransmissions still available: the potential that each of them uses up.\<close>

definition retries_left :: "(u16 \<times> Transaction) list \<Rightarrow> nat" where
  "retries_left m = (\<Sum>(k, tr) \<leftarrow> m. 3 - unat (t_retries tr))"

lemma unat_retry: "(r :: u8) < max_retries \<Longrightarrow> unat (r + 1) = Suc (unat r) \<and> unat r < 3"
proof -
  assume r: "r < max_retries"
  then have "unat r < 3" by (simp add: max_retries_def word_less_nat_alt)
  moreover from this have "unat (r + 1) = Suc (unat r)"
    by (simp add: unat_word_ariths)
  ultimately show ?thesis by simp
qed

lemma check_loop_potential:
  "check_loop now m = (m', retried, failed) \<Longrightarrow> length retried + retries_left m' \<le> retries_left m"
  by (induction now m arbitrary: m' retried failed rule: check_loop.induct)
     (fastforce simp: retries_left_def Let_def unat_retry split: prod.splits if_splits dest: unat_retry)+

lemma run_checks_potential: "length (snd (run_checks ts t)) \<le> retries_left (transactions t)"
proof (induction ts arbitrary: t)
  case (Cons now ts)
  obtain m retried failed where l: "check_loop now (transactions t) = (m, retried, failed)"
    by (metis prod_cases3)
  have "length (snd (run_checks ts (fst (check_timeouts now t)))) \<le> retries_left m"
    using Cons.IH [of "fst (check_timeouts now t)"] l by (simp add: check_timeouts_def)
  with check_loop_potential [OF l] l show ?case
    by (auto simp: check_timeouts_def Let_def split: prod.splits)
qed simp

section \<open>Properties\<close>

text \<open>C3: No promise is set twice and none is forgotten.  After any interleaving of \<open>track\<close>,
  \<open>resolve\<close> and \<open>check_timeouts\<close> calls, the number of results delivered for a sequence number plus
  one if a command with it is still waiting equals the number of commands accepted under it.\<close>

theorem command_settled_once:
  "count_list (map fst (resolved (tracker_run ops init_tracker))) seq +
     (if pending (tracker_run ops init_tracker) seq then 1 else 0) =
   accepted_tracks seq ops init_tracker"
proof -
  have "tracker_inv t \<Longrightarrow>
     count_list (map fst (resolved (tracker_run ops t))) seq + (if pending (tracker_run ops t) seq then 1 else 0) =
     count_list (map fst (resolved t)) seq + (if pending t seq then 1 else 0) + accepted_tracks seq ops t" for t
  proof (induction ops arbitrary: t)
    case (Cons x ops)
    have "count_list (map fst (resolved (tracker_step x t))) seq + (if pending (tracker_step x t) seq then 1 else 0) =
      count_list (map fst (resolved t)) seq + (if pending t seq then 1 else 0) +
      (case x of Track now s pkt \<Rightarrow> (if s = seq \<and> al_find s (transactions t) = None then 1 else 0) | _ \<Rightarrow> 0)"
    proof (cases x)
      case (Track now s pkt)
      show ?thesis
      proof (cases "track now s pkt t")
        case (Inl e)
        then have "al_find s (transactions t) \<noteq> None" by (auto simp: track_def split: option.splits)
        with Track Inl show ?thesis by auto
      next
        case (Inr t')
        then have "al_find s (transactions t) = None" by (simp add: track_cases)
        with Track Inr pending_track [OF Inr] resolved_track [OF Inr] show ?thesis
          by (auto simp: pending_def)
      qed
    next
      case (Resolve s r)
      with Cons.prems show ?thesis
        by (auto simp: tracker.settle_outcome tracker.settle_waiting)
    next
      case (CheckTimeouts now)
      with Cons.prems show ?thesis
        by (auto simp: check_timeouts_count dest: check_timeouts_pending_mono)
    qed
    with Cons.IH [OF tracker_inv_step [OF Cons.prems]] show ?case by simp
  qed simp
  from this [OF tracker_inv_init] show ?thesis
    by (simp add: init_tracker_def pending_def)
qed




end
