(* ===== verification/Ro_TaskQueue.thy ===== *)
theory Ro_TaskQueue
  imports Prelude "HOL-Library.Multiset"
begin

text \<open>
  \<open>TaskQueue\<close> (\<open>RoCommLink/include/core/common/task_queue.h\<close>, \<open>src/core/common/task_queue.cpp\<close>):
  a pool of worker threads over a priority queue of timed tasks.

  Every access to the members happens under \<open>_mutex\<close>, so a critical section is one atomic step
  of the relation \<open>tq_step\<close>; which thread gets the mutex next is not determined.  The
  \<open>std::priority_queue\<close> with \<open>std::greater\<close> is the multiset of its items, of which \<open>top()\<close> is one
  with the least deadline (which one, among equal deadlines, is not specified).  A worker is at
  the head of its loop (running or blocked in \<open>_cv.wait\<close>, \<open>_cv.wait_until\<close>), executes a task
  outside the lock (an item without a callable is passed over by \<open>if (task)\<close>), or has returned.
  Two fields record history for the properties: the items accepted by \<open>push\<close>
  and \<open>push_delayed\<close>, and the items executed with the time they were taken.
\<close>

section \<open>State and operations\<close>

record 'f TaskItem =
  func :: "'f option"
  execute_at :: int

datatype 'f worker =
    AtLoopHead
  | Executing "'f TaskItem" int
  | Returned

record 'f TaskQueue =
  tasks :: "'f TaskItem multiset"
  workers :: "'f worker list"
  is_shutdown :: bool
  clock :: int
  accepted :: "'f TaskItem multiset"
  executed :: "('f TaskItem \<times> int) list"

definition init_queue :: "nat \<Rightarrow> int \<Rightarrow> 'f TaskQueue" where
  "init_queue threads now = \<lparr>tasks = {#}, workers = replicate threads AtLoopHead,
     is_shutdown = False, clock = now, accepted = {#}, executed = []\<rparr>"

definition enqueue :: "'f TaskItem \<Rightarrow> 'f TaskQueue \<Rightarrow> 'f TaskQueue" where
  "enqueue item q = (if is_shutdown q then q
     else q\<lparr>tasks := add_mset item (tasks q), accepted := add_mset item (accepted q)\<rparr>)"

definition push :: "'f option \<Rightarrow> 'f TaskQueue \<Rightarrow> 'f TaskQueue" where
  "push f q = enqueue \<lparr>func = f, execute_at = clock q\<rparr> q"

definition push_delayed :: "'f option \<Rightarrow> int \<Rightarrow> 'f TaskQueue \<Rightarrow> 'f TaskQueue" where
  "push_delayed f delay q = enqueue \<lparr>func = f, execute_at = clock q + delay\<rparr> q"

definition shutdown :: "'f TaskQueue \<Rightarrow> 'f TaskQueue" where
  "shutdown q = q\<lparr>is_shutdown := True\<rparr>"

text \<open>\<open>t\<close> may be the top of the priority queue.\<close>

definition is_top :: "'f TaskItem \<Rightarrow> 'f TaskQueue \<Rightarrow> bool" where
  "is_top t q \<longleftrightarrow> t \<in># tasks q \<and> (\<forall>t' \<in># tasks q. execute_at t \<le> execute_at t')"

text \<open>The three outcomes of a worker's turn inside the lock, and the end of a task outside it.\<close>

definition take_task :: "nat \<Rightarrow> 'f TaskItem \<Rightarrow> 'f TaskQueue \<Rightarrow> 'f TaskQueue" where
  "take_task i t q = q\<lparr>tasks := tasks q - {#t#}, workers := (workers q)[i := Executing t (clock q)]\<rparr>"

definition finish_task :: "nat \<Rightarrow> 'f TaskItem \<Rightarrow> int \<Rightarrow> 'f TaskQueue \<Rightarrow> 'f TaskQueue" where
  "finish_task i t started q = q\<lparr>workers := (workers q)[i := AtLoopHead], executed := executed q @ [(t, started)]\<rparr>"

definition return_worker :: "nat \<Rightarrow> 'f TaskQueue \<Rightarrow> 'f TaskQueue" where
  "return_worker i q = q\<lparr>workers := (workers q)[i := Returned]\<rparr>"

inductive tq_step :: "'f TaskQueue \<Rightarrow> 'f TaskQueue \<Rightarrow> bool" where
  do_push: "tq_step q (push f q)"
| do_push_delayed: "tq_step q (push_delayed f delay q)"
| do_shutdown: "tq_step q (shutdown q)"
| worker_takes: "i < length (workers q) \<Longrightarrow> workers q ! i = AtLoopHead \<Longrightarrow> is_top t q \<Longrightarrow>
     clock q \<ge> execute_at t \<Longrightarrow> tq_step q (take_task i t q)"
| worker_finishes: "i < length (workers q) \<Longrightarrow> workers q ! i = Executing t started \<Longrightarrow>
     tq_step q (finish_task i t started q)"
| worker_returns: "i < length (workers q) \<Longrightarrow> workers q ! i = AtLoopHead \<Longrightarrow>
     is_shutdown q \<Longrightarrow> tasks q = {#} \<Longrightarrow> tq_step q (return_worker i q)"
| time_passes: "now \<ge> clock q \<Longrightarrow> tq_step q (q\<lparr>clock := now\<rparr>)"

inductive tq_reachable :: "nat \<Rightarrow> 'f TaskQueue \<Rightarrow> bool" for threads where
  tq_start: "tq_reachable threads (init_queue threads now)"
| tq_next: "tq_reachable threads q \<Longrightarrow> tq_step q q' \<Longrightarrow> tq_reachable threads q'"

text \<open>\<open>shutdown\<close> joins all workers: it returns once every worker has returned.\<close>

definition all_joined :: "'f TaskQueue \<Rightarrow> bool" where
  "all_joined q \<longleftrightarrow> (\<forall>w \<in> set (workers q). w = Returned)"

fun in_flight :: "'f worker \<Rightarrow> 'f TaskItem multiset" where
  "in_flight (Executing t started) = {#t#}"
| "in_flight AtLoopHead = {#}"
| "in_flight Returned = {#}"

section \<open>Invariants\<close>

definition running_items :: "'f worker list \<Rightarrow> 'f TaskItem multiset" where
  "running_items ws = sum_list (map in_flight ws)"

definition tq_inv :: "nat \<Rightarrow> 'f TaskQueue \<Rightarrow> bool" where
  "tq_inv threads q \<longleftrightarrow>
     accepted q = tasks q + running_items (workers q) + mset (map fst (executed q)) \<and>
     (\<forall>t s. Executing t s \<in> set (workers q) \<longrightarrow> execute_at t \<le> s) \<and>
     (\<forall>(t, s) \<in> set (executed q). execute_at t \<le> s) \<and>
     (Returned \<in> set (workers q) \<longrightarrow> is_shutdown q \<and> tasks q = {#}) \<and>
     length (workers q) = threads"

lemmas tq_ops = push_def push_delayed_def enqueue_def shutdown_def take_task_def finish_task_def
  return_worker_def

lemma running_items_update:
  "i < length ws \<Longrightarrow> running_items (ws[i := w]) + in_flight (ws ! i) = running_items ws + in_flight w"
proof -
  assume i: "i < length ws"
  have "running_items ws = running_items (take i ws) + (in_flight (ws ! i) + running_items (drop (Suc i) ws))"
    by (subst id_take_nth_drop [OF i]) (simp add: running_items_def)
  moreover have "running_items (ws[i := w]) = running_items (take i ws) + (in_flight w + running_items (drop (Suc i) ws))"
    by (simp add: upd_conv_take_nth_drop [OF i] running_items_def)
  ultimately show ?thesis by (simp add: ac_simps)
qed

lemma in_set_update: "x \<in> set (ws[i := w]) \<Longrightarrow> x = w \<or> x \<in> set ws"
  using set_update_subset_insert by fastforce

lemma running_items_idle: "\<forall>w \<in> set ws. in_flight w = {#} \<Longrightarrow> running_items ws = {#}"
  by (induction ws) (auto simp: running_items_def)

lemma tq_inv_init: "tq_inv threads (init_queue threads now)"
  by (auto simp: tq_inv_def init_queue_def running_items_idle)

lemma tq_inv_step: "tq_step q q' \<Longrightarrow> tq_inv threads q \<Longrightarrow> tq_inv threads q'"
proof (induction rule: tq_step.induct)
  case (worker_takes i q t)
  then have "running_items ((workers q)[i := Executing t (clock q)]) = add_mset t (running_items (workers q))"
    using running_items_update [of i "workers q" "Executing t (clock q)"] by simp
  with worker_takes show ?case
    by (auto simp: tq_inv_def tq_ops is_top_def dest!: in_set_update dest: multi_member_split)
next
  case (worker_finishes i q t started)
  then have "add_mset t (running_items ((workers q)[i := AtLoopHead])) = running_items (workers q)"
    using running_items_update [of i "workers q" AtLoopHead] by simp
  moreover have "Executing t started \<in> set (workers q)"
    using worker_finishes by (metis nth_mem)
  ultimately show ?case
    using worker_finishes by (auto simp: tq_inv_def tq_ops dest!: in_set_update simp flip: add_mset_add_single)
next
  case (worker_returns i q)
  then have "running_items ((workers q)[i := Returned]) = running_items (workers q)"
    using running_items_update [of i "workers q" Returned] by simp
  with worker_returns show ?case
    by (auto simp: tq_inv_def tq_ops dest!: in_set_update)
qed (auto simp: tq_inv_def tq_ops)

lemma tq_reachable_inv: "tq_reachable threads q \<Longrightarrow> tq_inv threads q"
  by (induction rule: tq_reachable.induct) (auto intro: tq_inv_init tq_inv_step)

inductive_cases tq_step_from: "tq_step q q'"

lemma running_items_joined: "all_joined q \<Longrightarrow> running_items (workers q) = {#}"
  by (rule running_items_idle) (auto simp: all_joined_def)

section \<open>Properties\<close>

text \<open>C4: Shutdown drains the queue.  When at least one worker exists and \<open>shutdown\<close> has joined them all,
  every task ever accepted has been executed exactly once, none is left behind, and none was
  taken before its deadline.\<close>

theorem shutdown_drains:
  assumes "tq_reachable threads q" and "threads > 0" and "all_joined q"
  shows "mset (map fst (executed q)) = accepted q \<and> tasks q = {#} \<and>
     (\<forall>(t, s) \<in> set (executed q). execute_at t \<le> s)"
proof -
  have inv: "tq_inv threads q" using assms(1) by (rule tq_reachable_inv)
  then have "workers q \<noteq> []" using assms(2) by (auto simp: tq_inv_def)
  then have "Returned \<in> set (workers q)"
    using assms(3) by (metis all_joined_def hd_in_set)
  with inv running_items_joined [OF assms(3)] show ?thesis
    by (auto simp: tq_inv_def)
qed

lemma example_run:
  "tq_reachable 1 (return_worker 0 (finish_task 0 \<lparr>func = Some (), execute_at = 3\<rparr> 3
     (take_task 0 \<lparr>func = Some (), execute_at = 3\<rparr> (shutdown (push (Some ()) (init_queue 1 3))))))"
  by (intro tq_reachable.tq_next [OF _ worker_returns] tq_reachable.tq_next [OF _ worker_finishes]
      tq_reachable.tq_next [OF _ worker_takes] tq_reachable.tq_next [OF _ do_shutdown]
      tq_reachable.tq_next [OF _ do_push] tq_reachable.tq_start)
     (simp_all add: tq_ops init_queue_def is_top_def)

theorem shutdown_drains_witness:
  "mset (map fst (executed (return_worker 0 (finish_task 0 \<lparr>func = Some (), execute_at = 3\<rparr> 3
     (take_task 0 \<lparr>func = Some (), execute_at = 3\<rparr> (shutdown (push (Some ()) (init_queue 1 3)))))))) =
   {#\<lparr>func = Some (), execute_at = 3\<rparr>#}"
  using shutdown_drains [OF example_run] by (simp add: all_joined_def tq_ops init_queue_def)

text \<open>A worker thread is never stuck with work to do.  In every reachable state with a task
  whose deadline has passed, any worker at its loop head can take a task at once; and after
  shutdown a worker at its loop head can either return or take a task as soon as the clock reaches
  the earliest deadline.\<close>

theorem worker_progress:
  assumes "tq_reachable threads q" and "i < length (workers q)" and "workers q ! i = AtLoopHead"
    and "tasks q \<noteq> {#} \<or> is_shutdown q"
  shows "(\<exists>t. is_top t q \<and> tq_step (q\<lparr>clock := max (clock q) (execute_at t)\<rparr>)
             (take_task i t (q\<lparr>clock := max (clock q) (execute_at t)\<rparr>))) \<or>
         tq_step q (return_worker i q)"
proof (cases "tasks q = {#}")
  case True
  with assms show ?thesis by (auto intro: worker_returns)
next
  case False
  define d where "d = Min (execute_at ` set_mset (tasks q))"
  have "d \<in> execute_at ` set_mset (tasks q)"
    unfolding d_def using False by (intro Min_in) auto
  then obtain t where t: "t \<in># tasks q" "execute_at t = d" by auto
  then have top: "is_top t q"
    by (auto simp: is_top_def d_def)
  then have "is_top t (q\<lparr>clock := max (clock q) (execute_at t)\<rparr>)"
    by (simp add: is_top_def)
  with assms(2,3) top show ?thesis
    by (intro disjI1 exI [of _ t] conjI worker_takes) simp_all
qed

theorem worker_progress_witness:
  "(\<exists>t. is_top t (push (Some ()) (init_queue 1 3)) \<and>
      tq_step ((push (Some ()) (init_queue 1 3))\<lparr>clock := max (clock (push (Some ()) (init_queue 1 3))) (execute_at t)\<rparr>)
        (take_task 0 t ((push (Some ()) (init_queue 1 3))\<lparr>clock := max (clock (push (Some ()) (init_queue 1 3))) (execute_at t)\<rparr>))) \<or>
   tq_step (push (Some ()) (init_queue 1 3)) (return_worker 0 (push (Some ()) (init_queue 1 3)))"
  by (rule worker_progress [OF tq_reachable.tq_next [OF tq_reachable.tq_start do_push]])
     (simp_all add: tq_ops init_queue_def)

end
