(* ===== verification/Ro_Link.thy ===== *)
theory Ro_Link
  imports Ro_Tracker Ro_TaskQueue
begin

text \<open>
  The RoCommLink service: \<open>UdpTransport\<close> (\<open>src/core/transport/udp_transport.cpp\<close>),
  \<open>RoCommLinkDispatcher\<close> (\<open>src/core/service/rocommlink_dispatcher.cpp\<close>) and \<open>RoCommLink\<close> itself
  (\<open>src/core/service/rocommlink.cpp\<close>): routing, sending, commands with acknowledgement, and the
  handler \<open>process_raw_bytes\<close> that the worker pool runs on every received buffer.

  The kernel's socket calls are the record \<open>net_env\<close> of their results, an argument of every
  operation that makes them.  A registered callback is a number; \<open>invoked\<close> logs the calls.  A null
  \<open>unique_ptr\<close> transport is \<open>None\<close> in the transport table, an empty \<open>std::function\<close> is \<open>None\<close> in a
  callback list.
\<close>

section \<open>UdpTransport\<close>

record net_env =
  k_socket :: int
  k_bind :: int
  k_inet_pton :: int
  k_sendto :: "bytes \<Rightarrow> int"

text \<open>\<open>recv_thread\<close> tells whether the thread object is joinable; \<open>closed\<close> logs the descriptors handed
  to \<open>close\<close>, \<open>outbox\<close> the datagrams handed to \<open>sendto\<close>.\<close>

record UdpTransport =
  sockfd :: int
  udp_running :: bool
  recv_thread :: bool
  closed :: "int list"
  outbox :: "bytes list"

definition init_udp :: UdpTransport where
  "init_udp = \<lparr>sockfd = -1, udp_running = False, recv_thread = False, closed = [], outbox = []\<rparr>"

text \<open>Assigning to a joinable \<open>std::thread\<close> calls \<open>std::terminate\<close>.\<close>

datatype udp_error = Terminate

definition udp_connect :: "net_env \<Rightarrow> UdpTransport \<Rightarrow> udp_error + bool \<times> UdpTransport" where
  "udp_connect env t =
     (let t = t\<lparr>sockfd := k_socket env\<rparr> in
      if sockfd t < 0 then Inr (False, t)
      else if k_bind env < 0 then Inr (False, t\<lparr>closed := closed t @ [sockfd t]\<rparr>)
      else if k_inet_pton env \<le> 0 then Inr (False, t\<lparr>closed := closed t @ [sockfd t]\<rparr>)
      else if recv_thread t then Inl Terminate
      else Inr (True, t\<lparr>udp_running := True, recv_thread := True\<rparr>))"

definition udp_disconnect :: "UdpTransport \<Rightarrow> UdpTransport" where
  "udp_disconnect t =
     (let t = t\<lparr>udp_running := False\<rparr>;
          t = (if sockfd t \<ge> 0 then t\<lparr>closed := closed t @ [sockfd t], sockfd := -1\<rparr> else t)
      in t\<lparr>recv_thread := False\<rparr>)"

definition udp_send :: "net_env \<Rightarrow> bytes \<Rightarrow> UdpTransport \<Rightarrow> bool \<times> UdpTransport" where
  "udp_send env data t =
     (if sockfd t < 0 \<or> data = [] then (False, t)
      else (k_sendto env data = int (length data), t\<lparr>outbox := outbox t @ [data]\<rparr>))"

text \<open>One pass of \<open>receive_loop\<close> per outcome of \<open>recvfrom\<close>; the datagrams handed to the data
  callback, and whether the loop is still running at the end of the list.\<close>

datatype recv_outcome = Datagram bytes | WouldBlock | Interrupted | RecvError | Stopped

fun receive_loop :: "recv_outcome list \<Rightarrow> bytes list \<times> bool" where
  "receive_loop [] = ([], True)"
| "receive_loop (Stopped # rs) = ([], False)"
| "receive_loop (RecvError # rs) = ([], False)"
| "receive_loop (WouldBlock # rs) = receive_loop rs"
| "receive_loop (Interrupted # rs) = receive_loop rs"
| "receive_loop (Datagram d # rs) =
     (let (ds, alive) = receive_loop rs in (if d = [] then ds else d # ds, alive))"

section \<open>Dispatcher\<close>

type_synonym callback_registry = "u16 \<rightharpoonup> nat option list"

definition subscribe :: "u16 \<Rightarrow> nat option \<Rightarrow> callback_registry \<Rightarrow> callback_registry" where
  "subscribe mid cb reg = reg(mid \<mapsto> (case reg mid of None \<Rightarrow> [] | Some cbs \<Rightarrow> cbs) @ [cb])"

text \<open>The calls made by \<open>dispatch\<close> and its return value, which is \<open>true\<close> on every path.\<close>

definition dispatch :: "callback_registry \<Rightarrow> Packet \<Rightarrow> bool \<times> (nat \<times> Packet) list" where
  "dispatch reg pk =
     (case reg (msg_id (header pk)) of
        Some cbs \<Rightarrow> (True, List.map_filter (map_option (\<lambda>c. (c, pk))) cbs)
      | None \<Rightarrow> (True, []))"

section \<open>RoCommLink\<close>

record RoCommLink =
  transports :: "(u8 \<times> UdpTransport option) list"
  routing_table :: "u16 \<rightharpoonup> u8"
  worker_pool :: "(u8 \<times> bytes) TaskQueue"
  dispatcher :: callback_registry
  command_tracker :: CommandTracker
  link_running :: bool
  parsers :: "u8 \<rightharpoonup> RoCommLinkParser"
  invoked :: "(nat \<times> Packet) list"

definition init_link :: "nat \<Rightarrow> time \<Rightarrow> RoCommLink" where
  "init_link thread_count now = \<lparr>transports = [], routing_table = Map.empty,
     worker_pool = init_queue thread_count now, dispatcher = Map.empty,
     command_tracker = init_tracker, link_running = False, parsers = Map.empty, invoked = []\<rparr>"

definition add_transport :: "UdpTransport option \<Rightarrow> u8 \<Rightarrow> RoCommLink \<Rightarrow> RoCommLink" where
  "add_transport tr i l = l\<lparr>transports := al_put i tr (transports l)\<rparr>"

text \<open>\<open>(static_cast<uint16_t>(system_id) << 8) | component_id\<close>.\<close>

definition compound_key :: "u8 \<Rightarrow> u8 \<Rightarrow> u16" where
  "compound_key sid cid = or8 (push_bit 8 (ucast sid)) cid"

definition add_routing_rule :: "u8 \<Rightarrow> u8 \<Rightarrow> u8 \<Rightarrow> RoCommLink \<Rightarrow> RoCommLink" where
  "add_routing_rule sid cid out l = l\<lparr>routing_table := (routing_table l)(compound_key sid cid \<mapsto> out)\<rparr>"

definition DEFAULT_BROADCAST_INTERFACE :: u8 where
  "DEFAULT_BROADCAST_INTERFACE = 0"

definition determine_routing_target :: "u8 \<Rightarrow> u8 \<Rightarrow> RoCommLink \<Rightarrow> u8" where
  "determine_routing_target sid cid l =
     (case routing_table l (compound_key sid cid) of
        Some i \<Rightarrow> i
      | None \<Rightarrow> (case routing_table l (compound_key sid 0) of
                  Some i \<Rightarrow> i
                | None \<Rightarrow> DEFAULT_BROADCAST_INTERFACE))"

definition send_packet :: "net_env \<Rightarrow> Packet \<Rightarrow> RoCommLink \<Rightarrow> bool \<times> RoCommLink" where
  "send_packet env pk l =
     (let i = determine_routing_target (system_id (header pk)) (component_id (header pk)) l in
      case al_find i (transports l) of
        None \<Rightarrow> (False, l)
      | Some None \<Rightarrow> (False, l)
      | Some (Some t) \<Rightarrow>
          (let (ok, t') = udp_send env (serialize pk) t
           in (ok, l\<lparr>transports := al_put i (Some t') (transports l)\<rparr>)))"

text \<open>\<open>start\<close>: \<open>None\<close> stands for the process being terminated by the transport.\<close>

definition start :: "net_env \<Rightarrow> u8 \<Rightarrow> RoCommLink \<Rightarrow> (bool \<times> RoCommLink) option" where
  "start env i l =
     (case al_find i (transports l) of
        None \<Rightarrow> Some (False, l)
      | Some None \<Rightarrow> Some (False, l)
      | Some (Some t) \<Rightarrow>
          (case udp_connect env t of
             Inl Terminate \<Rightarrow> None
           | Inr (ok, t') \<Rightarrow>
               (let l = l\<lparr>transports := al_put i (Some t') (transports l)\<rparr>
                in if \<not> ok then Some (False, l) else Some (True, l\<lparr>link_running := True\<rparr>))))"

text \<open>The read callback that \<open>start\<close> registers: the buffer becomes a job of the worker pool.\<close>

definition on_data :: "u8 \<Rightarrow> bytes \<Rightarrow> RoCommLink \<Rightarrow> RoCommLink" where
  "on_data i data l = (if data = [] then l
     else l\<lparr>worker_pool := push (Some (i, data)) (worker_pool l)\<rparr>)"

text \<open>\<open>stop\<close> disconnects every transport, then shuts the worker pool down and waits for it, and only
  then drops the transports: \<open>stop_begin\<close> is what happens before the wait, so that the jobs still
  queued run on its result, \<open>stop_finish\<close> what happens after it.\<close>

definition disconnect_all :: "RoCommLink \<Rightarrow> RoCommLink" where
  "disconnect_all l = l\<lparr>transports := map (\<lambda>(i, t). (i, map_option udp_disconnect t)) (transports l)\<rparr>"

definition stop_begin :: "RoCommLink \<Rightarrow> RoCommLink" where
  "stop_begin l = (let l = disconnect_all (l\<lparr>link_running := False\<rparr>)
     in l\<lparr>worker_pool := shutdown (worker_pool l)\<rparr>)"

definition stop_finish :: "RoCommLink \<Rightarrow> RoCommLink option" where
  "stop_finish l = (if all_joined (worker_pool l) then Some (l\<lparr>transports := []\<rparr>) else None)"

text \<open>One turn of the timeout thread: retries go back through \<open>send_packet\<close>.\<close>

fun send_all :: "net_env \<Rightarrow> Packet list \<Rightarrow> RoCommLink \<Rightarrow> RoCommLink" where
  "send_all env [] l = l"
| "send_all env (pk # pks) l = send_all env pks (snd (send_packet env pk l))"

definition timeout_turn :: "net_env \<Rightarrow> time \<Rightarrow> RoCommLink \<Rightarrow> RoCommLink" where
  "timeout_turn env now l =
     (let (tr, retried) = check_timeouts now (command_tracker l)
      in send_all env retried (l\<lparr>command_tracker := tr\<rparr>))"

text \<open>\<open>send_command_blocking\<close> up to the wait, and the report it prints after it: \<open>n\<close> is the number of
  results delivered before the command was tracked.\<close>

datatype command_state = CommandSendFailed | CommandWaiting

definition send_command :: "net_env \<Rightarrow> time \<Rightarrow> Packet \<Rightarrow> RoCommLink \<Rightarrow> tracker_error + command_state \<times> RoCommLink" where
  "send_command env now cmd l =
     (let seq = sequence (header cmd) in
      case track now seq cmd (command_tracker l) of
        Inl e \<Rightarrow> Inl e
      | Inr tr \<Rightarrow>
          (let (ok, l) = send_packet env cmd (l\<lparr>command_tracker := tr\<rparr>)
           in if \<not> ok
              then Inr (CommandSendFailed, l\<lparr>command_tracker := resolve seq FAILED (command_tracker l)\<rparr>)
              else Inr (CommandWaiting, l)))"

datatype command_report = CommandAccepted | CommandRejected CommandResult | TransactionTimeout

definition await_command :: "u16 \<Rightarrow> nat \<Rightarrow> RoCommLink \<Rightarrow> command_report" where
  "await_command seq n l =
     (case al_find seq (drop n (resolved (command_tracker l))) of
        Some r \<Rightarrow> if r = ACCEPTED then CommandAccepted else CommandRejected r
      | None \<Rightarrow> TransactionTimeout)"

section \<open>The receive path\<close>

definition MSG_ID_COMMAND_ACK :: u16 where "MSG_ID_COMMAND_ACK = 0x00FF"
definition MSG_ID_USER_COMMAND :: u16 where "MSG_ID_USER_COMMAND = 0x0001"

definition make_ack :: "Packet \<Rightarrow> CommandResult \<Rightarrow> Packet" where
  "make_ack pk res = default_packet\<lparr>
     header := default_header\<lparr>magic := 0x5A, system_id := system_id (header pk),
       component_id := component_id (header pk), msg_id := MSG_ID_COMMAND_ACK,
       sequence := sequence (header pk), payload_len := of_nat sizeof_CommandAckPayload\<rparr>,
     payload := ack_to_bytes \<lparr>command_msg_id = msg_id (header pk),
       target_sequence = sequence (header pk), ack_result = res\<rparr>\<rparr>"

definition handle_packet :: "net_env \<Rightarrow> Packet \<Rightarrow> RoCommLink \<Rightarrow> RoCommLink" where
  "handle_packet env pk l =
     (if msg_id (header pk) = MSG_ID_COMMAND_ACK then
        (if length (payload pk) \<ge> sizeof_CommandAckPayload
         then (let ack = ack_of_bytes (payload pk)
               in l\<lparr>command_tracker := resolve (target_sequence ack) (ack_result ack) (command_tracker l)\<rparr>)
         else l)
      else if msg_id (header pk) = MSG_ID_USER_COMMAND then
        (let (success, calls) = dispatch (dispatcher l) pk;
             res_val = (if success then ACCEPTED else DENIED);
             l = l\<lparr>invoked := invoked l @ calls\<rparr>
         in snd (send_packet env (make_ack pk res_val) l))
      else l\<lparr>invoked := invoked l @ snd (dispatch (dispatcher l) pk)\<rparr>)"

datatype link_error = NullTransport | ParserUndefined | BadOptionalAccess

definition handle_result :: "net_env \<Rightarrow> bytes \<Rightarrow> ParseResult \<Rightarrow> RoCommLink \<Rightarrow> link_error + RoCommLink" where
  "handle_result env buf r l =
     (case pr_status r of
        StreamForwardByte \<Rightarrow>
          (case pr_packet r of
             None \<Rightarrow> Inl BadOptionalAccess
           | Some pk \<Rightarrow>
               (let i = determine_routing_target (system_id (header pk)) (component_id (header pk)) l in
                case al_find i (transports l) of
                  None \<Rightarrow> Inr l
                | Some None \<Rightarrow> Inl NullTransport
                | Some (Some t) \<Rightarrow>
                    Inr (l\<lparr>transports := al_put i (Some (snd (udp_send env buf t))) (transports l)\<rparr>)))
      | Complete \<Rightarrow> (case pr_packet r of None \<Rightarrow> Inr l | Some pk \<Rightarrow> Inr (handle_packet env pk l))
      | Processing \<Rightarrow> Inr l)"

text \<open>The byte loop; \<open>buf\<close> is the whole buffer, \<open>parsers l i\<close> the parser of the connection.\<close>

fun process_loop :: "net_env \<Rightarrow> bytes \<Rightarrow> u8 \<Rightarrow> bytes \<Rightarrow> RoCommLink \<Rightarrow> link_error + RoCommLink" where
  "process_loop env buf i [] l = Inr l"
| "process_loop env buf i (b # bs) l =
     (case parse_byte b (the (parsers l i)) of
        None \<Rightarrow> Inl ParserUndefined
      | Some (p, r) \<Rightarrow>
          (case handle_result env buf r (l\<lparr>parsers := (parsers l)(i \<mapsto> p)\<rparr>) of
             Inl e \<Rightarrow> Inl e
           | Inr l' \<Rightarrow> process_loop env buf i bs l'))"

definition process_raw_bytes :: "net_env \<Rightarrow> u8 \<Rightarrow> bytes \<Rightarrow> RoCommLink \<Rightarrow> link_error + RoCommLink" where
  "process_raw_bytes env i bs l =
     (if bs = [] then Inr l
      else (let l = (if parsers l i = None then l\<lparr>parsers := (parsers l)(i \<mapsto> init_parser)\<rparr> else l)
            in process_loop env bs i bs l))"

text \<open>A connection that has no parser yet, or one that listens without an early filter.\<close>

definition ready :: "RoCommLink \<Rightarrow> u8 \<Rightarrow> bool" where
  "ready l i \<longleftrightarrow> (\<forall>p. parsers l i = Some p \<longrightarrow> listening p)"

text \<open>The packets for a target leave through a connected transport.\<close>

definition route_open :: "net_env \<Rightarrow> Packet \<Rightarrow> RoCommLink \<Rightarrow> UdpTransport \<Rightarrow> bool" where
  "route_open env pk l t \<longleftrightarrow>
     al_find (determine_routing_target (system_id (header pk)) (component_id (header pk)) l) (transports l)
       = Some (Some t) \<and> sockfd t \<ge> 0"

section \<open>The transport interface\<close>

text \<open>What the service relies on in an \<open>IOInterface\<close>: a frame given to an open transport goes out as
  it is, after all earlier ones; nothing goes out through a closed one.\<close>

locale io_interface =
  fixes transmit :: "bytes \<Rightarrow> 't \<Rightarrow> bool \<times> 't"
    and sent :: "'t \<Rightarrow> bytes list"
    and is_open :: "'t \<Rightarrow> bool"
  assumes transmit_open: "is_open t \<Longrightarrow> data \<noteq> [] \<Longrightarrow> sent (snd (transmit data t)) = sent t @ [data]"
    and transmit_closed: "\<not> is_open t \<Longrightarrow> transmit data t = (False, t)"
    and transmit_keeps_open: "is_open (snd (transmit data t)) = is_open t"
begin

lemma transmit_all:
  "is_open t \<Longrightarrow> [] \<notin> set ds \<Longrightarrow> sent (fold (\<lambda>d t. snd (transmit d t)) ds t) = sent t @ ds"
  by (induction ds arbitrary: t) (auto simp: transmit_open transmit_keeps_open)

lemma transmit_all_closed: "\<not> is_open t \<Longrightarrow> fold (\<lambda>d t. snd (transmit d t)) ds t = t"
  by (induction ds arbitrary: t) (auto simp: transmit_closed)

end

interpretation udp: io_interface "udp_send env" outbox "\<lambda>t. sockfd t \<ge> 0" for env
  by unfold_locales (auto simp: udp_send_def)

section \<open>Lemmas\<close>

lemma compound_key_inj: "compound_key s c = compound_key s' c' \<longleftrightarrow> s = s' \<and> c = c'"
  by (metis compound_key_def hi8_join lo8_join shl8_def)

lemma length_serialize: "length (serialize pk) = 12 + length (payload pk)"
  by (simp add: serialize_def serialize_header_def Let_def)

lemma serialize_nonempty [simp]: "serialize pk \<noteq> []"
  using length_serialize [of pk] by auto

lemma send_packet_parsers [simp]:
  "send_packet env pk (l\<lparr>parsers := P\<rparr>) = apsnd (parsers_update (\<lambda>_. P)) (send_packet env pk l)"
  by (auto simp: send_packet_def determine_routing_target_def Let_def split: option.splits prod.splits)

lemma parsers_send_packet [simp]: "parsers (snd (send_packet env pk l)) = parsers l"
  by (auto simp: send_packet_def Let_def split: option.splits prod.splits)

lemma handle_packet_parsers [simp]:
  "handle_packet env pk (l\<lparr>parsers := P\<rparr>) = (handle_packet env pk l)\<lparr>parsers := P\<rparr>"
proof -
  have "snd (send_packet env a (l\<lparr>parsers := P, invoked := c\<rparr>)) =
      (snd (send_packet env a (l\<lparr>invoked := c\<rparr>)))\<lparr>parsers := P\<rparr>" for a c
    using send_packet_parsers [where pk = a and l = "l\<lparr>invoked := c\<rparr>" and P = P and env = env]
    by (cases l) simp
  then show ?thesis
    by (cases l) (auto simp: handle_packet_def Let_def split: prod.splits)
qed

lemma parsers_handle_packet [simp]: "parsers (handle_packet env pk l) = parsers l"
  by (auto simp: handle_packet_def Let_def split: prod.splits)

lemma fold_handle_parsers:
  "fold (handle_packet env) pks (l\<lparr>parsers := P\<rparr>) = (fold (handle_packet env) pks l)\<lparr>parsers := P\<rparr>"
  by (induction pks arbitrary: l) simp_all

lemma parsers_fold_handle [simp]: "parsers (fold (handle_packet env) pks l) = parsers l"
  by (induction pks arbitrary: l) simp_all

lemma no_forward_byte:
  "early_filter_cb p = None \<Longrightarrow> st p \<noteq> ForwardActive \<Longrightarrow> parse_byte b p = Some (q, r) \<Longrightarrow>
   pr_status r \<noteq> StreamForwardByte \<and> st q \<noteq> ForwardActive \<and> early_filter_cb q = None"
  by (cases "st p") (auto simp: parser_unfold Let_def split: if_splits)

lemma no_forward:
  "early_filter_cb p = None \<Longrightarrow> st p \<noteq> ForwardActive \<Longrightarrow> parse_bytes bs p = Some (q, rs) \<Longrightarrow>
   \<forall>r \<in> set rs. pr_status r \<noteq> StreamForwardByte"
proof (induction bs arbitrary: p rs)
  case (Cons b bs)
  then obtain q' r rs' where step: "parse_byte b p = Some (q', r)" "parse_bytes bs q' = Some (q, rs')"
      and rs: "rs = r # rs'"
    by (auto split: option.splits)
  with Cons.IH [of q' rs'] no_forward_byte [OF Cons.prems(1,2) step(1)] show ?case by auto
qed simp

lemma handle_result_no_forward:
  "pr_status r \<noteq> StreamForwardByte \<Longrightarrow>
   handle_result env buf r l = Inr (fold (handle_packet env) (completed [r]) l)"
  by (cases "pr_status r"; cases "pr_packet r")
     (simp_all add: handle_result_def completed_def List.map_filter_simps)

lemma process_loop_packets:
  assumes "parsers l i = Some p" and "parse_bytes bs p = Some (p', rs)"
    and "\<forall>r \<in> set rs. pr_status r \<noteq> StreamForwardByte"
  shows "process_loop env buf i bs l =
    Inr ((fold (handle_packet env) (completed rs) l)\<lparr>parsers := (parsers l)(i \<mapsto> p')\<rparr>)"
  using assms
proof (induction bs arbitrary: p l rs)
  case Nil
  then show ?case by (cases l) auto
next
  case (Cons b bs)
  then obtain q r rs' where step: "parse_byte b p = Some (q, r)" "parse_bytes bs q = Some (p', rs')"
      and rs: "rs = r # rs'"
    by (auto split: option.splits)
  let ?l = "fold (handle_packet env) (completed [r]) (l\<lparr>parsers := (parsers l)(i \<mapsto> q)\<rparr>)"
  have "process_loop env buf i (b # bs) l = process_loop env buf i bs ?l"
    using Cons.prems step rs by (simp add: handle_result_no_forward)
  also have "\<dots> = Inr ((fold (handle_packet env) (completed rs') ?l)\<lparr>parsers := (parsers ?l)(i \<mapsto> p')\<rparr>)"
    using Cons.prems step rs by (intro Cons.IH [of _ q]) simp_all
  finally have "process_loop env buf i (b # bs) l =
    Inr ((fold (handle_packet env) (completed rs') ?l)\<lparr>parsers := (parsers ?l)(i \<mapsto> p')\<rparr>)" .
  moreover have "completed rs = completed [r] @ completed rs'"
    unfolding rs by (metis append_Cons append_Nil completed_append)
  ultimately show ?case
    by (simp add: fold_handle_parsers fun_upd_def cong: if_cong)
qed

text \<open>Serialized packets, with noise between them, are handled one after the other.\<close>

lemma process_packets:
  assumes "ready l i" and "\<forall>(g, pk) \<in> set fs. noise g \<and> wire_ok pk"
    and "bs = concat (map (\<lambda>(g, pk). g @ serialize pk) fs)" and "bs \<noteq> []"
  shows "\<exists>p'. listening p' \<and> process_raw_bytes env i bs l =
    Inr ((fold (handle_packet env) (map (received \<circ> snd) fs) l)\<lparr>parsers := (parsers l)(i \<mapsto> p')\<rparr>)"
proof -
  define p where "p = (case parsers l i of None \<Rightarrow> init_parser | Some p \<Rightarrow> p)"
  define l0 where "l0 = l\<lparr>parsers := (parsers l)(i \<mapsto> p)\<rparr>"
  have p: "listening p"
    using assms(1) by (auto simp: p_def ready_def listening_def init_parser_def split: option.splits)
  have "process_raw_bytes env i bs l = process_loop env bs i bs l0"
    using assms(4) by (cases l) (auto simp: process_raw_bytes_def l0_def p_def Let_def map_upd_triv split: option.splits)
  moreover obtain p' rs where run: "listening p'" "parse_bytes bs p = Some (p', rs)"
      "completed rs = map (received \<circ> snd) fs"
    using stream_lemma [OF p assms(2)] assms(3) by blast
  moreover have "\<forall>r \<in> set rs. pr_status r \<noteq> StreamForwardByte"
    using no_forward [OF _ _ run(2)] p by (auto simp: listening_def)
  then have "process_loop env bs i bs l0 =
      Inr ((fold (handle_packet env) (completed rs) l0)\<lparr>parsers := (parsers l0)(i \<mapsto> p')\<rparr>)"
    using run(2) by (intro process_loop_packets [of l0 i p]) (simp_all add: l0_def)
  ultimately show ?thesis
    by (intro exI [of _ p']) (simp add: l0_def fold_handle_parsers)
qed

lemma send_packet_open:
  assumes "route_open env pk l t"
  shows "send_packet env pk l =
    (k_sendto env (serialize pk) = int (length (serialize pk)),
     l\<lparr>transports := al_put (determine_routing_target (system_id (header pk)) (component_id (header pk)) l)
        (Some (t\<lparr>outbox := outbox t @ [serialize pk]\<rparr>)) (transports l)\<rparr>)"
  using assms by (simp add: send_packet_def route_open_def udp_send_def Let_def)

lemma ack_roundtrip: "ack_of_bytes (ack_to_bytes a) = a"
  by (simp add: ack_of_bytes_def ack_to_bytes_def)

lemma wire_ok_make_ack: "wire_ok (make_ack pk r)"
  by (simp add: wire_ok_def make_ack_def ack_to_bytes_def default_packet_def default_header_def)

lemma received_fields [simp]:
  "msg_id (header (received pk)) = msg_id (header pk)"
  "sequence (header (received pk)) = sequence (header pk)"
  "system_id (header (received pk)) = system_id (header pk)"
  "component_id (header (received pk)) = component_id (header pk)"
  "payload (received pk) = payload pk"
  by (simp_all add: received_def)

lemma make_ack_fields [simp]:
  "msg_id (header (make_ack pk r)) = MSG_ID_COMMAND_ACK"
  "system_id (header (make_ack pk r)) = system_id (header pk)"
  "component_id (header (make_ack pk r)) = component_id (header pk)"
  by (simp_all add: make_ack_def)

lemma make_ack_received: "make_ack (received pk) r = make_ack pk r"
  by (simp add: make_ack_def)

lemma handle_ack:
  "handle_packet env (received (make_ack pk r)) l =
     l\<lparr>command_tracker := resolve (sequence (header pk)) r (command_tracker l)\<rparr>"
  by (simp add: handle_packet_def ack_roundtrip make_ack_def Let_def) (simp add: ack_to_bytes_def)

lemma process_one:
  assumes "ready l i" and "wire_ok pk"
  shows "\<exists>p'. listening p' \<and> process_raw_bytes env i (serialize pk) l =
    Inr ((handle_packet env (received pk) l)\<lparr>parsers := (parsers l)(i \<mapsto> p')\<rparr>)"
  using process_packets [OF assms(1), where fs = "[([], pk)]" and bs = "serialize pk"] assms(2)
  by (simp add: noise_def)

lemma route_frame [simp]:
  "determine_routing_target s c (l\<lparr>invoked := v\<rparr>) = determine_routing_target s c l"
  by (simp add: determine_routing_target_def cong: option.case_cong)

lemma route_open_ack: "route_open env cmd l t \<Longrightarrow> route_open env (make_ack cmd r) (l\<lparr>invoked := v\<rparr>) t"
  by (simp add: route_open_def)

lemma dispatch_succeeds: "fst (dispatch reg pk)"
  by (simp add: dispatch_def split: option.splits)

text \<open>A node that receives a user command over an open route calls the subscribers and answers with
  one frame.\<close>

lemma command_answered:
  assumes "wire_ok cmd" and "msg_id (header cmd) = MSG_ID_USER_COMMAND"
    and "ready server i" and "route_open env cmd server t"
  shows "\<exists>server'. process_raw_bytes env i (serialize cmd) server = Inr server' \<and>
    invoked server' = invoked server @ snd (dispatch (dispatcher server) (received cmd)) \<and>
    al_find (determine_routing_target (system_id (header cmd)) (component_id (header cmd)) server)
      (transports server') = Some (Some (t\<lparr>outbox := outbox t @ [serialize (make_ack cmd ACCEPTED)]\<rparr>))"
proof -
  have "handle_packet env (received cmd) server = snd (send_packet env (make_ack cmd ACCEPTED)
      (server\<lparr>invoked := invoked server @ snd (dispatch (dispatcher server) (received cmd))\<rparr>))"
    using assms(2) dispatch_succeeds [of "dispatcher server" "received cmd"]
    by (auto simp: handle_packet_def make_ack_received MSG_ID_USER_COMMAND_def MSG_ID_COMMAND_ACK_def
        Let_def split: prod.splits)
  with process_one [OF assms(3,1), of env] show ?thesis
    by (auto simp: send_packet_open [OF route_open_ack [OF assms(4)]])
qed

text \<open>A link all of whose transports are closed sends nothing.\<close>

definition link_closed :: "RoCommLink \<Rightarrow> bool" where
  "link_closed l \<longleftrightarrow> (\<forall>i t. al_find i (transports l) = Some (Some t) \<longrightarrow> sockfd t < 0)"

lemma udp_send_closed: "sockfd t < 0 \<Longrightarrow> udp_send env d t = (False, t)"
  using udp.transmit_closed [of t env d] by simp

lemma al_put_same: "al_find k m = Some v \<Longrightarrow> al_put k v m = m"
  by (induction k m rule: al_find.induct) (auto split: if_splits)

lemma send_packet_closed: "link_closed l \<Longrightarrow> send_packet env pk l = (False, l)"
  by (auto simp: send_packet_def link_closed_def Let_def udp_send_closed al_put_same split: option.splits)

lemma handle_packet_closed: "link_closed l \<Longrightarrow> transports (handle_packet env pk l) = transports l"
  by (auto simp: handle_packet_def Let_def link_closed_def send_packet_closed split: prod.splits)

lemma handle_result_closed:
  "link_closed l \<Longrightarrow> handle_result env buf r l = Inr l' \<Longrightarrow> transports l' = transports l"
  by (auto simp: handle_result_def Let_def handle_packet_closed link_closed_def udp_send_closed al_put_same
      split: ParseStatus.splits option.splits)

lemma process_loop_closed:
  "link_closed l \<Longrightarrow> process_loop env buf i bs l = Inr l' \<Longrightarrow> transports l' = transports l"
proof (induction bs arbitrary: l)
  case (Cons b bs)
  then obtain p r l1 where step: "parse_byte b (the (parsers l i)) = Some (p, r)"
      "handle_result env buf r (l\<lparr>parsers := (parsers l)(i \<mapsto> p)\<rparr>) = Inr l1" "process_loop env buf i bs l1 = Inr l'"
    by (auto split: option.splits sum.splits)
  have "transports l1 = transports l"
    using handle_result_closed [OF _ step(2)] Cons.prems(1) by (simp add: link_closed_def)
  with Cons.IH [OF _ step(3)] Cons.prems(1) show ?case by (simp add: link_closed_def)
qed simp

lemma al_find_map: "al_find k (map (\<lambda>(i, t). (i, f t)) m) = map_option f (al_find k m)"
  by (induction k m rule: al_find.induct) auto

lemma stop_begin_closed: "link_closed (stop_begin l)"
  by (auto simp: link_closed_def stop_begin_def disconnect_all_def al_find_map udp_disconnect_def Let_def)

text \<open>Forwarding: the early filter that diverts a foreign frame once its header is complete.\<close>

definition header_only :: "Packet \<Rightarrow> Packet" where
  "header_only pk = \<lparr>header = (header pk)\<lparr>payload_len := of_nat (length (payload pk))\<rparr>, payload = [], checksum = 0\<rparr>"

definition diverts :: "RoCommLinkParser \<Rightarrow> Packet \<Rightarrow> bool" where
  "diverts p pk \<longleftrightarrow> st p = WaitStartOfTransmission \<and>
     (\<exists>f. early_filter_cb p = Some f \<and> f (header_only pk) WaitPayloadLength = (True, header_only pk, ForwardActive))"

lemma parse_foreign_header:
  assumes "diverts p pk" and "wire_ok pk" and "payload pk \<noteq> []"
  shows "\<exists>q. parse_bytes (serialize_header pk) p = Some (q, silent (serialize_header pk)) \<and>
    st q = ForwardActive \<and> current_packet q = header_only pk"
  using assms
  by (cases "header pk"; cases p)
     (auto simp: serialize_header_def Let_def diverts_def wire_ok_def header_only_def parser_unfold
        payload_len_small default_packet_def default_header_def)

lemma process_loop_append:
  "process_loop env buf i (xs @ ys) l =
     (case process_loop env buf i xs l of Inl e \<Rightarrow> Inl e | Inr l' \<Rightarrow> process_loop env buf i ys l')"
  by (induction xs arbitrary: l) (auto split: option.splits sum.splits)

lemma process_loop_silent:
  assumes "parsers l i = Some p" and "parse_bytes bs p = Some (p', silent bs)"
  shows "process_loop env buf i bs l = Inr (l\<lparr>parsers := (parsers l)(i \<mapsto> p')\<rparr>)"
  using process_loop_packets [OF assms] by auto

section \<open>Properties\<close>

text \<open>C9: Routing.  A rule just added decides every packet addressed to exactly its system and
  component; as a rule for component 0 it also decides the packets of its system that no exact rule
  covers; every other packet is routed as before.  Together with the default interface 0 of an
  empty table this determines the target for every sequence of rules.\<close>

theorem routing_rule_decides:
  "determine_routing_target sid cid (add_routing_rule s c out l) =
     (if s = sid \<and> c = cid then out
      else if s = sid \<and> c = 0 \<and> routing_table l (compound_key sid cid) = None then out
      else determine_routing_target sid cid l) \<and>
   (routing_table l = Map.empty \<longrightarrow> determine_routing_target sid cid l = DEFAULT_BROADCAST_INTERFACE)"
  by (auto simp: determine_routing_target_def add_routing_rule_def compound_key_inj split: option.splits)

theorem routing_rule_decides_witness:
  "determine_routing_target 5 1 (add_routing_rule 5 0 2 (init_link 1 0)) = 2 \<and>
   determine_routing_target 5 1 (init_link 1 0) = DEFAULT_BROADCAST_INTERFACE"
  using routing_rule_decides [of 5 1 5 0 2 "init_link 1 0"] by (simp add: init_link_def)


text \<open>A server with one connected transport and one subscriber, a client that has sent command 7.\<close>

definition example_command :: Packet where
  "example_command = default_packet\<lparr>
     header := default_header\<lparr>magic := 0x5A, system_id := 5, component_id := 1,
       msg_id := MSG_ID_USER_COMMAND, sequence := 7, payload_len := 2\<rparr>, payload := [10, 20]\<rparr>"

definition example_server :: RoCommLink where
  "example_server = (add_transport (Some (init_udp\<lparr>sockfd := 3\<rparr>)) 0 (init_link 1 0))
     \<lparr>dispatcher := subscribe MSG_ID_USER_COMMAND (Some 4) Map.empty\<rparr>"

definition example_client :: RoCommLink where
  "example_client = (init_link 1 0)\<lparr>command_tracker :=
     (case track 0 7 example_command init_tracker of Inr tr \<Rightarrow> tr | Inl _ \<Rightarrow> init_tracker)\<rparr>"

definition example_net :: net_env where
  "example_net = \<lparr>k_socket = 3, k_bind = 0, k_inet_pton = 1, k_sendto = (\<lambda>d. int (length d))\<rparr>"

lemma example_facts:
  "wire_ok example_command" "msg_id (header example_command) = MSG_ID_USER_COMMAND"
  "ready example_server 0" "ready example_client 0"
  "route_open example_net example_command example_server (init_udp\<lparr>sockfd := 3\<rparr>)"
  "tracker_inv (command_tracker example_client)"
  "pending (command_tracker example_client) (sequence (header example_command))"
  by (simp_all add: example_command_def example_server_def example_client_def example_net_def
      wire_ok_def ready_def route_open_def determine_routing_target_def init_link_def add_transport_def
      default_packet_def default_header_def init_udp_def DEFAULT_BROADCAST_INTERFACE_def
      track_def init_tracker_def tracker_inv_def pending_def)


text \<open>\<open>dispatch\<close> reports success whether or not anybody subscribed to the message, so a user
  command is answered with \<open>ACCEPTED\<close> even by a node with no callback at all; the code \<open>DENIED\<close> is
  never sent.\<close>

theorem command_never_denied:
  assumes "wire_ok cmd" and "msg_id (header cmd) = MSG_ID_USER_COMMAND"
    and "ready server i" and "route_open env cmd server t" and "dispatcher server = Map.empty"
  shows "\<exists>server'. process_raw_bytes env i (serialize cmd) server = Inr server' \<and>
    invoked server' = invoked server \<and>
    al_find (determine_routing_target (system_id (header cmd)) (component_id (header cmd)) server)
      (transports server') = Some (Some (t\<lparr>outbox := outbox t @ [serialize (make_ack cmd ACCEPTED)]\<rparr>))"
  using command_answered [OF assms(1-4)] assms(5) by (simp add: dispatch_def)

theorem command_never_denied_witness:
  "\<exists>server'. process_raw_bytes example_net 0 (serialize example_command)
      (example_server\<lparr>dispatcher := Map.empty\<rparr>) = Inr server' \<and> invoked server' = [] \<and>
    (\<exists>t. al_find 0 (transports server') = Some (Some t) \<and>
      outbox t = [serialize (make_ack example_command ACCEPTED)])"
proof -
  have route: "determine_routing_target (system_id (header example_command))
      (component_id (header example_command)) (example_server\<lparr>dispatcher := Map.empty\<rparr>) = 0"
    by (simp add: example_server_def init_link_def add_transport_def determine_routing_target_def
        DEFAULT_BROADCAST_INTERFACE_def)
  have opened: "route_open example_net example_command (example_server\<lparr>dispatcher := Map.empty\<rparr>) (init_udp\<lparr>sockfd := 3\<rparr>)"
    unfolding route_open_def route by (simp add: example_server_def init_link_def add_transport_def)
  have ready: "ready (example_server\<lparr>dispatcher := Map.empty\<rparr>) 0"
    using example_facts(3) by (simp add: ready_def)
  have "invoked (example_server\<lparr>dispatcher := Map.empty\<rparr>) = []"
    by (simp add: example_server_def init_link_def add_transport_def)
  with command_never_denied [OF example_facts(1,2) ready opened] show ?thesis
    unfolding route by (auto simp: init_udp_def)
qed

text \<open>Gateway forwarding.  A frame that arrives in one buffer and that the early filter diverts
  leaves byte for byte through the transport of its target, once; no callback runs, no
  acknowledgement is sent and no command is settled.  The rest of the frame must not contain a
  start byte, because the parser is back in its first state one byte into the payload.\<close>

theorem foreign_frame_forwarded:
  assumes "parsers l i = Some p" and "diverts p pk" and "wire_ok pk" and "payload pk \<noteq> []"
    and "noise (drop 11 (serialize pk))" and "route_open env pk l t"
  shows "\<exists>p'. st p' = WaitStartOfTransmission \<and> process_raw_bytes env i (serialize pk) l = Inr (l\<lparr>
    parsers := (parsers l)(i \<mapsto> p'),
    transports := al_put (determine_routing_target (system_id (header pk)) (component_id (header pk)) l)
      (Some (t\<lparr>outbox := outbox t @ [serialize pk]\<rparr>)) (transports l)\<rparr>)"
proof -
  obtain q where q: "parse_bytes (serialize_header pk) p = Some (q, silent (serialize_header pk))"
      "st q = ForwardActive" "current_packet q = header_only pk"
    using parse_foreign_header [OF assms(2-4)] by blast
  obtain b rest where frame: "serialize pk = serialize_header pk @ b # rest" and rest: "noise rest"
    using assms(4,5) by (cases "payload pk") (auto simp: serialize_def Let_def serialize_header_def)
  let ?q = "q\<lparr>st := WaitStartOfTransmission, current_packet := moved_from (header_only pk)\<rparr>"
  let ?l = "l\<lparr>parsers := (parsers l)(i \<mapsto> ?q),
    transports := al_put (determine_routing_target (system_id (header pk)) (component_id (header pk)) l)
      (Some (t\<lparr>outbox := outbox t @ [serialize pk]\<rparr>)) (transports l)\<rparr>"
  have head: "process_loop env (serialize pk) i (serialize_header pk) l = Inr (l\<lparr>parsers := (parsers l)(i \<mapsto> q)\<rparr>)"
    by (rule process_loop_silent [OF assms(1) q(1)])
  have route: "determine_routing_target s c (l\<lparr>parsers := P\<rparr>) = determine_routing_target s c l" for s c P
    by (simp add: determine_routing_target_def cong: option.case_cong)
  have byte: "parse_byte b q = Some (?q, \<lparr>pr_status = StreamForwardByte, pr_packet = Some (header_only pk)\<rparr>)"
    using q(2,3) by (cases q) (simp add: parse_byte_def)
  have "handle_result env (serialize pk) \<lparr>pr_status = StreamForwardByte, pr_packet = Some (header_only pk)\<rparr>
      (l\<lparr>parsers := (parsers l)(i \<mapsto> ?q)\<rparr>) = Inr ?l"
    using assms(6) by (simp add: handle_result_def header_only_def route route_open_def udp_send_def)
  then have "process_loop env (serialize pk) i (b # rest) (l\<lparr>parsers := (parsers l)(i \<mapsto> q)\<rparr>) =
      process_loop env (serialize pk) i rest ?l"
    by (simp add: byte)
  also have "\<dots> = Inr ?l"
    using process_loop_silent [of ?l i ?q rest ?q] parse_noise [OF rest, of ?q] by simp
  finally have "process_loop env (serialize pk) i (serialize pk) l = Inr ?l"
    by (subst (2) frame) (simp add: process_loop_append head)
  then show ?thesis
    using assms(1) by (intro exI [of _ ?q]) (simp add: process_raw_bytes_def)
qed

definition example_gateway :: RoCommLink where
  "example_gateway = example_server\<lparr>parsers := [9 \<mapsto> register_early_filter (Some gateway_filter) init_parser]\<rparr>"

theorem foreign_frame_forwarded_witness:
  "\<exists>l'. process_raw_bytes example_net 9 (serialize example_command) example_gateway = Inr l' \<and>
    transports l' = [(0, Some (init_udp\<lparr>sockfd := 3, outbox := [serialize example_command]\<rparr>))] \<and> invoked l' = []"
proof -
  let ?p = "register_early_filter (Some gateway_filter) init_parser"
  have p: "parsers example_gateway 9 = Some ?p" by (simp add: example_gateway_def)
  have d: "diverts ?p example_command"
    by (simp add: diverts_def register_early_filter_def init_parser_def gateway_filter_def header_only_def example_command_def)
  have ne: "payload example_command \<noteq> []" by (simp add: example_command_def)
  have n: "noise (drop 11 (serialize example_command))" by code_simp
  have r: "determine_routing_target (system_id (header example_command))
      (component_id (header example_command)) example_gateway = 0"
    by (simp add: example_gateway_def example_server_def init_link_def add_transport_def
        determine_routing_target_def DEFAULT_BROADCAST_INTERFACE_def)
  have o: "route_open example_net example_command example_gateway (init_udp\<lparr>sockfd := 3\<rparr>)"
    unfolding route_open_def r by (simp add: example_gateway_def example_server_def init_link_def add_transport_def)
  show ?thesis
    using foreign_frame_forwarded [OF p d example_facts(1) ne n o] unfolding r
    by (auto simp: example_gateway_def example_server_def init_link_def add_transport_def init_udp_def)
qed

text \<open>Nothing leaves a link once \<open>stop\<close> has disconnected its transports: a buffer that a worker
  still processes while the pool drains changes no transport, whatever it contains.\<close>

theorem stopped_link_is_silent:
  assumes "process_raw_bytes env i bs (stop_begin l) = Inr l'"
  shows "transports l' = transports (stop_begin l)"
proof -
  have "link_closed ((stop_begin l)\<lparr>parsers := P\<rparr>)" for P
    using stop_begin_closed [of l] by (simp add: link_closed_def)
  with assms process_loop_closed [of "stop_begin l"] process_loop_closed [of "(stop_begin l)\<lparr>parsers := P\<rparr>" for P]
  show ?thesis
    using stop_begin_closed [of l]
    by (fastforce simp: process_raw_bytes_def Let_def split: if_splits)
qed

theorem stopped_link_is_silent_witness:
  "\<exists>l'. process_raw_bytes example_net 0 (serialize example_command) (stop_begin example_server) = Inr l' \<and>
    transports l' = transports (stop_begin example_server)"
proof -
  have "ready (stop_begin example_server) 0"
    by (simp add: ready_def stop_begin_def disconnect_all_def example_server_def init_link_def add_transport_def)
  then obtain l' where "process_raw_bytes example_net 0 (serialize example_command) (stop_begin example_server) = Inr l'"
    using process_one [OF _ example_facts(1)] by blast
  with stopped_link_is_silent [OF this] show ?thesis by blast
qed

text \<open>Descriptors of the transport.  A connection that was established is closed exactly once by
  \<open>disconnect\<close>, which may be called any number of times.  When \<open>bind\<close> or the address conversion
  fails, \<open>connect\<close> closes the socket but keeps its number, so the destructor closes the same number a
  second time, by then possibly the descriptor of somebody else.\<close>

theorem transport_close_count:
  assumes "udp_connect env init_udp = Inr (ok, t)" and "k_socket env \<ge> 0"
  shows "closed (udp_disconnect t) = (if ok then [k_socket env] else [k_socket env, k_socket env]) \<and>
    udp_disconnect (udp_disconnect t) = udp_disconnect t"
  using assms by (auto simp: udp_connect_def udp_disconnect_def init_udp_def Let_def split: if_splits)

theorem transport_close_count_witness:
  "closed (udp_disconnect (snd (projr (udp_connect (example_net\<lparr>k_bind := -1\<rparr>) init_udp)))) = [3, 3] \<and>
   closed (udp_disconnect (snd (projr (udp_connect example_net init_udp)))) = [3]"
proof -
  have "udp_connect (example_net\<lparr>k_bind := -1\<rparr>) init_udp =
      Inr (False, snd (projr (udp_connect (example_net\<lparr>k_bind := -1\<rparr>) init_udp)))"
    and "udp_connect example_net init_udp = Inr (True, snd (projr (udp_connect example_net init_udp)))"
    by (simp_all add: udp_connect_def example_net_def init_udp_def)
  from this [THEN transport_close_count] show ?thesis by (simp add: example_net_def)
qed

end
