(* ===== verification/Sfd_Registry.thy ===== *)
theory Sfd_Registry
  imports Prelude
begin

text \<open>
  The descriptor registry \<open>StaticFileDescriptionRegistry\<close> of
  \<open>src/linux/common/ipc/sfd/sfd_static_registry.h\<close>: a fixed array of slots, each an atomic pair of
  descriptor and reference count, addressed by \<open>fd % MaxSlots\<close> with linear probing.

  The array is a list whose length is \<open>MaxSlots\<close>; the counts keep their 64 bits.  The loops over
  \<open>i = 0 .. MaxSlots - 1\<close> recurse over the list of the values \<open>i\<close> still to come.  The operations are
  those of one thread at a time; the atomic steps of two threads are in \<open>Sfd_Race\<close>.

  While every descriptor is below \<open>MaxSlots\<close> the registry is an exact table of reference counts: that
  is the contract \<open>ref_registry\<close> the handles rely on, interpreted here.  Two properties show what
  happens beyond it.
\<close>

section \<open>Slots and operations\<close>

record FileDescriptionRefCount =
  slot_fd :: int
  slot_count :: u64

type_synonym registry = "FileDescriptionRefCount list"

definition empty_slot :: FileDescriptionRefCount where
  "empty_slot = \<lparr>slot_fd = -1, slot_count = 0\<rparr>"

definition init_registry :: "nat \<Rightarrow> registry" where
  "init_registry MaxSlots = replicate MaxSlots empty_slot"

text \<open>\<open>static_cast<size_t>(fd) % MaxSlots\<close>.\<close>

definition get_slot_index :: "nat \<Rightarrow> int \<Rightarrow> nat" where
  "get_slot_index MaxSlots fd = nat (fd mod 2 ^ 64) mod MaxSlots"

text \<open>The slot whose mutex guards the descriptor; \<open>None\<close> is the fallback mutex.\<close>

fun mutex_scan :: "registry \<Rightarrow> int \<Rightarrow> nat \<Rightarrow> nat list \<Rightarrow> nat option" where
  "mutex_scan r fd start [] = None"
| "mutex_scan r fd start (i # is) =
     (let idx = (start + i) mod length r
      in if slot_fd (r ! idx) = fd then Some idx else mutex_scan r fd start is)"

definition get_mutex :: "registry \<Rightarrow> int \<Rightarrow> nat option" where
  "get_mutex r fd = mutex_scan r fd (get_slot_index (length r) fd) [0..<length r]"

text \<open>Step 1 of \<open>retain\<close>: the slot that holds the descriptor, if the scan meets it before an unused
  slot.\<close>

fun retain_scan :: "registry \<Rightarrow> int \<Rightarrow> nat \<Rightarrow> nat list \<Rightarrow> nat option" where
  "retain_scan r fd start [] = None"
| "retain_scan r fd start (i # is) =
     (let idx = (start + i) mod length r; current_fd = slot_fd (r ! idx)
      in if current_fd = fd then Some idx
         else if current_fd = -1 then None
         else retain_scan r fd start is)"

text \<open>Step 2: claim the first unused slot, or count up a slot that holds the descriptor by now.\<close>

fun retain_claim :: "registry \<Rightarrow> int \<Rightarrow> nat \<Rightarrow> nat list \<Rightarrow> registry" where
  "retain_claim r fd start [] = r"
| "retain_claim r fd start (i # is) =
     (let idx = (start + i) mod length r; s = r ! idx
      in if slot_fd s = -1 then r[idx := \<lparr>slot_fd = fd, slot_count = 1\<rparr>]
         else if slot_fd s = fd then r[idx := s\<lparr>slot_count := slot_count s + 1\<rparr>]
         else retain_claim r fd start is)"

definition retain :: "int \<Rightarrow> registry \<Rightarrow> registry" where
  "retain fd r =
     (if fd < 0 then r
      else
        (let initial_index = get_slot_index (length r) fd in
         case retain_scan r fd initial_index [0..<length r] of
           Some idx \<Rightarrow> r[idx := (r ! idx)\<lparr>slot_count := slot_count (r ! idx) + 1\<rparr>]
         | None \<Rightarrow> retain_claim r fd initial_index [0..<length r]))"

fun release_scan :: "registry \<Rightarrow> int \<Rightarrow> nat \<Rightarrow> nat list \<Rightarrow> bool \<times> registry" where
  "release_scan r fd start [] = (False, r)"
| "release_scan r fd start (i # is) =
     (let idx = (start + i) mod length r; s = r ! idx
      in if slot_fd s = fd
         then (let s' = s\<lparr>slot_count := slot_count s - 1\<rparr>
               in if slot_count s = 1 then (True, r[idx := s'\<lparr>slot_fd := -1\<rparr>])
                  else (False, r[idx := s']))
         else release_scan r fd start is)"

definition release :: "int \<Rightarrow> registry \<Rightarrow> bool \<times> registry" where
  "release fd r =
     (if fd < 0 then (False, r)
      else release_scan r fd (get_slot_index (length r) fd) [0..<length r])"

fun get_count :: "registry \<Rightarrow> int \<Rightarrow> u64" where
  "get_count [] fd = 0"
| "get_count (s # r) fd = (if slot_fd s = fd then slot_count s else get_count r fd)"

section \<open>The contract\<close>

text \<open>A registry that counts the references of the descriptors in \<open>valid\<close> exactly.\<close>

locale ref_registry =
  fixes valid :: "int \<Rightarrow> bool" and inv :: "'r \<Rightarrow> bool" and refs :: "'r \<Rightarrow> int \<Rightarrow> u64"
    and acquire :: "int \<Rightarrow> 'r \<Rightarrow> 'r" and drop_ref :: "int \<Rightarrow> 'r \<Rightarrow> bool \<times> 'r"
  assumes acquire_inv: "inv r \<Longrightarrow> valid fd \<Longrightarrow> refs r fd + 1 \<noteq> 0 \<Longrightarrow> inv (acquire fd r)"
    and acquire_refs: "inv r \<Longrightarrow> valid fd \<Longrightarrow> valid x \<Longrightarrow> refs r fd + 1 \<noteq> 0 \<Longrightarrow>
      refs (acquire fd r) x = refs r x + (if x = fd then 1 else 0)"
    and drop_inv: "inv r \<Longrightarrow> valid fd \<Longrightarrow> inv (snd (drop_ref fd r))"
    and drop_refs: "inv r \<Longrightarrow> valid fd \<Longrightarrow> valid x \<Longrightarrow> refs r fd \<noteq> 0 \<Longrightarrow>
      refs (snd (drop_ref fd r)) x = refs r x - (if x = fd then 1 else 0)"
    and drop_last: "inv r \<Longrightarrow> valid fd \<Longrightarrow> fst (drop_ref fd r) = (refs r fd = 1)"
begin

text \<open>A client that keeps the number \<open>c fd\<close> of references it holds, fewer than \<open>2 ^ 64\<close>.\<close>

lemma acquire_counts:
  assumes "inv r" and "valid fd" and "\<And>x. valid x \<Longrightarrow> refs r x = of_nat (c x)" and "c fd + 1 < 2 ^ 64"
  shows "inv (acquire fd r)" and "valid x \<Longrightarrow> refs (acquire fd r) x = of_nat (c x + (if x = fd then 1 else 0))"
proof -
  have "(of_nat (c fd + 1) :: u64) \<noteq> 0"
    by (rule of_nat_u64_nonzero) (use assms(4) in auto)
  then have nz: "refs r fd + 1 \<noteq> 0"
    using assms(2,3) by (simp add: add.commute)
  then show "inv (acquire fd r)"
    using assms(1,2) by (intro acquire_inv)
  show "valid x \<Longrightarrow> refs (acquire fd r) x = of_nat (c x + (if x = fd then 1 else 0))"
    using assms(1-3) acquire_refs [OF assms(1,2) _ nz] by simp
qed

lemma drop_counts:
  assumes "inv r" and "valid fd" and "\<And>x. valid x \<Longrightarrow> refs r x = of_nat (c x)"
    and "0 < c fd" and "c fd < 2 ^ 64"
  shows "inv (snd (drop_ref fd r))" and "fst (drop_ref fd r) = (c fd = 1)"
    and "valid x \<Longrightarrow> refs (snd (drop_ref fd r)) x = of_nat (c x - (if x = fd then 1 else 0))"
proof -
  have nz: "(of_nat (c fd) :: u64) \<noteq> 0"
    by (rule of_nat_u64_nonzero) (use assms(4,5) in auto)
  show "inv (snd (drop_ref fd r))"
    using assms(1,2) by (rule drop_inv)
  show "fst (drop_ref fd r) = (c fd = 1)"
    using assms of_nat_u64_inj [of "c fd" 1] by (simp add: drop_last)
  show "valid x \<Longrightarrow> refs (snd (drop_ref fd r)) x = of_nat (c x - (if x = fd then 1 else 0))"
    using assms nz by (auto simp: drop_refs of_nat_diff)
qed

end

section \<open>The registry keeps the contract below \<open>MaxSlots\<close>\<close>

text \<open>Every occupied slot is the home slot of its descriptor.\<close>

definition slot_ok :: "nat \<Rightarrow> FileDescriptionRefCount \<Rightarrow> bool" where
  "slot_ok i s \<longleftrightarrow> s = empty_slot \<or> slot_fd s = int i \<and> slot_count s \<noteq> 0"

definition registry_inv :: "nat \<Rightarrow> registry \<Rightarrow> bool" where
  "registry_inv M r \<longleftrightarrow> length r = M \<and> M \<le> 2 ^ 31 \<and>
     (\<forall>i < M. slot_ok i (r ! i))"

definition in_range :: "nat \<Rightarrow> int \<Rightarrow> bool" where
  "in_range M fd \<longleftrightarrow> 0 \<le> fd \<and> fd < int M"

lemma registry_inv_init: "M \<le> 2 ^ 31 \<Longrightarrow> registry_inv M (init_registry M)"
  by (simp add: registry_inv_def init_registry_def slot_ok_def)

lemma home_index: "registry_inv M r \<Longrightarrow> in_range M fd \<Longrightarrow> get_slot_index (length r) fd = nat fd"
  by (auto simp: registry_inv_def in_range_def get_slot_index_def nat_less_iff)

lemma upt_0: "0 < n \<Longrightarrow> [0..<n] = 0 # [1..<n]"
  by (simp add: upt_conv_Cons)

lemma get_count_absent: "\<forall>s \<in> set r. slot_fd s \<noteq> fd \<Longrightarrow> get_count r fd = 0"
  by (induction r) auto

lemma get_count_at:
  "i < length r \<Longrightarrow> slot_fd (r ! i) = fd \<Longrightarrow> (\<And>j. j < length r \<Longrightarrow> slot_fd (r ! j) = fd \<Longrightarrow> j = i) \<Longrightarrow>
   get_count r fd = slot_count (r ! i)"
proof (induction r arbitrary: i)
  case (Cons s r)
  show ?case
  proof (cases i)
    case (Suc k)
    then have "slot_fd s \<noteq> fd"
      using Cons.prems(3) [of 0] by auto
    moreover have "get_count r fd = slot_count (r ! k)"
      using Cons.prems Suc by (intro Cons.IH) (auto dest: Cons.prems(3) [of "Suc _", simplified])
    ultimately show ?thesis using Suc by simp
  qed (use Cons.prems in simp)
qed simp

lemma slot_home: "registry_inv M r \<Longrightarrow> i < length r \<Longrightarrow> slot_fd (r ! i) = fd \<Longrightarrow> 0 \<le> fd \<Longrightarrow> i = nat fd"
  by (force simp: registry_inv_def slot_ok_def empty_slot_def)

lemma home_bound: "registry_inv M r \<Longrightarrow> in_range M fd \<Longrightarrow> nat fd < length r \<and> 0 < length r"
  by (auto simp: registry_inv_def in_range_def)

lemma slot_cases:
  assumes "registry_inv M r" and "in_range M fd"
  obtains (empty) "r ! nat fd = empty_slot" "\<forall>i < length r. slot_fd (r ! i) \<noteq> fd"
  | (held) "slot_fd (r ! nat fd) = fd" "slot_count (r ! nat fd) \<noteq> 0"
proof -
  have "slot_ok (nat fd) (r ! nat fd)"
    using assms home_bound [OF assms] by (simp add: registry_inv_def)
  then consider "r ! nat fd = empty_slot" | "slot_fd (r ! nat fd) = fd" "slot_count (r ! nat fd) \<noteq> 0"
    using assms(2) by (auto simp: slot_ok_def in_range_def)
  then show ?thesis
  proof cases
    case 1
    then show ?thesis
      using empty slot_home [OF assms(1)] assms(2) by (force simp: in_range_def empty_slot_def)
  qed (rule held)
qed

lemma get_count_home:
  assumes "registry_inv M r" and "in_range M fd"
  shows "get_count r fd = slot_count (r ! nat fd)"
  using assms
proof (cases rule: slot_cases)
  case empty
  then have "get_count r fd = 0"
    by (intro get_count_absent) (auto simp: in_set_conv_nth)
  with empty show ?thesis by (simp add: empty_slot_def)
next
  case held
  then show ?thesis
    using assms slot_home [OF assms(1)] home_bound [OF assms] by (intro get_count_at) (auto simp: in_range_def)
qed

lemma retain_home:
  assumes "registry_inv M r" and "in_range M fd"
  shows "retain fd r = r[nat fd := \<lparr>slot_fd = fd, slot_count = slot_count (r ! nat fd) + 1\<rparr>]"
  using assms
proof (cases rule: slot_cases)
  case empty
  then show ?thesis
    using assms home_bound [OF assms]
    by (auto simp: retain_def home_index upt_0 in_range_def empty_slot_def Let_def)
next
  case held
  then show ?thesis
    using assms home_bound [OF assms]
    by (cases "r ! nat fd") (auto simp: retain_def home_index upt_0 in_range_def Let_def)
qed

lemma release_absent: "\<forall>i < length r. slot_fd (r ! i) \<noteq> fd \<Longrightarrow> 0 < length r \<Longrightarrow>
    release_scan r fd k is = (False, r)"
  by (induction "is") (auto simp: Let_def)

lemma release_home:
  assumes "registry_inv M r" and "in_range M fd"
  shows "release fd r = (if slot_count (r ! nat fd) = 0 then (False, r)
     else if slot_count (r ! nat fd) = 1 then (True, r[nat fd := empty_slot])
     else (False, r[nat fd := \<lparr>slot_fd = fd, slot_count = slot_count (r ! nat fd) - 1\<rparr>]))"
  using assms
proof (cases rule: slot_cases)
  case empty
  then show ?thesis
    using assms home_bound [OF assms] by (simp add: release_def release_absent in_range_def empty_slot_def)
next
  case held
  then show ?thesis
    using assms home_bound [OF assms]
    by (cases "r ! nat fd") (auto simp: release_def home_index upt_0 in_range_def empty_slot_def Let_def)
qed

lemma registry_inv_update:
  "registry_inv M r \<Longrightarrow> slot_ok (nat fd) s \<Longrightarrow> registry_inv M (r[nat fd := s])"
  by (cases "nat fd < length r") (auto simp: registry_inv_def nth_list_update)

lemma nat_fd_eq: "in_range M fd \<Longrightarrow> in_range M x \<Longrightarrow> nat fd = nat x \<longleftrightarrow> x = fd"
  by (auto simp: in_range_def)

lemma get_count_update:
  "registry_inv M r \<Longrightarrow> in_range M fd \<Longrightarrow> in_range M x \<Longrightarrow> slot_ok (nat fd) s \<Longrightarrow>
   get_count (r[nat fd := s]) x = (if x = fd then slot_count s else get_count r x)"
  using home_bound [of M r fd]
  by (simp add: get_count_home [OF registry_inv_update] get_count_home nth_list_update nat_fd_eq)

lemma slot_ok_counted: "in_range M fd \<Longrightarrow> c \<noteq> 0 \<Longrightarrow> slot_ok (nat fd) \<lparr>slot_fd = fd, slot_count = c\<rparr>"
  by (simp add: slot_ok_def in_range_def)

lemma slot_ok_empty [simp]: "slot_ok i empty_slot"
  by (simp add: slot_ok_def)

interpretation reg: ref_registry "in_range M" "registry_inv M" get_count retain release for M
proof
  fix r fd x
  assume r: "registry_inv M r" and fd: "in_range M fd"
  note home = get_count_home [OF r fd] retain_home [OF r fd] release_home [OF r fd]
    get_count_update [OF r fd] registry_inv_update [OF r, of fd] slot_ok_counted [OF fd]
  show "get_count r fd + 1 \<noteq> 0 \<Longrightarrow> registry_inv M (retain fd r)"
    by (simp add: home)
  show "in_range M x \<Longrightarrow> get_count r fd + 1 \<noteq> 0 \<Longrightarrow>
      get_count (retain fd r) x = get_count r x + (if x = fd then 1 else 0)"
    by (auto simp: home)
  show "registry_inv M (snd (release fd r))"
    using r by (simp add: home)
  show "in_range M x \<Longrightarrow> get_count r fd \<noteq> 0 \<Longrightarrow>
      get_count (snd (release fd r)) x = get_count r x - (if x = fd then 1 else 0)"
    by (auto simp: home empty_slot_def [THEN arg_cong, of slot_count])
  show "fst (release fd r) = (get_count r fd = 1)"
    by (simp add: home)
qed

section \<open>Beyond \<open>MaxSlots\<close>\<close>

text \<open>A registry reached by four calls.\<close>

definition colliding_registry :: registry where
  "colliding_registry = retain 256 (snd (release 0 (retain 256 (retain 0 (init_registry 256)))))"

text \<open>Two descriptors that share a home slot.  After \<open>retain 0; retain 256; release 0\<close> the home slot
  of 256 is unused again, and the scan of \<open>retain\<close> stops there before it meets the slot that holds
  256: a second reference to 256 is entered in a second slot.  The first \<open>release\<close> of one of the two
  then asks for the descriptor to be closed while the other is still in use.\<close>

theorem early_break_duplicates:
  "length (filter (\<lambda>s. slot_fd s = 256) colliding_registry) = 2 \<and>
   get_count colliding_registry 256 = 1 \<and> fst (release 256 colliding_registry)"
  by code_simp

lemma full_scan:
  "0 < length r \<Longrightarrow> \<forall>s \<in> set r. slot_fd s \<noteq> -1 \<and> slot_fd s \<noteq> fd \<Longrightarrow>
   retain_scan r fd k is = None \<and> retain_claim r fd k is = r \<and> release_scan r fd k is = (False, r)"
  by (induction "is") (auto simp: Let_def)

text \<open>A registry whose slots all hold other descriptors ignores a new one without a sign of it: the
  reference is not counted, and when the handle is dropped \<open>release\<close> never asks for the close.\<close>

theorem full_registry_ignores:
  assumes "0 < length r" and "\<forall>s \<in> set r. slot_fd s \<noteq> -1 \<and> slot_fd s \<noteq> fd"
  shows "retain fd r = r \<and> get_count (retain fd r) fd = 0 \<and> release fd (retain fd r) = (False, r)"
proof -
  have "retain fd r = r"
    using full_scan [OF assms] by (simp add: retain_def Let_def)
  then show ?thesis
    using full_scan [OF assms] assms(2) by (simp add: release_def get_count_absent)
qed

theorem full_registry_ignores_witness:
  "retain 7 (retain 0 (retain 1 (init_registry 2))) = retain 0 (retain 1 (init_registry 2))"
proof -
  have "\<forall>s \<in> set (retain 0 (retain 1 (init_registry 2))). slot_fd s \<noteq> -1 \<and> slot_fd s \<noteq> 7"
    and "0 < length (retain 0 (retain 1 (init_registry 2)))"
    by code_simp+
  then show ?thesis
    using full_registry_ignores by blast
qed

end
