(* ===== verification/Sfd_Race.thy ===== *)
theory Sfd_Race
  imports Sfd_Registry
begin

text \<open>
  The registry operations of \<open>sfd_static_registry.h\<close> as several threads see them: one step per atomic
  operation on a slot (a load, a compare-and-swap, a fetch-and-add or a store).  Run by one thread
  alone, the steps compute exactly the operations of \<open>Sfd_Registry\<close>; a schedule of two threads shows
  that the comment \<open>lock-free data synchronization\<close> promises more than the code keeps.
\<close>

section \<open>Atomic steps\<close>

datatype pc = RetainScan nat | RetainAdd nat | RetainClaim nat | RetainStore nat
  | ReleaseScan nat | ReleaseSub nat | ReleaseStore nat | Returned bool

definition probe :: "registry \<Rightarrow> int \<Rightarrow> nat \<Rightarrow> nat" where
  "probe r fd i = (get_slot_index (length r) fd + i) mod length r"

fun atomic_step :: "int \<Rightarrow> pc \<times> registry \<Rightarrow> pc \<times> registry" where
  "atomic_step fd (RetainScan i, r) =
     (if i < length r then
        (let idx = probe r fd i; current_fd = slot_fd (r ! idx)
         in (if current_fd = fd then RetainAdd idx
             else if current_fd = -1 then RetainClaim 0
             else RetainScan (i + 1), r))
      else (RetainClaim 0, r))"
| "atomic_step fd (RetainAdd idx, r) =
     (Returned False, r[idx := (r ! idx)\<lparr>slot_count := slot_count (r ! idx) + 1\<rparr>])"
| "atomic_step fd (RetainClaim i, r) =
     (if i < length r then
        (let idx = probe r fd i
         in if slot_fd (r ! idx) = -1 then (RetainStore idx, r[idx := (r ! idx)\<lparr>slot_fd := fd\<rparr>])
            else (if slot_fd (r ! idx) = fd then RetainAdd idx else RetainClaim (i + 1), r))
      else (Returned False, r))"
| "atomic_step fd (RetainStore idx, r) = (Returned False, r[idx := (r ! idx)\<lparr>slot_count := 1\<rparr>])"
| "atomic_step fd (ReleaseScan i, r) =
     (if i < length r then
        (let idx = probe r fd i
         in (if slot_fd (r ! idx) = fd then ReleaseSub idx else ReleaseScan (i + 1), r))
      else (Returned False, r))"
| "atomic_step fd (ReleaseSub idx, r) =
     (if slot_count (r ! idx) = 1 then ReleaseStore idx else Returned False,
      r[idx := (r ! idx)\<lparr>slot_count := slot_count (r ! idx) - 1\<rparr>])"
| "atomic_step fd (ReleaseStore idx, r) = (Returned True, r[idx := (r ! idx)\<lparr>slot_fd := -1\<rparr>])"
| "atomic_step fd (Returned b, r) = (Returned b, r)"

text \<open>A schedule: the thread that moves next, again and again.  Each thread works on one descriptor.\<close>

fun run_schedule :: "nat list \<Rightarrow> (int \<times> pc) list \<times> registry \<Rightarrow> (int \<times> pc) list \<times> registry" where
  "run_schedule [] s = s"
| "run_schedule (t # ts) (threads, r) =
     (let (fd, pc) = threads ! t; (pc', r') = atomic_step fd (pc, r)
      in run_schedule ts (threads[t := (fd, pc')], r'))"

section \<open>One thread alone\<close>

inductive reaches :: "int \<Rightarrow> pc \<times> registry \<Rightarrow> pc \<times> registry \<Rightarrow> bool" for fd where
  here: "reaches fd s s"
| move: "reaches fd (atomic_step fd s) s' \<Longrightarrow> reaches fd s s'"

lemma add_alone:
  "reaches fd (RetainAdd idx, r) (Returned False, r[idx := (r ! idx)\<lparr>slot_count := slot_count (r ! idx) + 1\<rparr>])"
  by (rule reaches.move) (simp add: reaches.here)

lemma store_alone:
  "idx < length r \<Longrightarrow> reaches fd (RetainStore idx, r[idx := (r ! idx)\<lparr>slot_fd := fd\<rparr>])
     (Returned False, r[idx := \<lparr>slot_fd = fd, slot_count = 1\<rparr>])"
  by (rule reaches.move) (cases "r ! idx", simp add: reaches.here)

lemma sub_alone:
  assumes "idx < length r"
  shows "reaches fd (ReleaseSub idx, r)
    (let s' = (r ! idx)\<lparr>slot_count := slot_count (r ! idx) - 1\<rparr>
     in if slot_count (r ! idx) = 1 then (Returned True, r[idx := s'\<lparr>slot_fd := -1\<rparr>])
        else (Returned False, r[idx := s']))"
proof (cases "slot_count (r ! idx) = 1")
  case True
  then show ?thesis
    using assms by (intro reaches.move [of fd "(ReleaseSub idx, r)"] reaches.move [of fd "atomic_step fd (ReleaseSub idx, r)"])
      (simp add: Let_def reaches.here)
next
  case False
  then show ?thesis
    by (intro reaches.move [of fd "(ReleaseSub idx, r)"]) (simp add: Let_def reaches.here)
qed

lemma probe_bound: "i < length r \<Longrightarrow> probe r fd i < length r"
  by (simp add: probe_def) (metis gr_implies_not0 mod_less_divisor neq0_conv)

text \<open>The list of the remaining values of a loop counter.\<close>

lemma upt_step: "Suc n = length r - i \<Longrightarrow> i < length r \<and> [i..<length r] = i # [Suc i..<length r] \<and> n = length r - Suc i"
  by (auto simp: upt_conv_Cons)

lemma claim_alone:
  "fd \<noteq> -1 \<Longrightarrow> reaches fd (RetainClaim i, r)
    (Returned False, retain_claim r fd (get_slot_index (length r) fd) [i..<length r])"
proof (induction "length r - i" arbitrary: i)
  case (Suc n)
  note upt = upt_step [OF Suc(2)]
  from Suc upt show ?case
    using probe_bound [of i r fd]
    by (intro reaches.move [of fd "(RetainClaim i, r)"])
       (simp add: Let_def add_alone store_alone flip: probe_def)
qed (simp add: reaches.move [of fd "(RetainClaim _, _)"] reaches.here)

lemma scan_alone:
  assumes "fd \<noteq> -1"
  shows "reaches fd (RetainScan i, r) (Returned False,
    (case retain_scan r fd (get_slot_index (length r) fd) [i..<length r] of
       Some idx \<Rightarrow> r[idx := (r ! idx)\<lparr>slot_count := slot_count (r ! idx) + 1\<rparr>]
     | None \<Rightarrow> retain_claim r fd (get_slot_index (length r) fd) [0..<length r]))"
proof (induction "length r - i" arbitrary: i)
  case (Suc n)
  note upt = upt_step [OF Suc(2)]
  from Suc upt show ?case
    using claim_alone [OF assms, of 0 r]
    by (intro reaches.move [of fd "(RetainScan i, r)"]) (simp add: Let_def add_alone flip: probe_def)
qed (use claim_alone [OF assms, of 0] in \<open>simp add: reaches.move [of fd "(RetainScan _, _)"]\<close>)

lemma release_alone:
  "reaches fd (ReleaseScan i, r) (map_prod Returned id (release_scan r fd (get_slot_index (length r) fd) [i..<length r]))"
proof (induction "length r - i" arbitrary: i)
  case (Suc n)
  note upt = upt_step [OF Suc(2)]
  from Suc upt show ?case
    using sub_alone [OF probe_bound [of i r fd], of fd]
    by (intro reaches.move [of fd "(ReleaseScan i, r)"]) (auto simp: Let_def split: if_splits simp flip: probe_def)
qed (simp add: reaches.move [of fd "(ReleaseScan _, _)"] reaches.here)

section \<open>Properties\<close>



definition racing_schedule :: "nat list" where
  "racing_schedule = [0, 0, 1, 1, 0]"

text \<open>Two threads that retain the same new descriptor.  The first claims the slot; before it stores
  the count, the second finds the descriptor and adds its reference; the store then overwrites it.
  Both have returned, the count is 1, and the first release asks for the descriptor to be closed
  although the other reference is alive.\<close>

theorem concurrent_retain_loses_reference:
  "run_schedule racing_schedule ([(5, RetainScan 0), (5, RetainScan 0)], init_registry 8) =
     ([(5, Returned False), (5, Returned False)], retain 5 (init_registry 8)) \<and>
   fst (release 5 (retain 5 (init_registry 8)))"
  by code_simp

end
