(* ===== verification/Ipc_Util.thy ===== *)
theory Ipc_Util
  imports Prelude "HOL-Library.Sublist"
begin

text \<open>
  The compile-time utilities of \<open>src/linux/common/util/constexpr_util.h\<close>: the bitwise CRC-32 that the
  IPC packets carry, the FNV-style hash, and the functions that cut names out of paths and compiler
  signatures.  Strings that are hashed or summed are byte lists; names are strings, with the
  \<open>std::string_view\<close> searches they use.  A search returns \<open>None\<close> for \<open>npos\<close>.
\<close>

section \<open>CRC-32\<close>

definition crc_poly :: u32 where "crc_poly = 0xEDB88320"

definition crc_bit :: "u32 \<Rightarrow> u32" where
  "crc_bit crc = drop_bit 1 crc XOR (crc_poly AND - (crc AND 1))"

definition crc_byte :: "u32 \<Rightarrow> u8 \<Rightarrow> u32" where
  "crc_byte crc b = (crc_bit ^^ 8) (crc XOR ucast b)"

fun crc_bytes :: "u32 \<Rightarrow> bytes \<Rightarrow> u32" where
  "crc_bytes crc [] = crc"
| "crc_bytes crc (b # bs) = crc_bytes (crc_byte crc b) bs"

definition calculate_crc32 :: "bytes \<Rightarrow> u32" where
  "calculate_crc32 data = NOT (crc_bytes 0xFFFFFFFF data)"

section \<open>Hash\<close>

text \<open>\<open>static_cast<uint64_t>(c)\<close> of a signed \<open>char\<close> extends the sign.\<close>

definition hash_step :: "u64 \<Rightarrow> u8 \<Rightarrow> u64" where
  "hash_step h c = (h XOR scast c) * 0x100000001b3"

definition const_hash :: "bytes \<Rightarrow> u64" where
  "const_hash str = foldl hash_step 0xcbf29ce484222325 str"

section \<open>Names\<close>

fun find_first :: "(char \<Rightarrow> bool) \<Rightarrow> string \<Rightarrow> nat option" where
  "find_first P [] = None"
| "find_first P (c # s) = (if P c then Some 0 else map_option Suc (find_first P s))"

fun find_last :: "(char \<Rightarrow> bool) \<Rightarrow> string \<Rightarrow> nat option" where
  "find_last P [] = None"
| "find_last P (c # s) =
     (case find_last P s of Some i \<Rightarrow> Some (Suc i) | None \<Rightarrow> if P c then Some 0 else None)"

text \<open>\<open>find\<close> of a string.\<close>

fun find_sub :: "string \<Rightarrow> string \<Rightarrow> nat option" where
  "find_sub pat [] = (if pat = [] then Some 0 else None)"
| "find_sub pat (c # s) = (if prefix pat (c # s) then Some 0 else map_option Suc (find_sub pat s))"

definition trim_source_path :: "string \<Rightarrow> string" where
  "trim_source_path filepath =
     (if filepath = [] then ''unknown''
      else case find_last (\<lambda>c. c \<in> set [CHR ''/'', CHR 0x5C]) filepath of
        Some last_slash \<Rightarrow> drop (last_slash + 1) filepath
      | None \<Rightarrow> filepath)"

text \<open>\<open>name\<close> is what the compiler puts for \<open>__PRETTY_FUNCTION__\<close>.  The first \<open>start\<close> of the source is
  shadowed and never used.\<close>

definition get_enum_name :: "bool \<Rightarrow> string \<Rightarrow> string" where
  "get_enum_name clang name =
     (let fin = (if clang then find_first (\<lambda>c. c = CHR '']'') name
                 else case find_first (\<lambda>c. c = CHR '';'') name of
                   Some i \<Rightarrow> Some i
                 | None \<Rightarrow> find_first (\<lambda>c. c = CHR '']'') name)
      in case fin of
           None \<Rightarrow> ''''
         | Some e \<Rightarrow>
             (let sub = take e name in
              case find_last (\<lambda>c. c = CHR '':'' \<or> c = CHR '' '') sub of
                Some start \<Rightarrow> drop (start + 1) sub
              | None \<Rightarrow> ''''))"

text \<open>\<open>None\<close>: the function ends without a return statement.\<close>

definition get_type_name :: "string \<Rightarrow> string option" where
  "get_type_name name =
     (case find_sub ''T = '' name of
        Some start \<Rightarrow>
          (let rest = drop (start + 4) name in
           Some (case find_first (\<lambda>c. c = CHR '';'' \<or> c = CHR '']'') rest of
                   Some e \<Rightarrow> take e rest
                 | None \<Rightarrow> rest))
      | None \<Rightarrow> None)"

definition get_class_name :: "string \<Rightarrow> string" where
  "get_class_name func_sig =
     (let dynamic_part = (case find_first (\<lambda>c. c = CHR ''('') func_sig of
                            Some paren \<Rightarrow> take paren func_sig | None \<Rightarrow> func_sig);
          method_sig = (case find_last (\<lambda>c. c = CHR '' '') dynamic_part of
                          Some last_space \<Rightarrow> drop (last_space + 1) dynamic_part | None \<Rightarrow> dynamic_part)
      in case find_last (\<lambda>c. c = CHR '':'') method_sig of
           None \<Rightarrow> ''Global''
         | Some scope_pos \<Rightarrow>
             if scope_pos = 0 \<or> method_sig ! (scope_pos - 1) \<noteq> CHR '':'' then ''Global''
             else
               (let class_part = take (scope_pos - 1) method_sig;
                    pure_class = (case find_last (\<lambda>c. c = CHR '':'') class_part of
                                    Some last_ns_pos \<Rightarrow> drop (last_ns_pos + 1) class_part
                                  | None \<Rightarrow> class_part)
                in case find_first (\<lambda>c. c = CHR ''<'') pure_class of
                     Some template_pos \<Rightarrow> take template_pos pure_class
                   | None \<Rightarrow> pure_class))"

section \<open>The CRC register\<close>

lemma crc_bit_alt: "crc_bit z = drop_bit 1 z XOR (if odd z then crc_poly else 0)"
proof -
  have "z AND 1 = (if odd z then 1 else 0)"
    by (simp add: and_one_eq odd_iff_mod_2_eq_one)
  then show ?thesis
    by (simp add: crc_bit_def)
qed

lemma odd_xor: "odd (x XOR y :: u32) \<longleftrightarrow> (odd x \<noteq> odd y)"
  by (simp add: even_xor_iff)

lemma crc_bit_xor: "crc_bit (x XOR y) = crc_bit x XOR crc_bit y"
  by (simp add: crc_bit_alt odd_xor drop_bit_xor ac_simps)

lemma crc_bits_xor: "(crc_bit ^^ n) (x XOR y) = (crc_bit ^^ n) x XOR (crc_bit ^^ n) y"
  by (induction n) (simp_all add: crc_bit_xor)

lemma xor_cancel_right: "x XOR a = y XOR a \<longleftrightarrow> x = y" for x y a :: u32
proof
  assume "x XOR a = y XOR a"
  then have "(x XOR a) XOR a = (y XOR a) XOR a" by simp
  then show "x = y" by (simp add: xor.assoc)
qed simp

lemma xor_cancel_left: "a XOR x = a XOR y \<longleftrightarrow> x = y" for x y a :: u32
  using xor_cancel_right [of x a y] by (simp add: xor.commute)

lemma crc_bit_0 [simp]: "crc_bit 0 = 0"
  by (simp add: crc_bit_alt)

lemma crc_bit_eq_0: "crc_bit z = 0 \<Longrightarrow> z = 0"
proof -
  assume zero: "crc_bit z = 0"
  have "bit crc_poly 31"
    by code_simp
  moreover have "\<not> bit (drop_bit 1 z) 31"
    using bit_imp_le_length [of z 32] by (auto simp: bit_drop_bit_eq)
  ultimately have "bit (crc_bit z) 31 = odd z"
    by (simp add: crc_bit_alt bit_xor_iff)
  with zero have even: "even z" by simp
  with zero have shifted: "drop_bit 1 z = 0"
    by (simp add: crc_bit_alt)
  have "\<not> bit z n" for n
  proof (cases n)
    case 0
    with even show ?thesis by (simp add: bit_0)
  next
    case (Suc m)
    with fun_cong [OF bit_drop_bit_eq [of 1 z], of m] show ?thesis
      unfolding shifted by simp
  qed
  then show "z = 0"
    by (intro bit_word_eqI) simp
qed

lemma crc_bits_inj: "(crc_bit ^^ n) x = (crc_bit ^^ n) y \<longleftrightarrow> x = y"
proof
  have zero: "(crc_bit ^^ n) z = 0 \<Longrightarrow> z = 0" for z
    by (induction n) (auto dest: crc_bit_eq_0)
  assume "(crc_bit ^^ n) x = (crc_bit ^^ n) y"
  then have "(crc_bit ^^ n) (x XOR y) = 0"
    by (simp add: crc_bits_xor)
  from zero [OF this] show "x = y"
    using xor_cancel_right [of x y y] by simp
qed simp

text \<open>Up to four bytes as one word, first byte lowest.\<close>

fun word_of :: "bytes \<Rightarrow> u32" where
  "word_of [] = 0"
| "word_of (b # bs) = ucast b XOR push_bit 8 (word_of bs)"

lemma word_of_bound: "length bs \<le> 4 \<Longrightarrow> 8 * length bs \<le> n \<Longrightarrow> \<not> bit (word_of bs) n"
proof (induction bs arbitrary: n)
  case (Cons b bs)
  then show ?case
    using Cons.IH [of "n - 8"] by (auto simp: bit_xor_iff bit_ucast_iff bit_push_bit_iff dest: bit_imp_le_length)
qed simp

lemma crc_bit_push:
  assumes "n < 32" and "\<And>k. 31 - n \<le> k \<Longrightarrow> \<not> bit x k"
  shows "crc_bit (push_bit (Suc n) x) = push_bit n x"
proof -
  have "bit (drop_bit 1 (push_bit (Suc n) x)) k = bit (push_bit n x) k" if "k < 32" for k
    using that assms by (cases "k = 31") (auto simp only: bit_drop_bit_eq bit_push_bit_iff comp_apply, auto)
  then have "drop_bit 1 (push_bit (Suc n) x) = push_bit n x"
    by (intro bit_word_eqI) simp
  moreover have "even (push_bit (Suc n) x)"
    by (simp add: push_bit_Suc)
  ultimately show ?thesis
    by (simp add: crc_bit_alt)
qed

lemma crc_bits_push:
  assumes "n \<le> 32" and "\<And>k. 32 - n \<le> k \<Longrightarrow> \<not> bit x k"
  shows "(crc_bit ^^ n) (push_bit n x) = x"
  using assms
proof (induction n)
  case (Suc n)
  have "crc_bit (push_bit (Suc n) x) = push_bit n x"
    using Suc.prems by (intro crc_bit_push) auto
  moreover have "(crc_bit ^^ n) (push_bit n x) = x"
    using Suc.prems by (intro Suc.IH) auto
  ultimately show ?case
    by (simp only: funpow_Suc_right comp_apply)
qed simp

lemma crc_bytes_word:
  "length bs \<le> 4 \<Longrightarrow> crc_bytes crc bs = (crc_bit ^^ (8 * length bs)) (crc XOR word_of bs)"
proof (induction bs arbitrary: crc)
  case (Cons b bs)
  have "(crc_bit ^^ 8) (push_bit 8 (word_of bs)) = word_of bs"
    using Cons.prems by (intro crc_bits_push word_of_bound) auto
  then have "crc_byte crc b XOR word_of bs = (crc_bit ^^ 8) (crc XOR word_of (b # bs))"
    by (simp add: crc_byte_def crc_bits_xor ac_simps)
  moreover have "(crc_bit ^^ (8 * length (b # bs))) z = (crc_bit ^^ (8 * length bs)) ((crc_bit ^^ 8) z)" for z
    using funpow_add [of "8 * length bs" 8 crc_bit] by (simp only: length_Cons mult_Suc_right add.commute comp_apply)
  ultimately show ?case
    using Cons by simp
qed simp

lemma word_of_inj: "length xs = length ys \<Longrightarrow> length xs \<le> 4 \<Longrightarrow> word_of xs = word_of ys \<Longrightarrow> xs = ys"
proof (induction xs ys rule: list_induct2)
  case (Cons x xs y ys)
  have split: "bit (word_of (b # bs)) n = (if n < 8 then bit b n else n < 32 \<and> bit (word_of bs) (n - 8))"
    for b bs and n :: nat
    by (auto simp: bit_xor_iff bit_ucast_iff bit_push_bit_iff dest: bit_imp_le_length)
  have eq: "bit (word_of (x # xs)) n = bit (word_of (y # ys)) n" for n
    using Cons.prems by simp
  have "bit x n = bit y n" if "n < 8" for n
    using eq [of n] that unfolding split by simp
  then have "x = y"
    by (intro bit_word_eqI) simp
  have "bit (word_of xs) n = bit (word_of ys) n" if "n < 32" for n
  proof (cases "n < 24")
    case True
    then show ?thesis using eq [of "n + 8"] unfolding split by simp
  next
    case False
    then show ?thesis
      using Cons.hyps Cons.prems word_of_bound [of xs n] word_of_bound [of ys n] by simp
  qed
  then have "word_of xs = word_of ys"
    by (intro bit_word_eqI) simp
  with Cons \<open>x = y\<close> show ?case by simp
qed simp

lemma crc_bytes_append: "crc_bytes crc (xs @ ys) = crc_bytes (crc_bytes crc xs) ys"
  by (induction xs arbitrary: crc) simp_all

lemma crc_bytes_inj: "crc_bytes c xs = crc_bytes c' xs \<longleftrightarrow> c = c'"
proof (induction xs arbitrary: c c')
  case (Cons b xs)
  then show ?case
    by (simp add: crc_byte_def crc_bits_inj xor_cancel_right)
qed simp

section \<open>Searches and the hash step\<close>

lemma find_first_None: "find_first P s = None \<longleftrightarrow> (\<forall>c \<in> set s. \<not> P c)"
  by (induction s) auto

lemma find_last_None: "find_last P s = None \<longleftrightarrow> (\<forall>c \<in> set s. \<not> P c)"
  by (induction s) (auto split: option.splits)

lemma find_first_at: "\<forall>c \<in> set xs. \<not> P c \<Longrightarrow> P c \<Longrightarrow> find_first P (xs @ c # ys) = Some (length xs)"
  by (induction xs) auto

lemma find_last_at: "\<forall>c \<in> set ys. \<not> P c \<Longrightarrow> P c \<Longrightarrow> find_last P (xs @ c # ys) = Some (length xs)"
  by (induction xs) (auto simp: find_last_None [THEN iffD2])

lemma ucast_scast_u64: "ucast (scast (c :: u8) :: u64) = c"
  by (rule bit_word_eqI) (simp add: bit_ucast_iff bit_word_scast_iff)

lemma scast_inj: "(scast (c :: u8) :: u64) = scast d \<longleftrightarrow> c = d"
  by (metis ucast_scast_u64)

lemma hash_inverse: "0x100000001b3 * 0xce965057aff6957b = (1 :: u64)"
  by code_simp

lemma hash_mult_inj: "x * 0x100000001b3 = y * 0x100000001b3 \<longleftrightarrow> x = y" for x y :: u64
proof
  assume "x * 0x100000001b3 = y * 0x100000001b3"
  then have "x * (0x100000001b3 * 0xce965057aff6957b) = y * (0x100000001b3 * 0xce965057aff6957b)"
    by (simp only: mult.assoc [symmetric])
  then show "x = y" unfolding hash_inverse by simp
qed simp

lemma xor_cancel_u64: "x XOR a = y XOR a \<longleftrightarrow> x = y" for x y a :: u64
proof
  assume "x XOR a = y XOR a"
  then have "(x XOR a) XOR a = (y XOR a) XOR a" by simp
  then show "x = y" by (simp add: xor.assoc)
qed simp

lemma hash_step_inj: "hash_step h c = hash_step h' c \<longleftrightarrow> h = h'" "hash_step h c = hash_step h d \<longleftrightarrow> c = d"
  using xor_cancel_u64 [of "scast c" h "scast d"]
  by (simp_all add: hash_step_def hash_mult_inj xor_cancel_u64 scast_inj xor.commute)

lemma hash_fold_inj: "foldl hash_step h s = foldl hash_step h' s \<longleftrightarrow> h = h'"
  by (induction s arbitrary: h h') (simp_all add: hash_step_inj)

lemma crc_burst_differs:
  assumes "length xs = length ys" and "length xs \<le> 4" and "xs \<noteq> ys"
  shows "calculate_crc32 (pre @ xs @ post) \<noteq> calculate_crc32 (pre @ ys @ post)"
proof -
  have "crc_bytes c xs \<noteq> crc_bytes c ys" for c
  proof
    assume "crc_bytes c xs = crc_bytes c ys"
    then have "c XOR word_of xs = c XOR word_of ys"
      using assms(1,2) by (simp add: crc_bytes_word crc_bits_inj)
    then have "word_of xs = word_of ys"
      by (simp only: xor_cancel_left)
    with assms word_of_inj show False by blast
  qed
  then show ?thesis
    by (simp add: calculate_crc32_def crc_bytes_append crc_bytes_inj)
qed

section \<open>Properties\<close>

text \<open>C16: Error detection.  Two messages of the same length that differ only within four consecutive
  bytes have different CRC-32 values, wherever the difference is and whatever surrounds it.\<close>

theorem crc32_detects_burst:
  assumes "length xs = length ys" and "length xs \<le> 4" and "xs \<noteq> ys"
  shows "calculate_crc32 (pre @ xs @ post) \<noteq> calculate_crc32 (pre @ ys @ post)"
  using assms by (rule crc_burst_differs)

theorem crc32_detects_burst_witness:
  "calculate_crc32 [1, 2, 3, 4, 5] \<noteq> calculate_crc32 [1, 9, 9, 9, 5]"
  using crc32_detects_burst [of "[2, 3, 4]" "[9, 9, 9]" "[1]" "[5]"] by simp

text \<open>\<open>const_hash\<close> tells apart any two strings of the same length that differ in one character.\<close>

theorem const_hash_one_char:
  assumes "c \<noteq> d"
  shows "const_hash (pre @ c # post) \<noteq> const_hash (pre @ d # post)"
  using assms by (simp add: const_hash_def hash_fold_inj hash_step_inj)

theorem const_hash_one_char_witness: "const_hash [104, 105] \<noteq> const_hash [104, 106]"
  using const_hash_one_char [of 105 106 "[104]" "[]"] by simp

text \<open>FNV-1a on octets.\<close>

definition fnv1a :: "bytes \<Rightarrow> u64" where
  "fnv1a str = foldl (\<lambda>h c. (h XOR ucast c) * 0x100000001b3) 0xcbf29ce484222325 str"

text \<open>The documentation of \<open>const_hash\<close> names FNV-1a, which feeds octets.  A character from 128 on is
  sign-extended first, and the hash differs from the FNV-1a value of the same bytes.\<close>

theorem const_hash_is_not_fnv1a: "const_hash [0x61] = fnv1a [0x61] \<and> const_hash [0xC3, 0xA9] \<noteq> fnv1a [0xC3, 0xA9]"
  by code_simp

text \<open>\<open>trim_source_path\<close> returns what follows the last slash or backslash of a path, and a path
  without one unchanged.\<close>

theorem trim_source_path_basename:
  assumes "sep = CHR ''/'' \<or> sep = CHR 0x5C" and "CHR ''/'' \<notin> set name" and "CHR 0x5C \<notin> set name"
  shows "trim_source_path (dir @ sep # name) = name \<and> (name \<noteq> [] \<longrightarrow> trim_source_path name = name)"
proof -
  let ?P = "\<lambda>c. c \<in> set [CHR ''/'', CHR 0x5C]"
  have none: "\<forall>c \<in> set name. \<not> ?P c" using assms(2,3) by auto
  have "?P sep" using assms(1) by auto
  with find_last_at [OF none] none show ?thesis
    by (simp add: trim_source_path_def find_last_None [THEN iffD2] del: set_simps)
qed

theorem trim_source_path_basename_witness: "trim_source_path ''src/ipc/pipe.cpp'' = ''pipe.cpp''"
  using trim_source_path_basename [of "CHR ''/''" "''pipe.cpp''" "''src/ipc''"] by simp

text \<open>\<open>get_class_name\<close> on the signature of a member function: whatever the return type, the enclosing
  namespaces, the template arguments of the class and the parameters, it returns the bare name of the
  class.\<close>

theorem get_class_name_member:
  assumes "CHR ''('' \<notin> set ret"
    and "ns = [] \<or> (\<exists>n. ns = n @ '':'')" and "CHR ''('' \<notin> set ns" and "CHR '' '' \<notin> set ns"
    and "set cls \<inter> {CHR ''('', CHR '' '', CHR '':'', CHR ''<''} = {}"
    and "targs = [] \<or> (\<exists>a. targs = CHR ''<'' # a)" and "set targs \<inter> {CHR ''('', CHR '' '', CHR '':''} = {}"
    and "set member \<inter> {CHR ''('', CHR '' '', CHR '':''} = {}"
  shows "get_class_name (ret @ '' '' @ ns @ cls @ targs @ ''::'' @ member @ ''('' @ args) = cls"
proof -
  let ?cp = "ns @ cls @ targs"
  let ?m = "?cp @ '':'' @ CHR '':'' # member"
  let ?d = "ret @ CHR '' '' # ?m"
  have sig: "ret @ '' '' @ ns @ cls @ targs @ ''::'' @ member @ ''('' @ args = ?d @ CHR ''('' # args"
    by simp
  have paren: "find_first (\<lambda>c. c = CHR ''('') (?d @ CHR ''('' # args) = Some (length ?d)"
    using assms by (intro find_first_at) auto
  have space: "find_last (\<lambda>c. c = CHR '' '') (ret @ CHR '' '' # ?m) = Some (length ret)"
    using assms by (intro find_last_at) auto
  have scope: "find_last (\<lambda>c. c = CHR '':'') ?m = Some (length (?cp @ '':''))"
    using find_last_at [of member "\<lambda>c. c = CHR '':''" "CHR '':''" "?cp @ '':''"] assms(8) by auto
  have pure: "(case find_last (\<lambda>c. c = CHR '':'') ?cp of Some p \<Rightarrow> drop (p + 1) ?cp | None \<Rightarrow> ?cp) = cls @ targs"
  proof (cases "ns = []")
    case True
    have "find_last (\<lambda>c. c = CHR '':'') (cls @ targs) = None"
      using assms(5,7) by (auto simp: find_last_None)
    with True show ?thesis by simp
  next
    case False
    then obtain n where n: "ns = n @ '':''" using assms(2) by blast
    have "find_last (\<lambda>c. c = CHR '':'') (n @ CHR '':'' # cls @ targs) = Some (length n)"
      using assms(5,7) by (intro find_last_at) auto
    with n show ?thesis by simp
  qed
  have template: "(case find_first (\<lambda>c. c = CHR ''<'') (cls @ targs) of Some p \<Rightarrow> take p (cls @ targs) | None \<Rightarrow> cls @ targs) = cls"
  proof (cases "targs = []")
    case True
    have "find_first (\<lambda>c. c = CHR ''<'') cls = None"
      using assms(5) by (auto simp: find_first_None)
    with True show ?thesis by simp
  next
    case False
    then obtain a where a: "targs = CHR ''<'' # a" using assms(6) by blast
    have "find_first (\<lambda>c. c = CHR ''<'') (cls @ CHR ''<'' # a) = Some (length cls)"
      using assms(5) by (intro find_first_at) auto
    with a show ?thesis by simp
  qed
  have dyn: "take (length ?d) (?d @ CHR ''('' # args) = ?d"
    by (rule append_eq_conv_conj [THEN iffD1, THEN conjunct1, symmetric]) simp
  have meth: "drop (length ret + 1) ?d = ?m" by simp
  have colon: "\<not> (length (?cp @ '':'') = 0 \<or> ?m ! (length (?cp @ '':'') - 1) \<noteq> CHR '':'')"
    by (simp add: nth_append)
  have cp: "take (length (?cp @ '':'') - 1) ?m = ?cp" by simp
  show ?thesis
    unfolding sig get_class_name_def paren Let_def option.case dyn space meth scope cp pure
    using template colon by simp
qed

theorem get_class_name_member_witness:
  "get_class_name ''bool HarisLinux::PosixPipe<Server>::send_packet(int)'' = ''PosixPipe''"
  using get_class_name_member [of "''bool''" "''HarisLinux::''" "''PosixPipe''" "''<Server>''" "''send_packet''" "''int)''"]
  by auto

text \<open>\<open>get_enum_name\<close> is meant to return the name of an enumerator.  On a GCC signature, which
  lists the template parameters separated by semicolons, the text is cut at the first semicolon: the
  result is the name of the enumeration type.  On a Clang signature with the enumerator first in the
  bracket it would be right.\<close>

theorem get_enum_name_gcc:
  "get_enum_name False ''static constexpr std::string_view ConstexprUtil::get_enum_name() [with E = Color; E V = Color::Red]'' = ''Color'' \<and>
   get_enum_name True ''static std::string_view ConstexprUtil::get_enum_name() [E = Color, V = Color::Red]'' = ''Red''"
  by code_simp

end
