(* ===== verification/Sfd_Policy.thy ===== *)
theory Sfd_Policy
  imports Prelude
begin

text \<open>
  The descriptor policies of \<open>src/linux/common/ipc/sfd/sfd_policy_command.h\<close>.  Each policy class is a
  group of definitions, one per static function: what a function does is the list of system calls it
  makes, with the results of the calls that it looks at as arguments, the new value of the context it
  writes to, and the value it returns.  A function that only forwards to one system call is that call.
  The addresses are built as the code builds them: \<open>memset\<close>, the family, the port in network order, and
  \<open>inet_pton\<close> or \<open>strncpy\<close>.

  The dispatchers \<open>policy_init\<close>, \<open>policy_close\<close>, \<open>policy_write\<close> and so on stand for the use of a
  template parameter \<open>Policy\<close>; they are \<open>None\<close> where the class has no such function, so that the use
  does not compile.

  \<open>fs_calls\<close> is what the calls do to the nodes of the file system.  The properties: an IPv4 address that
  is a dotted quad reaches the kernel as its four bytes, any other text as the wildcard address; a socket
  bound to a path leaves no node behind if the path fits in \<open>sun_path\<close>, and leaves one otherwise.
\<close>

section \<open>C strings and addresses\<close>

abbreviation NUL :: char where
  "NUL \<equiv> CHR 0x00"

definition c_str :: "string \<Rightarrow> string" where
  "c_str s = takeWhile (\<lambda>c. c \<noteq> NUL) s"

definition strncpy :: "string \<Rightarrow> string \<Rightarrow> nat \<Rightarrow> string" where
  "strncpy dest src n = take n (c_str src @ replicate n NUL) @ drop n dest"

definition htons :: "u16 \<Rightarrow> bytes" where
  "htons port = [hi8 port, lo8 port]"

text \<open>\<open>inet_pton\<close> for \<open>AF_INET\<close>: four decimal numbers up to 255 without leading zeros, separated by dots.
  \<open>inet_scan\<close> has the value of the number being read (\<open>None\<close> before its first digit) and the bytes
  read before it.\<close>

definition digit_of :: "char \<Rightarrow> nat option" where
  "digit_of c = (if 48 \<le> (of_char c :: nat) \<and> (of_char c :: nat) \<le> 57 then Some (of_char c - 48) else None)"

fun inet_scan :: "nat option \<Rightarrow> bytes \<Rightarrow> string \<Rightarrow> bytes option" where
  "inet_scan v acc [] = (case v of
     Some n \<Rightarrow> if length acc = 3 then Some (acc @ [of_nat n]) else None
   | None \<Rightarrow> None)"
| "inet_scan v acc (c # cs) = (case digit_of c of
     Some d \<Rightarrow>
       (case v of
          None \<Rightarrow> inet_scan (Some d) acc cs
        | Some n \<Rightarrow> if n = 0 \<or> 10 * n + d > 255 then None else inet_scan (Some (10 * n + d)) acc cs)
   | None \<Rightarrow>
       (case v of
          Some n \<Rightarrow> if c = CHR 0x2E \<and> length acc < 3 then inet_scan None (acc @ [of_nat n]) cs else None
        | None \<Rightarrow> None))"

definition inet_pton :: "string \<Rightarrow> bytes option" where
  "inet_pton s = inet_scan None [] (c_str s)"

definition AF_UNIX :: nat where "AF_UNIX = 1"
definition AF_INET :: nat where "AF_INET = 2"

record sockaddr_in =
  sin_family :: nat
  sin_port :: bytes
  sin_addr :: bytes

record sockaddr_un =
  sun_family :: nat
  sun_path :: string

definition zero_sockaddr_in :: sockaddr_in where
  "zero_sockaddr_in = \<lparr>sin_family = 0, sin_port = [0, 0], sin_addr = [0, 0, 0, 0]\<rparr>"

definition zero_sockaddr_un :: sockaddr_un where
  "zero_sockaddr_un = \<lparr>sun_family = 0, sun_path = replicate 108 NUL\<rparr>"

datatype sockaddr = Addr_in sockaddr_in | Addr_un sockaddr_un

section \<open>System calls\<close>

datatype sys_call =
    Sys_open string int | Sys_socket nat string | Sys_bind int sockaddr | Sys_connect int sockaddr
  | Sys_listen int nat | Sys_shutdown int | Sys_close int | Sys_unlink string | Sys_mkfifo string nat
  | Sys_write int bytes | Sys_read int nat | Sys_send int bytes int | Sys_recv int nat int
  | Sys_sendto int bytes sockaddr | Sys_recvfrom int nat | Sys_peek int nat nat
  | Sys_writev int "bytes list" | Sys_readv int nat | Sys_sendmsg int "bytes list" int | Sys_recvmsg int
  | Sys_epoll_create int | Sys_epoll_ctl int int int | Sys_epoll_wait int int int
  | Sys_eventfd u32 int

datatype IoMode = Receiver | Transmitter

datatype policy_error = RuntimeError string

section \<open>FilePolicy\<close>

definition file_open :: "string \<Rightarrow> int \<Rightarrow> sys_call" where
  "file_open path flags = Sys_open (c_str path) flags"

definition file_close :: "int \<Rightarrow> sys_call list" where
  "file_close fd = (if fd \<ge> 0 then [Sys_close fd] else [])"

definition file_write :: "int \<Rightarrow> bytes \<Rightarrow> sys_call" where
  "file_write fd buf = Sys_write fd buf"

definition file_read :: "int \<Rightarrow> nat \<Rightarrow> sys_call" where
  "file_read fd count = Sys_read fd count"

text \<open>Always two buffers, whatever the array holds.\<close>

definition file_write_vector :: "int \<Rightarrow> bytes list \<Rightarrow> sys_call" where
  "file_write_vector fd iov = Sys_writev fd (take 2 iov)"

section \<open>SocketPolicy\<close>

definition socket_open :: "nat \<Rightarrow> string \<Rightarrow> sys_call" where
  "socket_open domain type = Sys_socket domain type"

definition socket_close :: "int \<Rightarrow> sys_call list" where
  "socket_close fd = (if fd \<ge> 0 then [Sys_shutdown fd, Sys_close fd] else [])"

definition socket_write_flags :: "int \<Rightarrow> bytes \<Rightarrow> int \<Rightarrow> sys_call" where
  "socket_write_flags fd buf flags = Sys_send fd buf flags"

definition socket_read_flags :: "int \<Rightarrow> nat \<Rightarrow> int \<Rightarrow> sys_call" where
  "socket_read_flags fd count flags = Sys_recv fd count flags"

definition socket_write :: "int \<Rightarrow> bytes \<Rightarrow> sys_call" where
  "socket_write fd buf = Sys_send fd buf 0"

definition socket_read :: "int \<Rightarrow> nat \<Rightarrow> sys_call" where
  "socket_read fd count = Sys_recv fd count 0"

section \<open>SocketDgramIPv4Policy\<close>

record SocketDgramIPv4Context =
  local_ip :: string
  local_port :: u16
  target_ip :: string
  target_port :: u16
  ipv4_local_sockaddr :: sockaddr_in
  ipv4_target_sockaddr :: sockaddr_in

text \<open>The result of \<open>inet_pton\<close> is not looked at: on text it cannot read, the address stays zero.\<close>

definition fill_sockaddr_in :: "string \<Rightarrow> u16 \<Rightarrow> sockaddr_in" where
  "fill_sockaddr_in ip port =
     (let a = zero_sockaddr_in\<lparr>sin_family := AF_INET, sin_port := htons port\<rparr>
      in case inet_pton ip of Some b \<Rightarrow> a\<lparr>sin_addr := b\<rparr> | None \<Rightarrow> a)"

definition ipv4_init ::
    "SocketDgramIPv4Context \<Rightarrow> IoMode \<Rightarrow> int \<Rightarrow> policy_error + int \<times> SocketDgramIPv4Context \<times> sys_call list" where
  "ipv4_init ctx mode sock =
     (if sock = -1 then Inl (RuntimeError ''IPv4 Socket creation failed'')
      else case mode of
        Receiver \<Rightarrow>
          (let a = fill_sockaddr_in (local_ip ctx) (local_port ctx) in
           Inr (sock, ctx\<lparr>ipv4_local_sockaddr := a\<rparr>, [Sys_socket AF_INET ''SOCK_DGRAM'', Sys_bind sock (Addr_in a)]))
      | Transmitter \<Rightarrow>
          (let a = fill_sockaddr_in (target_ip ctx) (target_port ctx) in
           Inr (sock, ctx\<lparr>ipv4_target_sockaddr := a\<rparr>, [Sys_socket AF_INET ''SOCK_DGRAM'', Sys_connect sock (Addr_in a)])))"

text \<open>\<open>peek_header\<close> of both datagram policies: the address storage is cleared and its capacity, 128
  bytes, handed to the kernel; the 22 bytes of the header are looked at and stay queued.\<close>

definition ipv4_peek_header :: "int \<Rightarrow> sys_call \<times> bytes" where
  "ipv4_peek_header active_fd = (Sys_peek active_fd 22 128, replicate 128 0)"

definition ipv4_write_vector :: "int \<Rightarrow> bytes list \<Rightarrow> sys_call" where
  "ipv4_write_vector tx_fd iov = Sys_writev tx_fd iov"

definition ipv4_write_message :: "int \<Rightarrow> bytes list \<Rightarrow> int \<Rightarrow> sys_call" where
  "ipv4_write_message tx_fd iov flags = Sys_sendmsg tx_fd iov flags"

definition ipv4_read_vector :: "int \<Rightarrow> sys_call" where
  "ipv4_read_vector rx_fd = Sys_recvmsg rx_fd"

definition ipv4_cleanup :: "SocketDgramIPv4Context \<Rightarrow> sys_call list" where
  "ipv4_cleanup ctx = []"

definition ipv4_close :: "int \<Rightarrow> SocketDgramIPv4Context \<Rightarrow> sys_call list" where
  "ipv4_close fd ctx = (if fd \<ge> 0 then Sys_close fd # ipv4_cleanup ctx else [])"

section \<open>SocketDgramPathPolicy\<close>

record SocketDgramPathContext =
  dgram_local_path :: string
  dgram_target_path :: string
  dgram_local_sockaddr :: sockaddr_un
  dgram_target_sockaddr :: sockaddr_un

definition fill_sockaddr_un :: "string \<Rightarrow> sockaddr_un" where
  "fill_sockaddr_un path =
     (let a = zero_sockaddr_un\<lparr>sun_family := AF_UNIX\<rparr>
      in a\<lparr>sun_path := strncpy (sun_path a) path (108 - 1)\<rparr>)"

definition dgram_path_init ::
    "SocketDgramPathContext \<Rightarrow> IoMode \<Rightarrow> int \<Rightarrow> policy_error + int \<times> SocketDgramPathContext \<times> sys_call list" where
  "dgram_path_init ctx mode sock =
     (if sock = -1 then Inl (RuntimeError ''Unix DGRAM Socket creation failed'')
      else case mode of
        Receiver \<Rightarrow>
          (let a = fill_sockaddr_un (dgram_local_path ctx) in
           Inr (sock, ctx\<lparr>dgram_local_sockaddr := a\<rparr>,
             [Sys_socket AF_UNIX ''SOCK_DGRAM'', Sys_unlink (c_str (dgram_local_path ctx)), Sys_bind sock (Addr_un a)]))
      | Transmitter \<Rightarrow>
          (let a = fill_sockaddr_un (dgram_target_path ctx) in
           Inr (sock, ctx\<lparr>dgram_target_sockaddr := a\<rparr>,
             [Sys_socket AF_UNIX ''SOCK_DGRAM'', Sys_connect sock (Addr_un a)])))"

definition dgram_path_peek_header :: "int \<Rightarrow> sys_call \<times> bytes" where
  "dgram_path_peek_header active_fd = (Sys_peek active_fd 22 128, replicate 128 0)"

definition dgram_path_write_vector :: "int \<Rightarrow> bytes list \<Rightarrow> sys_call" where
  "dgram_path_write_vector tx_fd iov = Sys_writev tx_fd iov"

definition dgram_path_read_vector :: "int \<Rightarrow> sys_call" where
  "dgram_path_read_vector rx_fd = Sys_recvmsg rx_fd"

definition dgram_path_cleanup :: "SocketDgramPathContext \<Rightarrow> sys_call list" where
  "dgram_path_cleanup ctx = [Sys_unlink (c_str (dgram_local_path ctx))]"

definition dgram_path_close :: "int \<Rightarrow> SocketDgramPathContext \<Rightarrow> sys_call list" where
  "dgram_path_close fd ctx = (if fd \<ge> 0 then Sys_close fd # dgram_path_cleanup ctx else [])"

section \<open>SocketStreamPathPolicy\<close>

record SocketStreamPathContext =
  stream_local_path :: string
  stream_target_path :: string
  stream_local_sockaddr :: sockaddr_un
  stream_target_sockaddr :: sockaddr_un

definition stream_path_init ::
    "SocketStreamPathContext \<Rightarrow> IoMode \<Rightarrow> int \<Rightarrow> policy_error + int \<times> SocketStreamPathContext \<times> sys_call list" where
  "stream_path_init ctx mode sock =
     (case mode of
        Receiver \<Rightarrow>
          (if sock = -1 then Inl (RuntimeError ''Unix STREAM Receiver Socket creation failed'')
           else (let a = fill_sockaddr_un (stream_local_path ctx) in
             Inr (sock, ctx\<lparr>stream_local_sockaddr := a\<rparr>,
               [Sys_socket AF_UNIX ''SOCK_STREAM'', Sys_unlink (c_str (stream_local_path ctx)),
                Sys_bind sock (Addr_un a), Sys_listen sock 5])))
      | Transmitter \<Rightarrow>
          (if sock = -1 then Inl (RuntimeError ''Unix STREAM Transmitter Socket creation failed'')
           else (let a = fill_sockaddr_un (stream_target_path ctx) in
             Inr (sock, ctx\<lparr>stream_target_sockaddr := a\<rparr>,
               [Sys_socket AF_UNIX ''SOCK_STREAM'', Sys_connect sock (Addr_un a)]))))"

definition stream_path_write_vector :: "int \<Rightarrow> bytes list \<Rightarrow> sys_call" where
  "stream_path_write_vector tx_fd iov = Sys_writev tx_fd iov"

definition stream_path_read_vector :: "int \<Rightarrow> nat \<Rightarrow> sys_call" where
  "stream_path_read_vector rx_fd count = Sys_readv rx_fd count"

definition stream_path_cleanup :: "SocketStreamPathContext \<Rightarrow> sys_call list" where
  "stream_path_cleanup ctx = [Sys_unlink (c_str (stream_local_path ctx))]"

definition stream_path_close :: "int \<Rightarrow> SocketStreamPathContext \<Rightarrow> sys_call list" where
  "stream_path_close fd ctx = (if fd \<ge> 0 then Sys_close fd # stream_path_cleanup ctx else [])"

section \<open>UdpLocalhostPolicy\<close>

record UdpContext =
  udp_ip :: string
  udp_port :: u16

definition udp_open_and_declare_ctx :: "string \<Rightarrow> u16 \<Rightarrow> int \<Rightarrow> int \<times> UdpContext \<times> sys_call list" where
  "udp_open_and_declare_ctx ip_address port sock =
     (sock, \<lparr>udp_ip = ip_address, udp_port = port\<rparr>, [Sys_socket AF_INET ''SOCK_DGRAM''])"

definition udp_close :: "int \<Rightarrow> sys_call list" where
  "udp_close fd = (if fd \<ge> 0 then [Sys_close fd] else [])"

text \<open>The destination is fixed: the address and the port of the context are not used.\<close>

definition udp_write :: "int \<Rightarrow> bytes \<Rightarrow> sys_call" where
  "udp_write fd buf = Sys_sendto fd buf
     (Addr_in (zero_sockaddr_in\<lparr>sin_family := AF_INET, sin_port := htons 9999, sin_addr := [127, 0, 0, 1]\<rparr>))"

definition udp_read :: "int \<Rightarrow> nat \<Rightarrow> sys_call" where
  "udp_read fd count = Sys_recvfrom fd count"

section \<open>PipePolicy\<close>

record PipeContext =
  pipe_path :: string
  pipe_flag :: int

text \<open>\<open>open_and_declare_ctx\<close> returns as a descriptor the truth value of \<open>mkfifo(...) == 0\<close>.\<close>

definition pipe_open_and_declare_ctx :: "string \<Rightarrow> u16 \<Rightarrow> int \<Rightarrow> int \<times> PipeContext \<times> sys_call list" where
  "pipe_open_and_declare_ctx path flag mkfifo_result =
     ((if mkfifo_result = 0 then 1 else 0), \<lparr>pipe_path = path, pipe_flag = uint flag\<rparr>,
      [Sys_unlink (c_str path), Sys_mkfifo (c_str path) 438])"

definition pipe_open_channel :: "PipeContext \<Rightarrow> int \<Rightarrow> sys_call" where
  "pipe_open_channel ctx flags = Sys_open (c_str (pipe_path ctx)) flags"

definition pipe_close :: "int \<Rightarrow> PipeContext \<Rightarrow> sys_call list \<times> PipeContext" where
  "pipe_close fd ctx =
     (if fd \<ge> 0
      then (if pipe_path ctx \<noteq> [] then ([Sys_close fd, Sys_unlink (c_str (pipe_path ctx))], ctx\<lparr>pipe_path := []\<rparr>)
            else ([Sys_close fd], ctx))
      else ([], ctx))"

definition pipe_write :: "int \<Rightarrow> bytes \<Rightarrow> sys_call" where
  "pipe_write fd buf = Sys_write fd buf"

definition pipe_read :: "int \<Rightarrow> nat \<Rightarrow> sys_call" where
  "pipe_read fd count = Sys_read fd count"

definition pipe_write_vector :: "int \<Rightarrow> bytes list \<Rightarrow> sys_call" where
  "pipe_write_vector fd iov = Sys_writev fd iov"

definition pipe_read_vector :: "int \<Rightarrow> nat \<Rightarrow> sys_call" where
  "pipe_read_vector rx_fd count = Sys_readv rx_fd count"

definition pipe_setup_communication :: "PipeContext \<Rightarrow> int \<Rightarrow> bool \<times> sys_call list" where
  "pipe_setup_communication ctx mkfifo_result =
     (mkfifo_result = 0, [Sys_unlink (c_str (pipe_path ctx)), Sys_mkfifo (c_str (pipe_path ctx)) 438])"

section \<open>EpollPolicy and EventFdPolicy\<close>

definition epoll_open :: "int \<Rightarrow> sys_call" where
  "epoll_open flags = Sys_epoll_create flags"

definition epoll_close :: "int \<Rightarrow> sys_call list" where
  "epoll_close fd = (if fd \<ge> 0 then [Sys_close fd] else [])"

definition epoll_control :: "int \<Rightarrow> int \<Rightarrow> int \<Rightarrow> sys_call" where
  "epoll_control epoll_fd operation target_fd = Sys_epoll_ctl epoll_fd operation target_fd"

definition epoll_wait :: "int \<Rightarrow> int \<Rightarrow> int \<Rightarrow> sys_call" where
  "epoll_wait epoll_fd maxevents timeout = Sys_epoll_wait epoll_fd maxevents timeout"

definition eventfd_open :: "u32 \<Rightarrow> int \<Rightarrow> sys_call" where
  "eventfd_open initval flags = Sys_eventfd initval flags"

definition eventfd_close :: "int \<Rightarrow> sys_call list" where
  "eventfd_close fd = (if fd \<ge> 0 then [Sys_close fd] else [])"

text \<open>The eight bytes of the counter, as they lie in memory.\<close>

definition eventfd_notify :: "int \<Rightarrow> u64 \<Rightarrow> sys_call" where
  "eventfd_notify fd counter = Sys_write fd (le_bytes 8 counter)"

definition eventfd_fetch_signal :: "int \<Rightarrow> sys_call" where
  "eventfd_fetch_signal fd = Sys_read fd 8"

section \<open>The policy as a template parameter\<close>

datatype Policy = FilePolicy | SocketPolicy | SocketDgramIPv4Policy | SocketDgramPathPolicy
  | SocketStreamPathPolicy | UdpLocalhostPolicy | PipePolicy | EpollPolicy | EventFdPolicy

text \<open>\<open>Policy::Context\<close>; \<open>policy_context\<close> says which context belongs to which policy.\<close>

datatype Context = EmptyContext
  | Ctx_ipv4 SocketDgramIPv4Context | Ctx_dgram SocketDgramPathContext | Ctx_stream SocketStreamPathContext
  | Ctx_udp UdpContext | Ctx_pipe PipeContext

fun policy_context :: "Policy \<Rightarrow> Context \<Rightarrow> bool" where
  "policy_context SocketDgramIPv4Policy (Ctx_ipv4 _) = True"
| "policy_context SocketDgramPathPolicy (Ctx_dgram _) = True"
| "policy_context SocketStreamPathPolicy (Ctx_stream _) = True"
| "policy_context UdpLocalhostPolicy (Ctx_udp _) = True"
| "policy_context PipePolicy (Ctx_pipe _) = True"
| "policy_context pol EmptyContext = (pol \<in> {FilePolicy, SocketPolicy, EpollPolicy, EventFdPolicy})"
| "policy_context _ _ = False"

text \<open>A default-constructed context.\<close>

definition default_context :: "Policy \<Rightarrow> Context" where
  "default_context pol = (case pol of
     SocketDgramIPv4Policy \<Rightarrow> Ctx_ipv4 \<lparr>local_ip = [], local_port = 0, target_ip = [], target_port = 0,
       ipv4_local_sockaddr = zero_sockaddr_in, ipv4_target_sockaddr = zero_sockaddr_in\<rparr>
   | SocketDgramPathPolicy \<Rightarrow> Ctx_dgram \<lparr>dgram_local_path = [], dgram_target_path = [],
       dgram_local_sockaddr = zero_sockaddr_un, dgram_target_sockaddr = zero_sockaddr_un\<rparr>
   | SocketStreamPathPolicy \<Rightarrow> Ctx_stream \<lparr>stream_local_path = [], stream_target_path = [],
       stream_local_sockaddr = zero_sockaddr_un, stream_target_sockaddr = zero_sockaddr_un\<rparr>
   | UdpLocalhostPolicy \<Rightarrow> Ctx_udp \<lparr>udp_ip = [], udp_port = 0\<rparr>
   | PipePolicy \<Rightarrow> Ctx_pipe \<lparr>pipe_path = [], pipe_flag = 0\<rparr>
   | _ \<Rightarrow> EmptyContext)"

text \<open>A policy is applied to its own kind of context only; the last cases of the dispatchers do not
  occur.\<close>

definition policy_init ::
    "Policy \<Rightarrow> Context \<Rightarrow> IoMode \<Rightarrow> int \<Rightarrow> (policy_error + int \<times> Context \<times> sys_call list) option" where
  "policy_init pol ctx mode sock =
     (case (pol, ctx) of
        (SocketDgramIPv4Policy, Ctx_ipv4 c) \<Rightarrow>
          Some (map_sum (\<lambda>e. e) (\<lambda>(fd, c, cs). (fd, Ctx_ipv4 c, cs)) (ipv4_init c mode sock))
      | (SocketDgramPathPolicy, Ctx_dgram c) \<Rightarrow>
          Some (map_sum (\<lambda>e. e) (\<lambda>(fd, c, cs). (fd, Ctx_dgram c, cs)) (dgram_path_init c mode sock))
      | (SocketStreamPathPolicy, Ctx_stream c) \<Rightarrow>
          Some (map_sum (\<lambda>e. e) (\<lambda>(fd, c, cs). (fd, Ctx_stream c, cs)) (stream_path_init c mode sock))
      | _ \<Rightarrow> None)"

definition policy_cleanup :: "Policy \<Rightarrow> Context \<Rightarrow> sys_call list" where
  "policy_cleanup pol ctx =
     (case (pol, ctx) of
        (SocketDgramIPv4Policy, Ctx_ipv4 c) \<Rightarrow> ipv4_cleanup c
      | (SocketDgramPathPolicy, Ctx_dgram c) \<Rightarrow> dgram_path_cleanup c
      | (SocketStreamPathPolicy, Ctx_stream c) \<Rightarrow> stream_path_cleanup c
      | _ \<Rightarrow> [])"

definition policy_close :: "Policy \<Rightarrow> int \<Rightarrow> Context \<Rightarrow> sys_call list \<times> Context" where
  "policy_close pol fd ctx =
     (case (pol, ctx) of
        (SocketPolicy, _) \<Rightarrow> (socket_close fd, ctx)
      | (SocketDgramIPv4Policy, Ctx_ipv4 c) \<Rightarrow> (ipv4_close fd c, ctx)
      | (SocketDgramPathPolicy, Ctx_dgram c) \<Rightarrow> (dgram_path_close fd c, ctx)
      | (SocketStreamPathPolicy, Ctx_stream c) \<Rightarrow> (stream_path_close fd c, ctx)
      | (UdpLocalhostPolicy, _) \<Rightarrow> (udp_close fd, ctx)
      | (PipePolicy, Ctx_pipe c) \<Rightarrow> (let (cs, c) = pipe_close fd c in (cs, Ctx_pipe c))
      | (EpollPolicy, _) \<Rightarrow> (epoll_close fd, ctx)
      | (EventFdPolicy, _) \<Rightarrow> (eventfd_close fd, ctx)
      | _ \<Rightarrow> (file_close fd, ctx))"

definition policy_write :: "Policy \<Rightarrow> int \<Rightarrow> bytes \<Rightarrow> sys_call option" where
  "policy_write pol fd buf = (case pol of
     FilePolicy \<Rightarrow> Some (file_write fd buf) | PipePolicy \<Rightarrow> Some (pipe_write fd buf)
   | SocketPolicy \<Rightarrow> Some (socket_write fd buf) | UdpLocalhostPolicy \<Rightarrow> Some (udp_write fd buf)
   | _ \<Rightarrow> None)"

definition policy_read :: "Policy \<Rightarrow> int \<Rightarrow> nat \<Rightarrow> sys_call option" where
  "policy_read pol fd count = (case pol of
     FilePolicy \<Rightarrow> Some (file_read fd count) | PipePolicy \<Rightarrow> Some (pipe_read fd count)
   | SocketPolicy \<Rightarrow> Some (socket_read fd count) | UdpLocalhostPolicy \<Rightarrow> Some (udp_read fd count)
   | _ \<Rightarrow> None)"

definition policy_write_vector :: "Policy \<Rightarrow> int \<Rightarrow> bytes list \<Rightarrow> sys_call option" where
  "policy_write_vector pol fd iov = (case pol of
     SocketDgramIPv4Policy \<Rightarrow> Some (ipv4_write_vector fd iov)
   | SocketDgramPathPolicy \<Rightarrow> Some (dgram_path_write_vector fd iov)
   | SocketStreamPathPolicy \<Rightarrow> Some (stream_path_write_vector fd iov)
   | PipePolicy \<Rightarrow> Some (pipe_write_vector fd iov)
   | _ \<Rightarrow> None)"

definition policy_write_message :: "Policy \<Rightarrow> int \<Rightarrow> bytes list \<Rightarrow> sys_call option" where
  "policy_write_message pol fd iov =
     (if pol = SocketDgramIPv4Policy then Some (ipv4_write_message fd iov 0) else None)"

definition policy_read_vector :: "Policy \<Rightarrow> int \<Rightarrow> nat \<Rightarrow> sys_call option" where
  "policy_read_vector pol fd count = (case pol of
     SocketDgramIPv4Policy \<Rightarrow> Some (ipv4_read_vector fd)
   | SocketDgramPathPolicy \<Rightarrow> Some (dgram_path_read_vector fd)
   | SocketStreamPathPolicy \<Rightarrow> Some (stream_path_read_vector fd count)
   | PipePolicy \<Rightarrow> Some (pipe_read_vector fd count)
   | _ \<Rightarrow> None)"

definition policy_peek_header :: "Policy \<Rightarrow> int \<Rightarrow> sys_call option" where
  "policy_peek_header pol fd = (case pol of
     SocketDgramIPv4Policy \<Rightarrow> Some (fst (ipv4_peek_header fd))
   | SocketDgramPathPolicy \<Rightarrow> Some (fst (dgram_path_peek_header fd))
   | _ \<Rightarrow> None)"

definition setup_communication :: "Policy \<Rightarrow> Context \<Rightarrow> int \<Rightarrow> bool \<times> sys_call list" where
  "setup_communication pol ctx mkfifo_result =
     (case (pol, ctx) of
        (PipePolicy, Ctx_pipe c) \<Rightarrow> pipe_setup_communication c mkfifo_result
      | _ \<Rightarrow> (True, []))"

section \<open>What the calls do to the file system\<close>

text \<open>The nodes a process sees: \<open>bind\<close> to a path makes one, \<open>mkfifo\<close> and \<open>open\<close> with \<open>O_CREAT\<close> (bit 6)
  make one, \<open>unlink\<close> removes one.  A path that starts with \<open>NUL\<close> is not in the file system.\<close>

fun fs_call :: "sys_call \<Rightarrow> string set \<Rightarrow> string set" where
  "fs_call (Sys_unlink p) N = N - {p}"
| "fs_call (Sys_bind fd (Addr_un a)) N = (let p = c_str (sun_path a) in if p = [] then N else insert p N)"
| "fs_call (Sys_mkfifo p _) N = insert p N"
| "fs_call (Sys_open p flags) N = (if bit flags 6 then insert p N else N)"
| "fs_call _ N = N"

definition fs_calls :: "sys_call list \<Rightarrow> string set \<Rightarrow> string set" where
  "fs_calls cs N = fold fs_call cs N"

lemma fs_calls_simps [simp]:
  "fs_calls [] N = N" "fs_calls (c # cs) N = fs_calls cs (fs_call c N)"
  "fs_calls (cs @ ds) N = fs_calls ds (fs_calls cs N)"
  by (simp_all add: fs_calls_def)

section \<open>Lemmas\<close>

lemmas policy_defs = file_close_def socket_close_def ipv4_close_def dgram_path_close_def stream_path_close_def
  udp_close_def pipe_close_def epoll_close_def eventfd_close_def ipv4_cleanup_def dgram_path_cleanup_def
  stream_path_cleanup_def

lemma c_str_idem [simp]: "c_str (c_str s) = c_str s"
  by (simp add: c_str_def)

lemma c_str_no_NUL [simp]: "NUL \<notin> set (c_str s)"
  by (auto simp: c_str_def dest: set_takeWhileD)

lemma c_str_padded: "NUL \<notin> set p \<Longrightarrow> c_str (p @ NUL # q) = p"
  by (induction p) (auto simp: c_str_def)

lemma bound_path: "c_str (sun_path (fill_sockaddr_un path)) = take 107 (c_str path)"
proof -
  have "NUL \<notin> set (take 107 (c_str path))"
    using c_str_no_NUL [of path] by (meson in_set_takeD)
  then have "c_str (take 107 (c_str path) @ NUL # replicate n NUL) = take 107 (c_str path)" for n
    by (rule c_str_padded)
  then show ?thesis
    by (simp add: fill_sockaddr_un_def zero_sockaddr_un_def strncpy_def Let_def replicate_append_same)
qed

text \<open>Closing a descriptor is one \<open>close\<close> of it, and whatever else happens is not another.\<close>

lemma policy_close_calls:
  "fd \<ge> 0 \<Longrightarrow> fst (policy_close pol fd ctx) \<in> {[Sys_close fd], [Sys_shutdown fd, Sys_close fd]} \<union>
     range (\<lambda>p. [Sys_close fd, Sys_unlink p])"
  by (cases pol; cases ctx) (auto simp: policy_close_def policy_defs)

text \<open>The path a receiver binds; the two policies that have one.\<close>

fun context_path :: "Context \<Rightarrow> string" where
  "context_path (Ctx_dgram c) = c_str (dgram_local_path c)"
| "context_path (Ctx_stream c) = c_str (stream_local_path c)"
| "context_path _ = []"

lemma receiver_nodes:
  assumes "policy_context pol ctx" and "context_path ctx \<noteq> []"
    and "policy_init pol ctx Receiver sock = Some (Inr (fd, ctx', cs))"
  shows "fd = sock \<and> context_path ctx' = context_path ctx \<and> policy_context pol ctx' \<and>
    fs_calls cs N = insert (take 107 (context_path ctx)) (N - {context_path ctx})"
  using assms
  by (cases pol; cases ctx)
     (auto simp: policy_init_def dgram_path_init_def stream_path_init_def Let_def bound_path split: if_splits)

lemma transmitter_nodes:
  assumes "policy_init pol ctx Transmitter sock = Some (Inr (fd, ctx', cs))"
  shows "fd = sock \<and> context_path ctx' = context_path ctx \<and> (policy_context pol ctx \<longrightarrow> policy_context pol ctx') \<and> fs_calls cs N = N"
  using assms
  by (cases pol; cases ctx)
     (auto simp: policy_init_def ipv4_init_def dgram_path_init_def stream_path_init_def Let_def split: if_splits)

lemma close_nodes:
  assumes "policy_context pol ctx" and "context_path ctx \<noteq> []" and "fd \<ge> 0"
  shows "fs_calls (fst (policy_close pol fd ctx)) N = N - {context_path ctx}"
  using assms by (cases pol; cases ctx) (auto simp: policy_close_def policy_defs)

lemma cleanup_nodes:
  assumes "policy_context pol ctx" and "context_path ctx \<noteq> []"
  shows "fs_calls (policy_cleanup pol ctx) N = N - {context_path ctx}"
  using assms by (cases pol; cases ctx) (auto simp: policy_cleanup_def policy_defs)

subsection \<open>Dotted quads\<close>

text \<open>The decimal text of a byte and of an address.\<close>

definition digit_char :: "nat \<Rightarrow> char" where
  "digit_char d = char_of (48 + d)"

definition show_octet :: "u8 \<Rightarrow> string" where
  "show_octet b = (let n = unat b in
     (if n \<ge> 100 then [digit_char (n div 100)] else []) @
     (if n \<ge> 10 then [digit_char (n div 10 mod 10)] else []) @ [digit_char (n mod 10)])"

definition dotted :: "u8 \<Rightarrow> u8 \<Rightarrow> u8 \<Rightarrow> u8 \<Rightarrow> string" where
  "dotted a b c d = show_octet a @ ''.'' @ show_octet b @ ''.'' @ show_octet c @ ''.'' @ show_octet d"

lemma digit_of_digit_char [simp]: "d < 10 \<Longrightarrow> digit_of (digit_char d) = Some d"
  by (simp add: digit_of_def digit_char_def of_char_of take_bit_nat_eq_self)

lemma digit_char_not_NUL [simp]: "d < 10 \<Longrightarrow> digit_char d \<noteq> NUL"  "d < 10 \<Longrightarrow> NUL \<noteq> digit_char d"
proof -
  have "digit_of NUL = None" by (simp add: digit_of_def)
  then show "d < 10 \<Longrightarrow> digit_char d \<noteq> NUL" "d < 10 \<Longrightarrow> NUL \<noteq> digit_char d"
    using digit_of_digit_char [of d] by (metis option.distinct(1))+
qed

lemma scan_digits: "d < 10 \<Longrightarrow> inet_scan None acc (digit_char d # rest) = inet_scan (Some d) acc rest"
  "d < 10 \<Longrightarrow> n \<noteq> 0 \<Longrightarrow> 10 * n + d \<le> 255 \<Longrightarrow>
     inet_scan (Some n) acc (digit_char d # rest) = inet_scan (Some (10 * n + d)) acc rest"
  by simp_all

lemma scan_octet: "inet_scan None acc (show_octet b @ rest) = inet_scan (Some (unat b)) acc rest"
proof -
  define n where "n = unat b"
  define i j k where "i = n div 10 div 10" and "j = n div 10 mod 10" and "k = n mod 10"
  have n: "n = 10 * (10 * i + j) + k" "n < 256" "n div 100 = i"
    using unat_u8_less [of b] div_mult2_eq [of n 10 10] by (simp_all add: n_def i_def j_def k_def)
  have digits: "i < 10" "j < 10" "k < 10" using n(1,2) by (auto simp: j_def k_def)
  have octet: "show_octet b = (if 100 \<le> n then [digit_char i] else []) @ (if 10 \<le> n then [digit_char j] else []) @ [digit_char k]"
    unfolding show_octet_def Let_def n_def [symmetric] n(3) j_def k_def ..
  consider "n < 10" | "10 \<le> n" "n < 100" | "100 \<le> n" by linarith
  then show ?thesis
  proof cases
    case 1
    then have "i = 0" "j = 0" using n(1) by auto
    with 1 show ?thesis using n(1) digits by (simp add: octet scan_digits n_def [symmetric] del: inet_scan.simps)
  next
    case 2
    then have "i = 0" using n(1) by presburger
    moreover from this 2 have "j \<noteq> 0" using n(1) digits by presburger
    ultimately show ?thesis using 2 n(1,2) digits by (simp add: octet scan_digits n_def [symmetric] del: inet_scan.simps)
  next
    case 3
    then have "i \<noteq> 0" using n(1) digits by auto
    with 3 show ?thesis using n(1,2) digits by (simp add: octet scan_digits n_def [symmetric] del: inet_scan.simps)
  qed
qed

lemma show_octet_no_NUL [simp]: "NUL \<notin> set (show_octet b)"
  using unat_u8_less [of b] by (auto simp: show_octet_def Let_def)

lemma c_str_id: "NUL \<notin> set s \<Longrightarrow> c_str s = s"
  by (induction s) (auto simp: c_str_def)

lemma inet_pton_dotted: "inet_pton (dotted a b c d) = Some [a, b, c, d]"
proof -
  have "c_str (dotted a b c d) = dotted a b c d"
    by (rule c_str_id) (simp add: dotted_def)
  moreover have "digit_of CHR ''.'' = None" by (simp add: digit_of_def)
  ultimately show ?thesis
    using scan_octet [of "[a, b, c]" d "[]"] by (simp add: inet_pton_def dotted_def scan_octet)
qed

section \<open>Properties\<close>

text \<open>Addresses of IPv4 datagram sockets.  A receiver is bound to, and a transmitter connected to, the
  four bytes of its dotted quad and its port in network order.  Text that \<open>inet_pton\<close> rejects does not
  fail: it gives the address \<open>0.0.0.0\<close>, which for a receiver is every interface.\<close>

theorem ipv4_init_addresses:
  assumes "sock \<noteq> -1"
  shows "ipv4_init (ctx\<lparr>local_ip := dotted a b c d, local_port := port\<rparr>) Receiver sock =
      (let s = \<lparr>sin_family = AF_INET, sin_port = [hi8 port, lo8 port], sin_addr = [a, b, c, d]\<rparr>
       in Inr (sock, ctx\<lparr>local_ip := dotted a b c d, local_port := port, ipv4_local_sockaddr := s\<rparr>,
          [Sys_socket AF_INET ''SOCK_DGRAM'', Sys_bind sock (Addr_in s)])) \<and>
    ipv4_init (ctx\<lparr>target_ip := dotted a b c d, target_port := port\<rparr>) Transmitter sock =
      (let s = \<lparr>sin_family = AF_INET, sin_port = [hi8 port, lo8 port], sin_addr = [a, b, c, d]\<rparr>
       in Inr (sock, ctx\<lparr>target_ip := dotted a b c d, target_port := port, ipv4_target_sockaddr := s\<rparr>,
          [Sys_socket AF_INET ''SOCK_DGRAM'', Sys_connect sock (Addr_in s)])) \<and>
    (inet_pton (local_ip ctx) = None \<longrightarrow>
      (let s = \<lparr>sin_family = AF_INET, sin_port = [hi8 (local_port ctx), lo8 (local_port ctx)], sin_addr = [0, 0, 0, 0]\<rparr>
       in ipv4_init ctx Receiver sock = Inr (sock, ctx\<lparr>ipv4_local_sockaddr := s\<rparr>,
          [Sys_socket AF_INET ''SOCK_DGRAM'', Sys_bind sock (Addr_in s)])))"
  using assms
  by (simp add: ipv4_init_def fill_sockaddr_in_def inet_pton_dotted zero_sockaddr_in_def htons_def Let_def)

definition example_ipv4 :: SocketDgramIPv4Context where
  "example_ipv4 = \<lparr>local_ip = ''localhost'', local_port = 5555, target_ip = [], target_port = 0,
     ipv4_local_sockaddr = zero_sockaddr_in, ipv4_target_sockaddr = zero_sockaddr_in\<rparr>"

theorem ipv4_init_addresses_witness:
  "(let s = \<lparr>sin_family = AF_INET, sin_port = [0x15, 0xB3], sin_addr = [192, 168, 1, 10]\<rparr>;
        w = s\<lparr>sin_addr := [0, 0, 0, 0]\<rparr>
    in ipv4_init (example_ipv4\<lparr>local_ip := ''192.168.1.10'', local_port := 5555\<rparr>) Receiver 3 =
         Inr (3, example_ipv4\<lparr>local_ip := ''192.168.1.10'', local_port := 5555, ipv4_local_sockaddr := s\<rparr>,
           [Sys_socket AF_INET ''SOCK_DGRAM'', Sys_bind 3 (Addr_in s)]) \<and>
       ipv4_init example_ipv4 Receiver 3 = Inr (3, example_ipv4\<lparr>ipv4_local_sockaddr := w\<rparr>,
           [Sys_socket AF_INET ''SOCK_DGRAM'', Sys_bind 3 (Addr_in w)]))"
proof -
  have "dotted 192 168 1 10 = ''192.168.1.10''" "hi8 5555 = 0x15" "lo8 5555 = 0xB3"
    "inet_pton (local_ip example_ipv4) = None" "local_port example_ipv4 = 5555"
    by code_simp+
  then show ?thesis
    using ipv4_init_addresses [where sock = 3 and ctx = example_ipv4 and a = 192 and b = 168 and c = 1 and d = 10 and port = 5555] by (simp add: Let_def)
qed

text \<open>A socket bound to a path, in both policies that have one.  Between \<open>init\<close> of a receiver and
  \<open>close\<close> the node exists under the first 107 characters of the path; \<open>close\<close> removes the path itself.  So
  the node is gone exactly when the path fits in \<open>sun_path\<close>, and a longer path leaves it behind.\<close>

theorem path_socket_nodes:
  assumes "policy_context pol ctx" and "context_path ctx \<noteq> []"
    and "policy_init pol ctx Receiver sock = Some (Inr (fd, ctx', cs))" and "sock \<ge> 0"
  shows "take 107 (context_path ctx) \<in> fs_calls cs N \<and>
    fs_calls (cs @ fst (policy_close pol fd ctx')) N =
      N - {context_path ctx} \<union> (if length (context_path ctx) \<le> 107 then {} else {take 107 (context_path ctx)})"
proof -
  let ?p = "context_path ctx" and ?N = "fs_calls cs N"
  have opened: "fd = sock" "context_path ctx' = ?p" "policy_context pol ctx'" "?N = insert (take 107 ?p) (N - {?p})"
    using receiver_nodes [OF assms(1-3)] by auto
  then have closed: "fs_calls (fst (policy_close pol fd ctx')) ?N = ?N - {?p}"
    using assms(2,4) close_nodes [of pol ctx' fd ?N] by simp
  have "?N - {?p} = N - {?p} \<union> (if length ?p \<le> 107 then {} else {take 107 ?p})"
  proof (cases "length ?p \<le> 107")
    case False
    then have "take 107 ?p \<noteq> ?p" by simp
    with False show ?thesis unfolding opened(4) by auto
  qed (use opened(4) in auto)
  with closed opened(4) show ?thesis
    by (simp only: fs_calls_simps insertI1 simp_thms)
qed

theorem path_socket_nodes_witness:
  "fs_calls ([Sys_socket AF_UNIX ''SOCK_DGRAM'', Sys_unlink ''/tmp/s'', Sys_bind 4 (Addr_un (fill_sockaddr_un ''/tmp/s''))] @
     fst (policy_close SocketDgramPathPolicy 4 (Ctx_dgram \<lparr>dgram_local_path = ''/tmp/s'', dgram_target_path = [],
       dgram_local_sockaddr = fill_sockaddr_un ''/tmp/s'', dgram_target_sockaddr = zero_sockaddr_un\<rparr>))) {''/tmp/t''} = {''/tmp/t''}"
  using path_socket_nodes [of SocketDgramPathPolicy "Ctx_dgram \<lparr>dgram_local_path = ''/tmp/s'', dgram_target_path = [],
       dgram_local_sockaddr = zero_sockaddr_un, dgram_target_sockaddr = zero_sockaddr_un\<rparr>" 4 4 _ _ "{''/tmp/t''}"]
  by (simp add: policy_init_def dgram_path_init_def c_str_def Let_def)

end
