(* ===== verification/Sfd_Handles.thy ===== *)
theory Sfd_Handles
  imports Sfd_Registry Sfd_Policy
begin

text \<open>
  The handles that own descriptors: \<open>UniqueFileDescriptor\<close>, \<open>SharedFileDescriptor\<close>,
  \<open>SharedFdSwitchGuard\<close> (\<open>src/linux/common/ipc/sfd/smart_file_descriptor.h\<close>) and
  \<open>FileDescriptionSession\<close> (\<open>sfd_session_guard.h\<close>).  The template parameter \<open>Policy\<close> is a value of the
  datatype \<open>Policy\<close> of \<open>Sfd_Policy\<close>.

  The shared handles of a program are the list
  \<open>handles\<close> of a \<open>world\<close>, next to the registry and the kernel's table of open descriptors: an operation
  on the handles names them by index.  A variable that holds no object is a handle with
  descriptor \<open>-1\<close>, which is also what the default constructor makes.
\<close>

section \<open>Sessions\<close>

text \<open>The calls of a \<open>FileDescriptionSession\<close>: \<open>Inl (-1)\<close> where it returns without a system call.  Only
  \<open>write\<close> and \<open>read\<close> test the descriptor.\<close>

definition session_write :: "Policy \<Rightarrow> int \<Rightarrow> bytes \<Rightarrow> int + sys_call option" where
  "session_write pol fd buf = (if fd < 0 then Inl (-1) else Inr (policy_write pol fd buf))"

definition session_read :: "Policy \<Rightarrow> int \<Rightarrow> nat \<Rightarrow> int + sys_call option" where
  "session_read pol fd count = (if fd < 0 then Inl (-1) else Inr (policy_read pol fd count))"

definition session_write_vector :: "Policy \<Rightarrow> int \<Rightarrow> bytes list \<Rightarrow> int + sys_call option" where
  "session_write_vector pol fd iov = Inr (policy_write_vector pol fd iov)"

definition session_write_message :: "Policy \<Rightarrow> int \<Rightarrow> bytes list \<Rightarrow> int + sys_call option" where
  "session_write_message pol fd iov = Inr (policy_write_message pol fd iov)"

definition session_read_vector :: "Policy \<Rightarrow> int \<Rightarrow> nat \<Rightarrow> int + sys_call option" where
  "session_read_vector pol fd count = Inr (policy_read_vector pol fd count)"

definition session_peek_header :: "Policy \<Rightarrow> int \<Rightarrow> int + sys_call option" where
  "session_peek_header pol fd = Inr (policy_peek_header pol fd)"

section \<open>Unique handles\<close>

record UniqueFileDescriptor =
  ufd :: int
  ufd_ctx :: Context

text \<open>What a moved-from context keeps: its strings are empty.\<close>

fun moved_ctx :: "Context \<Rightarrow> Context" where
  "moved_ctx EmptyContext = EmptyContext"
| "moved_ctx (Ctx_ipv4 c) = Ctx_ipv4 (c\<lparr>local_ip := [], target_ip := []\<rparr>)"
| "moved_ctx (Ctx_dgram c) = Ctx_dgram (c\<lparr>dgram_local_path := [], dgram_target_path := []\<rparr>)"
| "moved_ctx (Ctx_stream c) = Ctx_stream (c\<lparr>stream_local_path := [], stream_target_path := []\<rparr>)"
| "moved_ctx (Ctx_udp c) = Ctx_udp (c\<lparr>udp_ip := []\<rparr>)"
| "moved_ctx (Ctx_pipe c) = Ctx_pipe (c\<lparr>pipe_path := []\<rparr>)"

definition unique_release :: "Policy \<Rightarrow> UniqueFileDescriptor \<Rightarrow> sys_call list \<times> UniqueFileDescriptor" where
  "unique_release pol u =
     (if ufd u \<ge> 0
      then (let (calls, ctx) = policy_close pol (ufd u) (ufd_ctx u) in (calls, \<lparr>ufd = -1, ufd_ctx = ctx\<rparr>))
      else ([], u))"

definition release_ownership :: "UniqueFileDescriptor \<Rightarrow> int \<times> UniqueFileDescriptor" where
  "release_ownership u = (ufd u, u\<lparr>ufd := -1\<rparr>)"

text \<open>The new or assigned-to object and the moved-from one, for two different objects.\<close>

definition unique_move_ctor :: "UniqueFileDescriptor \<Rightarrow> UniqueFileDescriptor \<times> UniqueFileDescriptor" where
  "unique_move_ctor other = (other, \<lparr>ufd = -1, ufd_ctx = moved_ctx (ufd_ctx other)\<rparr>)"

definition unique_move_assign ::
    "Policy \<Rightarrow> UniqueFileDescriptor \<Rightarrow> UniqueFileDescriptor \<Rightarrow>
     sys_call list \<times> UniqueFileDescriptor \<times> UniqueFileDescriptor" where
  "unique_move_assign pol this other =
     (let (calls, _) = unique_release pol this in (calls, unique_move_ctor other))"

section \<open>Shared handles\<close>

record SharedFileDescriptor =
  sfd :: int
  sfd_ctx :: Context

text \<open>The kernel closes an open descriptor; \<open>bad_close\<close> counts the calls for one that is not open.
  \<open>handed\<close> are the descriptors given back raw by \<open>release\<close>.\<close>

record world =
  reg :: registry
  handles :: "SharedFileDescriptor list"
  kopen :: "int set"
  bad_close :: nat
  calls :: "sys_call list"
  handed :: "int set"

definition init_world :: "nat \<Rightarrow> nat \<Rightarrow> world" where
  "init_world M n = \<lparr>reg = init_registry M, handles = replicate n \<lparr>sfd = -1, sfd_ctx = EmptyContext\<rparr>,
     kopen = {}, bad_close = 0, calls = [], handed = {}\<rparr>"

fun do_call :: "sys_call \<Rightarrow> world \<Rightarrow> world" where
  "do_call (Sys_close fd) w =
     (if fd \<in> kopen w then w\<lparr>kopen := kopen w - {fd}, calls := calls w @ [Sys_close fd]\<rparr>
      else w\<lparr>bad_close := bad_close w + 1, calls := calls w @ [Sys_close fd]\<rparr>)"
| "do_call c w = w\<lparr>calls := calls w @ [c]\<rparr>"

definition do_calls :: "sys_call list \<Rightarrow> world \<Rightarrow> world" where
  "do_calls cs w = fold do_call cs w"

definition set_handle :: "nat \<Rightarrow> SharedFileDescriptor \<Rightarrow> world \<Rightarrow> world" where
  "set_handle i h w = w\<lparr>handles := (handles w)[i := h]\<rparr>"

definition retain_if :: "int \<Rightarrow> world \<Rightarrow> world" where
  "retain_if fd w = (if fd \<ge> 0 then w\<lparr>reg := retain fd (reg w)\<rparr> else w)"

text \<open>The constructors from a raw descriptor and from \<open>LinuxArgs\<close>: the descriptor the policy opened and
  the context it declared.\<close>

definition shared_ctor :: "nat \<Rightarrow> int \<Rightarrow> Context \<Rightarrow> world \<Rightarrow> world" where
  "shared_ctor i fd ctx w = retain_if fd (set_handle i \<lparr>sfd = fd, sfd_ctx = ctx\<rparr> w)"

text \<open>The conversion from a unique handle takes the descriptor and leaves the context behind.\<close>

definition shared_from_unique ::
    "nat \<Rightarrow> Context \<Rightarrow> UniqueFileDescriptor \<Rightarrow> world \<Rightarrow> UniqueFileDescriptor \<times> world" where
  "shared_from_unique i default_ctx u w =
     (let (fd, u') = release_ownership u in (u', shared_ctor i fd default_ctx w))"

definition shared_copy_ctor :: "nat \<Rightarrow> nat \<Rightarrow> world \<Rightarrow> world" where
  "shared_copy_ctor i other w = (let h = handles w ! other in retain_if (sfd h) (set_handle i h w))"

definition shared_reset :: "Policy \<Rightarrow> nat \<Rightarrow> world \<Rightarrow> world" where
  "shared_reset pol i w =
     (let h = handles w ! i in
      if sfd h \<ge> 0 then
        (let (last, r) = release (sfd h) (reg w);
             w = w\<lparr>reg := r\<rparr>;
             (cs, ctx) = (if last then policy_close pol (sfd h) (sfd_ctx h) else ([], sfd_ctx h))
         in set_handle i \<lparr>sfd = -1, sfd_ctx = ctx\<rparr> (do_calls cs w))
      else w)"

definition shared_copy_assign :: "Policy \<Rightarrow> nat \<Rightarrow> nat \<Rightarrow> world \<Rightarrow> world" where
  "shared_copy_assign pol i other w =
     (if i \<noteq> other then shared_copy_ctor i other (shared_reset pol i w) else w)"

definition shared_move_ctor :: "nat \<Rightarrow> nat \<Rightarrow> world \<Rightarrow> world" where
  "shared_move_ctor i other w =
     (let h = handles w ! other
      in set_handle other \<lparr>sfd = -1, sfd_ctx = moved_ctx (sfd_ctx h)\<rparr> (set_handle i h w))"

definition shared_move_assign :: "Policy \<Rightarrow> nat \<Rightarrow> nat \<Rightarrow> world \<Rightarrow> world" where
  "shared_move_assign pol i other w =
     (if i \<noteq> other then shared_move_ctor i other (shared_reset pol i w) else w)"

text \<open>\<open>release\<close> drops the reference and returns the raw descriptor; it never closes.\<close>

definition shared_release :: "nat \<Rightarrow> world \<Rightarrow> int \<times> world" where
  "shared_release i w =
     (let h = handles w ! i in
      if sfd h \<ge> 0
      then (sfd h, set_handle i (h\<lparr>sfd := -1\<rparr>)
              (w\<lparr>reg := snd (release (sfd h) (reg w)), handed := insert (sfd h) (handed w)\<rparr>))
      else (sfd h, w))"

definition use_count :: "nat \<Rightarrow> world \<Rightarrow> u64" where
  "use_count i w = get_count (reg w) (sfd (handles w ! i))"

text \<open>The slot whose mutex \<open>lock\<close> takes for a session.\<close>

definition shared_lock :: "nat \<Rightarrow> world \<Rightarrow> int \<times> nat option" where
  "shared_lock i w = (sfd (handles w ! i), get_mutex (reg w) (sfd (handles w ! i)))"

text \<open>\<open>SharedFdSwitchGuard\<close>: \<open>tmp\<close> is its member \<open>_temporary_fd\<close>, destroyed after the body of the
  destructor.\<close>

definition guard_ctor :: "Policy \<Rightarrow> nat \<Rightarrow> nat \<Rightarrow> nat \<Rightarrow> world \<Rightarrow> world" where
  "guard_ctor pol tmp active target w =
     shared_move_assign pol active target (shared_move_assign pol tmp active w)"

definition guard_dtor :: "Policy \<Rightarrow> nat \<Rightarrow> nat \<Rightarrow> nat \<Rightarrow> world \<Rightarrow> world" where
  "guard_dtor pol tmp active target w =
     shared_reset pol tmp (shared_move_assign pol active tmp (shared_move_assign pol target active w))"

section \<open>Programs that use shared handles\<close>

text \<open>Every operation on the handles of a program.  A constructor runs on a variable that holds no
  object; a descriptor comes from the kernel, which gives out one that is not open, or \<open>-1\<close>.\<close>

inductive sfd_step :: "Policy \<Rightarrow> nat \<Rightarrow> world \<Rightarrow> world \<Rightarrow> bool" for pol M where
  opened: "i < length (handles w) \<Longrightarrow> sfd (handles w ! i) = -1 \<Longrightarrow> in_range M fd \<Longrightarrow> fd \<notin> kopen w \<Longrightarrow>
    sfd_step pol M w (shared_ctor i fd ctx (w\<lparr>kopen := insert fd (kopen w)\<rparr>))"
| open_failed: "i < length (handles w) \<Longrightarrow> sfd (handles w ! i) = -1 \<Longrightarrow>
    sfd_step pol M w (shared_ctor i (-1) ctx w)"
| copied: "i < length (handles w) \<Longrightarrow> j < length (handles w) \<Longrightarrow> sfd (handles w ! i) = -1 \<Longrightarrow> i \<noteq> j \<Longrightarrow>
    sfd_step pol M w (shared_copy_ctor i j w)"
| copy_assigned: "i < length (handles w) \<Longrightarrow> j < length (handles w) \<Longrightarrow>
    sfd_step pol M w (shared_copy_assign pol i j w)"
| moved: "i < length (handles w) \<Longrightarrow> j < length (handles w) \<Longrightarrow> sfd (handles w ! i) = -1 \<Longrightarrow> i \<noteq> j \<Longrightarrow>
    sfd_step pol M w (shared_move_ctor i j w)"
| move_assigned: "i < length (handles w) \<Longrightarrow> j < length (handles w) \<Longrightarrow>
    sfd_step pol M w (shared_move_assign pol i j w)"
| destroyed: "i < length (handles w) \<Longrightarrow> sfd_step pol M w (shared_reset pol i w)"
| released: "i < length (handles w) \<Longrightarrow> sfd_step pol M w (snd (shared_release i w))"

inductive sfd_reachable :: "Policy \<Rightarrow> nat \<Rightarrow> nat \<Rightarrow> world \<Rightarrow> bool" for pol M n where
  start: "sfd_reachable pol M n (init_world M n)"
| step: "sfd_reachable pol M n w \<Longrightarrow> sfd_step pol M w w' \<Longrightarrow> sfd_reachable pol M n w'"

definition refcount :: "world \<Rightarrow> int \<Rightarrow> nat" where
  "refcount w fd = count_list (map sfd (handles w)) fd"

definition sfd_inv :: "nat \<Rightarrow> world \<Rightarrow> bool" where
  "sfd_inv M w \<longleftrightarrow> registry_inv M (reg w) \<and> length (handles w) < 2 ^ 64 \<and>
     (\<forall>h \<in> set (handles w). sfd h = -1 \<or> in_range M (sfd h)) \<and>
     (\<forall>fd. in_range M fd \<longrightarrow> get_count (reg w) fd = of_nat (refcount w fd)) \<and>
     bad_close w = 0 \<and>
     (\<forall>fd. in_range M fd \<longrightarrow> 0 < refcount w fd \<longrightarrow> fd \<in> kopen w) \<and>
     (\<forall>fd \<in> kopen w. in_range M fd \<and> (0 < refcount w fd \<or> fd \<in> handed w))"

section \<open>The invariant\<close>

lemma count_list_update:
  "i < length xs \<Longrightarrow>
   count_list (xs[i := v]) x + (if xs ! i = x then 1 else 0) = count_list xs x + (if v = x then 1 else 0)"
proof (induction xs arbitrary: i)
  case (Cons a xs)
  show ?case
  proof (cases i)
    case (Suc k)
    then show ?thesis
      using Cons.IH [of k] Cons.prems by (auto simp del: One_nat_def split: if_splits)
  qed (use Cons.prems in auto)
qed simp

lemma refcount_set:
  "i < length (handles w) \<Longrightarrow> refcount (set_handle i h w) x + (if sfd (handles w ! i) = x then 1 else 0) =
     refcount w x + (if sfd h = x then 1 else 0)"
  using count_list_update [of i "map sfd (handles w)" "sfd h" x] by (simp add: refcount_def set_handle_def map_update)

lemma refcount_le: "refcount w x \<le> length (handles w)"
  by (simp add: refcount_def count_le_length [of "map sfd (handles w)", simplified])

lemma refcount_pos: "i < length (handles w) \<Longrightarrow> 0 < refcount w (sfd (handles w ! i))"
  by (auto simp: refcount_def count_list_0_iff simp flip: neq0_conv)

lemma do_close:
  assumes "fd \<ge> 0"
  shows "\<exists>cs. do_calls (fst (policy_close pol fd ctx)) w =
    (if fd \<in> kopen w then w\<lparr>kopen := kopen w - {fd}, calls := cs\<rparr>
     else w\<lparr>bad_close := bad_close w + 1, calls := cs\<rparr>)"
  using policy_close_calls [OF assms, of pol ctx]
  by (cases w) (auto simp: do_calls_def)

lemma set_handle_simps [simp]:
  "reg (set_handle i h w) = reg w" "kopen (set_handle i h w) = kopen w"
  "bad_close (set_handle i h w) = bad_close w" "handed (set_handle i h w) = handed w"
  "handles (set_handle i h w) = (handles w)[i := h]"
  by (simp_all add: set_handle_def)

lemma refcount_cong [simp]:
  "refcount (w\<lparr>reg := r\<rparr>) = refcount w" "refcount (w\<lparr>kopen := K\<rparr>) = refcount w"
  "refcount (w\<lparr>calls := cs\<rparr>) = refcount w" "refcount (w\<lparr>handed := H\<rparr>) = refcount w"
  by (simp_all add: fun_eq_iff refcount_def)

lemma sfd_invD:
  assumes "sfd_inv M w"
  shows "registry_inv M (reg w)" "\<And>fd. in_range M fd \<Longrightarrow> get_count (reg w) fd = of_nat (refcount w fd)"
    "refcount w fd < 2 ^ 64" "i < length (handles w) \<Longrightarrow> sfd (handles w ! i) = -1 \<or> in_range M (sfd (handles w ! i))"
    "i < length (handles w) \<Longrightarrow> in_range M (sfd (handles w ! i)) \<Longrightarrow> sfd (handles w ! i) \<in> kopen w"
  using assms refcount_le [of w fd] refcount_pos [of i w]
  by (auto simp: sfd_inv_def)

text \<open>The three changes every operation is made of: a handle takes up a descriptor, gives its
  descriptor to another handle, or drops it.\<close>

lemma sfd_invI:
  assumes "registry_inv M (reg w)" "length (handles w) < 2 ^ 64"
    "\<And>h. h \<in> set (handles w) \<Longrightarrow> sfd h = -1 \<or> in_range M (sfd h)"
    "\<And>fd. in_range M fd \<Longrightarrow> get_count (reg w) fd = of_nat (refcount w fd)" "bad_close w = 0"
    "\<And>fd. in_range M fd \<Longrightarrow> 0 < refcount w fd \<Longrightarrow> fd \<in> kopen w"
    "\<And>fd. fd \<in> kopen w \<Longrightarrow> in_range M fd \<and> (0 < refcount w fd \<or> fd \<in> handed w)"
  shows "sfd_inv M w"
  using assms unfolding sfd_inv_def by blast

lemma handles_update_ok:
  "sfd_inv M w \<Longrightarrow> sfd h = -1 \<or> in_range M (sfd h) \<Longrightarrow> h' \<in> set ((handles w)[i := h]) \<Longrightarrow>
   sfd h' = -1 \<or> in_range M (sfd h')"
  using set_update_subset_insert [of "handles w" i h] by (auto simp: sfd_inv_def)

lemma in_range_nonneg: "in_range M fd \<Longrightarrow> 0 \<le> fd \<and> fd \<noteq> -1"
  by (simp add: in_range_def)

lemma inv_attach:
  assumes "sfd_inv M w" and "i < length (handles w)" and "sfd (handles w ! i) = -1"
    and "sfd h = -1 \<or> in_range M (sfd h)"
  shows "sfd_inv M (retain_if (sfd h) (set_handle i h
    (w\<lparr>kopen := if sfd h \<ge> 0 then insert (sfd h) (kopen w) else kopen w\<rparr>)))" (is "sfd_inv M ?w")
proof -
  have hs: "handles ?w = (handles w)[i := h]"
    by (simp add: retain_if_def)
  have rc: "refcount ?w x = refcount w x + (if sfd h = x then 1 else 0)" if "in_range M x" for x
    using refcount_set [OF assms(2), of h x] assms(3) in_range_nonneg [OF that]
    by (simp add: refcount_def retain_if_def set_handle_def)
  note D = sfd_invD [OF assms(1)]
  have reg: "registry_inv M (reg ?w) \<and> (\<forall>x. in_range M x \<longrightarrow> get_count (reg ?w) x = of_nat (refcount ?w x))"
  proof (cases "sfd h = -1")
    case True
    then show ?thesis
      using D(1,2) rc by (auto simp: retain_if_def dest: in_range_nonneg)
  next
    case False
    then have fd: "in_range M (sfd h)" "sfd h \<ge> 0"
      using assms(4) by (auto dest: in_range_nonneg)
    have "refcount w (sfd h) + 1 < 2 ^ 64"
      using rc [OF fd(1)] refcount_le [of ?w "sfd h"] assms(1) hs by (simp add: sfd_inv_def)
    note reg.acquire_counts [OF D(1) fd(1) D(2) this]
    with fd rc show ?thesis
      by (simp add: retain_if_def)
  qed
  show ?thesis
  proof (rule sfd_invI)
    show "\<And>h'. h' \<in> set (handles ?w) \<Longrightarrow> sfd h' = -1 \<or> in_range M (sfd h')"
      unfolding hs by (rule handles_update_ok [OF assms(1,4)])
    show "\<And>fd. in_range M fd \<Longrightarrow> 0 < refcount ?w fd \<Longrightarrow> fd \<in> kopen ?w"
      using assms(1) rc by (auto simp: sfd_inv_def retain_if_def split: if_splits dest: in_range_nonneg)
    show "\<And>fd. fd \<in> kopen ?w \<Longrightarrow> in_range M fd \<and> (0 < refcount ?w fd \<or> fd \<in> handed ?w)"
      using assms(1,4) rc by (auto simp: sfd_inv_def retain_if_def split: if_splits)
  qed (use reg assms(1) hs in \<open>auto simp: sfd_inv_def retain_if_def\<close>)
qed

lemma inv_move:
  assumes "sfd_inv M w" and "i < length (handles w)" "j < length (handles w)" "i \<noteq> j"
    and "sfd (handles w ! i) = -1"
  shows "sfd_inv M (shared_move_ctor i j w)" (is "sfd_inv M ?w")
proof -
  let ?v = "set_handle i (handles w ! j) w"
  let ?h = "\<lparr>sfd = -1, sfd_ctx = moved_ctx (sfd_ctx (handles w ! j))\<rparr>"
  have w: "?w = set_handle j ?h ?v"
    by (simp add: shared_move_ctor_def Let_def)
  have rc: "refcount ?w x = refcount w x" if "in_range M x" for x
    using refcount_set [of j ?v ?h x] refcount_set [OF assms(2), of "handles w ! j" x]
      in_range_nonneg [OF that] assms(2-5) unfolding w by (auto split: if_splits)
  have mem: "sfd h' = -1 \<or> in_range M (sfd h')" if "h' \<in> set (handles ?w)" for h'
  proof -
    have "set (handles ?w) \<subseteq> insert ?h (insert (handles w ! j) (set (handles w)))"
      unfolding w using set_update_subset_insert [of "(handles w)[i := handles w ! j]" j ?h]
        set_update_subset_insert [of "handles w" i "handles w ! j"] by auto
    with that have "h' \<in> insert ?h (insert (handles w ! j) (set (handles w)))"
      by blast
    with assms(1,3) show ?thesis by (auto simp: sfd_inv_def)
  qed
  show ?thesis
    by (rule sfd_invI) (use assms(1) rc mem w in \<open>auto simp: sfd_inv_def\<close>)
qed

lemma inv_drop:
  assumes "sfd_inv M w" and "i < length (handles w)" and "fd = sfd (handles w ! i)" and "in_range M fd"
    and "sfd h = -1" and "K = kopen w \<and> H = insert fd (handed w) \<or>
      K = (if refcount w fd = 1 then kopen w - {fd} else kopen w) \<and> H = handed w"
  shows "sfd_inv M (set_handle i h (w\<lparr>reg := snd (release fd (reg w)), kopen := K, calls := cs, handed := H\<rparr>))"
    (is "sfd_inv M ?w")
proof -
  note D = sfd_invD [OF assms(1)]
  have pos: "0 < refcount w fd"
    using refcount_pos [OF assms(2)] assms(3) by simp
  note drop = reg.drop_counts [OF D(1) assms(4) D(2) pos D(3)]
  have rc: "refcount ?w x = refcount w x - (if x = fd then 1 else 0)" if "in_range M x" for x
    using refcount_set [OF assms(2), of h x] assms(3,5) in_range_nonneg [OF that]
    by (auto simp: refcount_def set_handle_def)
  show ?thesis
  proof (rule sfd_invI)
    show "\<And>h'. h' \<in> set (handles ?w) \<Longrightarrow> sfd h' = -1 \<or> in_range M (sfd h')"
      using handles_update_ok [OF assms(1), of h _ i] assms(5) by simp
    show "\<And>x. in_range M x \<Longrightarrow> 0 < refcount ?w x \<Longrightarrow> x \<in> kopen ?w"
      using assms(1,6) rc by (auto simp: sfd_inv_def split: if_splits)
    show "\<And>x. x \<in> kopen ?w \<Longrightarrow> in_range M x \<and> (0 < refcount ?w x \<or> x \<in> handed ?w)"
      using assms(1,6) rc pos by (auto simp: sfd_inv_def split: if_splits)
  qed (use assms(1) drop rc in \<open>auto simp: sfd_inv_def\<close>)
qed

lemma reset_drops:
  assumes "sfd_inv M w" and "i < length (handles w)" and "fd = sfd (handles w ! i)" and "in_range M fd"
  shows "\<exists>ctx cs. shared_reset pol i w = set_handle i \<lparr>sfd = -1, sfd_ctx = ctx\<rparr>
    (w\<lparr>reg := snd (release fd (reg w)),
       kopen := if refcount w fd = 1 then kopen w - {fd} else kopen w, calls := cs, handed := handed w\<rparr>)"
proof -
  note D = sfd_invD [OF assms(1)]
  have pos: "0 < refcount w fd" and open_fd: "fd \<in> kopen w" and nonneg: "fd \<ge> 0"
    using refcount_pos [OF assms(2)] D(5) [OF assms(2)] assms(3,4) by (auto dest: in_range_nonneg)
  have last: "fst (release fd (reg w)) = (refcount w fd = 1)"
    by (rule reg.drop_counts(2) [OF D(1) assms(4) D(2) pos D(3)])
  obtain cs where "do_calls (fst (policy_close pol fd (sfd_ctx (handles w ! i)))) (w\<lparr>reg := snd (release fd (reg w))\<rparr>) =
      w\<lparr>reg := snd (release fd (reg w)), kopen := kopen w - {fd}, calls := cs\<rparr>"
    using do_close [OF nonneg, of pol "sfd_ctx (handles w ! i)" "w\<lparr>reg := snd (release fd (reg w))\<rparr>"] open_fd by auto
  then have "shared_reset pol i w = set_handle i
      \<lparr>sfd = -1, sfd_ctx = if refcount w fd = 1 then snd (policy_close pol fd (sfd_ctx (handles w ! i))) else sfd_ctx (handles w ! i)\<rparr>
      (w\<lparr>reg := snd (release fd (reg w)), kopen := if refcount w fd = 1 then kopen w - {fd} else kopen w,
         calls := if refcount w fd = 1 then cs else calls w, handed := handed w\<rparr>)"
    using last nonneg assms(3)
    by (cases w) (auto simp: shared_reset_def Let_def do_calls_def split: prod.splits)
  then show ?thesis by blast
qed

lemma inv_reset:
  assumes "sfd_inv M w" and "i < length (handles w)"
  shows "sfd_inv M (shared_reset pol i w) \<and> length (handles (shared_reset pol i w)) = length (handles w) \<and>
    sfd (handles (shared_reset pol i w) ! i) = -1 \<and>
    (\<forall>j. j \<noteq> i \<longrightarrow> handles (shared_reset pol i w) ! j = handles w ! j)"
proof (cases "in_range M (sfd (handles w ! i))")
  case True
  then show ?thesis
    using reset_drops [OF assms refl True, of pol] inv_drop [OF assms refl True] assms(2) by fastforce
next
  case False
  then have "sfd (handles w ! i) = -1"
    using sfd_invD(4) [OF assms] by blast
  then show ?thesis
    using assms by (simp add: shared_reset_def)
qed

lemma inv_copy:
  assumes "sfd_inv M w" and "i < length (handles w)" "j < length (handles w)" and "sfd (handles w ! i) = -1"
  shows "sfd_inv M (shared_copy_ctor i j w)"
proof -
  let ?h = "handles w ! j"
  have "(if sfd ?h \<ge> 0 then insert (sfd ?h) (kopen w) else kopen w) = kopen w"
    using sfd_invD(4,5) [OF assms(1,3)] by (auto simp: insert_absorb)
  then show ?thesis
    using inv_attach [OF assms(1,2,4) sfd_invD(4) [OF assms(1,3)]] by (simp add: shared_copy_ctor_def Let_def)
qed

lemma inv_release:
  assumes "sfd_inv M w" and "i < length (handles w)"
  shows "sfd_inv M (snd (shared_release i w))"
proof (cases "in_range M (sfd (handles w ! i))")
  case True
  then have "sfd_inv M (set_handle i ((handles w ! i)\<lparr>sfd := -1\<rparr>)
      (w\<lparr>reg := snd (release (sfd (handles w ! i)) (reg w)), kopen := kopen w, calls := calls w,
         handed := insert (sfd (handles w ! i)) (handed w)\<rparr>))"
    using assms by (intro inv_drop) simp_all
  with True show ?thesis
    by (simp add: shared_release_def Let_def in_range_nonneg)
next
  case False
  then show ?thesis
    using sfd_invD(4) [OF assms] assms(1) by (auto simp: shared_release_def Let_def)
qed

lemma sfd_inv_step: "sfd_step pol M w w' \<Longrightarrow> sfd_inv M w \<Longrightarrow> sfd_inv M w'"
proof (induction rule: sfd_step.induct)
  case (opened i w fd ctx)
  then show ?case
    using inv_attach [of M w i "\<lparr>sfd = fd, sfd_ctx = ctx\<rparr>"] by (simp add: shared_ctor_def in_range_nonneg)
next
  case (open_failed i w ctx)
  then show ?case
    using inv_attach [of M w i "\<lparr>sfd = -1, sfd_ctx = ctx\<rparr>"] by (simp add: shared_ctor_def)
next
  case (copy_assigned i w j)
  then show ?case
    using inv_reset [of M w i pol] inv_copy [of M "shared_reset pol i w" i j] by (auto simp: shared_copy_assign_def)
next
  case (move_assigned i w j)
  then show ?case
    using inv_reset [of M w i pol] inv_move [of M "shared_reset pol i w" i j] by (auto simp: shared_move_assign_def)
qed (auto simp: inv_copy inv_move inv_reset inv_release)

lemma sfd_inv_init: "M \<le> 2 ^ 31 \<Longrightarrow> n < 2 ^ 64 \<Longrightarrow> sfd_inv M (init_world M n)"
proof (rule sfd_invI)
  have "count_list (map sfd (replicate n \<lparr>sfd = -1, sfd_ctx = EmptyContext\<rparr>)) fd = 0" if "fd \<noteq> -1" for fd
    using that by (auto simp: count_list_0_iff)
  then have rc: "refcount (init_world M n) fd = 0" if "in_range M fd" for fd
    using in_range_nonneg [OF that] by (simp add: refcount_def init_world_def)
  have "get_count (init_registry M) fd = 0" if "in_range M fd" for fd
    using in_range_nonneg [OF that] by (intro get_count_absent) (auto simp: init_registry_def empty_slot_def)
  with rc show "\<And>fd. in_range M fd \<Longrightarrow> get_count (reg (init_world M n)) fd = of_nat (refcount (init_world M n) fd)"
    by (simp add: init_world_def)
qed (auto simp: init_world_def registry_inv_init refcount_def count_list_0_iff dest!: in_range_nonneg)

lemma sfd_reachable_inv: "sfd_reachable pol M n w \<Longrightarrow> M \<le> 2 ^ 31 \<Longrightarrow> n < 2 ^ 64 \<Longrightarrow> sfd_inv M w"
  by (induction rule: sfd_reachable.induct) (auto simp: sfd_inv_init sfd_inv_step)

section \<open>Properties\<close>


definition example_world :: world where
  "example_world = shared_reset PipePolicy 0 (shared_copy_ctor 1 0
     (shared_ctor 0 5 (Ctx_pipe \<lparr>pipe_path = ''fifo'', pipe_flag = 0\<rparr>) ((init_world 256 3)\<lparr>kopen := {5}\<rparr>)))"

lemma example_world_reachable: "sfd_reachable PipePolicy 256 3 example_world"
proof -
  let ?w1 = "shared_ctor 0 5 (Ctx_pipe \<lparr>pipe_path = ''fifo'', pipe_flag = 0\<rparr>) ((init_world 256 3)\<lparr>kopen := {5}\<rparr>)"
  have "sfd_reachable PipePolicy 256 3 ?w1"
    using sfd_reachable.step [OF sfd_reachable.start sfd_step.opened [of 0 "init_world 256 3" 256 5 _ "Ctx_pipe \<lparr>pipe_path = ''fifo'', pipe_flag = 0\<rparr>"]]
    by (simp add: init_world_def in_range_def)
  then have "sfd_reachable PipePolicy 256 3 (shared_copy_ctor 1 0 ?w1)"
    by (rule sfd_reachable.step, intro sfd_step.copied) (simp_all add: shared_ctor_def retain_if_def init_world_def)
  then show ?thesis
    unfolding example_world_def
    by (rule sfd_reachable.step, intro sfd_step.destroyed)
       (simp add: shared_ctor_def shared_copy_ctor_def retain_if_def init_world_def Let_def)
qed


text \<open>\<open>SharedFdSwitchGuard\<close>.  Its constructor puts the target descriptor in the active variable;
  construction followed by destruction puts every variable back as it was, context included, and
  neither closes nor counts anything.\<close>

theorem switch_guard_restores:
  assumes "tmp \<noteq> active" and "tmp \<noteq> target" and "active \<noteq> target"
    and "tmp < length (handles w)" and "active < length (handles w)" and "target < length (handles w)"
    and "sfd (handles w ! tmp) = -1"
  shows "handles (guard_ctor pol tmp active target w) ! active = handles w ! target \<and>
    (\<exists>ctx. guard_dtor pol tmp active target (guard_ctor pol tmp active target w) =
      set_handle tmp \<lparr>sfd = -1, sfd_ctx = ctx\<rparr> w)"
proof -
  let ?A = "handles w ! active" and ?T = "handles w ! target"
  let ?gone = "\<lambda>h. \<lparr>sfd = -1, sfd_ctx = moved_ctx (sfd_ctx h)\<rparr>"
  have ctor: "guard_ctor pol tmp active target w =
      w\<lparr>handles := (handles w)[tmp := ?A, active := ?T, target := ?gone ?T]\<rparr>"
    using assms by (simp add: guard_ctor_def shared_move_assign_def shared_move_ctor_def shared_reset_def
        set_handle_def Let_def list_update_swap)
  have restore: "(handles w)[tmp := ?gone ?A, active := ?A, target := ?T] = (handles w)[tmp := ?gone ?A]"
    using assms by (metis list_update_id list_update_swap)
  have "guard_dtor pol tmp active target (guard_ctor pol tmp active target w) =
      w\<lparr>handles := (handles w)[tmp := ?gone ?A, active := ?A, target := ?T]\<rparr>"
    unfolding ctor using assms
    by (simp add: guard_dtor_def shared_move_assign_def shared_move_ctor_def shared_reset_def
        set_handle_def Let_def list_update_swap)
  then have "guard_dtor pol tmp active target (guard_ctor pol tmp active target w) = set_handle tmp (?gone ?A) w"
    unfolding restore by (simp add: set_handle_def)
  with ctor assms show ?thesis by auto
qed

theorem switch_guard_restores_witness:
  "\<exists>ctx. guard_dtor PipePolicy 2 0 1 (guard_ctor PipePolicy 2 0 1 (init_world 256 3)) =
     set_handle 2 \<lparr>sfd = -1, sfd_ctx = ctx\<rparr> (init_world 256 3)"
  using switch_guard_restores [of 2 0 1 "init_world 256 3" PipePolicy] by (simp add: init_world_def)

lemma mutex_scan_home:
  assumes "registry_inv M r" and "in_range M fd" and "get_count r fd \<noteq> 0"
  shows "get_mutex r fd = Some (nat fd)"
  using assms(1,2)
proof (cases rule: slot_cases)
  case empty
  then show ?thesis
    using assms get_count_home [OF assms(1,2)] by (simp add: empty_slot_def)
next
  case held
  then show ?thesis
    using home_bound [OF assms(1,2)] by (simp add: get_mutex_def home_index [OF assms(1,2)] upt_0 Let_def)
qed

text \<open>Sessions exclude each other exactly when they use the same descriptor: two handles lock the
  same mutex if and only if they hold the same descriptor, and a handle that holds one never falls
  back to the common mutex.\<close>

theorem session_mutex_per_descriptor:
  assumes "sfd_reachable pol M n w" and "M \<le> 2 ^ 31" and "n < 2 ^ 64"
    and "i < length (handles w)" "sfd (handles w ! i) \<ge> 0" "j < length (handles w)" "sfd (handles w ! j) \<ge> 0"
  shows "snd (shared_lock i w) \<noteq> None \<and>
    (snd (shared_lock i w) = snd (shared_lock j w) \<longleftrightarrow> sfd (handles w ! i) = sfd (handles w ! j))"
proof -
  note inv = sfd_reachable_inv [OF assms(1-3)]
  have "get_mutex (reg w) (sfd (handles w ! k)) = Some (nat (sfd (handles w ! k)))"
    if "k < length (handles w)" "sfd (handles w ! k) \<ge> 0" for k
  proof -
    have fd: "in_range M (sfd (handles w ! k))"
      using sfd_invD(4) [OF inv that(1)] that(2) by auto
    have "(of_nat (refcount w (sfd (handles w ! k))) :: u64) \<noteq> 0"
      by (rule of_nat_u64_nonzero [OF refcount_pos [OF that(1)] sfd_invD(3) [OF inv]])
    with fd show ?thesis
      using mutex_scan_home [OF sfd_invD(1) [OF inv] fd] sfd_invD(2) [OF inv fd] by simp
  qed
  with assms(4-7) show ?thesis by (auto simp: shared_lock_def)
qed

theorem session_mutex_per_descriptor_witness:
  "snd (shared_lock 1 example_world) = snd (shared_lock 1 example_world) \<and> snd (shared_lock 1 example_world) \<noteq> None"
proof -
  have "1 < length (handles example_world) \<and> sfd (handles example_world ! 1) \<ge> 0"
    by code_simp
  then show ?thesis
    using session_mutex_per_descriptor [OF example_world_reachable, of 1 1] by simp
qed

end
