(* ===== verification/Ipc_Channel.thy ===== *)
theory Ipc_Channel
  imports Ipc_Util Sfd_Handles
begin

text \<open>
  The packet channel of \<open>src/linux/common/ipc\<close>: packet header and flags (\<open>ipc_metadata.h\<close>), the sender
  with its three sources of a checksum (\<open>ipc_sender.h\<close>, \<open>ipc_crc_expr.h\<close>), the stream and the datagram
  receiver (\<open>ipc_receiver.h\<close>), the dispatcher (\<open>ipc_msg_dispatcher.h\<close>), \<open>PosixPipe\<close>
  (\<open>posix/pipe/posix_pipe.h\<close>, \<open>.cpp\<close>).

  A pipe or stream socket is the list of the bytes in its kernel buffer, a datagram socket the list of
  its datagrams.  How many bytes of a frame \<open>writev\<close> and \<open>sendmsg\<close> accept is the argument \<open>accept\<close>.
  \<open>readv\<close> delivers what is there, up to the size asked for; an empty buffer gives nothing.  What an
  out-parameter held before a call is an argument of it.
\<close>

section \<open>Metadata\<close>

text \<open>The enumeration \<open>DataType\<close> is a byte: the wire may carry any value.\<close>

definition DT_Number :: u8 where "DT_Number = 0"
definition DT_Text :: u8 where "DT_Text = 1"
definition DT_Command :: u8 where "DT_Command = 2"
definition DT_Media :: u8 where "DT_Media = 3"
definition DT_Heartbeat :: u8 where "DT_Heartbeat = 4"
definition DT_Custom :: u8 where "DT_Custom = 5"

record PacketHeader =
  ptype :: u8
  payload_size :: u32
  timestamp_ms :: u64
  sequence_id :: u32
  has_check_sum :: u8
  check_sum_calculated :: u32

definition sizeof_PacketHeader :: nat where
  "sizeof_PacketHeader = 22"

text \<open>The packed structure in memory, and the structure over given memory.\<close>

definition header_to_bytes :: "PacketHeader \<Rightarrow> bytes" where
  "header_to_bytes h = [ptype h] @ le_bytes 4 (payload_size h) @ le_bytes 8 (timestamp_ms h) @
     le_bytes 4 (sequence_id h) @ [has_check_sum h] @ le_bytes 4 (check_sum_calculated h)"

definition header_of_bytes :: "bytes \<Rightarrow> PacketHeader" where
  "header_of_bytes bs = \<lparr>ptype = bs ! 0, payload_size = of_le (take 4 (drop 1 bs)),
     timestamp_ms = of_le (take 8 (drop 5 bs)), sequence_id = of_le (take 4 (drop 13 bs)),
     has_check_sum = bs ! 17, check_sum_calculated = of_le (take 4 (drop 18 bs))\<rparr>"

text \<open>\<open>IPCRequestPayload\<close>: 32 bytes of name and a command word.\<close>

record IPCRequestPayload =
  client_id_field :: bytes
  command :: u32

definition sizeof_IPCRequestPayload :: nat where
  "sizeof_IPCRequestPayload = 36"

definition request_to_bytes :: "IPCRequestPayload \<Rightarrow> bytes" where
  "request_to_bytes r = take 32 (client_id_field r) @ replicate (32 - length (client_id_field r)) 0 @ le_bytes 4 (command r)"

definition request_of_bytes :: "bytes \<Rightarrow> IPCRequestPayload" where
  "request_of_bytes bs = \<lparr>client_id_field = take 32 bs, command = of_le (take 4 (drop 32 bs))\<rparr>"

text \<open>Flags: \<open>Ipc::Server\<close>, \<open>Ipc::Client\<close> and the tests of \<open>Ipc::Generic\<close>.\<close>

definition Server_ReadOnly :: u8 where "Server_ReadOnly = 0"
definition Server_Feedback :: u8 where "Server_Feedback = 1"
definition Server_CheckLose :: u8 where "Server_CheckLose = 2"
definition Server_Broadcast :: u8 where "Server_Broadcast = 4"
definition Client_Send :: u8 where "Client_Send = 0"
definition Client_Feedback :: u8 where "Client_Feedback = 1"
definition Client_CheckLose :: u8 where "Client_CheckLose = 2"

definition modes_has :: "u8 \<Rightarrow> u8 \<Rightarrow> bool" where
  "modes_has value flag \<longleftrightarrow> value AND flag \<noteq> 0"

definition modes_missing :: "u8 \<Rightarrow> u8 \<Rightarrow> bool" where
  "modes_missing value flag \<longleftrightarrow> \<not> modes_has value flag"

section \<open>Sender\<close>

text \<open>\<open>string_cache_pool\<close> and \<open>cache_index\<close>: buffer addresses already seen and the checksums computed for
  them.  The null pointer is \<open>None\<close>.\<close>

type_synonym pointer = "nat option"

record RuntimeStringCache =
  last_seen_ptr :: pointer
  cached_crc :: u32

record string_cache =
  pool :: "RuntimeStringCache list"
  cache_index :: nat

definition init_cache :: string_cache where
  "init_cache = \<lparr>pool = replicate 16 \<lparr>last_seen_ptr = None, cached_crc = 0\<rparr>, cache_index = 0\<rparr>"

fun cache_scan :: "pointer \<Rightarrow> RuntimeStringCache list \<Rightarrow> u32 option" where
  "cache_scan p [] = None"
| "cache_scan p (s # ss) = (if last_seen_ptr s = p then Some (cached_crc s) else cache_scan p ss)"

definition string_crc :: "pointer \<Rightarrow> bytes \<Rightarrow> string_cache \<Rightarrow> u32 \<times> string_cache" where
  "string_crc payload_ptr payload c =
     (case cache_scan payload_ptr (pool c) of
        Some crc \<Rightarrow> (crc, c)
      | None \<Rightarrow>
          (let new_crc = calculate_crc32 payload
           in (new_crc, c\<lparr>pool := (pool c)[cache_index c := \<lparr>last_seen_ptr = payload_ptr, cached_crc = new_crc\<rparr>],
                          cache_index := (cache_index c + 1) mod length (pool c)\<rparr>)))"

text \<open>Where the checksum of a payload comes from: the registered static instance itself
  (\<open>&data == static_ptr\<close>), a string with the address of its buffer, or any other object.\<close>

datatype crc_source = StaticPacket u32 | StringBuffer pointer | PlainObject

definition send_crc :: "crc_source \<Rightarrow> bytes \<Rightarrow> string_cache \<Rightarrow> u32 \<times> string_cache" where
  "send_crc src payload c =
     (case src of
        StaticPacket crc \<Rightarrow> (crc, c)
      | StringBuffer p \<Rightarrow> string_crc p payload c
      | PlainObject \<Rightarrow> (calculate_crc32 payload, c))"

text \<open>The frame \<open>send\<close> hands to the kernel.  \<open>payload_size\<close> has 32 bits, and no more than that many
  bytes of the data are sent or summed.\<close>

definition build_frame ::
    "bool \<Rightarrow> u8 \<Rightarrow> crc_source \<Rightarrow> bytes \<Rightarrow> u64 \<Rightarrow> u32 \<Rightarrow> string_cache \<Rightarrow> bytes \<times> string_cache" where
  "build_frame checks data_type src data now seq c =
     (let size = (of_nat (length data) :: u32);
          payload = take (unat size) data;
          header = \<lparr>ptype = data_type, payload_size = size, timestamp_ms = now, sequence_id = seq,
                    has_check_sum = 0, check_sum_calculated = 0\<rparr>;
          (header, c) = (if checks
             then (let (crc, c) = send_crc src payload c
                   in (header\<lparr>has_check_sum := 1, check_sum_calculated := crc\<rparr>, c))
             else (header, c))
      in (header_to_bytes header @ payload, c))"

definition ipc_send_stream :: "(bytes \<Rightarrow> int) \<Rightarrow> int \<Rightarrow> bytes \<Rightarrow> bytes \<Rightarrow> bool \<times> bytes" where
  "ipc_send_stream accept fd frame stream =
     (if fd < 0 then (False, stream)
      else (let sent = accept frame in (sent = int (length frame), stream @ take (nat sent) frame)))"

definition ipc_send_dgram :: "(bytes \<Rightarrow> int) \<Rightarrow> int \<Rightarrow> bytes \<Rightarrow> bytes list \<Rightarrow> bool \<times> bytes list" where
  "ipc_send_dgram accept fd frame queue =
     (if fd < 0 then (False, queue)
      else (let sent = accept frame
            in (sent = int (length frame), if sent < 0 then queue else queue @ [take (nat sent) frame])))"

section \<open>Receiver\<close>

text \<open>Memory partly overwritten from its start.\<close>

definition overlay :: "bytes \<Rightarrow> bytes \<Rightarrow> bytes" where
  "overlay new old = new @ drop (length new) old"

definition resize_to :: "nat \<Rightarrow> bytes \<Rightarrow> bytes" where
  "resize_to n xs = take n xs @ replicate (n - length xs) 0"

record received_packet =
  ok :: bool
  out_header :: PacketHeader
  out_payload :: bytes

definition receive_stream :: "int \<Rightarrow> PacketHeader \<Rightarrow> bytes \<Rightarrow> bytes \<Rightarrow> received_packet \<times> bytes" where
  "receive_stream fd h0 p0 stream =
     (if fd < 0 then (\<lparr>ok = False, out_header = h0, out_payload = p0\<rparr>, stream)
      else
        (let got = take sizeof_PacketHeader stream;
             stream = drop sizeof_PacketHeader stream;
             h = header_of_bytes (overlay got (header_to_bytes h0))
         in if length got \<noteq> sizeof_PacketHeader
            then (\<lparr>ok = False, out_header = h, out_payload = p0\<rparr>, stream)
            else if payload_size h > 0 then
              (let n = unat (payload_size h);
                   body = take n stream
               in (\<lparr>ok = (length body = n), out_header = h,
                    out_payload = overlay body (resize_to n p0)\<rparr>, drop n stream))
            else (\<lparr>ok = False, out_header = h, out_payload = p0\<rparr>, stream)))"

text \<open>The datagram path peeks at the header of the first datagram and then takes the datagram.\<close>

definition receive_dgram :: "int \<Rightarrow> PacketHeader \<Rightarrow> bytes \<Rightarrow> bytes list \<Rightarrow> received_packet \<times> bytes list" where
  "receive_dgram fd h0 p0 queue =
     (if fd < 0 then (\<lparr>ok = False, out_header = h0, out_payload = p0\<rparr>, queue)
      else case queue of
        [] \<Rightarrow> (\<lparr>ok = False, out_header = h0, out_payload = p0\<rparr>, queue)
      | d # rest \<Rightarrow>
          (if length (take sizeof_PacketHeader d) < sizeof_PacketHeader
           then (\<lparr>ok = False, out_header = h0, out_payload = p0\<rparr>, queue)
           else
             (let peek_header = header_of_bytes (take sizeof_PacketHeader d);
                  n = unat (payload_size peek_header);
                  got = take (sizeof_PacketHeader + n) d
              in (\<lparr>ok = (length got = sizeof_PacketHeader + n),
                   out_header = header_of_bytes (take sizeof_PacketHeader got),
                   out_payload = overlay (drop sizeof_PacketHeader got) (resize_to n p0)\<rparr>, rest))))"

section \<open>Dispatcher\<close>

datatype handled = OnText bytes | OnDouble bytes | OnInt bytes | OnMedia bytes
  | OnCommand IPCRequestPayload | NumberIgnored | UnknownDataType

text \<open>\<open>unpack\<close> of a trivially copyable type of \<open>n\<close> bytes: a payload that is too short gives zeros.\<close>

definition unpack_object :: "nat \<Rightarrow> bytes \<Rightarrow> bytes" where
  "unpack_object n payload = (if length payload \<ge> n then take n payload else replicate n 0)"

definition packet_dispatch :: "PacketHeader \<Rightarrow> bytes \<Rightarrow> handled" where
  "packet_dispatch h payload =
     (if ptype h = DT_Heartbeat then OnText payload
      else if ptype h = DT_Text then OnText payload
      else if ptype h = DT_Number then
        (if length payload = 8 then OnDouble (unpack_object 8 payload)
         else if length payload = 4 then OnInt (unpack_object 4 payload)
         else NumberIgnored)
      else if ptype h = DT_Media then OnMedia payload
      else if ptype h = DT_Custom then OnMedia payload
      else if ptype h = DT_Command then
        OnCommand (request_of_bytes (unpack_object sizeof_IPCRequestPayload payload))
      else UnknownDataType)"

section \<open>PosixPipe and UniversalSocket\<close>

datatype integrity = NotChecked | Verified | Corrupted

text \<open>\<open>PosixPipe::receive_packet\<close>: the result, what was dispatched, and the verdict it logs.\<close>

definition pipe_receive_packet ::
    "int \<Rightarrow> PacketHeader \<Rightarrow> bytes \<Rightarrow> bytes \<Rightarrow> received_packet \<times> handled option \<times> integrity \<times> bytes" where
  "pipe_receive_packet fd h0 p0 stream =
     (let (r, stream) = receive_stream fd h0 p0 stream in
      if \<not> ok r then (r, None, NotChecked, stream)
      else (r, Some (packet_dispatch (out_header r) (out_payload r)),
            (if has_check_sum (out_header r) \<noteq> 0
             then (if calculate_crc32 (take (unat (payload_size (out_header r))) (out_payload r)) =
                      check_sum_calculated (out_header r)
                   then Verified else Corrupted)
             else NotChecked), stream))"

text \<open>The overloads that take another descriptor refuse an empty one before they switch to it.\<close>

definition pipe_send_packet ::
    "(bytes \<Rightarrow> int) \<Rightarrow> bool \<Rightarrow> int \<Rightarrow> u8 \<Rightarrow> crc_source \<Rightarrow> bytes \<Rightarrow> u64 \<Rightarrow> u32 \<Rightarrow> string_cache \<Rightarrow> bytes \<Rightarrow>
     bool \<times> string_cache \<times> bytes" where
  "pipe_send_packet accept checks fd type src data now seq c stream =
     (if fd < 0 then (False, c, stream)
      else (let (frame, c) = build_frame checks type src data now seq c;
                (sent, stream) = ipc_send_stream accept fd frame stream
            in (sent, c, stream)))"

definition send_heartbeat ::
    "(bytes \<Rightarrow> int) \<Rightarrow> bool \<Rightarrow> int \<Rightarrow> pointer \<Rightarrow> bytes \<Rightarrow> u64 \<Rightarrow> u32 \<Rightarrow> string_cache \<Rightarrow> bytes \<Rightarrow>
     bool \<times> string_cache \<times> bytes" where
  "send_heartbeat accept checks fd p self_id now seq c stream =
     pipe_send_packet accept checks fd DT_Heartbeat (StringBuffer p) self_id now seq c stream"

section \<open>Encoding lemmas\<close>

lemma length_header_to_bytes [simp]: "length (header_to_bytes h) = sizeof_PacketHeader"
  by (simp add: header_to_bytes_def sizeof_PacketHeader_def)

lemma header_roundtrip: "header_of_bytes (header_to_bytes h) = h"
  by (simp add: header_of_bytes_def header_to_bytes_def of_le_bytes nth_append)

lemma overlay_full: "length new = length old \<Longrightarrow> overlay new old = new"
  by (simp add: overlay_def)

lemma length_resize_to [simp]: "length (resize_to n xs) = n"
  by (simp add: resize_to_def)

text \<open>A message as \<open>send\<close> sees it, and the header its frame carries.\<close>

record message =
  m_type :: u8
  m_src :: crc_source
  m_data :: bytes
  m_now :: u64
  m_seq :: u32

definition frame_header :: "bool \<Rightarrow> message \<Rightarrow> u32 \<Rightarrow> PacketHeader" where
  "frame_header checks m crc = \<lparr>ptype = m_type m, payload_size = of_nat (length (m_data m)),
     timestamp_ms = m_now m, sequence_id = m_seq m,
     has_check_sum = (if checks then 1 else 0), check_sum_calculated = (if checks then crc else 0)\<rparr>"

lemma unat_size: "length d < 2 ^ 32 \<Longrightarrow> unat (of_nat (length d) :: u32) = length d"
  by (simp add: unat_of_nat)

lemma build_frame_eq:
  assumes "length (m_data m) < 2 ^ 32"
  shows "build_frame checks (m_type m) (m_src m) (m_data m) (m_now m) (m_seq m) c =
    (header_to_bytes (frame_header checks m (fst (send_crc (m_src m) (m_data m) c))) @ m_data m,
     if checks then snd (send_crc (m_src m) (m_data m) c) else c)"
  using unat_size [OF assms] by (simp add: build_frame_def frame_header_def Let_def split: prod.splits)

lemma receive_frame:
  assumes "fd \<ge> 0" and "length body = unat (payload_size h)" and "body \<noteq> []"
  shows "receive_stream fd h0 p0 (header_to_bytes h @ body @ rest) =
    (\<lparr>ok = True, out_header = h, out_payload = body\<rparr>, rest)"
proof -
  have "payload_size h > 0"
    using assms(2,3) by (metis length_0_conv unat_0 word_gt_0)
  then show ?thesis
    using assms(1,2) by (simp add: receive_stream_def Let_def overlay_full header_roundtrip)
qed

section \<open>Streams of messages\<close>

text \<open>Sending a list of messages over one descriptor, and receiving \<open>n\<close> times into the same variables.\<close>

fun send_messages ::
    "(bytes \<Rightarrow> int) \<Rightarrow> bool \<Rightarrow> int \<Rightarrow> message list \<Rightarrow> string_cache \<Rightarrow> bytes \<Rightarrow> bool list \<times> string_cache \<times> bytes" where
  "send_messages accept checks fd [] c stream = ([], c, stream)"
| "send_messages accept checks fd (m # ms) c stream =
     (let (sent, c, stream) = pipe_send_packet accept checks fd (m_type m) (m_src m) (m_data m) (m_now m) (m_seq m) c stream;
          (rs, c, stream) = send_messages accept checks fd ms c stream
      in (sent # rs, c, stream))"

fun receive_messages ::
    "int \<Rightarrow> nat \<Rightarrow> PacketHeader \<Rightarrow> bytes \<Rightarrow> bytes \<Rightarrow> (received_packet \<times> integrity) list \<times> bytes" where
  "receive_messages fd 0 h0 p0 stream = ([], stream)"
| "receive_messages fd (Suc n) h0 p0 stream =
     (let (r, _, verdict, stream) = pipe_receive_packet fd h0 p0 stream;
          (rs, stream) = receive_messages fd n (out_header r) (out_payload r) stream
      in ((r, verdict) # rs, stream))"

text \<open>Every buffer address stands for the same contents throughout: \<open>mem\<close> are the contents.  A message
  from a string buffer carries the contents of the buffer, a static packet its registered checksum.\<close>

definition coherent :: "(pointer \<Rightarrow> bytes) \<Rightarrow> string_cache \<Rightarrow> bool" where
  "coherent mem c \<longleftrightarrow> (\<forall>s \<in> set (pool c). cached_crc s = calculate_crc32 (mem (last_seen_ptr s)))"

fun honest :: "(pointer \<Rightarrow> bytes) \<Rightarrow> message \<Rightarrow> bool" where
  "honest mem m = (m_data m \<noteq> [] \<and> length (m_data m) < 2 ^ 32 \<and>
     (case m_src m of StringBuffer p \<Rightarrow> m_data m = mem p
      | StaticPacket crc \<Rightarrow> crc = calculate_crc32 (m_data m) | PlainObject \<Rightarrow> True))"

lemma cache_scan_coherent:
  "\<forall>s \<in> set ss. cached_crc s = calculate_crc32 (mem (last_seen_ptr s)) \<Longrightarrow> cache_scan p ss = Some crc \<Longrightarrow>
   crc = calculate_crc32 (mem p)"
  by (induction ss) (auto split: if_splits)

lemma send_crc_honest:
  assumes "coherent mem c" and "honest mem m"
  shows "fst (send_crc (m_src m) (m_data m) c) = calculate_crc32 (m_data m) \<and>
    coherent mem (snd (send_crc (m_src m) (m_data m) c))"
proof (cases "m_src m")
  case (StringBuffer p)
  have "coherent mem (c\<lparr>pool := (pool c)[i := \<lparr>last_seen_ptr = p, cached_crc = calculate_crc32 (mem p)\<rparr>], cache_index := j\<rparr>)" for i j
    using assms(1) set_update_subset_insert [of "pool c" i] by (fastforce simp: coherent_def)
  with StringBuffer assms show ?thesis
    by (auto simp: send_crc_def string_crc_def Let_def coherent_def dest: cache_scan_coherent split: option.splits)
qed (use assms in \<open>auto simp: send_crc_def\<close>)

definition delivered :: "bool \<Rightarrow> message \<Rightarrow> received_packet \<times> integrity" where
  "delivered checks m = (\<lparr>ok = True, out_header = frame_header checks m (calculate_crc32 (m_data m)),
     out_payload = m_data m\<rparr>, if checks then Verified else NotChecked)"

lemma send_one:
  assumes "fd \<ge> 0" and "\<forall>f. accept f = int (length f)" and "coherent mem c" and "honest mem m"
  shows "\<exists>c'. coherent mem c' \<and>
    pipe_send_packet accept checks fd (m_type m) (m_src m) (m_data m) (m_now m) (m_seq m) c stream =
      (True, c', stream @ header_to_bytes (frame_header checks m (calculate_crc32 (m_data m))) @ m_data m)"
proof -
  have "frame_header False m x = frame_header False m y" for x y
    by (simp add: frame_header_def)
  then show ?thesis
    using assms send_crc_honest [OF assms(3,4)] build_frame_eq [of m checks c]
    by (cases checks) (auto simp: pipe_send_packet_def ipc_send_stream_def Let_def)
qed

lemma receive_one:
  assumes "fd \<ge> 0" and "honest mem m"
  shows "\<exists>d. pipe_receive_packet fd h0 p0
      (header_to_bytes (frame_header checks m (calculate_crc32 (m_data m))) @ m_data m @ rest) =
    (fst (delivered checks m), d, snd (delivered checks m), rest)"
  using receive_frame [OF assms(1), of "m_data m" "frame_header checks m (calculate_crc32 (m_data m))" h0 p0 rest]
    assms(2) unat_size [of "m_data m"]
  by (simp add: pipe_receive_packet_def delivered_def frame_header_def)

lemma send_all_frames:
  assumes "fd \<ge> 0" and "\<forall>f. accept f = int (length f)" and "coherent mem c" and "\<forall>m \<in> set ms. honest mem m"
  shows "\<exists>c'. coherent mem c' \<and> send_messages accept checks fd ms c stream = (replicate (length ms) True, c',
    stream @ concat (map (\<lambda>m. header_to_bytes (frame_header checks m (calculate_crc32 (m_data m))) @ m_data m) ms))"
  using assms(3,4)
proof (induction ms arbitrary: c stream)
  case (Cons m ms)
  then obtain c1 where c1: "coherent mem c1"
      "pipe_send_packet accept checks fd (m_type m) (m_src m) (m_data m) (m_now m) (m_seq m) c stream =
        (True, c1, stream @ header_to_bytes (frame_header checks m (calculate_crc32 (m_data m))) @ m_data m)"
    using send_one [OF assms(1,2), of mem c m checks stream] by auto
  with Cons.IH [OF c1(1), of "stream @ header_to_bytes (frame_header checks m (calculate_crc32 (m_data m))) @ m_data m"] Cons.prems
  show ?case by auto
qed simp

lemma receive_all_frames:
  assumes "fd \<ge> 0" and "\<forall>m \<in> set ms. honest mem m"
  shows "receive_messages fd (length ms) h0 p0
    (concat (map (\<lambda>m. header_to_bytes (frame_header checks m (calculate_crc32 (m_data m))) @ m_data m) ms) @ rest) =
    (map (delivered checks) ms, rest)"
  using assms(2)
proof (induction ms arbitrary: h0 p0)
  case (Cons m ms)
  let ?rest = "concat (map (\<lambda>m. header_to_bytes (frame_header checks m (calculate_crc32 (m_data m))) @ m_data m) ms) @ rest"
  obtain d where "pipe_receive_packet fd h0 p0
      (header_to_bytes (frame_header checks m (calculate_crc32 (m_data m))) @ m_data m @ ?rest) =
    (fst (delivered checks m), d, snd (delivered checks m), ?rest)"
    using receive_one [OF assms(1)] Cons.prems by fastforce
  with Cons show ?case by simp
qed simp

section \<open>Properties\<close>


definition example_messages :: "message list" where
  "example_messages = [\<lparr>m_type = DT_Text, m_src = StringBuffer (Some 64), m_data = [104, 105], m_now = 9, m_seq = 1\<rparr>,
     \<lparr>m_type = DT_Number, m_src = PlainObject, m_data = [1, 0, 0, 0], m_now = 10, m_seq = 2\<rparr>,
     \<lparr>m_type = DT_Heartbeat, m_src = StringBuffer (Some 64), m_data = [104, 105], m_now = 11, m_seq = 3\<rparr>]"


text \<open>An empty message.  \<open>send\<close> reports success for it, a frame of the header alone, but the stream
  receiver takes that header and reports failure, for every empty message of every type.\<close>

theorem empty_message_lost:
  assumes "fd \<ge> 0" and "\<forall>f. accept f = int (length f)"
  shows "\<exists>c h. pipe_send_packet accept checks fd type src [] now seq init_cache [] = (True, c, header_to_bytes h) \<and>
    receive_stream fd h0 p0 (header_to_bytes h) = (\<lparr>ok = False, out_header = h, out_payload = p0\<rparr>, []) \<and>
    ptype h = type \<and> sequence_id h = seq"
proof -
  define m where "m = \<lparr>m_type = type, m_src = src, m_data = [], m_now = now, m_seq = seq\<rparr>"
  let ?h = "frame_header checks m (fst (send_crc src [] init_cache))"
  have "fst (build_frame checks type src [] now seq init_cache) = header_to_bytes ?h"
    using build_frame_eq [of m checks init_cache] by (simp add: m_def)
  moreover have "payload_size ?h = 0"
    by (simp add: frame_header_def m_def)
  ultimately show ?thesis
    using assms by (intro exI [of _ "snd (build_frame checks type src [] now seq init_cache)"] exI [of _ ?h])
      (auto simp: pipe_send_packet_def ipc_send_stream_def receive_stream_def Let_def overlay_full header_roundtrip
        frame_header_def m_def split: prod.splits)
qed

theorem empty_message_lost_witness:
  "\<exists>c h. pipe_send_packet (\<lambda>f. int (length f)) True 4 DT_Text PlainObject [] 9 1 init_cache [] = (True, c, header_to_bytes h) \<and>
    receive_stream 4 (frame_header False (example_messages ! 0) 0) [] (header_to_bytes h) =
      (\<lparr>ok = False, out_header = h, out_payload = []\<rparr>, []) \<and> ptype h = DT_Text \<and> sequence_id h = 1"
  by (rule empty_message_lost) simp_all

text \<open>Damage in transit.  A checked frame in which up to four consecutive payload bytes have been
  changed is recognised as corrupted, but only in the log: the receiver still returns success, has
  already dispatched the damaged payload and hands it to its caller.\<close>

theorem damaged_payload_accepted:
  assumes "fd \<ge> 0" and "length xs = length ys" and "length xs \<le> 4" and "xs \<noteq> ys"
    and "m_data m = pre @ xs @ post" and "length (m_data m) < 2 ^ 32"
  shows "\<exists>d. pipe_receive_packet fd h0 p0
      (header_to_bytes (frame_header True m (calculate_crc32 (m_data m))) @ (pre @ ys @ post) @ rest) =
    (\<lparr>ok = True, out_header = frame_header True m (calculate_crc32 (m_data m)), out_payload = pre @ ys @ post\<rparr>,
     Some d, Corrupted, rest)"
proof -
  let ?h = "frame_header True m (calculate_crc32 (m_data m))"
  have len: "length (pre @ ys @ post) = unat (payload_size ?h)"
    using assms(2,5,6) unat_size [of "m_data m"] by (simp add: frame_header_def)
  have "pre @ ys @ post \<noteq> []"
    using assms(2,4) by auto
  with receive_frame [OF assms(1) len] crc_burst_differs [OF assms(2-4), of pre post] len assms(5)
  show ?thesis
    by (simp add: pipe_receive_packet_def frame_header_def)
qed

theorem damaged_payload_accepted_witness:
  "\<exists>d. pipe_receive_packet 4 (frame_header False (example_messages ! 0) 0) []
      (header_to_bytes (frame_header True (example_messages ! 0) (calculate_crc32 [104, 105])) @ [104, 200]) =
    (\<lparr>ok = True, out_header = frame_header True (example_messages ! 0) (calculate_crc32 [104, 105]), out_payload = [104, 200]\<rparr>,
     Some d, Corrupted, [])"
  using damaged_payload_accepted [of 4 "[105]" "[200]" "example_messages ! 0" "[104]" "[]"
      "frame_header False (example_messages ! 0) 0" "[]" "[]"]
  by (simp add: example_messages_def)

text \<open>The string cache is keyed by the address of the buffer alone.  When a program sends a string,
  changes up to four consecutive characters in place and sends it again, the second frame carries the
  checksum of the first contents: an undamaged packet that every receiver reports as corrupted.\<close>

theorem stale_checksum:
  assumes "length xs = length ys" and "length xs \<le> 4" and "xs \<noteq> ys" and "p \<noteq> None"
  shows "fst (string_crc p (pre @ ys @ post) (snd (string_crc p (pre @ xs @ post) init_cache))) \<noteq>
    calculate_crc32 (pre @ ys @ post)"
proof -
  have "cache_scan p (pool init_cache) = None"
    using assms(4) by (auto simp: init_cache_def numeral_eq_Suc)
  moreover have "cache_scan p ((pool init_cache)[0 := \<lparr>last_seen_ptr = p, cached_crc = crc\<rparr>]) = Some crc" for crc
    by (simp add: init_cache_def numeral_eq_Suc)
  ultimately have "fst (string_crc p (pre @ ys @ post) (snd (string_crc p (pre @ xs @ post) init_cache))) =
      calculate_crc32 (pre @ xs @ post)"
    by (simp add: string_crc_def Let_def init_cache_def)
  with crc_burst_differs [OF assms(1-3), of pre post] show ?thesis by simp
qed

theorem stale_checksum_witness:
  "fst (string_crc (Some 64) [104, 111] (snd (string_crc (Some 64) [104, 105] init_cache))) \<noteq> calculate_crc32 [104, 111]"
  using stale_checksum [of "[105]" "[111]" "Some 64" "[104]" "[]"] by simp

text \<open>Datagrams.  A frame sent as one datagram is received as a whole, empty payloads included.  A
  datagram shorter than a header, from whatever sender, is never taken from the queue: every later
  reception fails on it, however many packets wait behind.\<close>

theorem datagram_queue:
  assumes "fd \<ge> 0" and "length body = unat (payload_size h)"
  shows "receive_dgram fd h0 p0 ((header_to_bytes h @ body) # queue) =
      (\<lparr>ok = True, out_header = h, out_payload = body\<rparr>, queue) \<and>
    (length runt < sizeof_PacketHeader \<longrightarrow>
      ((\<lambda>(r, q). receive_dgram fd (out_header r) (out_payload r) q) ^^ n)
        (\<lparr>ok = False, out_header = h0, out_payload = p0\<rparr>, runt # queue) =
      (\<lparr>ok = False, out_header = h0, out_payload = p0\<rparr>, runt # queue))"
proof (intro conjI impI)
  show "receive_dgram fd h0 p0 ((header_to_bytes h @ body) # queue) =
      (\<lparr>ok = True, out_header = h, out_payload = body\<rparr>, queue)"
    using assms by (simp add: receive_dgram_def Let_def header_roundtrip overlay_full)
  assume "length runt < sizeof_PacketHeader"
  then have "receive_dgram fd h0 p0 (runt # queue) = (\<lparr>ok = False, out_header = h0, out_payload = p0\<rparr>, runt # queue)"
    using assms(1) by (simp add: receive_dgram_def)
  then show "((\<lambda>(r, q). receive_dgram fd (out_header r) (out_payload r) q) ^^ n)
        (\<lparr>ok = False, out_header = h0, out_payload = p0\<rparr>, runt # queue) =
      (\<lparr>ok = False, out_header = h0, out_payload = p0\<rparr>, runt # queue)"
    by (induction n) simp_all
qed

theorem datagram_queue_witness:
  "fst (receive_dgram 3 (frame_header False (example_messages ! 0) 0) [7] [[1, 2, 3], [4]]) =
     \<lparr>ok = False, out_header = frame_header False (example_messages ! 0) 0, out_payload = [7]\<rparr>"
  using datagram_queue [of 3 "[104, 105]" "frame_header True (example_messages ! 0) 0"
      "frame_header False (example_messages ! 0) 0" "[7]" "[[4]]" "[1, 2, 3]" 1]
  by (simp add: frame_header_def example_messages_def sizeof_PacketHeader_def)

end
