(* ===== verification/Ipc_Universal.thy ===== *)
theory Ipc_Universal
  imports Ipc_Channel
begin

text \<open>
  \<open>UniversalSocket\<close> of \<open>src/linux/common/ipc/universal_socket/universal_socket.h\<close>: the socket built from a
  policy, the sender and receiver bases with their shared descriptors, and the dispatcher.  Its
  constructor and destructor act on the \<open>world\<close> of \<open>Sfd_Handles\<close>, whose log of system calls says what
  becomes of the nodes of the file system.
\<close>

section \<open>Operations\<close>

text \<open>\<open>UniversalSocket::receive_packet\<close> dispatches whatever the result was.\<close>

definition universal_receive_packet ::
    "bool \<Rightarrow> int \<Rightarrow> PacketHeader \<Rightarrow> bytes \<Rightarrow> bytes list \<Rightarrow> received_packet \<times> handled \<times> bytes list" where
  "universal_receive_packet stream_policy fd h0 p0 queue =
     (let (r, queue) = (if stream_policy
             then (let (r, s) = receive_stream fd h0 p0 (concat queue) in (r, [s]))
             else receive_dgram fd h0 p0 queue)
      in (r, packet_dispatch (out_header r) (out_payload r), queue))"

text \<open>Construction opens the receiver before the transmitter; an exception of the second leaves the
  first open, since no handle owns it yet.  Handle 0 is the \<open>_shared_fd\<close> of the receiver base, handle 1 that
  of the sender base; both are made from the raw descriptor, so with a default context.  \<open>None\<close>: the
  policy has no \<open>init\<close>.  The descriptors are those \<open>socket\<close> returns.\<close>

definition opened :: "int \<Rightarrow> sys_call list \<Rightarrow> world \<Rightarrow> world" where
  "opened fd cs w = do_calls cs (if fd \<ge> 0 then w\<lparr>kopen := insert fd (kopen w)\<rparr> else w)"

definition universal_ctor :: "Policy \<Rightarrow> Context \<Rightarrow> int \<Rightarrow> int \<Rightarrow> world \<Rightarrow> (policy_error \<times> world + Context \<times> world) option" where
  "universal_ctor pol ctx rx_sock tx_sock w =
     (case policy_init pol ctx Receiver rx_sock of
        None \<Rightarrow> None
      | Some (Inl e) \<Rightarrow> Some (Inl (e, w))
      | Some (Inr (rx, ctx, rx_calls)) \<Rightarrow>
          (let w = opened rx rx_calls w in
           case policy_init pol ctx Transmitter tx_sock of
             None \<Rightarrow> None
           | Some (Inl e) \<Rightarrow> Some (Inl (e, w))
           | Some (Inr (tx, ctx, tx_calls)) \<Rightarrow>
               (let w = opened tx tx_calls w;
                    w = shared_ctor 0 rx (default_context pol) w;
                    w = shared_ctor 1 tx (default_context pol) w
                in Some (Inr (ctx, w)))))"

text \<open>The destructor: \<open>Policy::cleanup\<close>, then the bases in reverse order of their declaration.\<close>

definition universal_dtor :: "Policy \<Rightarrow> Context \<Rightarrow> world \<Rightarrow> world" where
  "universal_dtor pol ctx w = shared_reset pol 1 (shared_reset pol 0 (do_calls (policy_cleanup pol ctx) w))"

section \<open>Lemmas\<close>

lemma do_calls_quiet:
  "\<forall>fd. Sys_close fd \<notin> set cs \<Longrightarrow> do_calls cs w = w\<lparr>calls := calls w @ cs\<rparr>"
proof (induction cs arbitrary: w)
  case (Cons c cs)
  then have "do_call c w = w\<lparr>calls := calls w @ [c]\<rparr>" by (cases c) auto
  with Cons show ?case by (simp add: do_calls_def)
qed (simp add: do_calls_def)

lemma calls_do_calls: "calls (do_calls cs w) = calls w @ cs"
proof (induction cs arbitrary: w)
  case (Cons c cs)
  moreover have "calls (do_call c w) = calls w @ [c]" by (cases c) auto
  ultimately show ?case by (simp add: do_calls_def)
qed (simp add: do_calls_def)

lemma init_quiet: "policy_init pol ctx mode sock = Some (Inr (fd, ctx', cs)) \<Longrightarrow> \<forall>fd. Sys_close fd \<notin> set cs"
  by (cases pol; cases ctx; cases mode)
     (auto simp: policy_init_def ipv4_init_def dgram_path_init_def stream_path_init_def Let_def split: if_splits)

lemma cleanup_quiet: "\<forall>fd. Sys_close fd \<notin> set (policy_cleanup pol ctx)"
  by (cases pol; cases ctx) (auto simp: policy_cleanup_def policy_defs)

lemma sfd_inv_calls [simp]: "sfd_inv M (w\<lparr>calls := cs\<rparr>) = sfd_inv M w"
  by (simp add: sfd_inv_def)

lemma reset_last:
  assumes "sfd_inv M w" and "i < length (handles w)" and "sfd (handles w ! i) = fd" and "in_range M fd"
    and "refcount w fd = 1"
  shows "kopen (shared_reset pol i w) = kopen w - {fd}"
    "calls (shared_reset pol i w) = calls w @ fst (policy_close pol fd (sfd_ctx (handles w ! i)))"
    "x \<noteq> fd \<Longrightarrow> x \<noteq> -1 \<Longrightarrow> refcount (shared_reset pol i w) x = refcount w x"
proof -
  obtain ctx cs where "shared_reset pol i w = set_handle i \<lparr>sfd = -1, sfd_ctx = ctx\<rparr>
    (w\<lparr>reg := snd (release fd (reg w)), kopen := kopen w - {fd}, calls := cs, handed := handed w\<rparr>)"
    using reset_drops [OF assms(1,2) assms(3) [symmetric] assms(4), of pol] assms(5) by auto
  then show "kopen (shared_reset pol i w) = kopen w - {fd}"
    and "x \<noteq> fd \<Longrightarrow> x \<noteq> -1 \<Longrightarrow> refcount (shared_reset pol i w) x = refcount w x"
    using refcount_set [OF assms(2), of "\<lparr>sfd = -1, sfd_ctx = ctx\<rparr>" x] assms(3)
    by (simp_all add: refcount_def set_handle_def)
  note D = sfd_invD [OF assms(1)]
  have "fst (release fd (reg w))"
    using reg.drop_counts(2) [OF D(1) assms(4) D(2) _ D(3)] assms(4,5) by simp
  then show "calls (shared_reset pol i w) = calls w @ fst (policy_close pol fd (sfd_ctx (handles w ! i)))"
    using in_range_nonneg [OF assms(4)] assms(3)
    by (auto simp: shared_reset_def Let_def calls_do_calls set_handle_def split: prod.splits)
qed

lemma attach_fresh:
  assumes "sfd_inv M w" and "i < length (handles w)" and "sfd (handles w ! i) = -1" and "in_range M fd" and "fd \<notin> kopen w"
    and "w' = shared_ctor i fd ctx (w\<lparr>kopen := insert fd (kopen w)\<rparr>)"
  shows "sfd_inv M w'" "handles w' = (handles w)[i := \<lparr>sfd = fd, sfd_ctx = ctx\<rparr>]" "kopen w' = insert fd (kopen w)"
    "calls w' = calls w" "refcount w' fd = 1" "x \<noteq> fd \<Longrightarrow> x \<noteq> -1 \<Longrightarrow> refcount w' x = refcount w x"
proof -
  note nn = in_range_nonneg [OF assms(4)]
  show "sfd_inv M w'"
    using inv_attach [OF assms(1-3), of "\<lparr>sfd = fd, sfd_ctx = ctx\<rparr>"] assms(4,6) nn by (simp add: shared_ctor_def)
  show hs: "handles w' = (handles w)[i := \<lparr>sfd = fd, sfd_ctx = ctx\<rparr>]" "kopen w' = insert fd (kopen w)" "calls w' = calls w"
    using assms(6) by (simp_all add: shared_ctor_def retain_if_def set_handle_def)
  have rc: "refcount w' x + (if -1 = x then 1 else 0) = refcount w x + (if fd = x then 1 else 0)" for x
    using refcount_set [OF assms(2), of "\<lparr>sfd = fd, sfd_ctx = ctx\<rparr>" x] assms(3) hs(1)
    by (simp add: refcount_def set_handle_def)
  have "refcount w fd = 0"
    using assms(1,4,5) by (auto simp: sfd_inv_def)
  with rc [of fd] rc [of x] nn show "refcount w' fd = 1" "x \<noteq> fd \<Longrightarrow> x \<noteq> -1 \<Longrightarrow> refcount w' x = refcount w x"
    by simp_all
qed

text \<open>The constructor is two attachments of fresh descriptors: the order in which the kernel opens and
  the handles count does not show in the result.\<close>

lemma universal_ctor_attaches:
  assumes "policy_init pol ctx Receiver rx = Some (Inr (rx, ctx1, cs1))"
    and "policy_init pol ctx1 Transmitter tx = Some (Inr (tx, ctx2, cs2))" and "rx \<ge> 0" and "tx \<ge> 0"
  shows "universal_ctor pol ctx rx tx w = Some (Inr (ctx2,
    (let v = w\<lparr>calls := calls w @ cs1 @ cs2\<rparr>;
         v = shared_ctor 0 rx (default_context pol) (v\<lparr>kopen := insert rx (kopen v)\<rparr>)
     in shared_ctor 1 tx (default_context pol) (v\<lparr>kopen := insert tx (kopen v)\<rparr>))))"
  using assms do_calls_quiet [OF init_quiet [OF assms(1)]] do_calls_quiet [OF init_quiet [OF assms(2)]]
  by (simp add: universal_ctor_def opened_def Let_def shared_ctor_def retain_if_def set_handle_def)

lemma path_init_succeeds:
  assumes "policy_context pol ctx" and "context_path ctx \<noteq> []" and "sock \<noteq> -1"
  shows "\<exists>ctx' cs. policy_init pol ctx mode sock = Some (Inr (sock, ctx', cs))"
  using assms
  by (cases pol; cases ctx; cases mode)
     (auto simp: policy_init_def dgram_path_init_def stream_path_init_def Let_def)

lemma default_close_nodes: "fd \<ge> 0 \<Longrightarrow> fs_calls (fst (policy_close pol fd (default_context pol))) N \<in> {N, N - {[]}}"
  by (cases pol) (auto simp: default_context_def policy_close_def policy_defs c_str_def)

lemma universal_ctor_opens:
  assumes "sfd_inv M w" and "1 < length (handles w)" and "sfd (handles w ! 0) = -1" and "sfd (handles w ! 1) = -1"
    and "in_range M rx" and "in_range M tx" and "rx \<noteq> tx" and "rx \<notin> kopen w" and "tx \<notin> kopen w"
    and "policy_init pol ctx Receiver rx = Some (Inr (rx, ctx1, cs1))"
    and "policy_init pol ctx1 Transmitter tx = Some (Inr (tx, ctx2, cs2))"
  shows "\<exists>w'. universal_ctor pol ctx rx tx w = Some (Inr (ctx2, w')) \<and> sfd_inv M w' \<and> 1 < length (handles w') \<and>
    handles w' ! 0 = \<lparr>sfd = rx, sfd_ctx = default_context pol\<rparr> \<and> handles w' ! 1 = \<lparr>sfd = tx, sfd_ctx = default_context pol\<rparr> \<and>
    kopen w' = kopen w \<union> {rx, tx} \<and> refcount w' rx = 1 \<and> refcount w' tx = 1 \<and> calls w' = calls w @ cs1 @ cs2"
proof -
  note nn = in_range_nonneg [OF assms(5)] in_range_nonneg [OF assms(6)]
  define v0 where "v0 = w\<lparr>calls := calls w @ cs1 @ cs2\<rparr>"
  define v1 where "v1 = shared_ctor 0 rx (default_context pol) (v0\<lparr>kopen := insert rx (kopen v0)\<rparr>)"
  define v2 where "v2 = shared_ctor 1 tx (default_context pol) (v1\<lparr>kopen := insert tx (kopen v1)\<rparr>)"
  have v0: "sfd_inv M v0" "handles v0 = handles w" "kopen v0 = kopen w" "0 < length (handles v0)"
    using assms(1,2) by (auto simp: v0_def)
  note a1 = attach_fresh [OF v0(1,4) _ assms(5) _ v1_def, unfolded v0(2,3), OF assms(3,8)]
  have "1 < length (handles v1)" "sfd (handles v1 ! 1) = -1" "tx \<notin> kopen v1"
    using assms(2,4,7,9) by (auto simp: a1)
  note a2 = attach_fresh [OF a1(1) this(1,2) assms(6) this(3) v2_def]
  have "universal_ctor pol ctx rx tx w = Some (Inr (ctx2, v2))"
    using universal_ctor_attaches [OF assms(10,11)] nn by (simp add: v0_def v1_def v2_def Let_def)
  moreover have "handles v2 = (handles w)[0 := \<lparr>sfd = rx, sfd_ctx = default_context pol\<rparr>,
      1 := \<lparr>sfd = tx, sfd_ctx = default_context pol\<rparr>]" "calls v2 = calls w @ cs1 @ cs2" "kopen v2 = kopen w \<union> {rx, tx}"
    unfolding a2(2-4) a1(2-4) by (auto simp: v0_def)
  moreover have "refcount v2 rx = 1"
    using a2(6) [of rx] a1(5) assms(7) nn by simp
  ultimately show ?thesis
    using a2(1,5) assms(2) v0(2,4) by (intro exI [of _ v2]) (auto simp: nth_list_update)
qed

lemma universal_dtor_closes:
  assumes "sfd_inv M w" and "1 < length (handles w)" and "rx \<noteq> tx" and "in_range M rx" and "in_range M tx"
    and "handles w ! 0 = \<lparr>sfd = rx, sfd_ctx = default_context pol\<rparr>"
    and "handles w ! 1 = \<lparr>sfd = tx, sfd_ctx = default_context pol\<rparr>"
    and "refcount w rx = 1" and "refcount w tx = 1" and "w'' = universal_dtor pol ctx w"
  shows "sfd_inv M w''" "kopen w'' = kopen w - {rx, tx}"
    "fs_calls (calls w'') N - {[]} = fs_calls (policy_cleanup pol ctx) (fs_calls (calls w) N) - {[]}"
proof -
  note nn = in_range_nonneg [OF assms(4)] in_range_nonneg [OF assms(5)]
  define v0 where "v0 = do_calls (policy_cleanup pol ctx) w"
  define v1 where "v1 = shared_reset pol 0 v0"
  have v0: "v0 = w\<lparr>calls := calls w @ policy_cleanup pol ctx\<rparr>"
    unfolding v0_def by (rule do_calls_quiet [OF cleanup_quiet])
  have i0: "sfd_inv M v0" "0 < length (handles v0)" "sfd (handles v0 ! 0) = rx" "refcount v0 rx = 1"
    using assms(1,2,6,8) by (auto simp: v0)
  note r1 = reset_last [OF i0(1-3) assms(4) i0(4), where pol = pol, folded v1_def]
  have i1: "sfd_inv M v1" "1 < length (handles v1)" "handles v1 ! 1 = handles w ! 1"
    using inv_reset [OF i0(1,2), of pol, folded v1_def] assms(2) by (auto simp: v0)
  have "sfd (handles v1 ! 1) = tx" "refcount v1 tx = 1"
    using i1(3) assms(3,7,9) r1(3) [of tx] nn by (auto simp: v0)
  note r2 = reset_last [OF i1(1,2) this(1) assms(5) this(2), where pol = pol]
  have w'': "w'' = shared_reset pol 1 v1"
    by (simp add: assms(10) universal_dtor_def v0_def v1_def)
  then show "sfd_inv M w''" "kopen w'' = kopen w - {rx, tx}"
    using inv_reset [OF i1(1,2), of pol] r1(1) r2(1) by (auto simp: v0)
  have "fs_calls (calls w'') N = fs_calls (fst (policy_close pol tx (default_context pol)))
      (fs_calls (fst (policy_close pol rx (default_context pol))) (fs_calls (policy_cleanup pol ctx) (fs_calls (calls w) N)))"
    unfolding w'' r2(2) r1(2) i1(3) using assms(6,7) by (simp add: v0)
  then show "fs_calls (calls w'') N - {[]} = fs_calls (policy_cleanup pol ctx) (fs_calls (calls w) N) - {[]}"
    using default_close_nodes [of rx pol "fs_calls (policy_cleanup pol ctx) (fs_calls (calls w) N)"]
      default_close_nodes [of tx pol "fs_calls (fst (policy_close pol rx (default_context pol)))
        (fs_calls (policy_cleanup pol ctx) (fs_calls (calls w) N))"] nn by auto
qed

section \<open>Properties\<close>

text \<open>The life of a \<open>UniversalSocket\<close> over a path policy.  In every program over shared handles, with
  two fresh descriptors from the kernel and a path of at most 107 characters: the constructor
  succeeds, both descriptors are open and the path has its node; after the destructor exactly the
  descriptors that were open before are open, none was closed twice, and the node is gone.\<close>

theorem universal_socket_lifecycle:
  assumes "sfd_reachable pol M n w" and "M \<le> 2 ^ 31" and "n < 2 ^ 64"
    and "1 < length (handles w)" and "sfd (handles w ! 0) = -1" and "sfd (handles w ! 1) = -1"
    and "in_range M rx" and "in_range M tx" and "rx \<noteq> tx" and "rx \<notin> kopen w" and "tx \<notin> kopen w"
    and "policy_context pol ctx" and "context_path ctx \<noteq> []" and "length (context_path ctx) \<le> 107"
  shows "\<exists>ctx' w'. universal_ctor pol ctx rx tx w = Some (Inr (ctx', w')) \<and>
    kopen w' = kopen w \<union> {rx, tx} \<and> context_path ctx \<in> fs_calls (calls w') N \<and>
    (let w'' = universal_dtor pol ctx' w' in kopen w'' = kopen w \<and> bad_close w'' = 0 \<and>
       fs_calls (calls w'') N - {[]} = fs_calls (calls w) N - {context_path ctx, []})"
proof -
  let ?p = "context_path ctx"
  note nn = in_range_nonneg [OF assms(7)] in_range_nonneg [OF assms(8)] and inv = sfd_reachable_inv [OF assms(1-3)]
  obtain ctx1 cs1 where i1: "policy_init pol ctx Receiver rx = Some (Inr (rx, ctx1, cs1))"
    using path_init_succeeds [OF assms(12,13)] nn by blast
  have c1: "policy_context pol ctx1" "context_path ctx1 = ?p" "fs_calls cs1 N = insert ?p (N - {?p})" for N
    using receiver_nodes [OF assms(12,13) i1] assms(14) by auto
  obtain ctx2 cs2 where i2: "policy_init pol ctx1 Transmitter tx = Some (Inr (tx, ctx2, cs2))"
    using path_init_succeeds [of pol ctx1] c1 assms(13) nn by metis
  have c2: "policy_context pol ctx2" "context_path ctx2 = ?p" "fs_calls cs2 N = N" for N
    using transmitter_nodes [OF i2] c1 by auto
  obtain w' where ctor: "universal_ctor pol ctx rx tx w = Some (Inr (ctx2, w'))" and inv': "sfd_inv M w'" "1 < length (handles w')"
      "handles w' ! 0 = \<lparr>sfd = rx, sfd_ctx = default_context pol\<rparr>" "handles w' ! 1 = \<lparr>sfd = tx, sfd_ctx = default_context pol\<rparr>"
      "refcount w' rx = 1" "refcount w' tx = 1"
    and w': "kopen w' = kopen w \<union> {rx, tx}" "calls w' = calls w @ cs1 @ cs2"
    using universal_ctor_opens [OF inv assms(4-11) i1 i2] by (elim exE conjE) (rule that)
  note closed = universal_dtor_closes [OF inv'(1,2) assms(9,7,8) inv'(3-6) refl, of ctx2]
  have "fs_calls (policy_cleanup pol ctx2) (fs_calls (calls w') N) = fs_calls (calls w) N - {?p}"
    using cleanup_nodes [OF c2(1)] assms(13) by (auto simp: w' c1 c2)
  then have "fs_calls (calls (universal_dtor pol ctx2 w')) N - {[]} = fs_calls (calls w) N - {?p, []}"
    unfolding closed(3) by auto
  moreover have "bad_close (universal_dtor pol ctx2 w') = 0"
    using closed(1) by (simp add: sfd_inv_def)
  ultimately show ?thesis
    using ctor w' closed(2) assms(10,11) by (auto simp: Let_def c1 c2)
qed

theorem universal_socket_lifecycle_witness:
  "(\<exists>ctx' w'. universal_ctor SocketDgramPathPolicy (Ctx_dgram \<lparr>dgram_local_path = ''/tmp/a'', dgram_target_path = ''/tmp/b'',
      dgram_local_sockaddr = zero_sockaddr_un, dgram_target_sockaddr = zero_sockaddr_un\<rparr>) 3 4 (init_world 256 2) =
      Some (Inr (ctx', w')) \<and> kopen w' = {3, 4} \<and> kopen (universal_dtor SocketDgramPathPolicy ctx' w') = {})"
  using universal_socket_lifecycle [OF sfd_reachable.start, of 256 2 3 4 SocketDgramPathPolicy
      "Ctx_dgram \<lparr>dgram_local_path = ''/tmp/a'', dgram_target_path = ''/tmp/b'',
        dgram_local_sockaddr = zero_sockaddr_un, dgram_target_sockaddr = zero_sockaddr_un\<rparr>" "{}"]
  by (simp add: init_world_def in_range_def c_str_def Let_def) blast

text \<open>\<open>UniversalSocket::receive_packet\<close> hands the packet to the dispatcher even when nothing was
  received: with an empty queue the handler runs again on whatever the caller's variables held, the
  previous packet if they are reused.\<close>

theorem failed_reception_dispatched:
  "universal_receive_packet False fd h0 p0 [] =
     (\<lparr>ok = False, out_header = h0, out_payload = p0\<rparr>, packet_dispatch h0 p0, [])"
  by (simp add: universal_receive_packet_def receive_dgram_def)

end
