(* ===== verification/Pipe_Link.thy ===== *)
theory Pipe_Link
  imports Ipc_Channel Complex_Main
begin

text \<open>
  The named-pipe server and client of \<open>src/linux/common/ipc/posix/pipe\<close>: \<open>ClientSession\<close> and \<open>PipeServer\<close>
  (\<open>pipe_server.h\<close>, \<open>.cpp\<close>), \<open>PipeClient\<close> (\<open>pipe_client.h\<close>, \<open>.cpp\<close>).

  Identifiers and paths are byte strings.  The descriptors that \<open>open\<close> returns and the clock readings of
  a handler are its environment, a record argument; a pipe is the stream of \<open>Ipc_Channel\<close>.  A session
  keeps the numbers of its descriptors, \<open>-1\<close> for an empty handle; what the handles do when a session is
  dropped is the subject of \<open>Sfd_Handles\<close>.  The registry is an association list in iteration order.
  The frequency is the exact quotient that the \<open>double\<close> of the source rounds.
\<close>

section \<open>Client sessions\<close>

definition ascii :: "string \<Rightarrow> bytes" where
  "ascii s = map of_char s"

record ClientSession =
  s_read_fd :: int
  s_write_fd :: int
  last_heartbeat_timestamp_ms :: u64
  last_metrics_timestamp_ms :: u64
  accumulated_packet_count :: u32
  current_message_frequency_hz :: rat

definition new_session :: "int \<Rightarrow> int \<Rightarrow> ClientSession" where
  "new_session r w = \<lparr>s_read_fd = r, s_write_fd = w, last_heartbeat_timestamp_ms = 0,
     last_metrics_timestamp_ms = 0, accumulated_packet_count = 0, current_message_frequency_hz = 0\<rparr>"

definition register_heartbeat :: "u64 \<Rightarrow> ClientSession \<Rightarrow> ClientSession" where
  "register_heartbeat now s = s\<lparr>last_heartbeat_timestamp_ms := now\<rparr>"

definition evaluate_message_frequency :: "u64 \<Rightarrow> ClientSession \<Rightarrow> ClientSession" where
  "evaluate_message_frequency now s =
     (let s = s\<lparr>accumulated_packet_count := accumulated_packet_count s + 1\<rparr>;
          time_delta_ms = now - last_metrics_timestamp_ms s
      in if time_delta_ms \<ge> 1000
         then s\<lparr>current_message_frequency_hz :=
                  (of_nat (unat (accumulated_packet_count s)) * 1000) / of_nat (unat time_delta_ms),
                accumulated_packet_count := 0, last_metrics_timestamp_ms := now\<rparr>
         else s)"

definition is_heartbeat_expired :: "u64 \<Rightarrow> u64 \<Rightarrow> ClientSession \<Rightarrow> bool" where
  "is_heartbeat_expired now timeout_limit_ms s =
     (if last_heartbeat_timestamp_ms s = 0 then False
      else now - last_heartbeat_timestamp_ms s > timeout_limit_ms)"

text \<open>The move constructor and the move assignment: the new object, and the moved-from one, whose
  descriptors are gone and whose counters stay.\<close>

definition move_session :: "ClientSession \<Rightarrow> ClientSession \<times> ClientSession" where
  "move_session other = (other, other\<lparr>s_read_fd := -1, s_write_fd := -1\<rparr>)"

section \<open>Server\<close>

record PipeServer =
  upstream_path :: bytes
  downstream_path :: bytes
  modes :: u8
  client_registry :: "(bytes \<times> ClientSession) list"
  server_running :: bool
  last_heartbeat_time :: u64
  srv_cache :: string_cache

definition init_server :: "bytes \<Rightarrow> u8 \<Rightarrow> PipeServer" where
  "init_server path ms = \<lparr>upstream_path = path, downstream_path = path @ ascii ''_fb'', modes = ms,
     client_registry = [], server_running = True, last_heartbeat_time = 0, srv_cache = init_cache\<rparr>"

definition server_has_check_sum :: "PipeServer \<Rightarrow> bool" where
  "server_has_check_sum srv = modes_has (modes srv) Server_CheckLose"

definition execute_housekeeping_phase :: "u64 \<Rightarrow> PipeServer \<Rightarrow> PipeServer" where
  "execute_housekeeping_phase now srv =
     srv\<lparr>client_registry := filter (\<lambda>(i, s). \<not> is_heartbeat_expired now 5000 s) (client_registry srv)\<rparr>"

text \<open>What \<open>open\<close> and the clock return while a client is accepted; \<open>e_literal\<close> is the address of the
  reply text.\<close>

record accept_env =
  e_req_read :: int
  e_req_write :: int
  e_main_read :: int
  e_fb_write :: int
  e_now :: u64
  e_literal :: pointer
  e_accept :: "bytes \<Rightarrow> int"

text \<open>The name in a request: up to the first zero byte, at most 32 bytes.\<close>

definition request_name :: "IPCRequestPayload \<Rightarrow> bytes" where
  "request_name req = takeWhile (\<lambda>b. b \<noteq> 0) (take 32 (client_id_field req))"

definition main_path :: "bytes \<Rightarrow> bytes" where
  "main_path cid = ascii ''/tmp/pipe_'' @ cid"

definition fb_path :: "bytes \<Rightarrow> bytes" where
  "fb_path cid = main_path cid @ ascii ''_fb''"

definition reply :: "accept_env \<Rightarrow> bytes \<Rightarrow> u32 \<Rightarrow> PipeServer \<Rightarrow> bytes \<Rightarrow> PipeServer \<times> bytes" where
  "reply env txt seq srv fb =
     (if modes_has (modes srv) Server_Feedback \<and> e_req_write env \<ge> 0
      then (let (sent, c, fb) = pipe_send_packet (e_accept env) (server_has_check_sum srv) (e_req_write env)
                  DT_Command (StringBuffer (e_literal env)) txt (e_now env) seq (srv_cache srv) fb
            in (srv\<lparr>srv_cache := c\<rparr>, fb))
      else (srv, fb))"

text \<open>\<open>accept_client\<close>: the request stream, the feedback stream, and the FIFOs that were created.\<close>

record accept_result =
  accepted :: bool
  srv_after :: PipeServer
  request_after :: bytes
  feedback_after :: bytes
  fifos :: "bytes list"

definition handle_request :: "accept_env \<Rightarrow> PipeServer \<Rightarrow> PacketHeader \<Rightarrow> IPCRequestPayload \<Rightarrow> bytes \<Rightarrow> bytes \<Rightarrow> accept_result" where
  "handle_request env srv h req requests fb =
     (let client_id = request_name req in
      if al_find client_id (client_registry srv) \<noteq> None then
        (if command req = 2
         then (let (srv, fb) = reply env (ascii ''REMOVED'') (sequence_id h) srv fb
               in \<lparr>accepted = False, srv_after = srv\<lparr>client_registry := al_erase client_id (client_registry srv)\<rparr>,
                   request_after = requests, feedback_after = fb, fifos = []\<rparr>)
         else (let (srv, fb) = reply env (ascii ''REJECTED'') (sequence_id h) srv fb
               in \<lparr>accepted = False, srv_after = srv, request_after = requests, feedback_after = fb, fifos = []\<rparr>))
      else
        (let (srv, fb) = reply env (ascii ''OPENED'') (sequence_id h) srv fb;
             session = register_heartbeat (e_now env) (new_session (e_main_read env) (e_fb_write env));
             srv = srv\<lparr>client_registry := al_put client_id session (client_registry srv)\<rparr>;
             srv = (if client_id = ascii ''client_alpha_9999'' then srv\<lparr>server_running := False\<rparr> else srv)
         in \<lparr>accepted = True, srv_after = srv, request_after = requests, feedback_after = fb,
             fifos = [fb_path client_id, main_path client_id]\<rparr>))"

definition accept_client :: "accept_env \<Rightarrow> PacketHeader \<Rightarrow> PipeServer \<Rightarrow> bytes \<Rightarrow> bytes \<Rightarrow> accept_result" where
  "accept_client env h0 srv requests fb =
     (let (r, _, _, requests) = pipe_receive_packet (e_req_read env) h0 [] requests in
      if ok r \<and> ptype (out_header r) = DT_Command \<and> length (out_payload r) = sizeof_IPCRequestPayload
      then handle_request env srv (out_header r) (request_of_bytes (out_payload r)) requests fb
      else \<lparr>accepted = False, srv_after = srv, request_after = requests, feedback_after = fb, fifos = []\<rparr>)"

text \<open>\<open>process_client_packet\<close>: \<open>data\<close> is the stream from the client, \<open>out\<close> the one to it.\<close>

definition feedback_text :: bytes where
  "feedback_text = ascii ''Server feedback to client fd: ''"

definition process_client_packet ::
    "(bytes \<Rightarrow> int) \<Rightarrow> pointer \<Rightarrow> u64 \<Rightarrow> PacketHeader \<Rightarrow> bytes \<Rightarrow> int \<Rightarrow> int \<Rightarrow> PipeServer \<Rightarrow> bytes \<Rightarrow> bytes \<Rightarrow>
     PipeServer \<times> bytes \<times> bytes" where
  "process_client_packet accept id_ptr now h0 client_id proxy_read proxy_write srv data out =
     (case al_find client_id (client_registry srv) of
        None \<Rightarrow> (srv, data, out)
      | Some session \<Rightarrow>
          (let (r, _, _, data) = pipe_receive_packet proxy_read h0 [] data in
           if \<not> ok r then (srv, data, out)
           else
             (let session = evaluate_message_frequency now session;
                  session = (if ptype (out_header r) = DT_Heartbeat then register_heartbeat now session else session);
                  srv = srv\<lparr>client_registry := al_put client_id session (client_registry srv)\<rparr>
              in if modes_has (modes srv) Server_Feedback then
                   (let seq_id = sequence_id (out_header r);
                        fb_payload = \<lparr>client_id_field = feedback_text, command = word_of_int proxy_write\<rparr>;
                        (_, c, out) = pipe_send_packet accept (server_has_check_sum srv) proxy_write DT_Command
                           PlainObject (request_to_bytes fb_payload) now seq_id (srv_cache srv) out;
                        srv = srv\<lparr>srv_cache := c\<rparr>
                    in if now - last_heartbeat_time srv > 1000 then
                         (let (_, c, out) = send_heartbeat accept (server_has_check_sum srv) proxy_write id_ptr
                                (ascii ''server_name'') now seq_id (srv_cache srv) out
                          in (srv\<lparr>srv_cache := c, last_heartbeat_time := now\<rparr>, data, out))
                       else (srv, data, out))
                 else (srv, data, out))))"

text \<open>One turn of the polling loop: \<open>ready\<close> tells which clients \<open>poll\<close> reports as readable, \<open>pipes\<close>
  holds the two streams of each client.\<close>

definition poll_snapshot :: "PipeServer \<Rightarrow> bytes list" where
  "poll_snapshot srv = map fst (filter (\<lambda>(i, s). s_read_fd s \<noteq> -1) (client_registry srv))"

fun poll_loop ::
    "(bytes \<Rightarrow> int) \<Rightarrow> pointer \<Rightarrow> u64 \<Rightarrow> PacketHeader \<Rightarrow> (bytes \<Rightarrow> bool) \<Rightarrow> bytes list \<Rightarrow>
     PipeServer \<times> (bytes \<Rightarrow> bytes \<times> bytes) \<Rightarrow> PipeServer \<times> (bytes \<Rightarrow> bytes \<times> bytes)" where
  "poll_loop accept id_ptr now h0 ready [] st = st"
| "poll_loop accept id_ptr now h0 ready (i # is) (srv, pipes) =
     poll_loop accept id_ptr now h0 ready is
       (if ready i then
          (case al_find i (client_registry srv) of
             None \<Rightarrow> (srv, pipes)
           | Some s \<Rightarrow>
               (if s_write_fd s \<ge> 0 then
                  (let (srv, data, out) = process_client_packet accept id_ptr now h0 i (s_read_fd s) (s_write_fd s) srv
                         (fst (pipes i)) (snd (pipes i))
                   in (srv, pipes(i := (data, out))))
                else (srv, pipes)))
        else (srv, pipes))"

definition dispatch_turn ::
    "(bytes \<Rightarrow> int) \<Rightarrow> pointer \<Rightarrow> u64 \<Rightarrow> PacketHeader \<Rightarrow> (bytes \<Rightarrow> bool) \<Rightarrow>
     PipeServer \<times> (bytes \<Rightarrow> bytes \<times> bytes) \<Rightarrow> PipeServer \<times> (bytes \<Rightarrow> bytes \<times> bytes)" where
  "dispatch_turn accept id_ptr now h0 ready st =
     (let srv = execute_housekeeping_phase now (fst st)
      in poll_loop accept id_ptr now h0 ready (poll_snapshot srv) (srv, snd st))"

section \<open>Client\<close>

record PipeClient =
  c_upstream :: bytes
  c_downstream :: bytes
  c_old_upstream :: bytes
  c_id :: bytes
  c_modes :: u8
  current_seq :: u32
  c_write_fd :: int
  c_read_fd :: int
  c_running :: bool
  c_cache :: string_cache

definition init_client :: "bytes \<Rightarrow> bytes \<Rightarrow> u8 \<Rightarrow> PipeClient" where
  "init_client path cid ms = \<lparr>c_upstream = path, c_downstream = path @ ascii ''_fb'', c_old_upstream = path,
     c_id = cid, c_modes = ms, current_seq = 0, c_write_fd = -1, c_read_fd = -1, c_running = False,
     c_cache = init_cache\<rparr>"

definition client_has_check_sum :: "PipeClient \<Rightarrow> bool" where
  "client_has_check_sum cl = modes_has (c_modes cl) Client_CheckLose"

definition push_data ::
    "(bytes \<Rightarrow> int) \<Rightarrow> u8 \<Rightarrow> crc_source \<Rightarrow> bytes \<Rightarrow> u64 \<Rightarrow> PipeClient \<Rightarrow> bytes \<Rightarrow> bool \<times> PipeClient \<times> bytes" where
  "push_data accept type src data now cl stream =
     (let cl = cl\<lparr>current_seq := current_seq cl + 1\<rparr>;
          (sent, c, stream) = pipe_send_packet accept (client_has_check_sum cl) (c_write_fd cl) type src data now
             (current_seq cl) (c_cache cl) stream
      in (sent, cl\<lparr>c_cache := c\<rparr>, stream))"

definition push_heartbeat :: "(bytes \<Rightarrow> int) \<Rightarrow> pointer \<Rightarrow> u64 \<Rightarrow> PipeClient \<Rightarrow> bytes \<Rightarrow> bool \<times> PipeClient \<times> bytes" where
  "push_heartbeat accept p now cl stream =
     (let cl = cl\<lparr>current_seq := current_seq cl + 1\<rparr>;
          (sent, c, stream) = send_heartbeat accept (client_has_check_sum cl) (c_write_fd cl) p (c_id cl) now
             (current_seq cl) (c_cache cl) stream
      in (sent, cl\<lparr>c_cache := c\<rparr>, stream))"

text \<open>The request a client sends: \<open>strncpy\<close> into 32 bytes, padded with zeros.\<close>

definition client_request :: "PipeClient \<Rightarrow> u32 \<Rightarrow> IPCRequestPayload" where
  "client_request cl command_arg =
     \<lparr>client_id_field = take 32 (c_id cl) @ replicate (32 - length (c_id cl)) 0, command = command_arg\<rparr>"

text \<open>\<open>request_and_switch_pipe\<close> up to the wait for the acknowledgement.\<close>

definition send_request ::
    "(bytes \<Rightarrow> int) \<Rightarrow> int \<Rightarrow> int \<Rightarrow> u64 \<Rightarrow> u32 \<Rightarrow> PipeClient \<Rightarrow> bytes \<Rightarrow> bool \<times> PipeClient \<times> bytes" where
  "send_request accept w_fd r_fd now command_arg cl stream =
     (let cl = cl\<lparr>c_write_fd := w_fd\<rparr>;
          cl = (if modes_has (c_modes cl) Client_CheckLose then cl\<lparr>c_read_fd := r_fd\<rparr> else cl);
          (sent, c, stream) = pipe_send_packet accept (client_has_check_sum cl) (c_write_fd cl) DT_Command PlainObject
             (request_to_bytes (client_request cl command_arg)) now (current_seq cl) (c_cache cl) stream
      in (sent, cl\<lparr>c_cache := c\<rparr>, stream))"

datatype switch_outcome = Switched | RemovedByServer | RequestFailed | NotSwitched

text \<open>\<open>request_and_switch_pipe\<close> from the wait on: the feedback stream, and the two descriptors of the
  new pipe.\<close>

definition await_switch ::
    "int \<Rightarrow> int \<Rightarrow> PacketHeader \<Rightarrow> PipeClient \<Rightarrow> bytes \<Rightarrow> switch_outcome \<times> PipeClient \<times> bytes" where
  "await_switch new_w new_r h0 cl fb =
     (if modes_has (c_modes cl) Client_CheckLose then
        (let (r, _, _, fb) = pipe_receive_packet (c_read_fd cl) h0 [] fb in
         if ok r then
           (if out_payload r = ascii ''REJECTED'' then (RequestFailed, cl, fb)
            else if out_payload r = ascii ''REMOVED'' then (RemovedByServer, cl, fb)
            else if sequence_id (out_header r) = current_seq cl then
              (Switched, cl\<lparr>c_upstream := main_path (c_id cl), c_downstream := main_path (c_id cl) @ ascii ''_fb'',
                            c_write_fd := new_w, c_read_fd := new_r\<rparr>, fb)
            else (NotSwitched, cl, fb))
         else (NotSwitched, cl, fb))
      else (NotSwitched, cl, fb))"

definition request_and_switch_main_pipe ::
    "(bytes \<Rightarrow> int) \<Rightarrow> int \<Rightarrow> int \<Rightarrow> u64 \<Rightarrow> PipeClient \<Rightarrow> bytes \<Rightarrow> bool \<times> PipeClient \<times> bytes" where
  "request_and_switch_main_pipe accept w_fd r_fd now cl stream =
     send_request accept w_fd r_fd now 2
       (cl\<lparr>c_upstream := c_old_upstream cl, c_downstream := c_old_upstream cl @ ascii ''_fb''\<rparr>) stream"

datatype feedback_report = DataLost u32 u32 | InSequence | NoFeedback

text \<open>One pass of the loop of \<open>check_feedback\<close>.\<close>

definition check_feedback :: "PacketHeader \<Rightarrow> bytes \<Rightarrow> PipeClient \<Rightarrow> bytes \<Rightarrow> feedback_report \<times> bytes" where
  "check_feedback h0 p0 cl fb =
     (if modes_missing (c_modes cl) Client_CheckLose \<or> \<not> c_running cl then (NoFeedback, fb)
      else (let (r, _, _, fb) = pipe_receive_packet (c_read_fd cl) h0 p0 fb
            in if \<not> ok r then (NoFeedback, fb)
               else if sequence_id (out_header r) \<noteq> current_seq cl
                    then (DataLost (current_seq cl) (sequence_id (out_header r)), fb)
                    else (InSequence, fb)))"

definition start_monitoring :: "PipeClient \<Rightarrow> PipeClient" where
  "start_monitoring cl = (if c_running cl then cl else cl\<lparr>c_running := True\<rparr>)"

definition stop_monitoring :: "PipeClient \<Rightarrow> PipeClient" where
  "stop_monitoring cl = cl\<lparr>c_running := False\<rparr>"

section \<open>Lemmas\<close>

lemma send_frame:
  assumes "fd \<ge> 0" and "\<forall>f. accept f = int (length f)" and "length data < 2 ^ 32"
  shows "\<exists>c' h. pipe_send_packet accept checks fd type src data now seq c stream =
      (True, c', stream @ header_to_bytes h @ data) \<and>
    ptype h = type \<and> sequence_id h = seq \<and> unat (payload_size h) = length data"
proof -
  define m where "m = \<lparr>m_type = type, m_src = src, m_data = data, m_now = now, m_seq = seq\<rparr>"
  let ?h = "frame_header checks m (fst (send_crc src data c))"
  have frame: "fst (build_frame checks type src data now seq c) = header_to_bytes ?h @ data"
    using build_frame_eq [of m checks c] assms(3) by (simp add: m_def)
  have "pipe_send_packet accept checks fd type src data now seq c stream =
      (True, snd (build_frame checks type src data now seq c), stream @ header_to_bytes ?h @ data)"
    using assms(1,2) frame by (auto simp: pipe_send_packet_def ipc_send_stream_def Let_def split: prod.splits)
  moreover have "ptype ?h = type \<and> sequence_id ?h = seq \<and> unat (payload_size ?h) = length data"
    using unat_size [OF assms(3)] by (simp add: frame_header_def m_def)
  ultimately show ?thesis by blast
qed

lemma pipe_receive_frame:
  assumes "fd \<ge> 0" and "unat (payload_size h) = length data" and "data \<noteq> []"
  shows "\<exists>d v. pipe_receive_packet fd h0 p0 (header_to_bytes h @ data @ rest) =
    (\<lparr>ok = True, out_header = h, out_payload = data\<rparr>, d, v, rest)"
  using receive_frame [OF assms(1), of data h h0 p0 rest] assms(2,3) by (simp add: pipe_receive_packet_def)

lemma length_request [simp]: "length (request_to_bytes r) = 36"
  by (simp add: request_to_bytes_def)

lemma request_roundtrip: "length (client_id_field r) = 32 \<Longrightarrow> request_of_bytes (request_to_bytes r) = r"
  by (simp add: request_of_bytes_def request_to_bytes_def of_le_bytes)

lemma client_request_name: "0 \<notin> set (c_id cl) \<Longrightarrow> request_name (client_request cl n) = take 32 (c_id cl)"
proof -
  assume nz: "0 \<notin> set (c_id cl)"
  let ?f = "take 32 (c_id cl) @ replicate (32 - length (c_id cl)) 0"
  have "take 32 ?f = ?f" by simp
  moreover have "takeWhile (\<lambda>b. b \<noteq> 0) ?f = take 32 (c_id cl)"
    using nz by (subst takeWhile_append2) (auto dest: in_set_takeD)
  ultimately show ?thesis
    by (simp add: request_name_def client_request_def)
qed

lemma reply_sends:
  assumes "modes_has (modes srv) Server_Feedback" and "e_req_write env \<ge> 0"
    and "\<forall>f. e_accept env f = int (length f)" and "length txt < 2 ^ 32"
  shows "\<exists>c h. reply env txt seq srv fb = (srv\<lparr>srv_cache := c\<rparr>, fb @ header_to_bytes h @ txt) \<and>
    sequence_id h = seq \<and> unat (payload_size h) = length txt"
  using send_frame [OF assms(2-4), of "server_has_check_sum srv" DT_Command "StringBuffer (e_literal env)"
      "e_now env" seq "srv_cache srv" fb] assms(1,2)
  by (auto simp: reply_def)

lemma reply_registry [simp]: "client_registry (fst (reply env txt seq srv fb)) = client_registry srv"
  by (simp add: reply_def Let_def split: prod.splits)

lemma al_find_filter:
  "distinct (al_keys m) \<Longrightarrow> al_find k (filter (\<lambda>(i, s). P s) m) =
     (case al_find k m of Some s \<Rightarrow> if P s then Some s else None | None \<Rightarrow> None)"
  by (induction k m rule: al_find.induct) (force simp: al_find_None split: option.splits)+

lemma handshake_run:
  assumes "modes_has (c_modes cl) Client_CheckLose" and "modes_has (modes srv) Server_Feedback"
    and "0 \<notin> set (c_id cl)" and "al_find (take 32 (c_id cl)) (client_registry srv) = None"
    and "w_fd \<ge> 0" and "r_fd \<ge> 0" and "e_req_read env \<ge> 0" and "e_req_write env \<ge> 0"
    and "\<forall>f. accept f = int (length f)" and "\<forall>f. e_accept env f = int (length f)"
  shows "\<exists>cl1 request res cl2. send_request accept w_fd r_fd now 1 cl [] = (True, cl1, request) \<and>
    accept_client env h0 srv request [] = res \<and> accepted res \<and>
    al_find (take 32 (c_id cl)) (client_registry (srv_after res)) \<noteq> None \<and>
    await_switch new_w new_r h0 cl1 (feedback_after res) = (Switched, cl2, []) \<and>
    fifos res = [fb_path (take 32 (c_id cl)), main_path (take 32 (c_id cl))] \<and>
    c_upstream cl2 = main_path (c_id cl) \<and> c_downstream cl2 = fb_path (c_id cl) \<and> c_write_fd cl2 = new_w \<and> c_read_fd cl2 = new_r"
proof -
  let ?cl = "cl\<lparr>c_write_fd := w_fd, c_read_fd := r_fd\<rparr>"
  let ?req = "client_request cl 1"
  have req: "client_request ?cl 1 = ?req" by (simp add: client_request_def)
  obtain c h where send: "send_request accept w_fd r_fd now 1 cl [] =
      (True, ?cl\<lparr>c_cache := c\<rparr>, header_to_bytes h @ request_to_bytes ?req)"
    and h: "ptype h = DT_Command" "sequence_id h = current_seq cl" "unat (payload_size h) = 36"
    using send_frame [OF assms(5,9), of "request_to_bytes ?req" "client_has_check_sum ?cl" DT_Command PlainObject now
        "current_seq cl" "c_cache cl" "[]"] assms(1)
    by (auto simp: send_request_def Let_def req)
  have "request_to_bytes ?req \<noteq> []" by (metis length_request list.size(3) zero_neq_numeral)
  with pipe_receive_frame [OF assms(7), of h "request_to_bytes ?req" h0 "[]" "[]"] h(3)
  obtain d v where recv: "pipe_receive_packet (e_req_read env) h0 [] (header_to_bytes h @ request_to_bytes ?req) =
      (\<lparr>ok = True, out_header = h, out_payload = request_to_bytes ?req\<rparr>, d, v, [])"
    by auto
  have dec: "request_of_bytes (request_to_bytes ?req) = ?req"
    by (rule request_roundtrip) (simp add: client_request_def)
  have name: "request_name ?req = take 32 (c_id cl)"
    using client_request_name [OF assms(3)] by simp
  obtain c' g where answer: "reply env (ascii ''OPENED'') (current_seq cl) srv [] =
      (srv\<lparr>srv_cache := c'\<rparr>, header_to_bytes g @ ascii ''OPENED'')"
    and g: "sequence_id g = current_seq cl" "unat (payload_size g) = length (ascii ''OPENED'')"
    using reply_sends [OF assms(2,8,10), of "ascii ''OPENED''" "current_seq cl" "[]"] by (auto simp: ascii_def)
  define res where "res = accept_client env h0 srv (header_to_bytes h @ request_to_bytes ?req) []"
  have res: "accepted res" "al_find (take 32 (c_id cl)) (client_registry (srv_after res)) \<noteq> None"
      "feedback_after res = header_to_bytes g @ ascii ''OPENED''" "fifos res = [fb_path (take 32 (c_id cl)), main_path (take 32 (c_id cl))]"
    using assms(4) by (auto simp: res_def accept_client_def recv h sizeof_IPCRequestPayload_def dec handle_request_def
        name answer Let_def)
  obtain d' v' where "pipe_receive_packet r_fd h0 [] (header_to_bytes g @ ascii ''OPENED'') =
      (\<lparr>ok = True, out_header = g, out_payload = ascii ''OPENED''\<rparr>, d', v', [])"
    using pipe_receive_frame [OF assms(6) g(2), of h0 "[]" "[]"] by (auto simp: ascii_def)
  moreover have "ascii ''OPENED'' \<noteq> ascii ''REJECTED''" "ascii ''OPENED'' \<noteq> ascii ''REMOVED''"
    by (simp_all add: ascii_def)
  ultimately have "await_switch new_w new_r h0 (?cl\<lparr>c_cache := c\<rparr>) (feedback_after res) =
      (Switched, ?cl\<lparr>c_cache := c, c_upstream := main_path (c_id cl), c_downstream := fb_path (c_id cl),
         c_write_fd := new_w, c_read_fd := new_r\<rparr>, [])"
    using assms(1) g(1) by (simp add: await_switch_def res(3) fb_path_def)
  with send res res_def show ?thesis
    by (intro exI [of _ "?cl\<lparr>c_cache := c\<rparr>"] exI [of _ "header_to_bytes h @ request_to_bytes ?req"] exI [of _ res]
        exI [of _ "?cl\<lparr>c_cache := c, c_upstream := main_path (c_id cl), c_downstream := fb_path (c_id cl),
         c_write_fd := new_w, c_read_fd := new_r\<rparr>"] conjI) auto
qed

section \<open>Properties\<close>

text \<open>Registration.  What a request does to the registry, for every command and every name: a known
  name with command 2 is removed; a known name with any other command changes nothing; an unknown name
  is registered with a fresh heartbeat whatever the command is, so a disconnect request (command 2) of
  a client that is not registered connects it.  No other client is affected, the names stay distinct,
  and the result tells whether a client was added.\<close>

theorem request_registers:
  assumes "distinct (al_keys (client_registry srv))"
  shows "al_find k (client_registry (srv_after (handle_request env srv h req requests fb))) =
      (if k \<noteq> request_name req then al_find k (client_registry srv)
       else if al_find k (client_registry srv) = None
       then Some (register_heartbeat (e_now env) (new_session (e_main_read env) (e_fb_write env)))
       else if command req = 2 then None
       else al_find k (client_registry srv)) \<and>
    accepted (handle_request env srv h req requests fb) = (al_find (request_name req) (client_registry srv) = None) \<and>
    distinct (al_keys (client_registry (srv_after (handle_request env srv h req requests fb))))"
proof -
  have reg: "client_registry s = client_registry srv" if "reply env a q srv fb = (s, f)" for a q s f
    using reply_registry [of env a q srv fb] that by simp
  show ?thesis
    using assms by (auto simp: handle_request_def Let_def reg distinct_al_put distinct_al_erase split: prod.splits)
qed

definition example_server_state :: PipeServer where
  "example_server_state = init_server (ascii ''/tmp/req'') (Server_Feedback OR Server_CheckLose)"

definition example_accept_env :: accept_env where
  "example_accept_env = \<lparr>e_req_read = 3, e_req_write = 4, e_main_read = 5, e_fb_write = 6, e_now = 1000,
     e_literal = Some 64, e_accept = (\<lambda>f. int (length f))\<rparr>"

definition example_header :: PacketHeader where
  "example_header = \<lparr>ptype = DT_Command, payload_size = 36, timestamp_ms = 0, sequence_id = 0,
     has_check_sum = 0, check_sum_calculated = 0\<rparr>"

theorem request_registers_witness:
  "accepted (handle_request example_accept_env example_server_state example_header
     \<lparr>client_id_field = [65], command = 2\<rparr> [] [])"
  using request_registers [of example_server_state "[65]" example_accept_env example_header
      "\<lparr>client_id_field = [65], command = 2\<rparr>" "[]" "[]"]
  by (simp add: example_server_state_def init_server_def)

text \<open>Keep-alive.  When the server has processed a heartbeat frame of a registered client at time
  \<open>t\<close>, the housekeeping keeps the client up to and including \<open>t + 5000\<close> and removes it at any later
  time.\<close>

theorem heartbeat_keeps_client:
  assumes "distinct (al_keys (client_registry srv))" and "al_find i (client_registry srv) = Some s"
    and "r_fd \<ge> 0" and "unat (payload_size h) = length data" and "data \<noteq> []" and "ptype h = DT_Heartbeat"
    and "t \<noteq> 0" and "t \<le> t'"
    and "process_client_packet accept p t h0 i r_fd w_fd srv (header_to_bytes h @ data) out = (srv', rest, out')"
  shows "(al_find i (client_registry (execute_housekeeping_phase t' srv')) \<noteq> None) = (unat t' - unat t \<le> 5000)"
proof -
  obtain d v where recv: "pipe_receive_packet r_fd h0 [] (header_to_bytes h @ data @ []) =
      (\<lparr>ok = True, out_header = h, out_payload = data\<rparr>, d, v, [])"
    using pipe_receive_frame [OF assms(3-5)] by blast
  define s' where "s' = register_heartbeat t (evaluate_message_frequency t s)"
  have reg: "client_registry srv' = al_put i s' (client_registry srv)"
    using assms(2,6,9) recv
    by (auto simp: process_client_packet_def Let_def s'_def split: if_splits prod.splits)
  have "is_heartbeat_expired t' 5000 s' = (\<not> unat t' - unat t \<le> 5000)"
    using assms(7,8) by (simp add: is_heartbeat_expired_def s'_def register_heartbeat_def word_less_nat_alt
        unat_sub not_le)
  moreover have "distinct (al_keys (client_registry srv'))"
    using assms(1) reg by (simp add: distinct_al_put)
  ultimately show ?thesis
    by (simp add: execute_housekeeping_phase_def al_find_filter reg split: option.splits)
qed

definition example_heartbeat :: PacketHeader where
  "example_heartbeat = example_header\<lparr>ptype := DT_Heartbeat, payload_size := 1\<rparr>"

theorem heartbeat_keeps_client_witness:
  "\<exists>srv' rest out'. process_client_packet (\<lambda>f. int (length f)) None 1000 example_header [65] 5 6
      (example_server_state\<lparr>client_registry := [([65], new_session 5 6)]\<rparr>) (header_to_bytes example_heartbeat @ [65]) [] =
      (srv', rest, out') \<and>
    al_find [65] (client_registry (execute_housekeeping_phase 6000 srv')) \<noteq> None \<and>
    al_find [65] (client_registry (execute_housekeeping_phase 6001 srv')) = None"
proof -
  obtain srv' rest out' where run: "process_client_packet (\<lambda>f. int (length f)) None 1000 example_header [65] 5 6
      (example_server_state\<lparr>client_registry := [([65], new_session 5 6)]\<rparr>) (header_to_bytes example_heartbeat @ [65]) [] =
      (srv', rest, out')"
    by (metis prod.exhaust)
  have keep: "(al_find [65] (client_registry (execute_housekeeping_phase t srv')) \<noteq> None) = (unat t - unat (1000 :: u64) \<le> 5000)"
    if "1000 \<le> t" for t
    by (rule heartbeat_keeps_client [OF _ _ _ _ _ _ _ that run, of "new_session 5 6"])
       (simp_all add: example_heartbeat_def)
  show ?thesis
    using run keep [of 6000] keep [of 6001] by auto
qed

text \<open>The age of a heartbeat is a difference of unsigned 64-bit clock readings.  Unless the session
  has no heartbeat yet (the value 0, which never expires), a reading of the system clock that lies
  before the heartbeat, by however little, counts as an age of almost \<open>2 ^ 64\<close> milliseconds: one step
  back of the clock disconnects every client.\<close>

theorem clock_step_back_expires:
  assumes "last_heartbeat_timestamp_ms s \<noteq> 0" and "now < last_heartbeat_timestamp_ms s"
    and "unat (last_heartbeat_timestamp_ms s) - unat now < 2 ^ 64 - 5000"
  shows "is_heartbeat_expired now 5000 s"
proof -
  let ?l = "last_heartbeat_timestamp_ms s"
  have lt: "unat now < unat ?l" using assms(2) by (simp add: word_less_nat_alt)
  have "unat (now - ?l) = 2 ^ 64 - (unat ?l - unat now)"
    by (rule unat_sub_wrap [OF assms(2)])
  then have "5000 < unat (now - ?l)"
    using assms(3) lt by simp
  with assms(1) show ?thesis
    by (simp add: is_heartbeat_expired_def word_less_nat_alt)
qed

theorem clock_step_back_expires_witness:
  "is_heartbeat_expired 999 5000 (register_heartbeat 1000 (new_session 5 6))"
  by (rule clock_step_back_expires) (simp_all add: register_heartbeat_def)


definition example_client_state :: PipeClient where
  "example_client_state = init_client (ascii ''/tmp/req'') [97, 98] Client_CheckLose"

lemma example_modes:
  "modes_has (c_modes example_client_state) Client_CheckLose" "modes_has (modes example_server_state) Server_Feedback"
  by (simp_all add: modes_has_def example_client_state_def init_client_def example_server_state_def init_server_def
      Client_CheckLose_def Server_Feedback_def Server_CheckLose_def)


text \<open>Names longer than 32 bytes.  The request carries the first 32 bytes, so the server creates and
  serves the FIFOs of the shortened name, and answers \<open>OPENED\<close>; the client switches to the FIFO of its
  full name, which nobody has created.\<close>

theorem long_name_splits:
  assumes "modes_has (c_modes cl) Client_CheckLose" and "modes_has (modes srv) Server_Feedback"
    and "length (c_id cl) > 32" and "0 \<notin> set (c_id cl)"
    and "al_find (take 32 (c_id cl)) (client_registry srv) = None"
    and "w_fd \<ge> 0" and "r_fd \<ge> 0" and "e_req_read env \<ge> 0" and "e_req_write env \<ge> 0"
    and "\<forall>f. accept f = int (length f)" and "\<forall>f. e_accept env f = int (length f)"
    and "drop 32 (c_id cl) \<noteq> ascii ''_fb''"
  shows "\<exists>cl1 request res cl2. send_request accept w_fd r_fd now 1 cl [] = (True, cl1, request) \<and>
    accept_client env h0 srv request [] = res \<and> accepted res \<and>
    await_switch new_w new_r h0 cl1 (feedback_after res) = (Switched, cl2, []) \<and>
    c_upstream cl2 \<notin> set (fifos res)"
proof -
  have "length (main_path (c_id cl)) \<noteq> length (main_path (take 32 (c_id cl)))"
    using assms(3) by (simp add: main_path_def)
  then have "main_path (c_id cl) \<noteq> main_path (take 32 (c_id cl))"
    by metis
  moreover have "main_path (c_id cl) \<noteq> fb_path (take 32 (c_id cl))"
    using assms(12) by (simp add: main_path_def fb_path_def) (metis append_take_drop_id same_append_eq)
  ultimately show ?thesis
    using handshake_run [OF assms(1,2,4-11), of now h0 new_w new_r] by fastforce
qed

definition example_long_client :: PipeClient where
  "example_long_client = init_client (ascii ''/tmp/req'') (replicate 40 97) Client_CheckLose"

theorem long_name_splits_witness:
  "\<exists>cl1 request res cl2. send_request (\<lambda>f. int (length f)) 7 8 1000 1 example_long_client [] = (True, cl1, request) \<and>
    accept_client example_accept_env example_header example_server_state request [] = res \<and> accepted res \<and>
    await_switch 9 10 example_header cl1 (feedback_after res) = (Switched, cl2, []) \<and>
    c_upstream cl2 \<notin> set (fifos res)"
proof -
  have "length (c_id example_long_client) > 32" "0 \<notin> set (c_id example_long_client)"
    "al_find (take 32 (c_id example_long_client)) (client_registry example_server_state) = None"
    "modes_has (c_modes example_long_client) Client_CheckLose" "drop 32 (c_id example_long_client) \<noteq> ascii ''_fb''"
    by code_simp+
  from long_name_splits [OF this(4) example_modes(2) this(1-3) _ _ _ _ _ _ this(5), of 7 8 example_accept_env]
  show ?thesis by (simp add: example_accept_env_def)
qed

text \<open>The frequency window.  Packets are counted until a second has passed since the window began;
  then the frequency is their number per second, the count starts again and the window begins at the
  packet just processed.  Nothing is lost: the number of packets of a closed window times 1000 is the
  frequency times its length in milliseconds.\<close>

theorem frequency_window:
  assumes "unat (accumulated_packet_count s) + 1 < 2 ^ 32"
  shows "let s' = evaluate_message_frequency now s; delta = unat (now - last_metrics_timestamp_ms s) in
    if delta < 1000
    then unat (accumulated_packet_count s') = unat (accumulated_packet_count s) + 1 \<and>
      current_message_frequency_hz s' = current_message_frequency_hz s \<and>
      last_metrics_timestamp_ms s' = last_metrics_timestamp_ms s
    else current_message_frequency_hz s' * of_nat delta = of_nat (unat (accumulated_packet_count s) + 1) * 1000 \<and>
      accumulated_packet_count s' = 0 \<and> last_metrics_timestamp_ms s' = now"
proof -
  have "unat (accumulated_packet_count s + 1) = unat (accumulated_packet_count s) + 1"
    using assms by (simp add: unat_word_ariths)
  moreover have "(of_nat (unat (now - last_metrics_timestamp_ms s)) :: rat) \<noteq> 0"
    if "\<not> unat (now - last_metrics_timestamp_ms s) < 1000"
    using that by (simp only: of_nat_eq_0_iff)
  ultimately show ?thesis
    by (simp add: evaluate_message_frequency_def Let_def word_le_nat_alt)
qed

theorem frequency_window_witness:
  "current_message_frequency_hz (evaluate_message_frequency 2000 (new_session 5 6)) * 2000 = 1000"
  using frequency_window [of "new_session 5 6" 2000] by (simp add: new_session_def Let_def)

end
