(* ===== verification/Qoi.thy ===== *)
theory Qoi
  imports Prelude
begin

text \<open>
  The QOI image codec of \<open>src/document/laboratory/cpp/Solution/Compress\<close>: the compressor
  \<open>compressToQoiRuntime\<close> (\<open>QOI.cpp\<close>, and the same code in \<open>QOI4MCU.cpp\<close>) and the two decoders
  \<open>decompressQoiToDisplay\<close> (\<open>DecompessQOI.cpp\<close>) and \<open>decompressQoiToBuffer\<close> (\<open>qoi_to_gst.cpp\<close>).

  Channels are bytes with wrap-around; the \<open>int8_t\<close> differences are read with \<open>sint\<close>.  The bytes a pixel
  makes the compressor push are the result of \<open>encode_pixel\<close>; the decoders' loop is \<open>decode\<close>, \<open>None\<close>
  where it would read past the end of the array.
\<close>

section \<open>Pixels\<close>

record QoiPixel =
  px_r :: u8
  px_g :: u8
  px_b :: u8
  px_a :: u8

definition black :: QoiPixel where
  "black = \<lparr>px_r = 0, px_g = 0, px_b = 0, px_a = 255\<rparr>"

definition pixel_hash :: "QoiPixel \<Rightarrow> nat" where
  "pixel_hash p = (unat (px_r p) * 3 + unat (px_g p) * 5 + unat (px_b p) * 7 + unat (px_a p) * 11) mod 64"

definition QOI_OP_INDEX :: u8 where "QOI_OP_INDEX = 0x00"
definition QOI_OP_DIFF :: u8 where "QOI_OP_DIFF = 0x40"
definition QOI_OP_LUMA :: u8 where "QOI_OP_LUMA = 0x80"
definition QOI_OP_RUN :: u8 where "QOI_OP_RUN = 0xC0"
definition QOI_OP_RGB :: u8 where "QOI_OP_RGB = 0xFE"
definition QOI_OP_RGBA :: u8 where "QOI_OP_RGBA = 0xFF"
definition QOI_MASK_2 :: u8 where "QOI_MASK_2 = 0xC0"

section \<open>Compressor\<close>

record qoi_state =
  colorHistory :: "QoiPixel list"
  prevPixel :: QoiPixel
  runLength :: u8

definition init_qoi :: qoi_state where
  "init_qoi = \<lparr>colorHistory = replicate 64 black, prevPixel = black, runLength = 0\<rparr>"

definition run_op :: "u8 \<Rightarrow> bytes" where
  "run_op n = [QOI_OP_RUN OR (n - 1)]"

text \<open>The tag for a pixel that neither continues a run nor is in the history.\<close>

definition color_op :: "QoiPixel \<Rightarrow> QoiPixel \<Rightarrow> bytes" where
  "color_op prev p =
     (if px_a p = px_a prev then
        (let dr = px_r p - px_r prev; dg = px_g p - px_g prev; db = px_b p - px_b prev;
             dr_dg = dr - dg; db_dg = db - dg
         in if sint dr \<ge> -2 \<and> sint dr \<le> 1 \<and> sint dg \<ge> -2 \<and> sint dg \<le> 1 \<and> sint db \<ge> -2 \<and> sint db \<le> 1
            then [QOI_OP_DIFF OR push_bit 4 (dr + 2) OR push_bit 2 (dg + 2) OR (db + 2)]
            else if sint dg \<ge> -32 \<and> sint dg \<le> 31 \<and> sint dr_dg \<ge> -8 \<and> sint dr_dg \<le> 7 \<and>
                    sint db_dg \<ge> -8 \<and> sint db_dg \<le> 7
            then [QOI_OP_LUMA OR (dg + 32), push_bit 4 (dr_dg + 8) OR (db_dg + 8)]
            else [QOI_OP_RGB, px_r p, px_g p, px_b p])
      else [QOI_OP_RGBA, px_r p, px_g p, px_b p, px_a p])"

definition encode_pixel :: "QoiPixel \<Rightarrow> qoi_state \<Rightarrow> bytes \<times> qoi_state" where
  "encode_pixel p s =
     (if p = prevPixel s then
        (let s = s\<lparr>runLength := runLength s + 1\<rparr>
         in if runLength s = 62 then (run_op (runLength s), s\<lparr>runLength := 0, prevPixel := p\<rparr>)
            else ([], s\<lparr>prevPixel := p\<rparr>))
      else
        (let flushed = (if runLength s > 0 then run_op (runLength s) else []);
             s = s\<lparr>runLength := 0\<rparr>;
             indexHash = pixel_hash p
         in if colorHistory s ! indexHash = p
            then (flushed @ [QOI_OP_INDEX OR of_nat indexHash], s\<lparr>prevPixel := p\<rparr>)
            else (flushed @ color_op (prevPixel s) p,
                  s\<lparr>colorHistory := (colorHistory s)[indexHash := p], prevPixel := p\<rparr>)))"

fun encode_pixels :: "QoiPixel list \<Rightarrow> qoi_state \<Rightarrow> bytes" where
  "encode_pixels [] s = (if runLength s > 0 then run_op (runLength s) else [])"
| "encode_pixels (p # ps) s = (let (bs, s) = encode_pixel p s in bs @ encode_pixels ps s)"

definition be32 :: "u32 \<Rightarrow> bytes" where
  "be32 w = [ucast (drop_bit 24 w), ucast (drop_bit 16 w), ucast (drop_bit 8 w), ucast w]"

definition QOI_MAGIC :: u32 where
  "QOI_MAGIC = 0x716F6966"

text \<open>\<open>rawPixels[offset + c]\<close>, \<open>None\<close> where that is past the end of the image; the alpha of an image without
  four channels stays at 255.\<close>

definition raw_pixel :: "bytes \<Rightarrow> nat \<Rightarrow> nat \<Rightarrow> QoiPixel option" where
  "raw_pixel raw channels px =
     (let offset = px * channels
      in if offset + 2 < length raw \<and> (channels = 4 \<longrightarrow> offset + 3 < length raw)
         then Some \<lparr>px_r = raw ! offset, px_g = raw ! (offset + 1), px_b = raw ! (offset + 2),
                    px_a = if channels = 4 then raw ! (offset + 3) else 255\<rparr>
         else None)"

definition raw_image :: "bytes \<Rightarrow> nat \<Rightarrow> nat \<Rightarrow> QoiPixel list option" where
  "raw_image raw totalPixels channels = those (map (raw_pixel raw channels) [0..<totalPixels])"

definition qoi_header :: "u32 \<Rightarrow> u32 \<Rightarrow> u32 \<Rightarrow> bytes" where
  "qoi_header w h channels = be32 QOI_MAGIC @ be32 w @ be32 h @ [ucast channels, 0]"

text \<open>\<open>None\<close> where the loop reads past the end of the raw image.\<close>

definition compressToQoiRuntime :: "bytes \<Rightarrow> u32 \<Rightarrow> u32 \<Rightarrow> u32 \<Rightarrow> bytes option" where
  "compressToQoiRuntime raw w h channels =
     (case raw_image raw (unat w * unat h) (unat channels) of
        None \<Rightarrow> None
      | Some pixels \<Rightarrow> Some (qoi_header w h channels @ encode_pixels pixels init_qoi @ replicate 7 0 @ [1]))"

section \<open>Decoders\<close>

text \<open>One turn of the loop: the pixel register afterwards, how often it is drawn, and the bytes left.\<close>

definition decode_op :: "bytes \<Rightarrow> QoiPixel list \<Rightarrow> QoiPixel \<Rightarrow> (QoiPixel \<times> nat \<times> bytes) option" where
  "decode_op bs hist px =
     (case bs of
        [] \<Rightarrow> None
      | b1 # rest \<Rightarrow>
          if b1 = QOI_OP_RGB then
            (case rest of r # g # b # rest' \<Rightarrow> Some (px\<lparr>px_r := r, px_g := g, px_b := b\<rparr>, 1, rest') | _ \<Rightarrow> None)
          else if b1 = QOI_OP_RGBA then
            (case rest of r # g # b # a # rest' \<Rightarrow> Some (\<lparr>px_r = r, px_g = g, px_b = b, px_a = a\<rparr>, 1, rest') | _ \<Rightarrow> None)
          else if b1 AND QOI_MASK_2 = QOI_OP_INDEX then Some (hist ! unat b1, 1, rest)
          else if b1 AND QOI_MASK_2 = QOI_OP_DIFF then
            Some (px\<lparr>px_r := px_r px + ((drop_bit 4 b1 AND 3) - 2), px_g := px_g px + ((drop_bit 2 b1 AND 3) - 2),
                     px_b := px_b px + ((b1 AND 3) - 2)\<rparr>, 1, rest)
          else if b1 AND QOI_MASK_2 = QOI_OP_LUMA then
            (case rest of
               b2 # rest' \<Rightarrow>
                 (let dg = (b1 AND 0x3F) - 32
                  in Some (px\<lparr>px_r := px_r px + (dg - 8 + (drop_bit 4 b2 AND 0x0F)), px_g := px_g px + dg,
                              px_b := px_b px + (dg - 8 + (b2 AND 0x0F))\<rparr>, 1, rest'))
             | [] \<Rightarrow> None)
          else Some (px, unat (b1 AND 0x3F) + 1, rest))"

lemma decode_op_shorter: "decode_op bs hist px = Some (px', k, rest) \<Longrightarrow> length rest < length bs"
  by (auto simp: decode_op_def Let_def split: list.splits if_splits)

function decode :: "nat \<Rightarrow> bytes \<Rightarrow> QoiPixel list \<Rightarrow> QoiPixel \<Rightarrow> QoiPixel list \<Rightarrow> QoiPixel list option" where
  "decode totalPixels bs hist px acc =
     (if length acc < totalPixels \<and> bs \<noteq> [] then
        (case decode_op bs hist px of
           None \<Rightarrow> None
         | Some (px', k, rest) \<Rightarrow>
             decode totalPixels rest (hist[pixel_hash px' := px']) px' (acc @ replicate k px'))
      else Some acc)"
  by pat_completeness auto
termination
  by (relation "measure (\<lambda>(totalPixels, bs, hist, px, acc). length bs)") (auto dest: decode_op_shorter)

text \<open>The pixels sent to the display, after the 14 bytes of the header.\<close>

definition decompressQoiToDisplay :: "nat \<Rightarrow> bytes \<Rightarrow> QoiPixel list option" where
  "decompressQoiToDisplay totalPixels data = decode totalPixels (drop 14 data) (replicate 64 black) black []"

text \<open>The buffer variant writes four bytes per pixel into a vector of \<open>totalPixels * 4\<close> bytes; \<open>None\<close>
  also where it writes past its end.\<close>

definition decompressQoiToBuffer :: "nat \<Rightarrow> bytes \<Rightarrow> bytes option" where
  "decompressQoiToBuffer totalPixels data =
     (case decode totalPixels (drop 14 data) (replicate 64 black) black [] of
        None \<Rightarrow> None
      | Some ps \<Rightarrow>
          if length ps \<le> totalPixels
          then Some (concat (map (\<lambda>p. [px_r p, px_g p, px_b p, 0xFF]) ps) @ replicate ((totalPixels - length ps) * 4) 0)
          else None)"

declare decode.simps [simp del]

section \<open>Tags\<close>

lemmas qoi_ops = QOI_OP_INDEX_def QOI_OP_DIFF_def QOI_OP_LUMA_def QOI_OP_RUN_def QOI_OP_RGB_def QOI_OP_RGBA_def QOI_MASK_2_def

definition run_check :: "nat \<Rightarrow> bool" where
  "run_check n = (let b = QOI_OP_RUN OR (of_nat n - 1) in b \<noteq> QOI_OP_RGB \<and> b \<noteq> QOI_OP_RGBA \<and>
     b AND QOI_MASK_2 = QOI_OP_RUN \<and> unat (b AND 0x3F) + 1 = n)"

definition index_check :: "nat \<Rightarrow> bool" where
  "index_check n = (let b = QOI_OP_INDEX OR of_nat n in b \<noteq> QOI_OP_RGB \<and> b \<noteq> QOI_OP_RGBA \<and>
     b AND QOI_MASK_2 = QOI_OP_INDEX \<and> unat b = n)"

definition diff_check :: "nat \<Rightarrow> nat \<Rightarrow> nat \<Rightarrow> bool" where
  "diff_check x y z = (let b = QOI_OP_DIFF OR push_bit 4 (of_nat x) OR push_bit 2 (of_nat y) OR of_nat z in
     b \<noteq> QOI_OP_RGB \<and> b \<noteq> QOI_OP_RGBA \<and> b AND QOI_MASK_2 = QOI_OP_DIFF \<and>
     drop_bit 4 b AND 3 = of_nat x \<and> drop_bit 2 b AND 3 = of_nat y \<and> b AND 3 = of_nat z)"

definition luma_check1 :: "nat \<Rightarrow> bool" where
  "luma_check1 n = (let b = QOI_OP_LUMA OR of_nat n in b \<noteq> QOI_OP_RGB \<and> b \<noteq> QOI_OP_RGBA \<and>
     b AND QOI_MASK_2 = QOI_OP_LUMA \<and> b AND 0x3F = of_nat n)"

definition luma_check2 :: "nat \<Rightarrow> nat \<Rightarrow> bool" where
  "luma_check2 x y = (let b = (push_bit 4 (of_nat x) OR of_nat y :: u8) in
     drop_bit 4 b AND 0x0F = of_nat x \<and> b AND 0x0F = of_nat y)"

lemma run_checked: "list_all run_check [1..<63]" by code_simp
lemma index_checked: "list_all index_check [0..<64]" by code_simp
lemma diff_checked: "list_all (\<lambda>x. list_all (\<lambda>y. list_all (diff_check x y) [0..<4]) [0..<4]) [0..<4]" by code_simp
lemma luma_checked1: "list_all luma_check1 [0..<64]" by code_simp
lemma luma_checked2: "list_all (\<lambda>x. list_all (luma_check2 x) [0..<16]) [0..<16]" by code_simp

lemma byte_below:
  assumes "- int lo \<le> sint x" and "sint x < int hi"
  shows "\<exists>n < lo + hi. (x :: u8) + of_nat lo = of_nat n"
proof -
  obtain n where n: "sint x + int lo = int n"
    using assms(1) nonneg_int_cases [of "sint x + int lo"] by auto
  have "x + of_nat lo = of_int (sint x) + of_int (int lo)"
    by (simp only: of_int_sint scast_id of_int_of_nat_eq)
  also have "\<dots> = of_int (int n)"
    by (simp only: of_int_add [symmetric] n)
  finally have "x + of_nat lo = of_nat n"
    by (simp only: of_int_of_nat_eq)
  moreover have "n < lo + hi"
    using n assms(2) by simp
  ultimately show ?thesis by blast
qed

lemma decode_one:
  assumes "decode_op (ob @ rest) hist px = Some (px', k, rest)" and "ob \<noteq> []" and "length acc < totalPixels"
  shows "decode totalPixels (ob @ rest) hist px acc =
    decode totalPixels rest (hist[pixel_hash px' := px']) px' (acc @ replicate k px')"
  using assms by (subst decode.simps) simp

lemma decode_run:
  assumes "0 < unat n" and "unat n < 63"
  shows "decode_op (run_op n @ rest) hist px = Some (px, unat n, rest)"
proof -
  have "unat n \<in> set [1..<63]" using assms by simp
  with run_checked have "run_check (unat n)" by (simp add: list_all_iff)
  then show ?thesis
    by (simp add: run_check_def run_op_def decode_op_def Let_def qoi_ops)
qed

lemma decode_index:
  assumes "i < 64"
  shows "decode_op ([QOI_OP_INDEX OR of_nat i] @ rest) hist px = Some (hist ! i, 1, rest)"
proof -
  have "index_check i" using index_checked assms by (simp add: list_all_iff)
  then show ?thesis
    by (simp add: index_check_def decode_op_def Let_def)
qed

lemma decode_diff:
  assumes "x < 4" and "y < 4" and "z < 4"
  shows "decode_op ([QOI_OP_DIFF OR push_bit 4 (of_nat x) OR push_bit 2 (of_nat y) OR of_nat z] @ rest) hist px =
    Some (px\<lparr>px_r := px_r px + (of_nat x - 2), px_g := px_g px + (of_nat y - 2), px_b := px_b px + (of_nat z - 2)\<rparr>, 1, rest)"
proof -
  let ?b = "QOI_OP_DIFF OR push_bit 4 (of_nat x) OR push_bit 2 (of_nat y) OR of_nat z"
  have "diff_check x y z"
    using diff_checked assms by (simp add: list_all_iff)
  moreover have "QOI_OP_DIFF \<noteq> QOI_OP_INDEX" by (simp add: qoi_ops)
  ultimately show ?thesis
    unfolding diff_check_def Let_def by (simp add: decode_op_def)
qed

lemma decode_luma:
  assumes "n < 64" and "x < 16" and "y < 16"
  shows "decode_op ([QOI_OP_LUMA OR of_nat n, push_bit 4 (of_nat x) OR of_nat y] @ rest) hist px =
    Some (px\<lparr>px_r := px_r px + ((of_nat n - 32) - 8 + of_nat x), px_g := px_g px + (of_nat n - 32),
             px_b := px_b px + ((of_nat n - 32) - 8 + of_nat y)\<rparr>, 1, rest)"
proof -
  have "luma_check1 n" "luma_check2 x y"
    using luma_checked1 luma_checked2 assms by (simp_all add: list_all_iff)
  moreover have "QOI_OP_LUMA \<noteq> QOI_OP_INDEX" "QOI_OP_LUMA \<noteq> QOI_OP_DIFF" by (simp_all add: qoi_ops)
  ultimately show ?thesis
    unfolding luma_check1_def luma_check2_def Let_def by (simp add: decode_op_def)
qed

lemma decode_color: "decode_op (color_op prev p @ rest) hist prev = Some (p, 1, rest)"
proof (cases "px_a p = px_a prev")
  case False
  then show ?thesis by (simp add: color_op_def decode_op_def qoi_ops)
next
  case True
  define dr where "dr = px_r p - px_r prev"
  define dg where "dg = px_g p - px_g prev"
  define db where "db = px_b p - px_b prev"
  have p: "p = prev\<lparr>px_r := px_r prev + dr, px_g := px_g prev + dg, px_b := px_b prev + db\<rparr>"
    using True by (simp add: dr_def dg_def db_def)
  let ?small = "sint dr \<ge> -2 \<and> sint dr \<le> 1 \<and> sint dg \<ge> -2 \<and> sint dg \<le> 1 \<and> sint db \<ge> -2 \<and> sint db \<le> 1"
  let ?luma = "sint dg \<ge> -32 \<and> sint dg \<le> 31 \<and> sint (dr - dg) \<ge> -8 \<and> sint (dr - dg) \<le> 7 \<and>
    sint (db - dg) \<ge> -8 \<and> sint (db - dg) \<le> 7"
  have op: "color_op prev p = (if ?small then [QOI_OP_DIFF OR push_bit 4 (dr + 2) OR push_bit 2 (dg + 2) OR (db + 2)]
      else if ?luma then [QOI_OP_LUMA OR (dg + 32), push_bit 4 (dr - dg + 8) OR (db - dg + 8)]
      else [QOI_OP_RGB, px_r p, px_g p, px_b p])"
    using True by (simp only: color_op_def Let_def dr_def dg_def db_def simp_thms if_True)
  consider (small) ?small | (luma) "\<not> ?small" ?luma | (rgb) "\<not> ?small" "\<not> ?luma" by blast
  then show ?thesis
  proof cases
    case small
    obtain x where x: "x < 4" "dr + 2 = of_nat x" using byte_below [of 2 dr 2] small by auto
    obtain y where y: "y < 4" "dg + 2 = of_nat y" using byte_below [of 2 dg 2] small by auto
    obtain z where z: "z < 4" "db + 2 = of_nat z" using byte_below [of 2 db 2] small by auto
    note xyz = x(1) y(1) z(1) x(2) y(2) z(2)
    then have "dr = of_nat x - 2" "dg = of_nat y - 2" "db = of_nat z - 2"
      by (simp_all add: eq_diff_eq)
    with decode_diff [OF xyz(1-3), of rest hist prev] p show ?thesis
      unfolding op if_P [OF small] xyz(4-6) by simp
  next
    case luma
    obtain n where n: "n < 64" "dg + 32 = of_nat n" using byte_below [of 32 dg 32] luma(2) by auto
    obtain x where x: "x < 16" "dr - dg + 8 = of_nat x" using byte_below [of 8 "dr - dg" 8] luma(2) by auto
    obtain y where y: "y < 16" "db - dg + 8 = of_nat y" using byte_below [of 8 "db - dg" 8] luma(2) by auto
    note nxy = n(1) x(1) y(1) n(2) x(2) y(2)
    then have "dg = of_nat n - 32" "dr = (of_nat n - 32) - 8 + of_nat x" "db = (of_nat n - 32) - 8 + of_nat y"
      by (simp_all add: eq_diff_eq flip: nxy(4-6))
    with decode_luma [OF nxy(1-3), of rest hist prev] p show ?thesis
      unfolding op if_not_P [OF luma(1)] if_P [OF luma(2)] nxy(4-6) by simp
  next
    case rgb
    then show ?thesis
      unfolding op if_not_P [OF rgb(1)] if_not_P [OF rgb(2)] using True by (simp add: decode_op_def)
  qed
qed

lemma pixel_hash_less: "pixel_hash p < 64"
  by (simp add: pixel_hash_def)

text \<open>The state of the compressor that the decoder mirrors: its last pixel is in the history.\<close>

definition qoi_inv :: "qoi_state \<Rightarrow> bool" where
  "qoi_inv s \<longleftrightarrow> length (colorHistory s) = 64 \<and> colorHistory s ! pixel_hash (prevPixel s) = prevPixel s \<and>
     unat (runLength s) < 62"

lemma hist_update_same: "qoi_inv s \<Longrightarrow> (colorHistory s)[pixel_hash (prevPixel s) := prevPixel s] = colorHistory s"
  by (metis list_update_id qoi_inv_def)

lemma decode_flush:
  assumes "qoi_inv s" and "length acc + unat (runLength s) \<le> totalPixels"
  shows "decode totalPixels ((if runLength s > 0 then run_op (runLength s) else []) @ rest) (colorHistory s) (prevPixel s) acc =
    decode totalPixels rest (colorHistory s) (prevPixel s) (acc @ replicate (unat (runLength s)) (prevPixel s))"
proof (cases "runLength s > 0")
  case True
  then have pos: "0 < unat (runLength s)" by (simp add: word_less_nat_alt)
  have "decode_op (run_op (runLength s) @ rest) (colorHistory s) (prevPixel s) =
      Some (prevPixel s, unat (runLength s), rest)"
    using assms(1) pos by (intro decode_run) (auto simp: qoi_inv_def)
  from decode_one [OF this, of acc totalPixels] True pos assms show ?thesis
    by (simp add: hist_update_same run_op_def)
qed (simp add: word_gt_0)

section \<open>The decoder follows the compressor\<close>

text \<open>What the decoder has drawn, followed by the run the compressor has not yet written.\<close>

abbreviation drawn :: "QoiPixel list \<Rightarrow> qoi_state \<Rightarrow> QoiPixel list" where
  "drawn acc s \<equiv> acc @ replicate (unat (runLength s)) (prevPixel s)"

lemma run_continues:
  assumes "qoi_inv s"
  shows "unat (runLength s + 1) = unat (runLength s) + 1"
  using assms by (simp add: qoi_inv_def unat_word_ariths)

lemma decode_same:
  assumes inv: "qoi_inv s" and same: "p = prevPixel s" and enc: "encode_pixel p s = (bs, s')"
    and room: "length (drawn acc s) < totalPixels"
  shows "qoi_inv s' \<and> (\<exists>acc'. drawn acc' s' = drawn acc s @ [p] \<and>
    decode totalPixels (bs @ rest) (colorHistory s) (prevPixel s) acc =
    decode totalPixels rest (colorHistory s') (prevPixel s') acc')"
proof (cases "runLength s + 1 = 62")
  case True
  have n: "unat (runLength s) = 61"
    using run_continues [OF inv] True by simp
  have s': "bs = run_op 62" "s' = s\<lparr>runLength := 0\<rparr>"
    using enc same True by (auto simp: encode_pixel_def Let_def)
  have "decode_op (run_op 62 @ rest) (colorHistory s) (prevPixel s) = Some (prevPixel s, 62, rest)"
    using decode_run [of 62] by simp
  from decode_one [OF this, of acc totalPixels] room
  have "decode totalPixels (bs @ rest) (colorHistory s) (prevPixel s) acc =
      decode totalPixels rest (colorHistory s) (prevPixel s) (acc @ replicate 62 (prevPixel s))"
    by (simp add: s' run_op_def hist_update_same [OF inv])
  moreover have "replicate 62 (prevPixel s) = replicate 61 (prevPixel s) @ [p]"
    using same by (simp add: replicate_append_same numeral_eq_Suc)
  ultimately show ?thesis
    using inv n by (auto simp: s' qoi_inv_def)
next
  case False
  then have s': "bs = []" "s' = s\<lparr>runLength := runLength s + 1\<rparr>"
    using enc same by (auto simp: encode_pixel_def Let_def)
  have "unat (runLength s) + 1 \<noteq> 62"
    using False run_continues [OF inv] by (auto simp: unsigned_word_eqI)
  then have "qoi_inv s'"
    using inv run_continues [OF inv] by (simp add: qoi_inv_def s')
  then show ?thesis
    using run_continues [OF inv] same by (intro conjI exI [of _ acc]) (simp_all add: s' replicate_append_same)
qed

lemma decode_other:
  assumes inv: "qoi_inv s" and other: "p \<noteq> prevPixel s" and enc: "encode_pixel p s = (bs, s')"
    and room: "length (drawn acc s) < totalPixels"
  shows "qoi_inv s' \<and> (\<exists>acc'. drawn acc' s' = drawn acc s @ [p] \<and>
    decode totalPixels (bs @ rest) (colorHistory s) (prevPixel s) acc =
    decode totalPixels rest (colorHistory s') (prevPixel s') acc')"
proof -
  have known: "colorHistory s ! pixel_hash p = p \<Longrightarrow> (colorHistory s)[pixel_hash p := p] = colorHistory s"
    by (metis list_update_id)
  define tag where "tag = (if colorHistory s ! pixel_hash p = p then [QOI_OP_INDEX OR of_nat (pixel_hash p)]
    else color_op (prevPixel s) p)"
  have bs: "bs = (if runLength s > 0 then run_op (runLength s) else []) @ tag"
    and s': "s' = s\<lparr>colorHistory := (colorHistory s)[pixel_hash p := p], prevPixel := p, runLength := 0\<rparr>"
    using enc other by (auto simp: encode_pixel_def Let_def tag_def known split: if_splits intro!: qoi_state.equality)
  have op: "decode_op (tag @ rest) (colorHistory s) (prevPixel s) = Some (p, 1, rest)"
    using decode_color [of "prevPixel s" p rest "colorHistory s"]
      decode_index [OF pixel_hash_less [of p], of rest "colorHistory s" "prevPixel s"]
    by (simp add: tag_def del: One_nat_def)
  have "tag \<noteq> []" by (auto simp: tag_def color_op_def Let_def)
  then have "decode totalPixels (bs @ rest) (colorHistory s) (prevPixel s) acc =
      decode totalPixels rest (colorHistory s') (prevPixel s') (drawn acc s @ [p])"
    using decode_flush [OF inv, of acc totalPixels "tag @ rest"] decode_one [OF op, of "drawn acc s" totalPixels] room
    by (simp add: bs s')
  moreover have "qoi_inv s'"
    using inv pixel_hash_less [of p] by (simp add: qoi_inv_def s')
  ultimately show ?thesis by (auto simp: s')
qed

lemma decode_encoded:
  assumes "qoi_inv s" and "length (drawn acc s) + length ps \<le> totalPixels"
  shows "\<exists>hist px. decode totalPixels (encode_pixels ps s @ rest) (colorHistory s) (prevPixel s) acc =
    decode totalPixels rest hist px (drawn acc s @ ps)"
  using assms
proof (induction ps arbitrary: s acc)
  case Nil
  then show ?case using decode_flush [OF Nil.prems(1), of acc totalPixels rest] by auto
next
  case (Cons p ps)
  obtain bs s' where enc: "encode_pixel p s = (bs, s')" by fastforce
  have room: "length (drawn acc s) < totalPixels" using Cons.prems(2) by simp
  obtain acc' where inv': "qoi_inv s'" and acc': "drawn acc' s' = drawn acc s @ [p]"
    and dec: "decode totalPixels (bs @ encode_pixels ps s' @ rest) (colorHistory s) (prevPixel s) acc =
      decode totalPixels (encode_pixels ps s' @ rest) (colorHistory s') (prevPixel s') acc'"
    using decode_same [OF Cons.prems(1) _ enc room] decode_other [OF Cons.prems(1) _ enc room] by blast
  have "length (drawn acc' s') + length ps \<le> totalPixels"
    using Cons.prems(2) by (simp only: acc') simp
  from Cons.IH [OF inv' this] show ?case
    by (auto simp only: encode_pixels.simps enc Let_def prod.case append_assoc dec acc') auto
qed

lemma qoi_inv_init: "qoi_inv init_qoi"
  by (simp add: qoi_inv_def init_qoi_def pixel_hash_less)

lemma decode_full: "length acc = totalPixels \<Longrightarrow> decode totalPixels bs hist px acc = Some acc"
  by (subst decode.simps) simp

lemma decode_compressed:
  assumes "compressToQoiRuntime raw w h channels = Some data"
    and "raw_image raw (unat w * unat h) (unat channels) = Some pixels"
    and "length pixels = unat w * unat h"
  shows "decode (unat w * unat h) (drop 14 data) (replicate 64 black) black [] = Some pixels"
proof -
  have "drop 14 data = encode_pixels pixels init_qoi @ replicate 7 0 @ [1]"
    using assms by (auto simp: compressToQoiRuntime_def qoi_header_def be32_def)
  with decode_encoded [OF qoi_inv_init, of "[]" pixels "unat w * unat h" "replicate 7 0 @ [1]"] assms(3)
  show ?thesis by (auto simp: init_qoi_def decode_full)
qed

text \<open>The pixel the raw image holds at an index.\<close>

definition pixel_at :: "bytes \<Rightarrow> nat \<Rightarrow> nat \<Rightarrow> QoiPixel" where
  "pixel_at raw channels i =
     \<lparr>px_r = raw ! (i * channels), px_g = raw ! (i * channels + 1), px_b = raw ! (i * channels + 2),
      px_a = if channels = 4 then raw ! (i * channels + 3) else 255\<rparr>"

lemma those_map_Some: "(\<And>x. x \<in> set xs \<Longrightarrow> f x = Some (g x)) \<Longrightarrow> those (map f xs) = Some (map g xs)"
  by (induction xs) auto

lemma those_map_None: "x \<in> set xs \<Longrightarrow> f x = None \<Longrightarrow> those (map f xs) = None"
  by (induction xs) (auto split: option.splits)

lemma raw_image_reads:
  assumes "channels = 3 \<or> channels = 4" and "length raw = n * channels"
  shows "raw_image raw n channels = Some (map (pixel_at raw channels) [0..<n])"
  unfolding raw_image_def
proof (rule those_map_Some)
  fix i assume "i \<in> set [0..<n]"
  then have "Suc i * channels \<le> length raw" unfolding assms(2) by (intro mult_le_mono1) simp
  then show "raw_pixel raw channels i = Some (pixel_at raw channels i)"
    using assms(1) by (auto simp: raw_pixel_def pixel_at_def Let_def)
qed

section \<open>Properties\<close>



text \<open>The compressor reads past the end of an image of one or two channels, which the image loader returns
  for a grey-scale file: it always reads three bytes for the last pixel.\<close>

theorem grey_image_overrun:
  assumes "channels = 1 \<or> channels = 2" and "0 < unat w * unat h"
    and "length raw = unat w * unat h * unat channels"
  shows "compressToQoiRuntime raw w h channels = None"
proof -
  define n where "n = unat w * unat h"
  have n: "n = Suc (n - 1)" using assms(2) by (simp add: n_def)
  have "length raw = (n - 1) * unat channels + unat channels"
    using assms(3) n by (metis add.commute mult_Suc n_def)
  then have "raw_pixel raw (unat channels) (n - 1) = None"
    using assms(1) by (auto simp: raw_pixel_def Let_def)
  moreover have "n - 1 \<in> set [0..<n]" using n by simp
  ultimately have "raw_image raw n (unat channels) = None"
    unfolding raw_image_def by (rule those_map_None [rotated])
  then show ?thesis by (simp add: compressToQoiRuntime_def n_def)
qed

theorem grey_image_overrun_witness:
  "length [5, 6 :: u8] = unat (2 :: u32) * unat (1 :: u32) * unat (1 :: u32) \<and> compressToQoiRuntime [5, 6] 2 1 1 = None"
  using grey_image_overrun [of 1 2 1 "[5, 6]"] by simp

text \<open>A run tag is not checked against the size of the image: after any header, a first tag that asks for
  more pixels than the image has makes the buffer decoder write past the end of its vector.\<close>

theorem run_overruns_buffer:
  assumes "length hdr = 14" and "0 < totalPixels" and "totalPixels < n" and "n < 63"
  shows "decompressQoiToBuffer totalPixels (hdr @ run_op (of_nat n) @ rest) = None"
proof -
  have n: "unat (of_nat n :: u8) = n" using assms by (simp add: unat_of_nat take_bit_nat_eq_self)
  have "decode_op (run_op (of_nat n) @ rest) (replicate 64 black) black = Some (black, n, rest)"
    using decode_run [of "of_nat n"] assms n by simp
  from decode_one [OF this, of "[]" totalPixels] assms
  have "decode totalPixels (run_op (of_nat n) @ rest) (replicate 64 black) black [] =
      Some (replicate n black)"
    by (simp add: run_op_def decode.simps [of _ rest])
  then show ?thesis using assms by (simp add: decompressQoiToBuffer_def)
qed

theorem run_overruns_buffer_witness:
  "decompressQoiToBuffer 1 (replicate 14 0 @ run_op 2 @ []) = None"
  using run_overruns_buffer [of "replicate 14 0" 1 2 "[]"] by simp

end
