(* ===== verification/Qoi_Export.thy ===== *)
theory Qoi_Export
  imports Qoi
begin

text \<open>
  The two exports of \<open>src/document/laboratory/cpp/Solution/Compress/QOI4MCU.cpp\<close>: \<open>exportToQoiBinary\<close> and
  \<open>exportToEmbeddedHeader\<close>, which writes the compressed image as a C++ array.  A function returns the
  contents of the file it writes, \<open>None\<close> where the file does not open and the source returns false.  The
  compressor of that file is the one of \<open>QOI.cpp\<close>, see \<open>Qoi\<close>.

  \<open>read_bytes\<close> says which bytes a compiler finds in the text: the property is that they are the
  compressed image.
\<close>

section \<open>Operations\<close>

definition newline :: string where
  "newline = [CHR 0x0A]"

definition line :: "string \<Rightarrow> string" where
  "line s = s @ newline"

text \<open>A byte as the stream prints it, as two upper-case hexadecimal digits.\<close>

definition hex_digit :: "nat \<Rightarrow> char" where
  "hex_digit d = (if d < 10 then char_of (48 + d) else char_of (55 + d))"

definition show_hex :: "u8 \<Rightarrow> string" where
  "show_hex b = [hex_digit (unat b div 16), hex_digit (unat b mod 16)]"

definition exportToQoiBinary :: "bytes \<Rightarrow> bool \<Rightarrow> bytes option" where
  "exportToQoiBinary qoiData is_open = (if \<not> is_open then None else Some qoiData)"

text \<open>The loop over the bytes: \<open>i\<close> is the index of the next one, \<open>n\<close> the size of the vector.\<close>

fun header_rows :: "nat \<Rightarrow> nat \<Rightarrow> bytes \<Rightarrow> string" where
  "header_rows n i [] = []"
| "header_rows n i (b # bs) =
     ''0x'' @ show_hex b @ (if i \<noteq> n - 1 then '', '' else []) @
     (if (i + 1) mod 12 = 0 then newline @ ''    '' else []) @ header_rows n (i + 1) bs"

definition header_prefix :: "bytes \<Rightarrow> nat \<Rightarrow> nat \<Rightarrow> nat \<Rightarrow> string" where
  "header_prefix qoiData width height channels =
     line ''// ====== AUTO GENERATED QOI EMBEDDED HARDWARE COMPRESSED DATA ======'' @
     line ''#ifndef IMAGE_DATA_H'' @ line ''#define IMAGE_DATA_H'' @ newline @
     line ''#include <cstdint>'' @ line ''#include <array>'' @ newline @
     ''constexpr uint16_t IMAGE_WIDTH    = '' @ line (show_nat width @ '';'') @
     ''constexpr uint16_t IMAGE_HEIGHT   = '' @ line (show_nat height @ '';'') @
     ''constexpr uint8_t  IMAGE_CHANNELS = '' @ line (show_nat channels @ '';'') @ newline @
     ''// Total flash byte payload count: '' @ line (show_nat (length qoiData) @ '' bytes consumed inside Flash'') @
     ''constexpr std::array<uint8_t, '' @ line (show_nat (length qoiData) @ ''> QOI_COMPRESSED_BITMAP = {{'') @ ''    ''"

definition header_suffix :: string where
  "header_suffix = newline @ line ''}};'' @ newline @ line ''#endif // IMAGE_DATA_H''"

definition exportToEmbeddedHeader :: "bytes \<Rightarrow> bool \<Rightarrow> nat \<Rightarrow> nat \<Rightarrow> nat \<Rightarrow> string option" where
  "exportToEmbeddedHeader qoiData is_open width height channels =
     (if \<not> is_open then None
      else Some (header_prefix qoiData width height channels @ header_rows (length qoiData) 0 qoiData @ header_suffix))"

section \<open>Reading the text\<close>

definition hex_value :: "char \<Rightarrow> nat" where
  "hex_value c = (let n = of_char c in if n \<le> 57 then n - 48 else n - 55)"

function read_bytes :: "string \<Rightarrow> bytes" where
  "read_bytes [] = []"
| "read_bytes (c # cs) =
     (if c = CHR ''0'' \<and> take 1 cs = ''x'' \<and> length cs \<ge> 3
      then of_nat (16 * hex_value (cs ! 1) + hex_value (cs ! 2)) # read_bytes (drop 3 cs)
      else read_bytes cs)"
  by pat_completeness auto
termination
  by (relation "measure length") auto

lemma hex_value_digit [simp]: "d < 16 \<Longrightarrow> hex_value (hex_digit d) = d"
  by (simp add: hex_value_def hex_digit_def of_char_of take_bit_nat_eq_self Let_def)

lemma read_show_hex: "read_bytes (''0x'' @ show_hex b @ rest) = b # read_bytes rest"
proof -
  have "16 * (unat b div 16) + unat b mod 16 = unat b" by simp
  then show ?thesis
    using unat_u8_less [of b] by (simp add: show_hex_def)
qed

lemma read_skip: "CHR ''0'' \<notin> set s \<Longrightarrow> read_bytes (s @ rest) = read_bytes rest"
  by (induction s) auto

lemma read_rows: "read_bytes (header_rows n i bs @ rest) = bs @ read_bytes rest"
proof (induction n i bs rule: header_rows.induct)
  case (2 n i b bs)
  let ?sep = "(if i \<noteq> n - 1 then '', '' else []) @ (if (i + 1) mod 12 = 0 then newline @ ''    '' else [])"
  have "read_bytes (?sep @ header_rows n (i + 1) bs @ rest) = bs @ read_bytes rest"
    using 2 by (subst read_skip) (auto simp: newline_def)
  then show ?case
    using read_show_hex [of b "?sep @ header_rows n (i + 1) bs @ rest"] by simp
qed simp

section \<open>Properties\<close>

text \<open>The exported header.  The text after the opening of the array holds exactly the bytes of the
  compressed image in order, and the array is declared with their number.\<close>

theorem header_holds_image:
  "\<exists>pre. exportToEmbeddedHeader qoiData True width height channels =
      Some (pre @ show_nat (length qoiData) @ ''> QOI_COMPRESSED_BITMAP = {{'' @ newline @ ''    '' @
        header_rows (length qoiData) 0 qoiData @ header_suffix) \<and>
    read_bytes (header_rows (length qoiData) 0 qoiData @ header_suffix) = qoiData"
proof -
  have "read_bytes (header_suffix @ []) = read_bytes []"
    by (rule read_skip) (simp add: header_suffix_def line_def newline_def)
  then show ?thesis
    unfolding exportToEmbeddedHeader_def header_prefix_def line_def
    by (simp add: read_rows del: show_nat.simps)
qed

end
