(* ===== verification/Huffman_Build.thy ===== *)
theory Huffman_Build
  imports Prelude
begin

text \<open>
  The first half of the constructor of \<open>CompileTimeHuffman\<close>
  (\<open>src/document/laboratory/cpp/Solution/Compress/Huffman_String.cpp\<close>): counting the characters, merging
  the two lightest trees until one is left, and laying the tree out in a flat array in breadth-first
  order.

  The vectors and arrays have the capacities of the source; an access or a \<open>push_back\<close> outside is
  undefined behaviour there (a compile error in a constant expression) and \<open>None\<close> here.  Indices of type
  \<open>int16_t\<close> and \<open>int\<close> stay below 256 and are integers; the index \<open>-1\<close> of a missing candidate is \<open>None\<close>.
  Frequencies add up to at most the length of the input, a \<open>size_t\<close>, so they are natural numbers.  The
  table \<open>old_to_new_map\<close> is only written to and left out.

  Both loops are total functions: merging ends because every round leaves one active node less, the
  layout because the queue has a capacity.  The lemmas: the node array of the merge loop represents a
  forest whose leaves are the characters of the input; the flat array represents the same tree.
\<close>

section \<open>Nodes\<close>

record FlatNode =
  fleft :: int
  fright :: int

record TempNode =
  ch :: u8
  freq :: nat
  left_child :: int
  right_child :: int
  is_active :: bool

definition vector_capacity :: nat where
  "vector_capacity = 256"

definition vec_push :: "'a \<Rightarrow> 'a list \<Rightarrow> 'a list option" where
  "vec_push val v = (if length v < vector_capacity then Some (v @ [val]) else None)"

definition vec_at :: "'a list \<Rightarrow> int \<Rightarrow> 'a option" where
  "vec_at v idx = (if 0 \<le> idx \<and> idx < int (length v) then Some (v ! nat idx) else None)"

section \<open>Counting\<close>

definition count_chars :: "bytes \<Rightarrow> nat list" where
  "count_chars input = fold (\<lambda>c m. m[unat c := m ! unat c + 1]) input (replicate 256 0)"

definition leaf_node :: "nat \<Rightarrow> nat \<Rightarrow> TempNode" where
  "leaf_node i f = \<lparr>ch = of_nat i, freq = f, left_child = -1, right_child = -1, is_active = True\<rparr>"

definition leaf_nodes :: "nat list \<Rightarrow> TempNode list" where
  "leaf_nodes freq_map = map (\<lambda>i. leaf_node i (freq_map ! i)) (filter (\<lambda>i. freq_map ! i > 0) [0..<256])"

section \<open>Merging\<close>

text \<open>The search for the two active nodes of least frequency.\<close>

fun scan_two :: "TempNode list \<Rightarrow> nat option \<Rightarrow> nat option \<Rightarrow> nat list \<Rightarrow> nat option \<times> nat option" where
  "scan_two nodes first second [] = (first, second)"
| "scan_two nodes first second (i # is) =
     (if \<not> is_active (nodes ! i) then scan_two nodes first second is
      else if (case first of None \<Rightarrow> True | Some f \<Rightarrow> freq (nodes ! i) < freq (nodes ! f))
        then scan_two nodes (Some i) first is
      else if (case second of None \<Rightarrow> True | Some s \<Rightarrow> freq (nodes ! i) < freq (nodes ! s))
        then scan_two nodes first (Some i) is
      else scan_two nodes first second is)"

definition merge_two :: "TempNode list \<Rightarrow> nat \<Rightarrow> nat \<Rightarrow> TempNode list option" where
  "merge_two nodes first second =
     (let parent = \<lparr>ch = 0, freq = freq (nodes ! first) + freq (nodes ! second),
            left_child = int first, right_child = int second, is_active = True\<rparr>;
          nodes = nodes[first := (nodes ! first)\<lparr>is_active := False\<rparr>];
          nodes = nodes[second := (nodes ! second)\<lparr>is_active := False\<rparr>]
      in vec_push parent nodes)"

definition active :: "TempNode list \<Rightarrow> nat set" where
  "active nodes = {i. i < length nodes \<and> is_active (nodes ! i)}"

lemma finite_active [simp]: "finite (active nodes)"
  by (simp add: active_def)

text \<open>What the search has found when it has seen the nodes in \<open>seen\<close>.\<close>

definition scan_inv :: "nat set \<Rightarrow> nat option \<Rightarrow> nat option \<Rightarrow> bool" where
  "scan_inv seen first second \<longleftrightarrow>
     (case (first, second) of
        (None, None) \<Rightarrow> seen = {}
      | (Some f, None) \<Rightarrow> seen = {f}
      | (Some f, Some s) \<Rightarrow> f \<in> seen \<and> s \<in> seen \<and> f \<noteq> s
      | _ \<Rightarrow> False)"

lemma scan_inv_step:
  assumes "scan_inv seen first second" and "i \<notin> seen"
  shows "scan_inv (insert i seen) (Some i) first"
    "first \<noteq> None \<Longrightarrow> scan_inv (insert i seen) first (Some i)"
    "second \<noteq> None \<Longrightarrow> scan_inv (insert i seen) first second"
  using assms by (auto simp: scan_inv_def split: option.splits)

lemma scan_two_inv:
  assumes "scan_inv seen first second" and "distinct is" and "set is \<inter> seen = {}"
  shows "case scan_two nodes first second is of (f, s) \<Rightarrow>
    scan_inv (seen \<union> {i \<in> set is. is_active (nodes ! i)}) f s"
  using assms
proof (induction nodes first second "is" arbitrary: seen rule: scan_two.induct)
  case (2 nodes first second i "is")
  have skip: "seen \<union> {j \<in> set (i # is). is_active (nodes ! j)} = seen \<union> {j \<in> set is. is_active (nodes ! j)}"
    if "\<not> is_active (nodes ! i)" using that by auto
  have keep: "seen \<union> {j \<in> set (i # is). is_active (nodes ! j)} = insert i seen \<union> {j \<in> set is. is_active (nodes ! j)}"
    if "is_active (nodes ! i)" using that by auto
  have fresh: "set is \<inter> insert i seen = {}" "set is \<inter> seen = {}" "distinct is" "i \<notin> seen"
    using "2.prems"(2,3) by auto
  show ?case
  proof (cases "is_active (nodes ! i)")
    case False
    then show ?thesis
      unfolding skip [OF False] using "2.IH"(1) [of seen] "2.prems"(1) fresh by simp
  next
    case True
    show ?thesis
      unfolding keep [OF True]
      using "2.IH"(2-4) [of "insert i seen"] fresh True scan_inv_step [OF "2.prems"(1) fresh(4)]
      by (auto split: option.splits)
  qed
qed simp

lemma scan_two_active:
  "case scan_two nodes None None [0..<length nodes] of (f, s) \<Rightarrow> scan_inv (active nodes) f s"
  using scan_two_inv [of "{}" None None "[0..<length nodes]" nodes] by (simp add: scan_inv_def active_def)

lemma active_merge_two:
  assumes "merge_two nodes f s = Some nodes'" and "f < length nodes" and "s < length nodes"
  shows "active nodes' = insert (length nodes) (active nodes - {f, s})" "length nodes' = length nodes + 1"
  using assms
  by (auto simp: merge_two_def Let_def vec_push_def active_def nth_append nth_list_update less_Suc_eq split: if_splits)

function merge_loop :: "TempNode list \<Rightarrow> TempNode list option" where
  "merge_loop nodes =
     (case scan_two nodes None None [0..<length nodes] of
        (Some first, Some second) \<Rightarrow>
          (case merge_two nodes first second of None \<Rightarrow> None | Some nodes' \<Rightarrow> merge_loop nodes')
      | _ \<Rightarrow> Some nodes)"
  by auto
termination
proof (relation "measure (\<lambda>nodes. card (active nodes))")
  fix nodes first second f s nodes'
  assume "(first, second) = scan_two nodes None None [0..<length nodes]" "first = Some f" "second = Some s"
    and step: "merge_two nodes f s = Some nodes'"
  then have fs: "f \<in> active nodes" "s \<in> active nodes" "f \<noteq> s"
    using scan_two_active [of nodes] by (auto simp: scan_inv_def split: prod.splits)
  then have "active nodes' = insert (length nodes) (active nodes - {f, s})"
    using active_merge_two [OF step] by (auto simp: active_def)
  moreover have "card (active nodes - {f, s}) + 2 = card (active nodes)"
    using fs card_mono [of "active nodes" "{f, s}"] by (simp add: card_Diff_subset)
  moreover have "length nodes \<notin> active nodes" by (simp add: active_def)
  ultimately show "(nodes', nodes) \<in> measure (\<lambda>nodes. card (active nodes))"
    by simp
qed simp

declare merge_loop.simps [simp del]

section \<open>Layout\<close>

text \<open>A child of the node being laid out: a leaf is stored as minus its character, an inner node gets the
  next index of the flat array and is queued.\<close>

definition flat_child :: "TempNode list \<Rightarrow> int \<Rightarrow> int list \<Rightarrow> nat \<Rightarrow> (int \<times> int list \<times> nat) option" where
  "flat_child nodes child queue flat_idx =
     (case vec_at nodes child of
        None \<Rightarrow> None
      | Some n \<Rightarrow>
          (if ch n \<noteq> 0 then Some (- int (unat (ch n)), queue, flat_idx)
           else (case vec_push child queue of
               None \<Rightarrow> None
             | Some queue \<Rightarrow> Some (int (flat_idx + 1), queue, flat_idx + 1))))"

definition flat_node :: "TempNode list \<Rightarrow> TempNode \<Rightarrow> int list \<Rightarrow> nat \<Rightarrow> (FlatNode \<times> int list \<times> nat) option" where
  "flat_node nodes n queue flat_idx =
     (case flat_child nodes (left_child n) queue flat_idx of
        None \<Rightarrow> None
      | Some (l, queue, flat_idx) \<Rightarrow>
          (case flat_child nodes (right_child n) queue flat_idx of
             None \<Rightarrow> None
           | Some (r, queue, flat_idx) \<Rightarrow> Some (\<lparr>fleft = l, fright = r\<rparr>, queue, flat_idx)))"

lemma flat_child_queue:
  "flat_child nodes c queue f = Some (x, queue', f') \<Longrightarrow> length queue \<le> length queue' \<and> length queue' \<le> max 256 (length queue)"
  by (auto simp: flat_child_def vec_push_def vector_capacity_def split: option.splits if_splits)

lemma flat_node_queue:
  "flat_node nodes n queue f = Some (x, queue', f') \<Longrightarrow> length queue \<le> length queue' \<and> length queue' \<le> max 256 (length queue)"
  by (auto simp: flat_node_def split: option.splits prod.splits dest!: flat_child_queue)

function flat_loop :: "TempNode list \<Rightarrow> nat \<Rightarrow> int list \<Rightarrow> nat \<Rightarrow> FlatNode list \<Rightarrow> nat \<Rightarrow> (FlatNode list \<times> nat) option" where
  "flat_loop nodes q queue flat_idx tree tree_size =
     (if q < length queue then
        (case vec_at nodes (queue ! q) of
           None \<Rightarrow> None
         | Some n \<Rightarrow>
             (if ch n \<noteq> 0 then flat_loop nodes (q + 1) queue flat_idx tree tree_size
              else (case flat_node nodes n queue flat_idx of
                  None \<Rightarrow> None
                | Some (fn, queue, flat_idx) \<Rightarrow>
                    (if tree_size < length tree
                     then flat_loop nodes (q + 1) queue flat_idx (tree[tree_size := fn]) (tree_size + 1)
                     else None))))
      else Some (tree, tree_size))"
  by auto
termination
  by (relation "measure (\<lambda>(nodes, q, queue, f, t, n). max 256 (length queue) - q)") (auto dest!: flat_node_queue)

declare flat_loop.simps [simp del]

definition flatten :: "TempNode list \<Rightarrow> (FlatNode list \<times> nat) option" where
  "flatten nodes =
     (let root_idx = int (length nodes) - 1
      in flat_loop nodes 0 [root_idx] 0 (replicate 128 \<lparr>fleft = 0, fright = 0\<rparr>) 0)"

section \<open>Trees\<close>

datatype htree = HLeaf u8 | HNode htree htree

primrec leaves :: "htree \<Rightarrow> u8 set" where
  "leaves (HLeaf c) = {c}"
| "leaves (HNode l r) = leaves l \<union> leaves r"

primrec leaf_count :: "htree \<Rightarrow> nat" where
  "leaf_count (HLeaf c) = 1"
| "leaf_count (HNode l r) = leaf_count l + leaf_count r"

primrec tree_height :: "htree \<Rightarrow> nat" where
  "tree_height (HLeaf c) = 0"
| "tree_height (HNode l r) = 1 + max (tree_height l) (tree_height r)"

lemma leaf_count_pos [simp]: "0 < leaf_count t"
  by (induction t) simp_all

lemma tree_height_less: "tree_height t < leaf_count t"
proof (induction t)
  case (HNode l r)
  then show ?case
    using leaf_count_pos [of l] leaf_count_pos [of r] by simp
qed simp

text \<open>The tree under a node of the node array.  Activity does not matter to it.\<close>

inductive rep :: "TempNode list \<Rightarrow> nat \<Rightarrow> htree \<Rightarrow> bool" for nodes where
  leaf: "i < length nodes \<Longrightarrow> ch (nodes ! i) \<noteq> 0 \<Longrightarrow> rep nodes i (HLeaf (ch (nodes ! i)))"
| node: "i < length nodes \<Longrightarrow> ch (nodes ! i) = 0 \<Longrightarrow> left_child (nodes ! i) = int l \<Longrightarrow> right_child (nodes ! i) = int r \<Longrightarrow>
    rep nodes l a \<Longrightarrow> rep nodes r b \<Longrightarrow> rep nodes i (HNode a b)"

inductive_cases rep_leafE: "rep nodes i (HLeaf c)"
inductive_cases rep_nodeE: "rep nodes i (HNode a b)"

lemma rep_extend:
  assumes "rep nodes i t" and "length nodes \<le> length nodes'"
    and "\<And>j. j < length nodes \<Longrightarrow> ch (nodes' ! j) = ch (nodes ! j) \<and>
      left_child (nodes' ! j) = left_child (nodes ! j) \<and> right_child (nodes' ! j) = right_child (nodes ! j)"
  shows "rep nodes' i t"
  using assms(1)
proof (induction rule: rep.induct)
  case (leaf i)
  then show ?case
    using rep.leaf [of i nodes'] assms(2,3) by simp
next
  case (node i l r a b)
  then show ?case
    using assms(2,3) by (intro rep.node [of i nodes' l r]) simp_all
qed

text \<open>A forest with \<open>k\<close> leaves whose characters are \<open>C\<close>: the active nodes are its roots, \<open>ts\<close> gives the tree
  of every node.\<close>

definition forest :: "nat \<Rightarrow> u8 set \<Rightarrow> TempNode list \<Rightarrow> htree list \<Rightarrow> bool" where
  "forest k C nodes ts \<longleftrightarrow>
     length ts = length nodes \<and> (\<forall>i < length nodes. rep nodes i (ts ! i)) \<and>
     nodes \<noteq> [] \<and> is_active (last nodes) \<and>
     (\<Sum>i\<in>active nodes. leaf_count (ts ! i)) = k \<and> (\<Union>i\<in>active nodes. leaves (ts ! i)) = C \<and>
     length nodes + card (active nodes) = 2 * k"

lemma forest_merge:
  assumes "forest k C nodes ts" and "merge_two nodes f s = Some nodes'"
    and "f \<in> active nodes" and "s \<in> active nodes" and "f \<noteq> s"
  shows "forest k C nodes' (ts @ [HNode (ts ! f) (ts ! s)])" (is "forest k C nodes' ?ts")
proof -
  have fs: "f < length nodes" "s < length nodes" using assms(3,4) by (auto simp: active_def)
  note act = active_merge_two [OF assms(2) fs]
  have shape: "ch (nodes' ! j) = ch (nodes ! j) \<and> left_child (nodes' ! j) = left_child (nodes ! j) \<and>
      right_child (nodes' ! j) = right_child (nodes ! j)" if "j < length nodes" for j
    using assms(2) that fs
    by (auto simp: merge_two_def Let_def vec_push_def nth_append nth_list_update split: if_splits)
  have root: "ch (nodes' ! length nodes) = 0" "left_child (nodes' ! length nodes) = int f"
      "right_child (nodes' ! length nodes) = int s" "is_active (last nodes')" "nodes' \<noteq> []"
    using assms(2) by (auto simp: merge_two_def Let_def vec_push_def nth_append split: if_splits)
  have len: "length ts = length nodes" and old: "\<And>i. i < length nodes \<Longrightarrow> rep nodes i (ts ! i)"
    using assms(1) by (auto simp: forest_def)
  have kept: "rep nodes' i (ts ! i)" if "i < length nodes" for i
    using rep_extend [OF old [OF that]] act(2) shape by simp
  then have "rep nodes' (length nodes) (HNode (ts ! f) (ts ! s))"
    using root fs act(2) by (intro rep.node [of _ nodes' f s]) simp_all
  with kept have reps: "\<forall>i < length nodes'. rep nodes' i (?ts ! i)"
    using act(2) len by (auto simp: nth_append less_Suc_eq)
  let ?A = "active nodes - {f, s}"
  have A: "active nodes = insert f (insert s ?A)" "length nodes \<notin> ?A"
    using assms(3,4) by (auto simp: active_def)
  have low: "?ts ! i = ts ! i" if "i \<in> ?A" for i
    using that len by (simp add: active_def nth_append)
  have new: "?ts ! length nodes = HNode (ts ! f) (ts ! s)" using len by (simp add: nth_append)
  have "(\<Sum>i\<in>active nodes'. leaf_count (?ts ! i)) = (\<Sum>i\<in>active nodes. leaf_count (ts ! i))"
    unfolding act(1) using A(2) assms(5) low new by (subst (2) A(1)) simp
  moreover have "(\<Union>i\<in>active nodes'. leaves (?ts ! i)) = (\<Union>i\<in>active nodes. leaves (ts ! i))"
    unfolding act(1) using low new by (subst (2) A(1)) (simp add: Un_assoc)
  moreover have "length nodes' + card (active nodes') = length nodes + card (active nodes)"
    unfolding act using A(2) assms(5) by (subst (2) A(1)) simp
  ultimately show ?thesis
    using assms(1) reps root(4,5) len act(2) by (simp add: forest_def)
qed

lemma merge_loop_tree:
  assumes "forest k C nodes ts" and "k \<le> 128"
  shows "\<exists>nodes' t. merge_loop nodes = Some nodes' \<and> nodes' \<noteq> [] \<and> rep nodes' (length nodes' - 1) t \<and>
    leaf_count t = k \<and> leaves t = C"
  using assms(1)
proof (induction nodes arbitrary: ts rule: merge_loop.induct)
  case (1 nodes)
  obtain first second where scan: "scan_two nodes None None [0..<length nodes] = (first, second)"
    by (cases "scan_two nodes None None [0..<length nodes]")
  then have inv: "scan_inv (active nodes) first second"
    using scan_two_active [of nodes] by simp
  show ?case
  proof (cases second)
    case None
    have "length nodes - 1 \<in> active nodes"
      using "1.prems" by (auto simp: forest_def active_def last_conv_nth)
    moreover have "active nodes = {} \<or> (\<exists>f. active nodes = {f})"
      using inv None by (auto simp: scan_inv_def split: option.splits)
    ultimately have "active nodes = {length nodes - 1}" by auto
    moreover have "merge_loop nodes = Some nodes"
      using scan None by (subst merge_loop.simps) (auto split: option.splits)
    ultimately show ?thesis
      using "1.prems" by (auto simp: forest_def intro!: exI [of _ "ts ! (length nodes - 1)"])
  next
    case (Some s)
    then obtain f where f: "first = Some f" "f \<in> active nodes" "s \<in> active nodes" "f \<noteq> s"
      using inv by (auto simp: scan_inv_def split: option.splits)
    have "2 \<le> card (active nodes)"
      using f card_mono [of "active nodes" "{f, s}"] by simp
    then have "length nodes < 256"
      using "1.prems" assms(2) by (simp add: forest_def)
    then obtain nodes' where step: "merge_two nodes f s = Some nodes'"
      by (auto simp: merge_two_def Let_def vec_push_def vector_capacity_def)
    have "merge_loop nodes = merge_loop nodes'"
      using scan Some f step by (subst merge_loop.simps) simp
    then show ?thesis
      using "1.IH" [OF scan [symmetric] f(1) Some step forest_merge [OF "1.prems" step f(2-4)]] by simp
  qed
qed

text \<open>The leaves the constructor starts from.\<close>

lemma count_chars_nth: "i < 256 \<Longrightarrow> count_chars input ! i = count_list input (of_nat i)"
proof -
  assume i: "i < 256"
  have "length m = 256 \<Longrightarrow> fold (\<lambda>c m. m[unat c := m ! unat c + 1]) input m ! i = m ! i + count_list input (of_nat i)" for m
  proof (induction input arbitrary: m)
    case (Cons c input)
    have "c = of_nat i \<longleftrightarrow> unat c = i"
      using i by (auto simp: unat_of_nat)
    with Cons i show ?case by (auto simp: nth_list_update)
  qed simp
  from this [of "replicate 256 0"] i show ?thesis by (simp add: count_chars_def)
qed

lemma leaf_nodes_forest:
  assumes "input \<noteq> []" and "0 \<notin> set input"
  defines "nodes \<equiv> leaf_nodes (count_chars input)"
  shows "forest (card (set input)) (set input) nodes (map (\<lambda>n. HLeaf (ch n)) nodes)"
proof -
  define L where "L = filter (\<lambda>i. count_chars input ! i > 0) [0..<256]"
  have "set L = {i. i < 256 \<and> of_nat i \<in> set input}"
    unfolding L_def using count_chars_nth [of _ input] by (auto simp: count_list_0_iff simp flip: neq0_conv)
  also have "\<dots> = unat ` set input"
  proof (intro equalityI subsetI)
    fix i assume "i \<in> {i. i < 256 \<and> of_nat i \<in> set input}"
    then show "i \<in> unat ` set input"
      by (intro image_eqI [of _ _ "of_nat i"]) (auto simp: unat_of_nat)
  qed (auto simp: unat_u8_less)
  finally have L: "set L = unat ` set input" .
  have ch: "ch ` set nodes = set input" "\<And>n. n \<in> set nodes \<Longrightarrow> is_active n"
    unfolding nodes_def leaf_nodes_def L_def [symmetric] using L by (auto simp: leaf_node_def image_image)
  have len: "length nodes = card (set input)"
    unfolding nodes_def leaf_nodes_def L_def [symmetric]
    using distinct_card [of L] L card_image [of unat "set input"] by (simp add: L_def inj_on_def word_unat_eq_iff)
  have act: "active nodes = {..<length nodes}"
    using ch(2) by (auto simp: active_def)
  have "rep nodes i (HLeaf (ch (nodes ! i)))" if "i < length nodes" for i
    using that ch(1) assms(2) by (intro rep.leaf) (auto simp flip: ch(1))
  moreover have "nodes \<noteq> []"
    using ch(1) assms(1) by auto
  moreover have "(\<Union>i<length nodes. {ch (nodes ! i)}) = set input"
    unfolding ch(1) [symmetric] by (auto simp: set_conv_nth)
  ultimately show ?thesis
    using len act ch(2) by (simp add: forest_def)
qed

section \<open>The flat array represents the tree\<close>

text \<open>Entry \<open>f\<close> of a flat node for a child: minus the character of a leaf, or the place in the queue where the
  child was entered.\<close>

definition entry_ok :: "TempNode list \<Rightarrow> int list \<Rightarrow> int \<Rightarrow> int \<Rightarrow> bool" where
  "entry_ok nodes queue f child \<longleftrightarrow>
     (if ch (nodes ! nat child) \<noteq> 0 then f = - int (unat (ch (nodes ! nat child)))
      else 0 < f \<and> f < int (length queue) \<and> queue ! nat f = child)"

definition flat_ok :: "TempNode list \<Rightarrow> int list \<Rightarrow> FlatNode list \<Rightarrow> nat \<Rightarrow> bool" where
  "flat_ok nodes queue tree j \<longleftrightarrow> j < length tree \<and>
     entry_ok nodes queue (fleft (tree ! j)) (left_child (nodes ! nat (queue ! j))) \<and>
     entry_ok nodes queue (fright (tree ! j)) (right_child (nodes ! nat (queue ! j)))"

lemma entry_ok_append: "entry_ok nodes queue f c \<Longrightarrow> entry_ok nodes (queue @ queue') f c"
  by (auto simp: entry_ok_def nth_append split: if_splits)

lemma flat_ok_append: "flat_ok nodes queue tree j \<Longrightarrow> j < length queue \<Longrightarrow> flat_ok nodes (queue @ queue') tree j"
  by (auto simp: flat_ok_def nth_append intro: entry_ok_append)

lemma flat_ok_keep:
  assumes "\<forall>j < q. flat_ok nodes queue tree j" and "q < length queue"
  shows "\<forall>j < q. flat_ok nodes (queue @ queue') (tree[q := fn]) j"
  using assms flat_ok_append [of nodes queue tree _ queue'] by (simp add: flat_ok_def)

text \<open>The inner nodes of a tree, and what a child adds to the queue.\<close>

definition inner_count :: "htree \<Rightarrow> nat" where
  "inner_count t = leaf_count t - 1"

fun queued :: "nat \<Rightarrow> htree \<Rightarrow> int list" where
  "queued c (HLeaf _) = []"
| "queued c (HNode _ _) = [int c]"

fun queued_tree :: "htree \<Rightarrow> htree list" where
  "queued_tree (HLeaf _) = []"
| "queued_tree (HNode a b) = [HNode a b]"

lemma inner_count_simps [simp]: "inner_count (HLeaf c) = 0" "inner_count (HNode a b) = inner_count a + inner_count b + 1"
proof -
  have "0 < leaf_count a" "0 < leaf_count b" by simp_all
  then show "inner_count (HNode a b) = inner_count a + inner_count b + 1"
    unfolding inner_count_def leaf_count.simps by linarith
qed (simp add: inner_count_def)

lemma queued_tree_count [simp]: "sum_list (map inner_count (queued_tree t)) = inner_count t"
  by (cases t) simp_all

lemma length_queued [simp]: "length (queued c t) = length (queued_tree t)"
  by (cases t) simp_all

lemma length_queued_tree: "length (queued_tree t) \<le> inner_count t"
  by (cases t) simp_all

lemma flat_child_step:
  assumes "rep nodes c a" and "queue \<noteq> []" and "length queue + length (queued c a) \<le> 256"
  shows "\<exists>f. flat_child nodes (int c) queue (length queue - 1) =
      Some (f, queue @ queued c a, length (queue @ queued c a) - 1) \<and> entry_ok nodes (queue @ queued c a) f (int c)"
  using assms(1)
proof (cases rule: rep.cases)
  case leaf
  then show ?thesis by (simp add: flat_child_def vec_at_def entry_ok_def)
next
  case (node l r x y)
  moreover have "length queue - 1 + 1 = length queue" using assms(2) by simp
  ultimately show ?thesis
    using assms(2,3)
    by (simp add: flat_child_def vec_at_def vec_push_def vector_capacity_def entry_ok_def nth_append del: One_nat_def)
qed

lemma flat_node_step:
  assumes "rep nodes l a" and "rep nodes r b" and "left_child n = int l" and "right_child n = int r" and "queue \<noteq> []"
    and "queue' = queue @ queued l a @ queued r b" and "length queue' \<le> 256"
  shows "\<exists>fn. flat_node nodes n queue (length queue - 1) = Some (fn, queue', length queue' - 1) \<and>
    entry_ok nodes queue' (fleft fn) (int l) \<and> entry_ok nodes queue' (fright fn) (int r)"
proof -
  let ?q = "queue @ queued l a"
  obtain f where f: "flat_child nodes (int l) queue (length queue - 1) = Some (f, ?q, length ?q - 1)"
      "entry_ok nodes ?q f (int l)"
    using flat_child_step [OF assms(1,5)] assms(6,7) by auto
  obtain g where g: "flat_child nodes (int r) ?q (length ?q - 1) = Some (g, ?q @ queued r b, length (?q @ queued r b) - 1)"
      "entry_ok nodes (?q @ queued r b) g (int r)"
    using flat_child_step [OF assms(2), of ?q] assms(5-7) by auto
  have "flat_node nodes n queue (length queue - 1) = Some (\<lparr>fleft = f, fright = g\<rparr>, queue', length queue' - 1)"
    unfolding flat_node_def assms(3,4) f(1) option.case prod.case g(1) using assms(6) by simp
  then show ?thesis
    using entry_ok_append [OF f(2), of "queued r b"] g(2) assms(6) by simp
qed

text \<open>The state of the loop at place \<open>q\<close> of the queue: \<open>ts\<close> are the trees of the queued nodes; the nodes laid
  out and those in the trees still waiting are together the \<open>n\<close> inner nodes of the tree.\<close>

definition layout_inv :: "TempNode list \<Rightarrow> nat \<Rightarrow> nat \<Rightarrow> int list \<Rightarrow> FlatNode list \<Rightarrow> htree list \<Rightarrow> bool" where
  "layout_inv nodes n q queue tree ts \<longleftrightarrow>
     length tree = 128 \<and> queue \<noteq> [] \<and> q \<le> length queue \<and> length ts = length queue \<and>
     (\<forall>j < length queue. 0 \<le> queue ! j \<and> rep nodes (nat (queue ! j)) (ts ! j) \<and> ts ! j \<in> range (case_prod HNode)) \<and>
     (\<forall>j < q. flat_ok nodes queue tree j) \<and>
     q + sum_list (map inner_count (drop q ts)) = n"

lemma queue_bound:
  assumes "\<forall>t \<in> set ts. t \<in> range (case_prod HNode)"
  shows "length ts \<le> sum_list (map inner_count ts)"
  using assms by (induction ts) auto

lemma layout_step:
  assumes "layout_inv nodes n q queue tree ts" and "q < length queue" and "n \<le> 128"
  shows "\<exists>tree' queue' ts'. layout_inv nodes n (q + 1) queue' tree' ts' \<and> queue' ! 0 = queue ! 0 \<and> ts' ! 0 = ts ! 0 \<and>
    flat_loop nodes q queue (length queue - 1) tree q = flat_loop nodes (q + 1) queue' (length queue' - 1) tree' (q + 1)"
proof -
  note inv = assms(1) [unfolded layout_inv_def]
  have q: "0 \<le> queue ! q" "rep nodes (nat (queue ! q)) (ts ! q)" "ts ! q \<in> range (case_prod HNode)" "q < length ts"
    using inv assms(2) by auto
  let ?i = "nat (queue ! q)"
  obtain a b where ab: "ts ! q = HNode a b" using q(3) by auto
  then obtain l r where i: "?i < length nodes" "ch (nodes ! ?i) = 0" "left_child (nodes ! ?i) = int l"
      "right_child (nodes ! ?i) = int r" "rep nodes l a" "rep nodes r b"
    using q(2) by (auto elim: rep_nodeE)
  define queue' where "queue' = queue @ queued l a @ queued r b"
  define ts' where "ts' = ts @ queued_tree a @ queued_tree b"
  have split: "drop q ts = ts ! q # drop (q + 1) ts" using q(4) by (simp add: Cons_nth_drop_Suc)
  have cnt: "q + 1 + sum_list (map inner_count (drop (q + 1) ts')) = n"
    using inv assms(2) unfolding split ab by (simp add: ts'_def)
  have reps: "\<forall>j < length queue'. 0 \<le> queue' ! j \<and> rep nodes (nat (queue' ! j)) (ts' ! j) \<and> ts' ! j \<in> range (case_prod HNode)"
    using inv i by (cases a; cases b) (auto simp: queue'_def ts'_def nth_append less_Suc_eq)
  have len': "length ts' = length queue'" using inv by (simp add: queue'_def ts'_def)
  have "length (drop (q + 1) ts') \<le> sum_list (map inner_count (drop (q + 1) ts'))"
    using reps len' by (intro queue_bound) (auto simp: in_set_conv_nth)
  with cnt len' have bound: "length queue' \<le> 128" "q < 128" using assms(2,3) by (auto simp: queue'_def)
  then obtain fn where fn: "flat_node nodes (nodes ! ?i) queue (length queue - 1) = Some (fn, queue', length queue' - 1)"
      "entry_ok nodes queue' (fleft fn) (int l)" "entry_ok nodes queue' (fright fn) (int r)"
    using flat_node_step [OF i(5,6,3,4) _ queue'_def] inv by auto
  have "flat_loop nodes q queue (length queue - 1) tree q =
      flat_loop nodes (q + 1) queue' (length queue' - 1) (tree[q := fn]) (q + 1)"
    using assms(2) i(1,2) q(1) fn(1) bound inv by (subst flat_loop.simps) (simp add: vec_at_def nat_less_iff del: One_nat_def)
  moreover have "flat_ok nodes queue' (tree[q := fn]) q"
    using fn(2,3) inv bound i assms(2) by (simp add: flat_ok_def queue'_def nth_append)
  then have "\<forall>j < q + 1. flat_ok nodes queue' (tree[q := fn]) j"
    using flat_ok_keep [of q nodes queue tree "queued l a @ queued r b" fn] inv assms(2)
    by (auto simp: queue'_def less_Suc_eq)
  ultimately show ?thesis
    using inv reps len' cnt assms(2)
    by (intro exI [of _ "tree[q := fn]"] exI [of _ queue'] exI [of _ ts'])
       (auto simp: layout_inv_def queue'_def ts'_def nth_append)
qed

lemma layout_loop:
  assumes "layout_inv nodes n q queue tree ts" and "n \<le> 128"
  shows "\<exists>tree' queue' ts'. layout_inv nodes n (length queue') queue' tree' ts' \<and> queue' ! 0 = queue ! 0 \<and> ts' ! 0 = ts ! 0 \<and>
    flat_loop nodes q queue (length queue - 1) tree q = Some (tree', length queue')"
  using assms(1)
proof (induction "n - q" arbitrary: q queue tree ts rule: less_induct)
  case less
  show ?case
  proof (cases "q < length queue")
    case True
    obtain tree' queue' ts' where s: "layout_inv nodes n (q + 1) queue' tree' ts'" "queue' ! 0 = queue ! 0" "ts' ! 0 = ts ! 0"
        "flat_loop nodes q queue (length queue - 1) tree q = flat_loop nodes (q + 1) queue' (length queue' - 1) tree' (q + 1)"
      using layout_step [OF less.prems True assms(2)] by (elim exE conjE) (rule that)
    moreover have "n - (q + 1) < n - q"
      using s(1) by (auto simp: layout_inv_def)
    ultimately show ?thesis
      using less.hyps [of "q + 1" queue' tree' ts'] by simp
  next
    case False
    then have "q = length queue" using less.prems by (simp add: layout_inv_def)
    then have "flat_loop nodes q queue (length queue - 1) tree q = Some (tree, length queue)"
      by (subst flat_loop.simps) simp
    with less.prems \<open>q = length queue\<close> show ?thesis by blast
  qed
qed

text \<open>The outcome of the layout: a flat array, with the queue that numbers its nodes.\<close>

definition flattened :: "TempNode list \<Rightarrow> int list \<Rightarrow> FlatNode list \<Rightarrow> bool" where
  "flattened nodes queue tree \<longleftrightarrow> length tree = 128 \<and> (\<forall>j < length queue. 0 \<le> queue ! j \<and> flat_ok nodes queue tree j)"

lemma flatten_tree:
  assumes "nodes \<noteq> []" and "rep nodes (length nodes - 1) t" and "2 \<le> leaf_count t" and "leaf_count t \<le> 129"
  shows "\<exists>tree queue. flatten nodes = Some (tree, leaf_count t - 1) \<and> flattened nodes queue tree \<and>
    length queue = leaf_count t - 1 \<and> queue ! 0 = int (length nodes - 1)"
proof -
  let ?root = "int (length nodes) - 1" and ?tree = "replicate 128 \<lparr>fleft = 0, fright = 0\<rparr> :: FlatNode list"
  have root: "?root = int (length nodes - 1)" using assms(1) by (cases nodes) auto
  have "t \<in> range (case_prod HNode)" using assms(3) by (cases t) auto
  then have "layout_inv nodes (inner_count t) 0 [?root] ?tree [t]"
    using assms(2) by (auto simp: layout_inv_def root)
  moreover have "inner_count t \<le> 128" using assms(4) by (simp add: inner_count_def)
  ultimately obtain tree queue ts where s: "layout_inv nodes (inner_count t) (length queue) queue tree ts"
      "queue ! 0 = ?root" "flat_loop nodes 0 [?root] 0 ?tree 0 = Some (tree, length queue)"
    using layout_loop [of nodes "inner_count t" 0 "[?root]" ?tree "[t]"] by auto
  then have "length queue = inner_count t" "flattened nodes queue tree"
    by (auto simp: layout_inv_def flattened_def)
  with s(2,3) show ?thesis
    by (auto simp: flatten_def Let_def inner_count_def root)
qed

end
