(* ===== verification/Huffman_Code.thy ===== *)
theory Huffman_Code
  imports Huffman_Build
begin

text \<open>
  The second half of \<open>CompileTimeHuffman\<close>
  (\<open>src/document/laboratory/cpp/Solution/Compress/Huffman_String.cpp\<close>): \<open>find_path\<close>, the bit packing of the
  constructor, and the run-time decoder \<open>decompressEmbeddedData\<close>.

  \<open>find_path\<close> and the loop of the decoder walk an array of indices, so they may fail to end or leave the
  array: they are partial functions, \<open>None\<close> in both cases.  \<open>None\<close> is also a shift of a 32-bit word by 32
  or more, which is undefined in the source and happens for codes longer than that.

  The main property, \<open>huffman_roundtrip\<close>, says that the constructor succeeds and the decoder returns the
  text, for every text within stated bounds; two more say what happens outside of them.
\<close>

section \<open>Operations\<close>

record BitPath =
  bp_bits :: u32
  bp_len :: nat

text \<open>\<open>static_cast<char>(-next)\<close> for a leaf entry \<open>next\<close>.\<close>

definition leaf_char :: "int \<Rightarrow> u8" where
  "leaf_char next = of_int (- next)"

definition append_bit :: "u32 \<Rightarrow> bool \<Rightarrow> u32" where
  "append_bit bits b = push_bit 1 bits OR (if b then 1 else 0)"

partial_function (option) find_path :: "FlatNode list \<Rightarrow> int \<Rightarrow> u8 \<Rightarrow> u32 \<Rightarrow> nat \<Rightarrow> BitPath option" where
  "find_path tree node_idx target current_bits depth =
     (case vec_at tree node_idx of
        None \<Rightarrow> None
      | Some node \<Rightarrow>
          Option.bind
            (if fleft node \<le> 0
             then Some (if leaf_char (fleft node) = target
                        then \<lparr>bp_bits = append_bit current_bits False, bp_len = depth + 1\<rparr>
                        else \<lparr>bp_bits = 0, bp_len = 0\<rparr>)
             else find_path tree (fleft node) target (append_bit current_bits False) (depth + 1))
            (\<lambda>path. if bp_len path > 0 then Some path
              else if fright node \<le> 0
                then Some (if leaf_char (fright node) = target
                        then \<lparr>bp_bits = append_bit current_bits True, bp_len = depth + 1\<rparr>
                        else \<lparr>bp_bits = 0, bp_len = 0\<rparr>)
              else Option.bind (find_path tree (fright node) target (append_bit current_bits True) (depth + 1))
                (\<lambda>path. if bp_len path > 0 then Some path else Some \<lparr>bp_bits = 0, bp_len = 0\<rparr>)))"

text \<open>The bit packing: the array, the byte and the bit in it that come next.\<close>

type_synonym bit_sink = "bytes \<times> nat \<times> nat"

definition put_bit :: "bool \<Rightarrow> bit_sink \<Rightarrow> bit_sink option" where
  "put_bit b = (\<lambda>(compressed_bytes, current_byte_idx, current_bit_shift).
     if b \<and> \<not> current_byte_idx < length compressed_bytes then None
     else (let arr = (if b then compressed_bytes[current_byte_idx :=
                  compressed_bytes ! current_byte_idx OR push_bit (7 - current_bit_shift) 1] else compressed_bytes);
               shift = current_bit_shift + 1
           in Some (if shift = 8 then (arr, current_byte_idx + 1, 0) else (arr, current_byte_idx, shift))))"

fun put_path :: "BitPath \<Rightarrow> nat list \<Rightarrow> bit_sink \<Rightarrow> bit_sink option" where
  "put_path path [] sink = Some sink"
| "put_path path (b # bs) sink =
     (let k = bp_len path - 1 - b in
      if k < 32
      then (case put_bit (bit (bp_bits path) k) sink of None \<Rightarrow> None | Some sink \<Rightarrow> put_path path bs sink)
      else None)"

fun pack :: "FlatNode list \<Rightarrow> bytes \<Rightarrow> bit_sink \<Rightarrow> bit_sink option" where
  "pack tree [] sink = Some sink"
| "pack tree (c # cs) sink =
     (case find_path tree 0 c 0 0 of
        None \<Rightarrow> None
      | Some path \<Rightarrow>
          (case put_path path [0..<bp_len path] sink of None \<Rightarrow> None | Some sink \<Rightarrow> pack tree cs sink))"

record CompileTimeHuffman =
  tree :: "FlatNode list"
  tree_size :: nat
  compressed_bytes :: bytes
  compressed_size :: nat
  original_length :: nat

definition bytes_capacity :: nat where
  "bytes_capacity = 65000"

definition empty_huffman :: CompileTimeHuffman where
  "empty_huffman = \<lparr>tree = replicate 128 \<lparr>fleft = 0, fright = 0\<rparr>, tree_size = 0,
     compressed_bytes = replicate bytes_capacity 0, compressed_size = 0, original_length = 0\<rparr>"

definition huffman_ctor :: "bytes \<Rightarrow> CompileTimeHuffman option" where
  "huffman_ctor input =
     (if input = [] then Some empty_huffman
      else case merge_loop (leaf_nodes (count_chars input)) of
        None \<Rightarrow> None
      | Some nodes \<Rightarrow>
          (case flatten nodes of
             None \<Rightarrow> None
           | Some (t, n) \<Rightarrow>
               (case pack t input (compressed_bytes empty_huffman, 0, 0) of
                  None \<Rightarrow> None
                | Some (arr, byte_idx, shift) \<Rightarrow>
                    Some \<lparr>tree = t, tree_size = n, compressed_bytes = arr,
                      compressed_size = byte_idx + (if shift > 0 then 1 else 0), original_length = length input\<rparr>)))"

text \<open>The decoder: \<open>BitReader::read_bit\<close> and the loop over the bits.\<close>

definition read_bit :: "bytes \<Rightarrow> nat \<times> nat \<Rightarrow> (bool \<times> nat \<times> nat) option" where
  "read_bit bytes = (\<lambda>(byte_idx, bit_idx).
     if byte_idx < length bytes
     then Some (bit (bytes ! byte_idx) (7 - bit_idx), if bit_idx + 1 = 8 then (byte_idx + 1, 0) else (byte_idx, bit_idx + 1))
     else None)"

partial_function (option) decode_loop ::
    "CompileTimeHuffman \<Rightarrow> nat \<Rightarrow> int \<Rightarrow> nat \<times> nat \<Rightarrow> bytes \<Rightarrow> bytes option" where
  "decode_loop huff characters_decompressed curr_node_idx reader result =
     (if characters_decompressed < original_length huff then
        (case read_bit (compressed_bytes huff) reader of
           None \<Rightarrow> None
         | Some (b, reader) \<Rightarrow>
             (case vec_at (tree huff) curr_node_idx of
                None \<Rightarrow> None
              | Some node \<Rightarrow>
                  (let next_step = (if b then fright node else fleft node)
                   in if next_step \<le> 0
                      then decode_loop huff (characters_decompressed + 1) 0 reader (result @ [leaf_char next_step])
                      else decode_loop huff characters_decompressed next_step reader result)))
      else Some result)"

definition decompressEmbeddedData :: "CompileTimeHuffman \<Rightarrow> bytes option" where
  "decompressEmbeddedData huff =
     (if original_length huff = 0 then Some [] else decode_loop huff 0 0 (0, 0) [])"

declare find_path.simps [code] decode_loop.simps [code]

section \<open>Paths\<close>

definition branch :: "FlatNode \<Rightarrow> bool \<Rightarrow> int" where
  "branch node b = (if b then fright node else fleft node)"

text \<open>The bits lead from an entry to a leaf with the character, and not past one.\<close>

primrec arrives :: "FlatNode list \<Rightarrow> bool list \<Rightarrow> int \<Rightarrow> u8 \<Rightarrow> bool" where
  "arrives t [] f c \<longleftrightarrow> f \<le> 0 \<and> leaf_char f = c"
| "arrives t (b # bs) f c \<longleftrightarrow> 0 < f \<and> (case vec_at t f of None \<Rightarrow> False | Some n \<Rightarrow> arrives t bs (branch n b) c)"

text \<open>What \<open>find_path\<close> does with an entry, and what it finds below it.\<close>

definition search :: "FlatNode list \<Rightarrow> int \<Rightarrow> u8 \<Rightarrow> u32 \<Rightarrow> nat \<Rightarrow> BitPath option" where
  "search t f c cur d =
     (if f \<le> 0 then Some (if leaf_char f = c then \<lparr>bp_bits = cur, bp_len = d\<rparr> else \<lparr>bp_bits = 0, bp_len = 0\<rparr>)
      else find_path t f c cur d)"

definition found :: "FlatNode list \<Rightarrow> int \<Rightarrow> htree \<Rightarrow> u8 \<Rightarrow> u32 \<Rightarrow> nat \<Rightarrow> BitPath \<Rightarrow> bool" where
  "found t f a c cur d p \<longleftrightarrow>
     (if c \<in> leaves a
      then \<exists>bs. bp_len p = d + length bs \<and> length bs \<le> tree_height a \<and> bp_bits p = foldl append_bit cur bs \<and> arrives t bs f c
      else bp_len p = 0)"

lemma find_path_search:
  assumes "vec_at t i = Some n"
  shows "find_path t i c cur d =
    Option.bind (search t (fleft n) c (append_bit cur False) (d + 1))
      (\<lambda>p. if bp_len p > 0 then Some p
        else Option.bind (search t (fright n) c (append_bit cur True) (d + 1))
          (\<lambda>p. if bp_len p > 0 then Some p else Some \<lparr>bp_bits = 0, bp_len = 0\<rparr>))"
  using assms by (subst find_path.simps) (auto simp: search_def intro!: arg_cong2 [where f = Option.bind] ext)

lemma find_path_node:
  assumes n: "vec_at t i = Some n"
    and L: "search t (fleft n) c (append_bit cur False) (d + 1) = Some p" "found t (fleft n) a c (append_bit cur False) (d + 1) p"
    and R: "search t (fright n) c (append_bit cur True) (d + 1) = Some r" "found t (fright n) b c (append_bit cur True) (d + 1) r"
  shows "\<exists>x. find_path t i c cur d = Some x \<and>
    (if c \<in> leaves (HNode a b)
     then \<exists>v bs. bp_len x = d + length (v # bs) \<and> length (v # bs) \<le> tree_height (HNode a b) \<and>
       bp_bits x = foldl append_bit cur (v # bs) \<and> arrives t bs (branch n v) c
     else bp_len x = 0)"
proof (cases "c \<in> leaves a")
  case True
  then obtain bs where bs: "bp_len p = d + 1 + length bs" "length bs \<le> tree_height a"
      "bp_bits p = foldl append_bit (append_bit cur False) bs" "arrives t bs (fleft n) c"
    using L(2) by (auto simp: found_def)
  then have "find_path t i c cur d = Some p"
    using L(1) by (simp add: find_path_search [OF n])
  moreover have "\<exists>v bs. bp_len p = d + length (v # bs) \<and> length (v # bs) \<le> tree_height (HNode a b) \<and>
       bp_bits p = foldl append_bit cur (v # bs) \<and> arrives t bs (branch n v) c"
    using bs by (intro exI [of _ False] exI [of _ bs]) (simp add: branch_def)
  ultimately show ?thesis using True by simp
next
  case False
  then have skip: "bp_len p = 0" using L(2) by (simp add: found_def)
  show ?thesis
  proof (cases "c \<in> leaves b")
    case True
    then obtain bs where bs: "bp_len r = d + 1 + length bs" "length bs \<le> tree_height b"
        "bp_bits r = foldl append_bit (append_bit cur True) bs" "arrives t bs (fright n) c"
      using R(2) by (auto simp: found_def)
    then have "find_path t i c cur d = Some r"
      using L(1) R(1) skip by (simp add: find_path_search [OF n])
    moreover have "\<exists>v bs. bp_len r = d + length (v # bs) \<and> length (v # bs) \<le> tree_height (HNode a b) \<and>
         bp_bits r = foldl append_bit cur (v # bs) \<and> arrives t bs (branch n v) c"
      using bs by (intro exI [of _ True] exI [of _ bs]) (simp add: branch_def)
    ultimately show ?thesis using True by simp
  next
    case no: False
    then have "find_path t i c cur d = Some \<lparr>bp_bits = 0, bp_len = 0\<rparr>"
      using L(1) R(1,2) skip by (simp add: find_path_search [OF n] found_def)
    with no False show ?thesis by simp
  qed
qed

lemma leaf_char_entry [simp]: "leaf_char (- uint x) = x"
  by (simp add: leaf_char_def)

lemma search_tree:
  assumes "flattened nodes queue t"
  shows "rep nodes l a \<Longrightarrow> entry_ok nodes queue f (int l) \<Longrightarrow>
    \<exists>p. search t f c cur d = Some p \<and> found t f a c cur d p"
proof (induction a arbitrary: l f cur d)
  case (HLeaf x)
  then have "f = - int (unat x)"
    by (auto simp: entry_ok_def elim: rep_leafE)
  then show ?case
    by (simp add: search_def found_def)
next
  case (HNode a b)
  from HNode.prems(1) obtain i j where node: "l < length nodes" "ch (nodes ! l) = 0" "left_child (nodes ! l) = int i"
      "right_child (nodes ! l) = int j" "rep nodes i a" "rep nodes j b"
    by (auto elim: rep_nodeE)
  with HNode.prems(2) have f: "0 < f" "f < int (length queue)" "queue ! nat f = int l"
    by (auto simp: entry_ok_def)
  then have ok: "flat_ok nodes queue t (nat f)" using assms by (simp add: flattened_def nat_less_iff)
  then have n: "vec_at t f = Some (t ! nat f)" using f by (simp add: flat_ok_def vec_at_def nat_less_iff)
  obtain p where p: "search t (fleft (t ! nat f)) c (append_bit cur False) (d + 1) = Some p"
      "found t (fleft (t ! nat f)) a c (append_bit cur False) (d + 1) p"
    using HNode.IH(1) [OF node(5)] ok f(3) node(3) by (fastforce simp: flat_ok_def)
  obtain r where r: "search t (fright (t ! nat f)) c (append_bit cur True) (d + 1) = Some r"
      "found t (fright (t ! nat f)) b c (append_bit cur True) (d + 1) r"
    using HNode.IH(2) [OF node(6)] ok f(3) node(4) by (fastforce simp: flat_ok_def)
  from find_path_node [OF n p r] obtain x where x: "find_path t f c cur d = Some x"
      "if c \<in> leaves (HNode a b)
       then \<exists>v bs. bp_len x = d + length (v # bs) \<and> length (v # bs) \<le> tree_height (HNode a b) \<and>
         bp_bits x = foldl append_bit cur (v # bs) \<and> arrives t bs (branch (t ! nat f) v) c
       else bp_len x = 0" by blast
  have "found t f (HNode a b) c cur d x"
    unfolding found_def
  proof (cases "c \<in> leaves (HNode a b)")
    case True
    then obtain v bs where "bp_len x = d + length (v # bs)" "length (v # bs) \<le> tree_height (HNode a b)"
        "bp_bits x = foldl append_bit cur (v # bs)" "arrives t bs (branch (t ! nat f) v) c"
      using x(2) by auto
    with True f n show "if c \<in> leaves (HNode a b) then \<exists>bs. bp_len x = d + length bs \<and> length bs \<le> tree_height (HNode a b) \<and>
        bp_bits x = foldl append_bit cur bs \<and> arrives t bs f c else bp_len x = 0"
      by (auto intro!: exI [of _ "v # bs"])
  qed (use x(2) in auto)
  then show ?case
    using x(1) f by (simp add: search_def)
qed

section \<open>Bits\<close>

lemma bit_append_bit: "n < 32 \<Longrightarrow> bit (append_bit w b) n = (if n = 0 then b else bit w (n - 1))"
  unfolding append_bit_def bit_or_iff bit_push_bit_iff by (cases n; cases b) (simp_all add: bit_1_iff)

lemma bit_path:
  "n < 32 \<Longrightarrow> bit (foldl append_bit w bs) n = (if n < length bs then bs ! (length bs - 1 - n) else bit w (n - length bs))"
proof (induction bs arbitrary: n rule: rev_induct)
  case (snoc b bs)
  then show ?case
    by (cases n) (auto simp: bit_append_bit nth_append)
qed simp

text \<open>Bit \<open>n\<close> of an array, first bit first; the place of the next bit as byte and bit.\<close>

definition nth_bit :: "bytes \<Rightarrow> nat \<Rightarrow> bool" where
  "nth_bit arr n = bit (arr ! (n div 8)) (7 - n mod 8)"

abbreviation bit_place :: "nat \<Rightarrow> nat \<times> nat" where
  "bit_place n \<equiv> (n div 8, n mod 8)"

lemma bit_place_Suc: "bit_place (n + 1) = (if n mod 8 + 1 = 8 then (n div 8 + 1, 0) else (n div 8, n mod 8 + 1))"
proof -
  have "(n + 1) div 8 = (if n mod 8 + 1 = 8 then n div 8 + 1 else n div 8)" "(n + 1) mod 8 = (if n mod 8 + 1 = 8 then 0 else n mod 8 + 1)"
    by presburger+
  then show ?thesis by simp
qed

lemma read_bit_place: "n < 8 * length arr \<Longrightarrow> read_bit arr (bit_place n) = Some (nth_bit arr n, bit_place (n + 1))"
  unfolding read_bit_def bit_place_Suc by (simp add: nth_bit_def less_mult_imp_div_less mult.commute)

definition sink_holds :: "bool list \<Rightarrow> bit_sink \<Rightarrow> bool" where
  "sink_holds bs = (\<lambda>(arr, place). length arr = bytes_capacity \<and> place = bit_place (length bs) \<and>
     (\<forall>n < 8 * bytes_capacity. nth_bit arr n = (n < length bs \<and> bs ! n)))"

lemma place_eq:
  assumes "(n :: nat) div 8 = k div 8"
  shows "7 - n mod 8 = 7 - k mod 8 \<longleftrightarrow> n = k"
proof -
  have "n mod 8 < 8" "k mod 8 < 8" "n = 8 * (n div 8) + n mod 8" "k = 8 * (k div 8) + k mod 8"
    by simp_all
  with assms show ?thesis by linarith
qed

lemma bit_mask_bit: "x < 8 \<Longrightarrow> y < 8 \<Longrightarrow> bit (push_bit x 1 :: u8) y = (y = x)"
  unfolding bit_push_bit_iff bit_1_iff by auto

lemma nth_bit_set:
  assumes "k < 8 * length arr"
  shows "nth_bit (arr[k div 8 := arr ! (k div 8) OR push_bit (7 - k mod 8) 1]) n = (nth_bit arr n \<or> n = k)"
proof (cases "n div 8 = k div 8")
  case True
  have "k div 8 < length arr" using assms by (simp add: less_mult_imp_div_less mult.commute)
  moreover have "bit (push_bit (7 - k mod 8) 1 :: u8) (7 - n mod 8) = (7 - n mod 8 = 7 - k mod 8)"
    by (rule bit_mask_bit) simp_all
  ultimately show ?thesis
    using True place_eq [OF True] by (simp add: nth_bit_def bit_or_iff)
qed (auto simp: nth_bit_def)

lemma put_bit_holds:
  assumes "sink_holds bs sink" and "length bs < 8 * bytes_capacity"
  shows "\<exists>sink'. put_bit b sink = Some sink' \<and> sink_holds (bs @ [b]) sink'"
proof -
  let ?n = "length bs"
  obtain arr where s: "sink = (arr, bit_place ?n)" "length arr = bytes_capacity"
      "\<forall>n < 8 * bytes_capacity. nth_bit arr n = (n < ?n \<and> bs ! n)"
    using assms(1) by (cases sink) (auto simp: sink_holds_def)
  have idx: "?n div 8 < length arr" using assms(2) s(2) by (simp add: less_mult_imp_div_less mult.commute)
  define arr' where "arr' = (if b then arr[?n div 8 := arr ! (?n div 8) OR push_bit (7 - ?n mod 8) 1] else arr)"
  have "put_bit b sink = Some (arr', bit_place (?n + 1))"
    unfolding bit_place_Suc using idx by (simp add: put_bit_def s(1) arr'_def Let_def)
  moreover have "nth_bit arr' n = (n < ?n + 1 \<and> (bs @ [b]) ! n)" if "n < 8 * bytes_capacity" for n
    using s(2,3) that assms(2) nth_bit_set [of ?n arr n] by (auto simp: arr'_def nth_append less_Suc_eq)
  ultimately show ?thesis
    using s(2) by (auto simp: sink_holds_def arr'_def)
qed

lemma put_path_holds:
  assumes "sink_holds bs sink" and "length bs + length ks \<le> 8 * bytes_capacity" and "\<forall>k \<in> set ks. bp_len p - 1 - k < 32"
  shows "\<exists>sink'. put_path p ks sink = Some sink' \<and> sink_holds (bs @ map (\<lambda>k. bit (bp_bits p) (bp_len p - 1 - k)) ks) sink'"
  using assms
proof (induction ks arbitrary: bs sink)
  case (Cons k ks)
  let ?b = "bit (bp_bits p) (bp_len p - 1 - k)"
  have "length bs < 8 * bytes_capacity" using Cons.prems(2) by simp
  from put_bit_holds [OF Cons.prems(1) this] obtain sink' where s: "put_bit ?b sink = Some sink'" "sink_holds (bs @ [?b]) sink'"
    by blast
  with Cons.prems Cons.IH [OF s(2)] show ?case by (simp add: Let_def)
qed simp

section \<open>Packing and decoding a text\<close>

text \<open>A code word of a character: bits that lead from the root to its leaf.\<close>

definition code_word :: "FlatNode list \<Rightarrow> u8 \<Rightarrow> bool list \<Rightarrow> bool" where
  "code_word t c bs \<longleftrightarrow> (\<exists>n b bs'. bs = b # bs' \<and> vec_at t 0 = Some n \<and> arrives t bs' (branch n b) c)"

definition has_code :: "FlatNode list \<Rightarrow> nat \<Rightarrow> u8 \<Rightarrow> bool" where
  "has_code t h c \<longleftrightarrow> (\<exists>p bs. find_path t 0 c 0 0 = Some p \<and> bp_len p = length bs \<and> length bs \<le> h \<and>
     bp_bits p = foldl append_bit 0 bs \<and> code_word t c bs)"

lemma tree_has_code:
  assumes "flattened nodes queue t" and "queue \<noteq> []" and "queue ! 0 = int root" and "rep nodes root (HNode a b)"
    and "c \<in> leaves (HNode a b)"
  shows "has_code t (tree_height (HNode a b)) c"
proof -
  from assms(4) obtain i j where node: "left_child (nodes ! root) = int i" "right_child (nodes ! root) = int j"
      "rep nodes i a" "rep nodes j b"
    by (auto elim: rep_nodeE)
  have ok: "flat_ok nodes queue t 0" using assms(1,2) by (simp add: flattened_def)
  then have n: "vec_at t 0 = Some (t ! 0)" by (simp add: flat_ok_def vec_at_def)
  have entries: "entry_ok nodes queue (fleft (t ! 0)) (int i)" "entry_ok nodes queue (fright (t ! 0)) (int j)"
    using ok node assms(3) by (auto simp: flat_ok_def)
  obtain p r where
    "search t (fleft (t ! 0)) c (append_bit 0 False) (0 + 1) = Some p" "found t (fleft (t ! 0)) a c (append_bit 0 False) (0 + 1) p"
    "search t (fright (t ! 0)) c (append_bit 0 True) (0 + 1) = Some r" "found t (fright (t ! 0)) b c (append_bit 0 True) (0 + 1) r"
    using search_tree [OF assms(1) node(3) entries(1)] search_tree [OF assms(1) node(4) entries(2)] by blast
  from find_path_node [OF n this] assms(5) obtain x v bs where
    "find_path t 0 c 0 0 = Some x" "bp_len x = length (v # bs)" "length (v # bs) \<le> tree_height (HNode a b)"
    "bp_bits x = foldl append_bit 0 (v # bs)" "arrives t bs (branch (t ! 0) v) c"
    by auto
  with n show ?thesis
    unfolding has_code_def code_word_def by blast
qed

lemma path_bits:
  assumes "bp_len p = length bs" and "length bs \<le> 32" and "bp_bits p = foldl append_bit 0 bs"
  shows "map (\<lambda>k. bit (bp_bits p) (bp_len p - 1 - k)) [0..<bp_len p] = bs"
proof (rule nth_equalityI)
  fix k assume "k < length (map (\<lambda>k. bit (bp_bits p) (bp_len p - 1 - k)) [0..<bp_len p])"
  then have k: "k < length bs" "length bs - 1 - k < length bs" using assms(1) by simp_all
  then show "map (\<lambda>k. bit (bp_bits p) (bp_len p - 1 - k)) [0..<bp_len p] ! k = bs ! k"
    using assms bit_path [of "length bs - 1 - k" 0 bs] by simp
qed (simp add: assms(1))

lemma pack_holds:
  assumes "\<forall>c \<in> set cs. has_code t h c" and "h \<le> 32" and "sink_holds bs sink"
    and "length bs + length cs * h \<le> 8 * bytes_capacity"
  shows "\<exists>sink' codes. pack t cs sink = Some sink' \<and> list_all2 (code_word t) cs codes \<and> sink_holds (bs @ concat codes) sink' \<and>
    length (concat codes) \<le> length cs * h"
  using assms(1,3,4)
proof (induction cs arbitrary: bs sink)
  case (Cons c cs)
  from Cons.prems(1) obtain p w where p: "find_path t 0 c 0 0 = Some p" "bp_len p = length w" "length w \<le> h"
      "bp_bits p = foldl append_bit 0 w" "code_word t c w"
    by (auto simp: has_code_def)
  have "\<exists>sink'. put_path p [0..<bp_len p] sink = Some sink' \<and>
      sink_holds (bs @ map (\<lambda>k. bit (bp_bits p) (bp_len p - 1 - k)) [0..<bp_len p]) sink'"
    using Cons.prems(2,3) p(2,3) assms(2) by (intro put_path_holds) auto
  then obtain s where s: "put_path p [0..<bp_len p] sink = Some s" "sink_holds (bs @ w) s"
    unfolding path_bits [OF p(2) order_trans [OF p(3) assms(2)] p(4)] by blast
  have "length (bs @ w) + length cs * h \<le> 8 * bytes_capacity"
    using Cons.prems(3) p(3) by simp
  then obtain sink' codes where "pack t cs s = Some sink'" "list_all2 (code_word t) cs codes"
      "sink_holds ((bs @ w) @ concat codes) sink'" "length (concat codes) \<le> length cs * h"
    using Cons.IH [OF _ s(2)] Cons.prems(1) by auto
  with p s(1) show ?case
    by (intro exI [of _ sink'] exI [of _ "w # codes"]) simp
qed (auto intro!: exI [of _ "[]"])

lemma decode_step:
  assumes "k < original_length h" and "n < 8 * length (compressed_bytes h)" and "vec_at (tree h) i = Some nd"
  shows "decode_loop h k i (bit_place n) res =
    (let f = branch nd (nth_bit (compressed_bytes h) n) in
     if f \<le> 0 then decode_loop h (k + 1) 0 (bit_place (n + 1)) (res @ [leaf_char f])
     else decode_loop h k f (bit_place (n + 1)) res)"
  using assms read_bit_place [OF assms(2)] by (subst decode_loop.simps) (simp add: branch_def Let_def)

lemma decode_word:
  assumes "k < original_length h"
  shows "vec_at (tree h) i = Some nd \<Longrightarrow> arrives (tree h) bs (branch nd b) c \<Longrightarrow>
    n + length (b # bs) \<le> 8 * length (compressed_bytes h) \<Longrightarrow>
    (\<forall>j < length (b # bs). nth_bit (compressed_bytes h) (n + j) = (b # bs) ! j) \<Longrightarrow>
    decode_loop h k i (bit_place n) res = decode_loop h (k + 1) 0 (bit_place (n + length (b # bs))) (res @ [c])"
proof (induction bs arbitrary: i nd b n)
  case Nil
  then show ?case
    using decode_step [OF assms _ Nil(1), of n res] by (simp add: Let_def)
next
  case (Cons b' bs)
  let ?f = "branch nd b"
  from Cons.prems(2) obtain nd' where f: "0 < ?f" "vec_at (tree h) ?f = Some nd'" "arrives (tree h) bs (branch nd' b') c"
    by (auto split: option.splits)
  have first: "nth_bit (compressed_bytes h) n = b" and "\<forall>j < length (b' # bs). nth_bit (compressed_bytes h) (n + 1 + j) = (b' # bs) ! j"
    using Cons.prems(4) [rule_format, of 0] Cons.prems(4) [rule_format, of "Suc _"] by auto
  with Cons.IH [OF f(2,3), of "n + 1"] Cons.prems(3)
  have "decode_loop h k ?f (bit_place (n + 1)) res = decode_loop h (k + 1) 0 (bit_place (n + length (b # b' # bs))) (res @ [c])"
    by simp
  with f(1) first show ?case
    using decode_step [OF assms _ Cons.prems(1), of n res] Cons.prems(3) by (simp add: Let_def)
qed

lemma decode_text:
  assumes "list_all2 (code_word (tree h)) cs codes" and "k + length cs = original_length h"
    and "n + length (concat codes) \<le> 8 * length (compressed_bytes h)"
    and "\<forall>j < length (concat codes). nth_bit (compressed_bytes h) (n + j) = concat codes ! j"
  shows "decode_loop h k 0 (bit_place n) res = Some (res @ cs)"
  using assms
proof (induction cs codes arbitrary: k n res rule: list_all2_induct)
  case Nil
  then show ?case by (subst decode_loop.simps) simp
next
  case (Cons c cs w codes)
  from Cons.hyps(1) obtain nd b bs where w: "w = b # bs" "vec_at (tree h) 0 = Some nd" "arrives (tree h) bs (branch nd b) c"
    by (auto simp: code_word_def)
  have bits: "\<forall>j < length w. nth_bit (compressed_bytes h) (n + j) = w ! j"
      "\<forall>j < length (concat codes). nth_bit (compressed_bytes h) (n + length w + j) = concat codes ! j"
    using Cons.prems(3) [rule_format, of "length w + _"] Cons.prems(3) by (auto simp: nth_append add.assoc)
  have "decode_loop h k 0 (bit_place n) res = decode_loop h (k + 1) 0 (bit_place (n + length w)) (res @ [c])"
    unfolding w(1) by (rule decode_word) (use Cons.prems(1,2) bits(1) w in auto)
  also have "\<dots> = Some ((res @ [c]) @ cs)"
    using Cons.prems(1,2) bits(2) by (intro Cons.IH) simp_all
  finally show ?case by simp
qed

section \<open>Properties\<close>

lemma empty_sink: "sink_holds [] (compressed_bytes empty_huffman, 0, 0)"
  by (simp add: sink_holds_def empty_huffman_def nth_bit_def less_mult_imp_div_less mult.commute)

lemma huffman_tree:
  assumes "0 \<notin> set input" and "2 \<le> card (set input)" and "card (set input) \<le> 128"
  shows "\<exists>nodes t. merge_loop (leaf_nodes (count_chars input)) = Some nodes \<and>
    flatten nodes = Some (t, card (set input) - 1) \<and> (\<forall>c \<in> set input. has_code t (card (set input) - 1) c)"
proof -
  have "input \<noteq> []" using assms(2) by auto
  from merge_loop_tree [OF leaf_nodes_forest [OF this assms(1)] assms(3)]
  obtain nodes a where nodes: "merge_loop (leaf_nodes (count_chars input)) = Some nodes" "nodes \<noteq> []"
      "rep nodes (length nodes - 1) a" "leaf_count a = card (set input)" "leaves a = set input"
    by auto
  from flatten_tree [OF nodes(2,3)] nodes(4) assms(2,3)
  obtain t queue where flat: "flatten nodes = Some (t, card (set input) - 1)" "flattened nodes queue t"
      "length queue = card (set input) - 1" "queue ! 0 = int (length nodes - 1)"
    by auto
  obtain l r where a: "a = HNode l r" using nodes(4) assms(2) by (cases a) auto
  have "has_code t (card (set input) - 1) c" if "c \<in> set input" for c
  proof -
    have "has_code t (tree_height a) c"
      unfolding a using flat nodes(3,5) assms(2) that by (intro tree_has_code) (auto simp: a)
    moreover have "tree_height a \<le> card (set input) - 1" using tree_height_less [of a] nodes(4) by simp
    ultimately show ?thesis by (auto simp: has_code_def intro: order_trans)
  qed
  with nodes(1) flat(1) show ?thesis by blast
qed

lemma byte_count: "(n :: nat) \<le> 8 * 65000 \<Longrightarrow> n div 8 + (if 0 < n mod 8 then 1 else 0) \<le> 65000"
  by presburger

text \<open>C13: Compression and decompression of texts.  Every text without \<open>NUL\<close> over 2 to 33 different characters
  whose code fits in the 65000 bytes of the object (a code word has fewer bits than there are
  characters) is compressed, and the decoder returns it.  33 characters keep every code word within the
  32 bits of a \<open>BitPath\<close>.\<close>

theorem huffman_roundtrip:
  assumes "0 \<notin> set input" and "2 \<le> card (set input)" and "card (set input) \<le> 33"
    and "length input * (card (set input) - 1) \<le> 8 * 65000"
  shows "\<exists>h. huffman_ctor input = Some h \<and> decompressEmbeddedData h = Some input \<and>
    tree_size h = card (set input) - 1 \<and> compressed_size h \<le> 65000"
proof -
  have ne: "input \<noteq> []" using assms(2) by auto
  obtain nodes t where tree: "merge_loop (leaf_nodes (count_chars input)) = Some nodes"
      "flatten nodes = Some (t, card (set input) - 1)" "\<forall>c \<in> set input. has_code t (card (set input) - 1) c"
    using huffman_tree [OF assms(1,2)] assms(3) by auto
  have "card (set input) - 1 \<le> 32" using assms(3) by simp
  from pack_holds [OF tree(3) this empty_sink] assms(4)
  obtain arr place codes where pack: "pack t input (compressed_bytes empty_huffman, 0, 0) = Some (arr, place)"
      "list_all2 (code_word t) input codes" "sink_holds (concat codes) (arr, place)"
      "length (concat codes) \<le> length input * (card (set input) - 1)"
    by (auto simp: bytes_capacity_def)
  obtain byte_idx shift where place: "place = (byte_idx, shift)" by (cases place)
  define h where "h = \<lparr>tree = t, tree_size = card (set input) - 1, compressed_bytes = arr,
      compressed_size = byte_idx + (if shift > 0 then 1 else 0), original_length = length input\<rparr>"
  have ctor: "huffman_ctor input = Some h"
    using ne tree(1,2) pack(1) by (simp add: huffman_ctor_def h_def place)
  have held: "length arr = 65000" "byte_idx = length (concat codes) div 8" "shift = length (concat codes) mod 8"
      "\<forall>j < 8 * 65000. nth_bit arr j = (j < length (concat codes) \<and> concat codes ! j)"
    using pack(3) by (auto simp: sink_holds_def place bytes_capacity_def)
  have total: "length (concat codes) \<le> 8 * 65000" using pack(4) assms(4) by linarith
  have "decode_loop h 0 0 (bit_place 0) [] = Some ([] @ input)"
    using pack(2) held total by (intro decode_text) (auto simp: h_def)
  then have "decompressEmbeddedData h = Some input"
    using ne by (simp add: decompressEmbeddedData_def h_def)
  moreover have "compressed_size h \<le> 65000"
    using total held(2,3) byte_count [OF total] by (simp add: h_def)
  ultimately show ?thesis
    using ctor by (auto simp: h_def)
qed

theorem huffman_roundtrip_witness:
  "\<exists>h. huffman_ctor [97, 98, 97, 99, 97, 98, 97, 100] = Some h \<and>
     decompressEmbeddedData h = Some [97, 98, 97, 99, 97, 98, 97, 100] \<and> tree_size h = 3 \<and> compressed_size h \<le> 65000"
proof -
  have "card (set [97, 98, 97, 99, 97, 98, 97, 100 :: u8]) = 4" by code_simp
  then show ?thesis
    using huffman_roundtrip [of "[97, 98, 97, 99, 97, 98, 97, 100]"] by simp
qed

lemma single_leaf: "0 < n \<Longrightarrow> leaf_nodes (count_chars (replicate n c)) = [leaf_node (unat c) n]"
proof -
  assume n: "0 < n"
  have cnt: "count_chars (replicate n c) ! i = (if i = unat c then n else 0)" if "i < 256" for i
  proof -
    have "count_list (replicate n c) d = (if d = c then n else 0)" for d
      by (induction n) auto
    moreover have "of_nat i = c \<longleftrightarrow> i = unat c" using that by (auto simp: unat_of_nat)
    ultimately show ?thesis by (simp add: count_chars_nth [OF that])
  qed
  have "filter (\<lambda>i. 0 < count_chars (replicate n c) ! i) [0..<256] = filter (\<lambda>i. i = unat c) [0..<256]"
    using cnt n by (intro filter_cong) auto
  also have "filter (\<lambda>i. i = k) [0..<m] = (if k < m then [k] else [])" for k m :: nat
    by (induction m) auto
  then have "filter (\<lambda>i. i = unat c) [0..<256] = [unat c]" using unat_u8_less [of c] by simp
  finally show ?thesis
    unfolding leaf_nodes_def using cnt [OF unat_u8_less, of c] by simp
qed

lemma zero_decode:
  assumes "tree h = replicate 128 \<lparr>fleft = 0, fright = 0\<rparr>" and "compressed_bytes h = replicate bytes_capacity 0"
    and "k + m = original_length h" and "original_length h \<le> 8 * 65000"
  shows "decode_loop h k 0 (bit_place k) res = Some (res @ replicate m 0)"
  using assms(3)
proof (induction m arbitrary: k res)
  case 0
  then show ?case by (subst decode_loop.simps) simp
next
  case (Suc m)
  have "decode_loop h k 0 (bit_place k) res = decode_loop h (k + 1) 0 (bit_place (k + 1)) (res @ [0])"
    using decode_step [of k h k 0 "\<lparr>fleft = 0, fright = 0\<rparr>" res] Suc.prems assms(1,2,4)
    by (simp add: bytes_capacity_def vec_at_def branch_def leaf_char_def nth_bit_def less_mult_imp_div_less mult.commute)
  with Suc.IH [of "k + 1" "res @ [0]"] Suc.prems show ?case by simp
qed

text \<open>A text of one repeated character is compressed to nothing: there is no inner node, no path and no
  bit, and the decoder returns as many \<open>NUL\<close> characters.\<close>

theorem single_symbol_lost:
  assumes "c \<noteq> 0" and "0 < n" and "n \<le> 8 * 65000"
  shows "\<exists>h. huffman_ctor (replicate n c) = Some h \<and> compressed_size h = 0 \<and>
    decompressEmbeddedData h = Some (replicate n 0)"
proof -
  let ?t = "replicate 128 \<lparr>fleft = 0, fright = 0\<rparr> :: FlatNode list"
  have nodes: "leaf_nodes (count_chars (replicate n c)) = [leaf_node (unat c) n]"
    by (rule single_leaf [OF assms(2)])
  have merge: "merge_loop [leaf_node (unat c) n] = Some [leaf_node (unat c) n]"
    by (subst merge_loop.simps) (simp add: leaf_node_def)
  have flat: "flatten [leaf_node (unat c) n] = Some (?t, 0)"
    using assms(1) unfolding flatten_def Let_def
    by (subst flat_loop.simps, simp add: vec_at_def leaf_node_def) (subst flat_loop.simps, simp)
  have path: "find_path ?t 0 c 0 0 = Some \<lparr>bp_bits = 0, bp_len = 0\<rparr>"
    using assms(1) by (subst find_path.simps) (simp add: vec_at_def leaf_char_def)
  have pack: "pack ?t (replicate m c) sink = Some sink" for m sink
    by (induction m) (simp_all add: path)
  define h where "h = \<lparr>tree = ?t, tree_size = 0, compressed_bytes = replicate bytes_capacity 0,
      compressed_size = 0, original_length = n\<rparr>"
  have "huffman_ctor (replicate n c) = Some h"
    using assms(2) nodes merge flat by (simp add: huffman_ctor_def pack empty_huffman_def h_def)
  moreover have "decode_loop h 0 0 (bit_place 0) [] = Some ([] @ replicate n 0)"
    using assms(3) by (intro zero_decode) (simp_all add: h_def)
  ultimately show ?thesis
    using assms(2) by (auto simp: decompressEmbeddedData_def h_def)
qed

theorem single_symbol_lost_witness:
  "\<exists>h. huffman_ctor [97, 97, 97] = Some h \<and> decompressEmbeddedData h = Some [0, 0, 0]"
  using single_symbol_lost [of 97 3] by (auto simp: numeral_3_eq_3)

text \<open>A \<open>NUL\<close> in the text is taken for an inner node without children.\<close>

lemma nul_character_rejected: "huffman_ctor [0, 97] = None"
  by code_simp

end
