(* ===== verification/Rle.thy ===== *)
theory Rle
  imports Prelude
begin

text \<open>
  The run-length compressor \<open>compressStbImageRuntime\<close> of
  \<open>src/document/laboratory/cpp/Solution/Compress/RLE.cpp\<close>.  Its three nested loops read the flat pixel array
  by computed offsets; a read past the end is \<open>None\<close>.  The image sizes come from \<open>stb_image\<close> as
  non-negative \<open>int\<close>s, so that the products stay within \<open>size_t\<close> and are natural numbers.  The
  repository has no decoder: \<open>expand\<close> says what a payload means.

  The loops are shown equal to a reference definition on the list of pixels, \<open>groups\<close>, and the payload
  to mean the image.
\<close>

section \<open>Operations\<close>

record RuntimeCompressedAsset =
  packedPayload :: bytes
  width :: nat
  height :: nat
  channels :: nat

definition raw_at :: "bytes \<Rightarrow> nat \<Rightarrow> u8 option" where
  "raw_at rawPixels k = (if k < length rawPixels then Some (rawPixels ! k) else None)"

text \<open>The comparison over the channels still to come, with its early exit.\<close>

fun colors_match :: "bytes \<Rightarrow> nat \<Rightarrow> nat \<Rightarrow> nat list \<Rightarrow> bool option" where
  "colors_match raw currentPixelOffset nextPixelOffset [] = Some True"
| "colors_match raw currentPixelOffset nextPixelOffset (c # cs) =
     (case (raw_at raw (currentPixelOffset + c), raw_at raw (nextPixelOffset + c)) of
        (Some a, Some b) \<Rightarrow> if a \<noteq> b then Some False else colors_match raw currentPixelOffset nextPixelOffset cs
      | _ \<Rightarrow> None)"

function run_loop :: "bytes \<Rightarrow> nat \<Rightarrow> nat \<Rightarrow> nat \<Rightarrow> nat \<Rightarrow> nat option" where
  "run_loop raw totalPixels ch i runLength =
     (if i + runLength < totalPixels \<and> runLength < 255
      then (case colors_match raw (i * ch) ((i + runLength) * ch) [0..<ch] of
          None \<Rightarrow> None
        | Some True \<Rightarrow> run_loop raw totalPixels ch i (runLength + 1)
        | Some False \<Rightarrow> Some runLength)
      else Some runLength)"
  by auto
termination
  by (relation "measure (\<lambda>(_, _, _, _, n). 255 - n)") auto

declare run_loop.simps [simp del]

fun push_channels :: "bytes \<Rightarrow> nat \<Rightarrow> nat list \<Rightarrow> bytes \<Rightarrow> bytes option" where
  "push_channels raw offset [] payload = Some payload"
| "push_channels raw offset (c # cs) payload =
     (case raw_at raw (offset + c) of None \<Rightarrow> None | Some b \<Rightarrow> push_channels raw offset cs (payload @ [b]))"

lemma run_loop_ge: "run_loop raw totalPixels ch i n = Some m \<Longrightarrow> n \<le> m"
proof (induction raw totalPixels ch i n rule: run_loop.induct)
  case (1 raw totalPixels ch i n)
  from "1.prems" show ?case
    using "1.IH" by (subst (asm) run_loop.simps) (auto split: if_splits option.splits bool.splits intro: Suc_leD)
qed

function rle_loop :: "bytes \<Rightarrow> nat \<Rightarrow> nat \<Rightarrow> nat \<Rightarrow> bytes \<Rightarrow> bytes option" where
  "rle_loop raw totalPixels ch i payload =
     (if i < totalPixels
      then (case run_loop raw totalPixels ch i 1 of
          None \<Rightarrow> None
        | Some runLength \<Rightarrow>
            (case push_channels raw (i * ch) [0..<ch] (payload @ [of_nat runLength]) of
               None \<Rightarrow> None
             | Some payload \<Rightarrow> rle_loop raw totalPixels ch (i + runLength) payload))
      else Some payload)"
  by auto
termination
  by (relation "measure (\<lambda>(_, n, _, i, _). n - i)") (auto dest!: run_loop_ge)

declare rle_loop.simps [simp del]

text \<open>The pixel pointer may be null.\<close>

definition compressStbImageRuntime :: "bytes option \<Rightarrow> nat \<Rightarrow> nat \<Rightarrow> nat \<Rightarrow> RuntimeCompressedAsset option" where
  "compressStbImageRuntime rawPixels w h ch =
     (let asset = \<lparr>packedPayload = [], width = w, height = h, channels = ch\<rparr>; totalPixels = w * h
      in if totalPixels = 0 \<or> rawPixels = None then Some asset
         else map_option (\<lambda>p. asset\<lparr>packedPayload := p\<rparr>) (rle_loop (the rawPixels) totalPixels ch 0 []))"

section \<open>Reference definition\<close>

text \<open>Runs of at most 255 equal elements, and the bytes they are stored as.\<close>

function groups :: "'a list \<Rightarrow> (nat \<times> 'a) list" where
  "groups [] = []"
| "groups (x # xs) =
     (let n = length (takeWhile (\<lambda>y. y = x) (take 254 xs)) in (n + 1, x) # groups (drop n xs))"
  by pat_completeness auto
termination
  by (relation "measure length") auto

definition stored :: "(nat \<times> bytes) list \<Rightarrow> bytes" where
  "stored gs = concat (map (\<lambda>(n, px). of_nat n # px) gs)"

text \<open>What a payload means: count byte, pixel, count byte, pixel, and so on.\<close>

function expand :: "nat \<Rightarrow> bytes \<Rightarrow> bytes list" where
  "expand ch [] = []"
| "expand ch (n # bs) = replicate (unat n) (take ch bs) @ expand ch (drop ch bs)"
  by pat_completeness auto
termination
  by (relation "measure (\<lambda>(_, bs). length bs)") auto

definition pixel :: "bytes \<Rightarrow> nat \<Rightarrow> nat \<Rightarrow> bytes" where
  "pixel raw ch i = take ch (drop (i * ch) raw)"

definition pixels :: "bytes \<Rightarrow> nat \<Rightarrow> nat \<Rightarrow> bytes list" where
  "pixels raw ch n = map (pixel raw ch) [0..<n]"

section \<open>Lemmas\<close>

lemma colors_match_all:
  assumes "\<forall>c \<in> set cs. a + c < length raw \<and> b + c < length raw"
  shows "colors_match raw a b cs = Some (\<forall>c \<in> set cs. raw ! (a + c) = raw ! (b + c))"
  using assms by (induction cs) (auto simp: raw_at_def)

lemma pixel_bound: "i < n \<Longrightarrow> c < ch \<Longrightarrow> i * ch + c < (n :: nat) * ch"
  by (metis add_strict_left_mono le_add1 mult_Suc mult_le_mono1 add.commute order_less_le_trans Suc_leI)

lemma length_pixel: "length raw = n * ch \<Longrightarrow> i < n \<Longrightarrow> length (pixel raw ch i) = ch"
  using mult_le_mono1 [of "Suc i" n ch] by (auto simp: pixel_def min_def)

lemma nth_pixel: "length raw = n * ch \<Longrightarrow> i < n \<Longrightarrow> c < ch \<Longrightarrow> pixel raw ch i ! c = raw ! (i * ch + c)"
  using pixel_bound [of i n c ch] by (simp add: pixel_def)

lemma colors_match_pixel:
  assumes "length raw = n * ch" and "i < n" and "j < n"
  shows "colors_match raw (i * ch) (j * ch) [0..<ch] = Some (pixel raw ch j = pixel raw ch i)"
proof -
  have "colors_match raw (i * ch) (j * ch) [0..<ch] = Some (\<forall>c \<in> set [0..<ch]. raw ! (i * ch + c) = raw ! (j * ch + c))"
    using assms pixel_bound by (intro colors_match_all) auto
  also have "(\<forall>c \<in> set [0..<ch]. raw ! (i * ch + c) = raw ! (j * ch + c)) \<longleftrightarrow> pixel raw ch j = pixel raw ch i"
    using length_pixel [OF assms(1,2)] length_pixel [OF assms(1,3)] nth_pixel [OF assms(1,2)] nth_pixel [OF assms(1,3)]
    by (auto simp: list_eq_iff_nth_eq)
  finally show ?thesis .
qed

lemma run_loop_takeWhile:
  assumes "length raw = n * ch" and "i < n" and "k \<le> 255"
  shows "run_loop raw n ch i k =
    Some (k + length (takeWhile (\<lambda>px. px = pixel raw ch i) (take (255 - k) (map (pixel raw ch) [i + k..<n]))))"
  using assms(3)
proof (induction "255 - k" arbitrary: k)
  case 0
  then show ?case by (subst run_loop.simps) simp
next
  case (Suc m)
  show ?case
  proof (cases "i + k < n")
    case True
    then have "[i + k..<n] = (i + k) # [i + (k + 1)..<n]" by (simp add: upt_conv_Cons)
    moreover have "255 - k = Suc m" "m = 255 - (k + 1)" "k < 255" using Suc.hyps(2) by simp_all
    moreover have "run_loop raw n ch i (k + 1) =
        Some (k + 1 + length (takeWhile (\<lambda>px. px = pixel raw ch i) (take m (map (pixel raw ch) [i + (k + 1)..<n]))))"
      using Suc.hyps(1) [of "k + 1"] calculation by simp
    ultimately show ?thesis
      using True colors_match_pixel [OF assms(1,2) True] by (subst run_loop.simps) simp
  qed (subst run_loop.simps, simp)
qed

lemma push_channels_append:
  "\<forall>c \<in> set cs. offset + c < length raw \<Longrightarrow> push_channels raw offset cs p = Some (p @ map (\<lambda>c. raw ! (offset + c)) cs)"
  by (induction cs arbitrary: p) (auto simp: raw_at_def)

lemma push_pixel:
  assumes "length raw = n * ch" and "i < n"
  shows "push_channels raw (i * ch) [0..<ch] p = Some (p @ pixel raw ch i)"
proof -
  have "map (\<lambda>c. raw ! (i * ch + c)) [0..<ch] = pixel raw ch i"
    using length_pixel [OF assms] nth_pixel [OF assms] by (auto simp: list_eq_iff_nth_eq)
  then show ?thesis
    using push_channels_append [of "[0..<ch]" "i * ch" raw p] assms pixel_bound by simp
qed

lemma rle_loop_groups:
  assumes "length raw = n * ch" and "i \<le> n"
  shows "rle_loop raw n ch i p = Some (p @ stored (groups (map (pixel raw ch) [i..<n])))"
  using assms(2)
proof (induction "n - i" arbitrary: i p rule: less_induct)
  case less
  show ?case
  proof (cases "i < n")
    case True
    define m where "m = length (takeWhile (\<lambda>px. px = pixel raw ch i) (take 254 (map (pixel raw ch) [i + 1..<n])))"
    have run: "run_loop raw n ch i 1 = Some (m + 1)"
      using run_loop_takeWhile [OF assms(1) True, of 1] by (simp add: m_def)
    have "m \<le> length (take 254 (map (pixel raw ch) [i + 1..<n]))"
      unfolding m_def by (rule length_takeWhile_le)
    then have "m \<le> n - (i + 1)" by simp
    with True have m: "i + (m + 1) \<le> n" by linarith
    have split: "groups (map (pixel raw ch) [i..<n]) =
        (m + 1, pixel raw ch i) # groups (map (pixel raw ch) [i + (m + 1)..<n])"
      using True by (simp add: upt_conv_Cons m_def drop_map Let_def add.commute)
    have "rle_loop raw n ch i p = rle_loop raw n ch (i + (m + 1)) (p @ [of_nat (m + 1)] @ pixel raw ch i)"
      using True run push_pixel [OF assms(1) True] by (subst rle_loop.simps) simp
    also have "\<dots> = Some ((p @ [of_nat (m + 1)] @ pixel raw ch i) @ stored (groups (map (pixel raw ch) [i + (m + 1)..<n])))"
      using True m by (intro less.hyps) auto
    finally show ?thesis
      by (simp add: split stored_def)
  next
    case False
    with less.prems show ?thesis
      by (subst rle_loop.simps) (simp add: stored_def)
  qed
qed

text \<open>The reference definition: runs cover the list, have 1 to 255 elements, and their bytes mean the list.\<close>

lemma takeWhile_replicate: "takeWhile (\<lambda>y. y = x) xs = replicate (length (takeWhile (\<lambda>y. y = x) xs)) x"
  by (induction xs) auto

lemma groups_cover: "concat (map (\<lambda>(n, x). replicate n x) (groups xs)) = xs"
proof (induction xs rule: groups.induct)
  case (2 x xs)
  let ?n = "length (takeWhile (\<lambda>y. y = x) (take 254 xs))"
  have "replicate ?n x @ drop ?n xs = xs"
    using takeWhile_eq_take [of "\<lambda>y. y = x" "take 254 xs"] takeWhile_replicate [of x "take 254 xs"]
      length_takeWhile_le [of "\<lambda>y. y = x" "take 254 xs"]
    by (metis append_take_drop_id min.absorb_iff2 min.bounded_iff length_take min.commute take_take)
  with 2 show ?case by (simp add: Let_def)
qed simp

lemma groups_bounds: "(n, x) \<in> set (groups xs) \<Longrightarrow> 0 < n \<and> n \<le> 255 \<and> x \<in> set xs"
proof (induction xs rule: groups.induct)
  case (2 y xs)
  have "length (takeWhile (\<lambda>z. z = y) (take 254 xs)) \<le> 254"
    by (metis length_takeWhile_le length_take min.bounded_iff)
  with 2 show ?case by (auto simp: Let_def dest: in_set_dropD)
qed simp

lemma length_groups: "length (groups xs) \<le> length xs"
  by (induction xs rule: groups.induct) (auto simp: Let_def)

lemma expand_stored:
  assumes "\<forall>(n, px) \<in> set gs. n < 256 \<and> length px = ch"
  shows "expand ch (stored gs) = concat (map (\<lambda>(n, px). replicate n px) gs)"
  using assms by (induction gs) (auto simp: stored_def unat_of_nat)

lemma length_stored: "\<forall>(n, px) \<in> set gs. length px = ch \<Longrightarrow> length (stored gs) = length gs * (ch + 1)"
  by (induction gs) (auto simp: stored_def)

lemma concat_pixels: "length raw = n * ch \<Longrightarrow> concat (pixels raw ch n) = raw"
proof (induction n arbitrary: raw)
  case (Suc n)
  have "pixels raw ch (Suc n) = take ch raw # pixels (drop ch raw) ch n"
    by (simp add: pixels_def pixel_def upt_conv_Cons map_Suc_upt [symmetric] add.commute del: upt_Suc)
  with Suc show ?case by simp
qed (simp add: pixels_def)

section \<open>Properties\<close>

text \<open>C14: The compressor agrees with the reference definition: for every image whose array has the size its
  dimensions say, it reads nothing else, its payload is the runs of at most 255 equal pixels in order,
  that payload means the pixels of the image, and it is at most one byte per pixel longer than the
  image.\<close>

theorem rle_reference:
  assumes "length raw = w * h * ch"
  shows "\<exists>a. compressStbImageRuntime (Some raw) w h ch = Some a \<and>
    packedPayload a = stored (groups (pixels raw ch (w * h))) \<and>
    concat (expand ch (packedPayload a)) = raw \<and> length (packedPayload a) \<le> length raw + w * h"
proof -
  let ?px = "pixels raw ch (w * h)"
  let ?a = "\<lparr>packedPayload = stored (groups ?px), width = w, height = h, channels = ch\<rparr>"
  have ctor: "compressStbImageRuntime (Some raw) w h ch = Some ?a"
    using rle_loop_groups [OF assms, of 0 "[]"]
    by (auto simp: compressStbImageRuntime_def Let_def pixels_def stored_def)
  have gs: "\<forall>(n, px) \<in> set (groups ?px). n < 256 \<and> length px = ch"
  proof (clarify)
    fix n px assume "(n, px) \<in> set (groups ?px)"
    then have "0 < n \<and> n \<le> 255" "px \<in> set ?px" using groups_bounds by metis+
    then show "n < 256 \<and> length px = ch" using length_pixel [OF assms] by (auto simp: pixels_def)
  qed
  have "concat (expand ch (stored (groups ?px))) = raw"
    unfolding expand_stored [OF gs] groups_cover by (rule concat_pixels [OF assms])
  moreover have "length (stored (groups ?px)) \<le> length raw + w * h"
  proof -
    have "\<forall>(n, px) \<in> set (groups ?px). length px = ch" using gs by auto
    then have "length (stored (groups ?px)) \<le> w * h * (ch + 1)"
      using mult_le_mono1 [OF length_groups, of ?px "ch + 1"] by (simp add: length_stored pixels_def)
    then show ?thesis using assms by simp
  qed
  ultimately show ?thesis using ctor by (intro exI [of _ ?a]) simp
qed

theorem rle_reference_witness:
  "\<exists>a. compressStbImageRuntime (Some [1, 2, 3, 1, 2, 3, 7, 8, 9]) 3 1 3 = Some a \<and>
     packedPayload a = [2, 1, 2, 3, 1, 7, 8, 9]"
proof -
  have "stored (groups (pixels [1, 2, 3, 1, 2, 3, 7, 8, 9] 3 (3 * 1))) = [2, 1, 2, 3, 1, 7, 8, 9]"
    by code_simp
  then show ?thesis
    using rle_reference [of "[1, 2, 3, 1, 2, 3, 7, 8, 9]" 3 1 3] by auto
qed

end
