(* ===== verification/Ct_Math.thy ===== *)
theory Ct_Math
  imports Prelude Complex_Main
begin

text \<open>
  The exact part of \<open>src/document/laboratory/cpp/Math/Utilities/compile_time_math.h\<close>: the class \<open>Fraction\<close>
  over \<open>long long\<close>, and \<open>Identities\<close> for unsigned integer types.  The rest of that file
  computes with floating-point numbers; it is in \<open>Ct_Real\<close>.

  Overflow of \<open>long long\<close> is undefined behaviour (a compile error in a constant expression): every
  intermediate result goes through \<open>ll\<close>, which is \<open>None\<close> outside the 64 bits.  Unsigned arithmetic
  wraps, so there the identities are those of the ring of words.
\<close>

section \<open>Fractions\<close>

definition ll :: "int \<Rightarrow> int option" where
  "ll x = (if - (2 ^ 63) \<le> x \<and> x < 2 ^ 63 then Some x else None)"

record Fraction =
  num :: int
  den :: int

definition fraction_default :: Fraction where
  "fraction_default = \<lparr>num = 0, den = 1\<rparr>"

text \<open>\<open>std::gcd\<close> needs the absolute values to be representable.\<close>

definition std_gcd :: "int \<Rightarrow> int \<Rightarrow> int option" where
  "std_gcd m n = (case (ll \<bar>m\<bar>, ll \<bar>n\<bar>) of (Some _, Some _) \<Rightarrow> Some (gcd m n) | _ \<Rightarrow> None)"

text \<open>The divisor is positive and divides both, so the truncating division of C++ is exact.\<close>

definition fraction_ctor :: "int \<Rightarrow> int \<Rightarrow> Fraction option" where
  "fraction_ctor n d =
     (if d = 0 then Some \<lparr>num = 0, den = 1\<rparr>
      else case std_gcd n d of
        None \<Rightarrow> None
      | Some common_devisor \<Rightarrow>
          (let n = n div common_devisor; d = d div common_devisor
           in if d < 0 then Some \<lparr>num = - n, den = - d\<rparr> else Some \<lparr>num = n, den = d\<rparr>))"

definition fraction_add :: "Fraction \<Rightarrow> Fraction \<Rightarrow> Fraction option" where
  "fraction_add this other =
     (case (ll (num this * den other), ll (num other * den this), ll (den this * den other)) of
        (Some x, Some y, Some d) \<Rightarrow> (case ll (x + y) of Some n \<Rightarrow> fraction_ctor n d | None \<Rightarrow> None)
      | _ \<Rightarrow> None)"

definition fraction_substract :: "Fraction \<Rightarrow> Fraction \<Rightarrow> Fraction option" where
  "fraction_substract this other =
     (case (ll (num this * den other), ll (num other * den this), ll (den this * den other)) of
        (Some x, Some y, Some d) \<Rightarrow> (case ll (x - y) of Some n \<Rightarrow> fraction_ctor n d | None \<Rightarrow> None)
      | _ \<Rightarrow> None)"

definition fraction_multiply :: "Fraction \<Rightarrow> Fraction \<Rightarrow> Fraction option" where
  "fraction_multiply this other =
     (case (ll (num this * num other), ll (den this * den other)) of
        (Some n, Some d) \<Rightarrow> fraction_ctor n d
      | _ \<Rightarrow> None)"

definition fraction_devide :: "Fraction \<Rightarrow> Fraction \<Rightarrow> Fraction option" where
  "fraction_devide this other =
     (case (ll (num this * den other), ll (den this * num other)) of
        (Some n, Some d) \<Rightarrow> fraction_ctor n d
      | _ \<Rightarrow> None)"

section \<open>Identities\<close>

definition square_of_sum_expanded :: "'a::len word \<Rightarrow> 'a word \<Rightarrow> 'a word" where
  "square_of_sum_expanded a b = a * a + 2 * a * b + b * b"

definition verify_square_of_sum :: "'a::len word \<Rightarrow> 'a word \<Rightarrow> bool" where
  "verify_square_of_sum a b = ((a + b) * (a + b) = square_of_sum_expanded a b)"

definition square_of_diff_expanded :: "'a::len word \<Rightarrow> 'a word \<Rightarrow> 'a word" where
  "square_of_diff_expanded a b = a * a - 2 * a * b + b * b"

definition verify_square_of_diff :: "'a::len word \<Rightarrow> 'a word \<Rightarrow> bool" where
  "verify_square_of_diff a b = ((a - b) * (a - b) = square_of_diff_expanded a b)"

definition diff_of_squares_expanded :: "'a::len word \<Rightarrow> 'a word \<Rightarrow> 'a word" where
  "diff_of_squares_expanded a b = a * a - b * b"

definition verify_diff_of_squares :: "'a::len word \<Rightarrow> 'a word \<Rightarrow> bool" where
  "verify_diff_of_squares a b = ((a - b) * (a + b) = diff_of_squares_expanded a b)"

definition cube_of_sum_expanded :: "'a::len word \<Rightarrow> 'a word \<Rightarrow> 'a word" where
  "cube_of_sum_expanded a b = a * a * a + 3 * a * a * b + 3 * a * b * b + b * b * b"

definition verify_cube_of_sum :: "'a::len word \<Rightarrow> 'a word \<Rightarrow> bool" where
  "verify_cube_of_sum a b = ((a + b) * (a + b) * (a + b) = cube_of_sum_expanded a b)"

definition cube_of_diff_expanded :: "'a::len word \<Rightarrow> 'a word \<Rightarrow> 'a word" where
  "cube_of_diff_expanded a b = a * a * a - 3 * a * a * b + 3 * a * b * b - b * b * b"

definition verify_cube_of_diff :: "'a::len word \<Rightarrow> 'a word \<Rightarrow> bool" where
  "verify_cube_of_diff a b = ((a - b) * (a - b) * (a - b) = cube_of_diff_expanded a b)"

definition sum_of_cubes_expanded :: "'a::len word \<Rightarrow> 'a word \<Rightarrow> 'a word" where
  "sum_of_cubes_expanded a b = a * a * a + b * b * b"

definition verify_sum_of_cubes :: "'a::len word \<Rightarrow> 'a word \<Rightarrow> bool" where
  "verify_sum_of_cubes a b = ((a + b) * (a * a - a * b + b * b) = sum_of_cubes_expanded a b)"

definition diff_of_cubes_expanded :: "'a::len word \<Rightarrow> 'a word \<Rightarrow> 'a word" where
  "diff_of_cubes_expanded a b = a * a * a - b * b * b"

definition verify_diff_of_cubes :: "'a::len word \<Rightarrow> 'a word \<Rightarrow> bool" where
  "verify_diff_of_cubes a b = ((a - b) * (a * a + a * b + b * b) = diff_of_cubes_expanded a b)"

lemmas identity_defs = verify_square_of_sum_def square_of_sum_expanded_def verify_square_of_diff_def
  square_of_diff_expanded_def verify_diff_of_squares_def diff_of_squares_expanded_def verify_cube_of_sum_def
  cube_of_sum_expanded_def verify_cube_of_diff_def cube_of_diff_expanded_def verify_sum_of_cubes_def
  sum_of_cubes_expanded_def verify_diff_of_cubes_def diff_of_cubes_expanded_def

section \<open>Lemmas\<close>

text \<open>The constructor establishes, and every operation keeps: a positive denominator and lowest terms.\<close>

definition fraction_ok :: "Fraction \<Rightarrow> bool" where
  "fraction_ok f \<longleftrightarrow> 0 < den f \<and> coprime (num f) (den f)"

definition fraction_value :: "Fraction \<Rightarrow> rat" where
  "fraction_value f = of_int (num f) / of_int (den f)"

lemma llD: "ll x = Some y \<Longrightarrow> y = x"
  by (simp add: ll_def split: if_splits)

lemma ll_small: "\<bar>x\<bar> < 2 ^ 63 \<Longrightarrow> ll x = Some x"
  by (auto simp: ll_def)

lemma div_gcd_value: "d \<noteq> 0 \<Longrightarrow> (of_int (n div gcd n d) / of_int (d div gcd n d) :: rat) = of_int n / of_int d"
proof -
  assume d: "d \<noteq> 0"
  define g n' d' where "g = gcd n d" and "n' = n div g" and "d' = d div g"
  have "n = n' * g" "d = d' * g" "g \<noteq> 0" using d by (simp_all add: g_def n'_def d'_def)
  then have "(of_int n' / of_int d' :: rat) = of_int n / of_int d" by simp
  then show ?thesis by (simp only: n'_def d'_def g_def)
qed

lemma fraction_ctor_value:
  assumes "fraction_ctor n d = Some f"
  shows "fraction_ok f \<and> fraction_value f = of_int n / of_int d"
proof (cases "d = 0")
  case True
  with assms show ?thesis by (auto simp: fraction_ctor_def fraction_ok_def fraction_value_def)
next
  case False
  have "d div gcd n d \<noteq> 0" using False by (simp add: dvd_div_eq_0_iff)
  moreover have "coprime (n div gcd n d) (d div gcd n d)" using False by (intro div_gcd_coprime) simp
  ultimately show ?thesis
    using assms False div_gcd_value [OF False, of n]
    by (auto simp: fraction_ctor_def fraction_ok_def fraction_value_def std_gcd_def Let_def split: option.splits if_splits)
qed

lemma fraction_ctor_total:
  assumes "\<bar>n\<bar> < 2 ^ 63" and "\<bar>d\<bar> < 2 ^ 63"
  shows "\<exists>f. fraction_ctor n d = Some f"
  using assms ll_small [of "\<bar>n\<bar>"] ll_small [of "\<bar>d\<bar>"] by (simp add: fraction_ctor_def std_gcd_def Let_def)

lemma fraction_unique:
  assumes "fraction_ok a" and "fraction_ok b" and "fraction_value a = fraction_value b"
  shows "a = b"
proof -
  have "(of_int (num a * den b) :: rat) = of_int (num b * den a)"
    using assms by (simp add: fraction_ok_def fraction_value_def field_simps)
  then have eq: "num a * den b = num b * den a" by (simp only: of_int_eq_iff)
  have "den a dvd den b" "den b dvd den a"
    using assms(1,2) eq by (metis fraction_ok_def coprime_commute coprime_dvd_mult_right_iff dvd_triv_right)+
  then have "den a = den b" using assms(1,2) by (auto simp: fraction_ok_def intro: zdvd_antisym_nonneg)
  moreover from this eq have "num a = num b" using assms(2) by (auto simp: fraction_ok_def)
  ultimately show ?thesis by (cases a, cases b) simp
qed

text \<open>Products of components below 31 bits, and sums of two of them, are representable.\<close>

definition fraction_small :: "Fraction \<Rightarrow> bool" where
  "fraction_small f \<longleftrightarrow> \<bar>num f\<bar> < 2 ^ 31 \<and> \<bar>den f\<bar> < 2 ^ 31"

lemma abs_product_small: "\<bar>x\<bar> < 2 ^ 31 \<Longrightarrow> \<bar>y\<bar> < 2 ^ 31 \<Longrightarrow> \<bar>x * y\<bar> < (2 ^ 62 :: int)"
  using mult_strict_mono' [of "\<bar>x\<bar>" "2 ^ 31" "\<bar>y\<bar>" "2 ^ 31"] by (simp add: abs_mult)

lemma fraction_small_total:
  assumes "fraction_small a" and "fraction_small b"
  shows "fraction_add a b \<noteq> None" "fraction_substract a b \<noteq> None" "fraction_multiply a b \<noteq> None" "fraction_devide a b \<noteq> None"
proof -
  note s = assms [unfolded fraction_small_def]
  have p: "\<bar>num a * den b\<bar> < 2 ^ 62" "\<bar>num b * den a\<bar> < 2 ^ 62" "\<bar>den a * den b\<bar> < 2 ^ 62"
      "\<bar>num a * num b\<bar> < 2 ^ 62" "\<bar>den a * num b\<bar> < 2 ^ 62"
    using s abs_product_small by blast+
  then have l: "ll (num a * den b) = Some (num a * den b)" "ll (num b * den a) = Some (num b * den a)"
      "ll (den a * den b) = Some (den a * den b)" "ll (num a * num b) = Some (num a * num b)"
      "ll (den a * num b) = Some (den a * num b)"
      "ll (num a * den b + num b * den a) = Some (num a * den b + num b * den a)"
      "ll (num a * den b - num b * den a) = Some (num a * den b - num b * den a)"
    by (auto intro!: ll_small)
  show "fraction_add a b \<noteq> None" "fraction_substract a b \<noteq> None"
    using p l fraction_ctor_total [of "num a * den b + num b * den a" "den a * den b"]
      fraction_ctor_total [of "num a * den b - num b * den a" "den a * den b"]
    by (auto simp: fraction_add_def fraction_substract_def)
  show "fraction_multiply a b \<noteq> None" "fraction_devide a b \<noteq> None"
    using p l fraction_ctor_total [of "num a * num b" "den a * den b"] fraction_ctor_total [of "num a * den b" "den a * num b"]
    by (auto simp: fraction_multiply_def fraction_devide_def)
qed

section \<open>Properties\<close>



text \<open>The seven identities hold in every unsigned type, whatever wraps.\<close>

theorem identities_hold:
  "verify_square_of_sum a b \<and> verify_square_of_diff a b \<and> verify_diff_of_squares a b \<and> verify_cube_of_sum a b \<and>
   verify_cube_of_diff a b \<and> verify_sum_of_cubes a b \<and> verify_diff_of_cubes a b"
  unfolding identity_defs by (simp add: algebra_simps)

end
