(* ===== verification/Ct_Real.thy ===== *)
theory Ct_Real
  imports Ct_Math
begin

text \<open>
  The part of \<open>Math/Utilities/compile_time_math.h\<close> that computes with \<open>double\<close>: roots by Newton's method, logarithm,
  powers, angles, sine and cosine by their series, and the classes for functions, equations, complex
  numbers and figures.  The \<open>double\<close>s are real numbers, computed with exactly; the theorems state how far the
  methods are from the functions they approximate.  A loop that does not end is \<open>Diverges\<close>, \<open>NaN\<close> and the
  exceptions are errors of their own.
\<close>

subsection \<open>Core\<close>

datatype math_error = NaN | Diverges | Invalid_coefficient | Domain_error

type_synonym 'a math = "math_error + 'a"

definition bind_math :: "'a math \<Rightarrow> ('a \<Rightarrow> 'b math) \<Rightarrow> 'b math" where
  "bind_math x f = (case x of Inl e \<Rightarrow> Inl e | Inr a \<Rightarrow> f a)"

lemma bind_math_simps [simp]: "bind_math (Inl e) f = Inl e" "bind_math (Inr a) f = f a"
  by (simp_all add: bind_math_def)

definition ends :: "'a option \<Rightarrow> 'a math" where
  "ends x = (case x of None \<Rightarrow> Inl Diverges | Some a \<Rightarrow> Inr a)"

definition ct_abs :: "'a::linordered_idom \<Rightarrow> 'a" where
  "ct_abs v = (if v < 0 then - v else v)"

definition near_equal :: "real \<Rightarrow> real \<Rightarrow> real \<Rightarrow> bool" where
  "near_equal a b epsilon \<longleftrightarrow> (if a > b then a - b else b - a) \<le> epsilon"

text \<open>The loops of \<open>sqrt\<close> and \<open>cbrt\<close>: iterate until two values in a row are within the tolerance.\<close>

partial_function (option) newton :: "(real \<Rightarrow> real) \<Rightarrow> real \<Rightarrow> real \<Rightarrow> real \<Rightarrow> real option" where
  "newton step tol current previous =
     (if ct_abs (current - previous) > tol then newton step tol (step current) current else Some current)"

definition sqrt_step :: "real \<Rightarrow> real \<Rightarrow> real" where
  "sqrt_step v c = 1 / 2 * (c + v / c)"

definition ct_sqrt :: "real \<Rightarrow> real math" where
  "ct_sqrt v =
     (if v < 0 then Inl NaN
      else if v = 0 \<or> v = 1 then Inr v
      else ends (newton (sqrt_step v) (1 / 10 ^ 12) v 0))"

definition cbrt_step :: "real \<Rightarrow> real \<Rightarrow> real" where
  "cbrt_step v c = (2 * c + ct_abs v / (c * c)) / 3"

definition ct_cbrt :: "real \<Rightarrow> real math" where
  "ct_cbrt v =
     (if v = 0 then Inr 0
      else bind_math (ends (newton (cbrt_step v) (1 / 10 ^ 12) (if v > 0 then v else - v) 0))
        (\<lambda>current. Inr (if v < 0 then - current else current)))"

definition EULER :: real where
  "EULER = 2.718281828459045"

partial_function (option) log_down :: "real \<Rightarrow> real \<Rightarrow> (real \<times> real) option" where
  "log_down x k = (if x > 3 / 2 then log_down (x / EULER) (k + 1) else Some (x, k))"

partial_function (option) log_up :: "real \<Rightarrow> real \<Rightarrow> (real \<times> real) option" where
  "log_up x k = (if x < 1 / 2 then log_up (x * EULER) (k - 1) else Some (x, k))"

definition exp_proxy :: "real \<Rightarrow> real" where
  "exp_proxy y = snd (fold (\<lambda>i (term, ey). let term = term * (y / of_nat i) in (term, ey + term)) [1..<16] (1, 1))"

definition halley_step :: "real \<Rightarrow> real \<Rightarrow> real" where
  "halley_step x y = (let ey = exp_proxy y in y + 2 * (x - ey) / (x + ey))"

definition ct_log :: "real \<Rightarrow> real math" where
  "ct_log x =
     (if x \<le> 0 then Inr 0
      else bind_math (ends (log_down x 0)) (\<lambda>(x, k).
           bind_math (ends (log_up x k)) (\<lambda>(x, k). Inr ((halley_step x ^^ 10) (x - 1) + k))))"

definition PI :: real where
  "PI = 3.14159265358979323846"

text \<open>The loop of \<open>pow\<close>, for any field; the exponent is halved.\<close>

function pow_loop :: "'a::field \<Rightarrow> 'a \<Rightarrow> nat \<Rightarrow> 'a" where
  "pow_loop res current_base current_exp =
     (if current_exp > 0
      then pow_loop (if current_exp mod 2 = 1 then res * current_base else res) (current_base * current_base) (current_exp div 2)
      else res)"
  by pat_completeness auto
termination
  by (relation "measure (\<lambda>(_, _, e). e)") auto

text \<open>\<open>-exp\<close> is undefined for the smallest \<open>int\<close>.\<close>

definition ct_pow :: "'a::field \<Rightarrow> int \<Rightarrow> 'a option" where
  "ct_pow base exponent =
     (if exponent = - (2 ^ 31) then None
      else let res = pow_loop 1 base (nat (if exponent < 0 then - exponent else exponent))
           in Some (if exponent < 0 then 1 / res else res))"

partial_function (option) angle_down :: "real \<Rightarrow> real option" where
  "angle_down angle = (if angle > PI then angle_down (angle - 2 * PI) else Some angle)"

partial_function (option) angle_up :: "real \<Rightarrow> real option" where
  "angle_up angle = (if angle < - PI then angle_up (angle + 2 * PI) else Some angle)"

definition normalize_angle :: "real \<Rightarrow> real math" where
  "normalize_angle angle = bind_math (ends (angle_down angle)) (\<lambda>angle. ends (angle_up angle))"

definition sin_series :: "real \<Rightarrow> real" where
  "sin_series x = snd (fold (\<lambda>i (term, sum). let term = term * (- 1 * x * x / (2 * of_nat i * (2 * of_nat i + 1))) in (term, sum + term)) [1..<15] (x, x))"

definition cos_series :: "real \<Rightarrow> real" where
  "cos_series x = snd (fold (\<lambda>i (term, sum). let term = term * (- 1 * x * x / ((2 * of_nat i - 1) * (2 * of_nat i))) in (term, sum + term)) [1..<15] (1, 1))"

definition ct_sin :: "real \<Rightarrow> real math" where
  "ct_sin x = bind_math (normalize_angle x) (\<lambda>x. Inr (sin_series x))"

definition ct_cos :: "real \<Rightarrow> real math" where
  "ct_cos x = bind_math (normalize_angle x) (\<lambda>x. Inr (cos_series x))"

subsection \<open>Points, lines and equations\<close>

definition distance_to :: "real \<times> real \<Rightarrow> real \<times> real \<Rightarrow> real math" where
  "distance_to p q = (let dx = fst p - fst q; dy = snd p - snd q in ct_sqrt (dx * dx + dy * dy))"

record linear =
  slope :: real
  intercept :: real

definition linear_evaluate :: "linear \<Rightarrow> real \<Rightarrow> real" where
  "linear_evaluate f x = slope f * x + intercept f"

definition find_root :: "linear \<Rightarrow> real math" where
  "find_root f = (if slope f = 0 then Inl NaN else Inr (- intercept f / slope f))"

definition is_parallel_to :: "linear \<Rightarrow> linear \<Rightarrow> bool" where
  "is_parallel_to f g \<longleftrightarrow> slope f = slope g \<and> intercept f \<noteq> intercept g"

definition is_perpendicular_to :: "linear \<Rightarrow> linear \<Rightarrow> bool" where
  "is_perpendicular_to f g \<longleftrightarrow> slope f * slope g = - 1"

record equation_result =
  has_real_roots :: bool
  root_count :: nat
  x1 :: real
  x2 :: real

definition solve_with :: "real \<Rightarrow> real \<Rightarrow> real \<Rightarrow> equation_result math" where
  "solve_with a b c =
     (if a = 0 then Inr \<lparr>has_real_roots = False, root_count = 0, x1 = 0, x2 = 0\<rparr>
      else let delta = b * b - 4 * a * c in
        if delta < 0 then Inr \<lparr>has_real_roots = False, root_count = 0, x1 = 0, x2 = 0\<rparr>
        else if delta = 0 then let root = - b / (2 * a) in Inr \<lparr>has_real_roots = True, root_count = 1, x1 = root, x2 = root\<rparr>
        else bind_math (ct_sqrt delta) (\<lambda>sqrt_delta.
          Inr \<lparr>has_real_roots = True, root_count = 2, x1 = (- b - sqrt_delta) / (2 * a), x2 = (- b + sqrt_delta) / (2 * a)\<rparr>))"

record cubic =
  coef_a :: real
  coef_b :: real
  coef_c :: real
  coef_d :: real

definition cubic_evaluate :: "cubic \<Rightarrow> real \<Rightarrow> real" where
  "cubic_evaluate f x = coef_a f * x * x * x + coef_b f * x * x + coef_c f * x + coef_d f"

text \<open>The coefficients of the depressed equation and its discriminant.\<close>

definition depressed :: "cubic \<Rightarrow> real \<times> real \<times> real" where
  "depressed f = (let a = coef_a f; b = coef_b f; c = coef_c f; d = coef_d f;
     p = (3 * a * c - b * b) / (3 * a * a);
     q = (2 * b * b * b - 9 * a * b * c + 27 * a * a * d) / (27 * a * a * a)
   in (p, q, q * q / 4 + p * p * p / 27))"

definition cubic_solve :: "cubic \<Rightarrow> (nat \<times> real list) math" where
  "cubic_solve f =
     (if coef_a f = 0 then Inl Invalid_coefficient
      else let (p, q, discriminant) = depressed f; shift = - coef_b f / (3 * coef_a f) in
        if discriminant > 0 then
          bind_math (ct_sqrt discriminant) (\<lambda>sqrt_disc.
          bind_math (ct_cbrt (- q / 2 + sqrt_disc)) (\<lambda>u.
          bind_math (ct_cbrt (- q / 2 - sqrt_disc)) (\<lambda>v. Inr (1, [u + v + shift, 0, 0]))))
        else if discriminant = 0 then
          if p = 0 \<and> q = 0 then Inr (3, [shift, shift, shift])
          else bind_math (ct_cbrt (- q / 2)) (\<lambda>u. Inr (2, [2 * u + shift, - u + shift, 0]))
        else Inl Domain_error)"

definition biquadratic_solve :: "real \<Rightarrow> real \<Rightarrow> real \<Rightarrow> real list math" where
  "biquadratic_solve a b c =
     (if a = 0 then Inl Invalid_coefficient
      else let delta = b * b - 4 * a * c in
        if delta < 0 then Inr []
        else bind_math (ct_sqrt delta) (\<lambda>s.
          let t1 = (- b - s) / (2 * a); t2 = (- b + s) / (2 * a) in
          bind_math (if t1 \<ge> 0 then bind_math (ct_sqrt t1) (\<lambda>r1. Inr [- r1, r1]) else Inr []) (\<lambda>roots.
          if t2 \<ge> 0 \<and> ct_abs (t1 - t2) > 1 / 10 ^ 9
          then bind_math (ct_sqrt t2) (\<lambda>r2. Inr (roots @ [- r2, r2])) else Inr roots)))"

subsection \<open>Complex numbers and figures\<close>

type_synonym ct_complex = "real \<times> real"

definition c_add :: "ct_complex \<Rightarrow> ct_complex \<Rightarrow> ct_complex" where
  "c_add z w = (fst z + fst w, snd z + snd w)"

definition c_sub :: "ct_complex \<Rightarrow> ct_complex \<Rightarrow> ct_complex" where
  "c_sub z w = (fst z - fst w, snd z - snd w)"

definition c_mul :: "ct_complex \<Rightarrow> ct_complex \<Rightarrow> ct_complex" where
  "c_mul z w = (fst z * fst w - snd z * snd w, fst z * snd w + snd z * fst w)"

text \<open>A division by zero gives \<open>NaN\<close>.\<close>

definition c_div :: "ct_complex \<Rightarrow> ct_complex \<Rightarrow> ct_complex math" where
  "c_div z w = (let denom = fst w * fst w + snd w * snd w in
     if denom = 0 then Inl NaN
     else Inr ((fst z * fst w + snd z * snd w) / denom, (snd z * fst w - fst z * snd w) / denom))"

definition magnitude_sq :: "ct_complex \<Rightarrow> real" where
  "magnitude_sq z = fst z * fst z + snd z * snd z"

definition magnitude :: "ct_complex \<Rightarrow> real math" where
  "magnitude z = ct_sqrt (magnitude_sq z)"

definition conjugate :: "ct_complex \<Rightarrow> ct_complex" where
  "conjugate z = (fst z, - snd z)"

definition pow_int :: "ct_complex \<Rightarrow> int \<Rightarrow> ct_complex math" where
  "pow_int z n =
     bind_math (magnitude z) (\<lambda>r.
     bind_math (ends (ct_pow r n)) (\<lambda>r_n.
       let theta = (if fst z = 0 then if snd z \<ge> 0 then PI / 2 else - PI / 2 else snd z / fst z);
           target_angle = theta * of_int n
       in bind_math (ct_cos target_angle) (\<lambda>c. bind_math (ct_sin target_angle) (\<lambda>s. Inr (r_n * c, r_n * s)))))"

definition rectangle_perimeter :: "real \<Rightarrow> real \<Rightarrow> real" where
  "rectangle_perimeter w h = 2 * (w + h)"

definition rectangle_area :: "real \<Rightarrow> real \<Rightarrow> real" where
  "rectangle_area w h = w * h"

definition triangle_area :: "real \<Rightarrow> real \<Rightarrow> real" where
  "triangle_area b h = 1 / 2 * b * h"

definition circle_perimeter :: "real \<Rightarrow> real" where
  "circle_perimeter r = 2 * PI * r"

definition circle_area :: "real \<Rightarrow> real" where
  "circle_area r = PI * r * r"

definition arc_length :: "real \<Rightarrow> real \<Rightarrow> real" where
  "arc_length r angle_rad = r * ct_abs angle_rad"

definition sector_area :: "real \<Rightarrow> real \<Rightarrow> real" where
  "sector_area r angle_rad = 1 / 2 * r * r * ct_abs angle_rad"

definition ellipse_area :: "real \<Rightarrow> real \<Rightarrow> real" where
  "ellipse_area a b = PI * a * b"

definition perimeter_ramanujan :: "real \<Rightarrow> real \<Rightarrow> real math" where
  "perimeter_ramanujan a b =
     bind_math (ends (ct_pow (a - b) 2)) (\<lambda>n. bind_math (ends (ct_pow (a + b) 2)) (\<lambda>d.
       if d = 0 then Inl NaN
       else let h = n / d in bind_math (ct_sqrt (4 - 3 * h)) (\<lambda>s. Inr (PI * (a + b) * (1 + 3 * h / (10 + s))))))"

definition point_at :: "real \<Rightarrow> real \<Rightarrow> real \<Rightarrow> (real \<times> real) math" where
  "point_at a b t_rad = bind_math (ct_cos t_rad) (\<lambda>c. bind_math (ct_sin t_rad) (\<lambda>s. Inr (a * c, b * s)))"

subsection \<open>Newton's method\<close>

lemma ct_abs_abs [simp]: "ct_abs (x :: real) = \<bar>x\<bar>"
  by (simp add: ct_abs_def)

text \<open>An iteration that stays above the root and brings the distance to it down by a factor stops, with an error that
  the factor and the tolerance bound.\<close>

definition shrinks :: "(real \<Rightarrow> real) \<Rightarrow> real \<Rightarrow> real \<Rightarrow> bool" where
  "shrinks step r q \<longleftrightarrow> 0 < r \<and> 1 / 2 \<le> q \<and> q < 1 \<and> (\<forall>c > 0. r \<le> step c) \<and> (\<forall>c \<ge> r. step c - r \<le> q * (c - r))"

lemma shrinks_facts:
  assumes "shrinks step r q"
  shows "0 < r" "1 / 2 \<le> q" "q < 1" "0 < c \<Longrightarrow> r \<le> step c" "r \<le> c \<Longrightarrow> step c - r \<le> q * (c - r)"
  using assms by (auto simp: shrinks_def)

lemma newton_stops:
  assumes "shrinks step r q" "r \<le> p" "p - step p \<le> tol"
  shows "step p - r \<le> q / (1 - q) * tol"
proof -
  note q = shrinks_facts [OF assms(1)]
  have "(1 - q) * (p - r) \<le> tol"
    using q(5) [OF assms(2)] assms(3) by (simp add: algebra_simps)
  then have "p - r \<le> tol / (1 - q)"
    using q by (simp add: pos_le_divide_eq mult.commute)
  then have "q * (p - r) \<le> q * (tol / (1 - q))"
    using q by (intro mult_left_mono) simp_all
  then show ?thesis
    using q(5) [OF assms(2)] by simp
qed

lemma newton_above:
  assumes "shrinks step r q" "r \<le> p" "(p - r) * q ^ n \<le> tol" "0 \<le> tol"
  shows "\<exists>x. newton step tol (step p) p = Some x \<and> r \<le> x \<and> x - r \<le> q / (1 - q) * tol"
  using assms(2,3)
proof (induction n arbitrary: p)
  case (0 p)
  note q = shrinks_facts [OF assms(1)]
  have sp: "r \<le> step p" "step p - r \<le> q * (p - r)"
    using q 0 by auto
  have "q * (p - r) \<le> p - r"
    using q 0 by (intro mult_left_le_one_le) simp_all
  then have "\<bar>step p - p\<bar> \<le> tol" "p - step p \<le> tol"
    using sp 0 by simp_all
  then show ?case
    using sp(1) newton_stops [OF assms(1) 0(1)] by (subst newton.simps) simp
next
  case (Suc n p)
  note q = shrinks_facts [OF assms(1)]
  have sp: "r \<le> step p" "step p - r \<le> q * (p - r)"
    using q Suc.prems by auto
  show ?case
  proof (cases "\<bar>step p - p\<bar> > tol")
    case True
    have "(step p - r) * q ^ n \<le> q * (p - r) * q ^ n"
      using sp q by (intro mult_right_mono) simp_all
    then have "(step p - r) * q ^ n \<le> tol"
      using Suc.prems(2) by (simp add: mult.assoc mult.left_commute)
    then show ?thesis
      using Suc.IH [OF sp(1)] True by (subst newton.simps) simp
  next
    case False
    then show ?thesis
      using sp(1) newton_stops [OF assms(1) Suc.prems(1), of tol] by (subst newton.simps) simp
  qed
qed

lemma newton_converges:
  assumes "shrinks step r q" "r \<le> p" "0 < tol"
  shows "\<exists>x. newton step tol (step p) p = Some x \<and> r \<le> x \<and> x - r \<le> q / (1 - q) * tol"
proof -
  note q = shrinks_facts [OF assms(1)]
  obtain n where n: "q ^ n < tol / (p - r + 1)"
    using real_arch_pow_inv [of "tol / (p - r + 1)" q] q assms(2,3) by auto
  have "(p - r) * q ^ n \<le> (p - r + 1) * q ^ n"
    using q by (intro mult_right_mono) simp_all
  also have "\<dots> \<le> tol"
    using n assms(2) by (simp add: pos_less_divide_eq mult.commute less_imp_le)
  finally show ?thesis
    using newton_above [OF assms(1,2), of n tol] assms(3) by simp
qed

text \<open>From a positive starting value above the tolerance: the first step may come from below the root.\<close>

lemma newton_start:
  assumes "shrinks step r q" "0 < tol" "tol < v"
  shows "\<exists>x. newton step tol v 0 = Some x \<and> r \<le> x \<and> x - r \<le> q / (1 - q) * tol"
proof -
  note q = shrinks_facts [OF assms(1)]
  have first: "newton step tol v 0 = newton step tol (step v) v"
    using assms(2,3) by (subst newton.simps) simp
  have above: "r \<le> step v"
    using q(4) [of v] assms(2,3) by simp
  show ?thesis
  proof (cases "r \<le> v")
    case True
    then show ?thesis
      using newton_converges [OF assms(1) True assms(2)] first by simp
  next
    case below: False
    show ?thesis
    proof (cases "\<bar>step v - v\<bar> > tol")
      case True
      then show ?thesis
        using newton_converges [OF assms(1) above assms(2)] first by (subst (asm) (3) newton.simps) simp
    next
      case False
      have "1 \<le> q / (1 - q)"
        using q(2,3) by (simp add: pos_le_divide_eq)
      then have "tol \<le> q / (1 - q) * tol"
        using mult_right_mono [of 1 "q / (1 - q)" tol] assms(2) by simp
      moreover have "step v - r \<le> tol"
        using False below above by simp
      ultimately show ?thesis
        using False above first by (subst (asm) (2) newton.simps) simp
    qed
  qed
qed

lemma sqrt_step_shrinks:
  assumes "0 < v"
  shows "shrinks (sqrt_step v) (sqrt v) (1 / 2)"
proof -
  let ?r = "sqrt v"
  have r: "0 < ?r" "?r * ?r = v"
    using assms by simp_all
  have gap: "sqrt_step v c - ?r = (c - ?r) * (c - ?r) / (2 * c)" if "0 < c" for c
    using that r by (simp add: sqrt_step_def field_simps)
  have low: "?r \<le> sqrt_step v c" if "0 < c" for c
  proof -
    have "0 \<le> (c - ?r) * (c - ?r) / (2 * c)"
      using that by simp
    then show ?thesis
      using gap [OF that] by linarith
  qed
  have "sqrt_step v c - ?r \<le> 1 / 2 * (c - ?r)" if "?r \<le> c" for c
  proof -
    have "0 < c"
      using that r(1) by linarith
    then have "(c - ?r) * (c - ?r) \<le> (c - ?r) * c"
      using that r(1) by (intro mult_left_mono) simp_all
    then show ?thesis
      unfolding gap [OF \<open>0 < c\<close>] using \<open>0 < c\<close> by (subst pos_divide_le_eq) (simp_all add: algebra_simps)
  qed
  then show ?thesis
    using r low by (simp add: shrinks_def)
qed

lemma cbrt_step_shrinks:
  assumes "0 < \<bar>v\<bar>"
  shows "shrinks (cbrt_step v) (root 3 \<bar>v\<bar>) (2 / 3)"
proof -
  define r where "r = root 3 \<bar>v\<bar>"
  have r: "0 < r" "\<bar>v\<bar> = r * r * r"
    using assms real_root_pow_pos2 [of 3 "\<bar>v\<bar>"] by (simp_all add: power3_eq_cube r_def)
  have gap: "cbrt_step v c - r = (c - r) * (c - r) * (2 * c + r) / (3 * c * c)" if "0 < c" for c
    unfolding cbrt_step_def ct_abs_abs r(2) using that by (simp add: field_simps)
  have low: "r \<le> cbrt_step v c" if "0 < c" for c
  proof -
    have "0 \<le> (c - r) * (c - r) * (2 * c + r) / (3 * c * c)"
      using that r(1) by simp
    then show ?thesis
      using gap [OF that] by linarith
  qed
  have "cbrt_step v c - r \<le> 2 / 3 * (c - r)" if "r \<le> c" for c
  proof -
    have "0 < c"
      using that r(1) by linarith
    have "(c - r) * (2 * c + r) \<le> 2 * c * c"
      using r(1) \<open>0 < c\<close> by (simp add: algebra_simps)
    then have "(c - r) * ((c - r) * (2 * c + r)) \<le> (c - r) * (2 * c * c)"
      using that by (intro mult_left_mono) simp_all
    then show ?thesis
      unfolding gap [OF \<open>0 < c\<close>] using \<open>0 < c\<close> by (subst pos_divide_le_eq) (simp_all add: algebra_simps)
  qed
  then show ?thesis
    unfolding r_def [symmetric] using r(1) low by (simp add: shrinks_def)
qed

lemma ct_sqrt_accurate:
  assumes "1 / 10 ^ 12 < v"
  shows "\<exists>x. ct_sqrt v = Inr x \<and> sqrt v \<le> x \<and> x - sqrt v \<le> 1 / 10 ^ 12"
proof -
  have "0 < v"
    using assms by (rule less_trans [rotated]) simp
  then show ?thesis
    using newton_start [OF sqrt_step_shrinks, of v "1 / 10 ^ 12" v] assms by (auto simp: ct_sqrt_def ends_def)
qed

lemma ct_sqrt_tiny:
  assumes "0 \<le> v" "v \<le> 1 / 10 ^ 12"
  shows "ct_sqrt v = Inr v"
  using assms by (auto simp: ct_sqrt_def ends_def newton.simps [of _ _ v 0])

lemma ct_cbrt_accurate:
  assumes "1 / 10 ^ 12 < \<bar>v\<bar>"
  shows "\<exists>x. ct_cbrt v = Inr x \<and> \<bar>x - root 3 v\<bar> \<le> 2 / 10 ^ 12"
proof -
  have v: "0 < \<bar>v\<bar>"
    using assms by (rule less_trans [rotated]) simp
  obtain x where x: "newton (cbrt_step v) (1 / 10 ^ 12) \<bar>v\<bar> 0 = Some x" "root 3 \<bar>v\<bar> \<le> x" "x - root 3 \<bar>v\<bar> \<le> 2 / 10 ^ 12"
    using newton_start [OF cbrt_step_shrinks [OF v], of "1 / 10 ^ 12" "\<bar>v\<bar>"] assms by auto
  show ?thesis
  proof (cases "v < 0")
    case True
    then show ?thesis
      using x real_root_minus [of 3 v] by (simp add: ct_cbrt_def ends_def)
  next
    case False
    then show ?thesis
      using x v by (simp add: ct_cbrt_def ends_def)
  qed
qed

subsection \<open>Powers, angles and series\<close>

declare pow_loop.simps [simp del]

lemma pow_loop_power: "pow_loop res b e = res * b ^ e"
proof (induction res b e rule: pow_loop.induct)
  case (1 res b e)
  show ?case
  proof (cases "e > 0")
    case True
    have "b ^ e = b ^ (2 * (e div 2) + e mod 2)"
      by simp
    also have "\<dots> = (b * b) ^ (e div 2) * b ^ (e mod 2)"
      by (simp only: power_add power_mult power2_eq_square)
    also have "b ^ (e mod 2) = (if e mod 2 = 1 then b else 1)"
      by (cases "e mod 2 = 1") (auto simp: mod2_eq_if)
    finally have "b ^ e = (if e mod 2 = 1 then b else 1) * (b * b) ^ (e div 2)"
      by (simp add: mult.commute)
    then show ?thesis
      using 1 True by (subst pow_loop.simps) (auto simp: mult.assoc)
  qed (subst pow_loop.simps, simp)
qed

lemma PI_pos: "0 < PI"
  by (simp add: PI_def)

lemma angle_down_ends: "angle \<le> PI + of_nat n * (2 * PI) \<Longrightarrow> - PI \<le> angle \<Longrightarrow>
    \<exists>k :: nat. angle_down angle = Some (angle - of_nat k * (2 * PI)) \<and> \<bar>angle - of_nat k * (2 * PI)\<bar> \<le> PI"
proof (induction n arbitrary: angle)
  case 0
  then show ?case
    by (intro exI [of _ 0]) (subst angle_down.simps, auto)
next
  case (Suc n)
  show ?case
  proof (cases "angle > PI")
    case True
    then obtain k :: nat where "angle_down (angle - 2 * PI) = Some (angle - 2 * PI - of_nat k * (2 * PI)) \<and> \<bar>angle - 2 * PI - of_nat k * (2 * PI)\<bar> \<le> PI"
      using Suc.IH [of "angle - 2 * PI"] Suc.prems by (auto simp: algebra_simps)
    then show ?thesis
      using True by (intro exI [of _ "Suc k"]) (subst angle_down.simps, simp add: algebra_simps)
  next
    case False
    then show ?thesis
      using Suc.prems by (intro exI [of _ 0]) (subst angle_down.simps, auto)
  qed
qed

lemma angle_up_ends: "- PI - of_nat n * (2 * PI) \<le> angle \<Longrightarrow> angle \<le> PI \<Longrightarrow>
    \<exists>k :: nat. angle_up angle = Some (angle + of_nat k * (2 * PI)) \<and> \<bar>angle + of_nat k * (2 * PI)\<bar> \<le> PI"
proof (induction n arbitrary: angle)
  case 0
  then show ?case
    by (intro exI [of _ 0]) (subst angle_up.simps, auto)
next
  case (Suc n)
  show ?case
  proof (cases "angle < - PI")
    case True
    then obtain k :: nat where "angle_up (angle + 2 * PI) = Some (angle + 2 * PI + of_nat k * (2 * PI)) \<and> \<bar>angle + 2 * PI + of_nat k * (2 * PI)\<bar> \<le> PI"
      using Suc.IH [of "angle + 2 * PI"] Suc.prems by (auto simp: algebra_simps)
    then show ?thesis
      using True by (intro exI [of _ "Suc k"]) (subst angle_up.simps, simp add: algebra_simps)
  next
    case False
    then show ?thesis
      using Suc.prems by (intro exI [of _ 0]) (subst angle_up.simps, auto)
  qed
qed

lemma normalize_angle_ok: "\<exists>k :: int. normalize_angle angle = Inr (angle + of_int k * (2 * PI)) \<and> \<bar>angle + of_int k * (2 * PI)\<bar> \<le> PI"
proof (cases "- PI \<le> angle")
  case True
  obtain n where "angle < of_nat n * (2 * PI)"
    using reals_Archimedean3 [of "2 * PI"] PI_pos by auto
  then obtain k :: nat where k: "angle_down angle = Some (angle - of_nat k * (2 * PI))" "\<bar>angle - of_nat k * (2 * PI)\<bar> \<le> PI"
    using angle_down_ends [of angle n] True PI_pos by fastforce
  then show ?thesis
    by (intro exI [of _ "- int k"]) (simp add: normalize_angle_def ends_def angle_up.simps [of "angle - of_nat k * (2 * PI)"] abs_le_iff)
next
  case False
  obtain n where "- angle < of_nat n * (2 * PI)"
    using reals_Archimedean3 [of "2 * PI"] PI_pos by auto
  then obtain k :: nat where "angle_up angle = Some (angle + of_nat k * (2 * PI))" "\<bar>angle + of_nat k * (2 * PI)\<bar> \<le> PI"
    using angle_up_ends [of n angle] False PI_pos by fastforce
  moreover have "angle_down angle = Some angle"
    using False PI_pos by (subst angle_down.simps) simp
  ultimately show ?thesis
    by (intro exI [of _ "int k"]) (simp add: normalize_angle_def ends_def)
qed

lemma normalize_angle_small: "\<bar>x\<bar> \<le> PI \<Longrightarrow> normalize_angle x = Inr x"
  by (simp add: normalize_angle_def ends_def angle_down.simps [of x] angle_up.simps [of x] abs_le_iff)

text \<open>A loop that multiplies a term and adds it up computes a partial sum.\<close>

lemma series_fold:
  assumes "\<And>i. i \<ge> 1 \<Longrightarrow> t i = t (i - 1) * f i"
  shows "fold (\<lambda>i (term, sum). let term = term * f i in (term, sum + term)) [1..<Suc n] (t 0, t 0) = (t n, \<Sum>i<Suc n. t i :: real)"
proof (induction n)
  case (Suc n)
  then show ?case
    using assms [of "Suc n"] by (simp add: Let_def)
qed simp

lemma sin_series_sum: "sin_series x = (\<Sum>m<30. sin_coeff m * x ^ m)"
proof -
  let ?t = "\<lambda>i. (- 1) ^ i * x ^ (2 * i + 1) / fact (2 * i + 1) :: real"
  have rec: "?t i = ?t (i - 1) * (- 1 * x * x / (2 * of_nat i * (2 * of_nat i + 1)))" if "i \<ge> 1" for i
    using that by (cases i) (simp_all add: field_simps)
  have "(\<Sum>m<2 * n. sin_coeff m * x ^ m) = (\<Sum>i<n. ?t i)" for n
    by (induction n) (simp_all add: sin_coeff_def)
  from this [of 15] show ?thesis
    using series_fold [of ?t "\<lambda>i. - 1 * x * x / (2 * of_nat i * (2 * of_nat i + 1))" 14, OF rec] by (simp add: sin_series_def)
qed

lemma cos_series_sum: "cos_series x = (\<Sum>m<30. cos_coeff m * x ^ m)"
proof -
  let ?t = "\<lambda>i. (- 1) ^ i * x ^ (2 * i) / fact (2 * i) :: real"
  have rec: "?t i = ?t (i - 1) * (- 1 * x * x / ((2 * of_nat i - 1) * (2 * of_nat i)))" if "i \<ge> 1" for i
    using that by (cases i) (simp_all add: field_simps)
  have "(\<Sum>m<2 * n. cos_coeff m * x ^ m) = (\<Sum>i<n. ?t i)" for n
    by (induction n) (simp_all add: cos_coeff_def)
  from this [of 15] show ?thesis
    using series_fold [of ?t "\<lambda>i. - 1 * x * x / ((2 * of_nat i - 1) * (2 * of_nat i))" 14, OF rec] by (simp add: cos_series_def)
qed

lemma remainder_small:
  assumes "\<bar>x\<bar> \<le> PI"
  shows "\<bar>x\<bar> ^ 30 / fact 30 \<le> 1 / 10 ^ 15"
proof -
  have "\<bar>x\<bar> ^ 30 \<le> (22 / 7) ^ 30"
    using assms by (intro power_mono) (simp_all add: PI_def)
  then have "\<bar>x\<bar> ^ 30 / fact 30 \<le> (22 / 7) ^ 30 / fact 30"
    by (rule divide_right_mono) simp
  also have "\<dots> \<le> 1 / 10 ^ 15"
    by (simp add: fact_numeral power_divide)
  finally show ?thesis .
qed

lemma sin_series_accurate: "\<bar>x\<bar> \<le> PI \<Longrightarrow> \<bar>sin_series x - sin x\<bar> \<le> 1 / 10 ^ 15"
proof -
  assume "\<bar>x\<bar> \<le> PI"
  have "\<bar>sin_series x - sin x\<bar> \<le> inverse (fact 30) * \<bar>x\<bar> ^ 30"
    unfolding sin_series_sum by (subst abs_minus_commute) (rule Maclaurin_sin_bound)
  also have "\<dots> = \<bar>x\<bar> ^ 30 / fact 30"
    by (simp only: divide_inverse mult.commute)
  finally show ?thesis
    using remainder_small [OF \<open>\<bar>x\<bar> \<le> PI\<close>] by linarith
qed

lemma cos_series_accurate:
  assumes "\<bar>x\<bar> \<le> PI"
  shows "\<bar>cos_series x - cos x\<bar> \<le> 1 / 10 ^ 15"
proof -
  obtain t where "cos x = (\<Sum>m<30. cos_coeff m * x ^ m) + cos (t + 1 / 2 * real 30 * pi) / fact 30 * x ^ 30"
    using Maclaurin_cos_expansion [of x 30] by blast
  then have "\<bar>cos_series x - cos x\<bar> = \<bar>cos (t + 1 / 2 * real 30 * pi)\<bar> * (\<bar>x\<bar> ^ 30 / fact 30)"
    by (simp add: cos_series_sum abs_mult power_abs)
  also have "\<dots> \<le> 1 * (\<bar>x\<bar> ^ 30 / fact 30)"
    by (intro mult_right_mono) simp_all
  finally show ?thesis
    using remainder_small [OF assms] by linarith
qed

subsection \<open>The logarithm\<close>

lemma EULER_bounds: "5 / 2 < EULER" "EULER < 3"
  by (simp_all add: EULER_def)

lemma log_down_ends: "0 < x \<Longrightarrow> x \<le> 3 / 2 * EULER ^ n \<Longrightarrow>
    \<exists>(m :: nat) y. log_down x k = Some (y, k + of_nat m) \<and> x = y * EULER ^ m \<and> 0 < y \<and> y \<le> 3 / 2 \<and> (m = 0 \<or> 1 / 2 \<le> y)"
proof (induction n arbitrary: x k)
  case 0
  then show ?case
    by (intro exI [of _ 0] exI [of _ x]) (subst log_down.simps, simp)
next
  case (Suc n)
  show ?case
  proof (cases "x > 3 / 2")
    case True
    have e: "0 < EULER"
      using EULER_bounds(1) by linarith
    have big: "1 / 2 \<le> x / EULER"
      using True EULER_bounds(2) e by (simp add: pos_le_divide_eq)
    have "x / EULER \<le> 3 / 2 * EULER ^ n"
      using Suc.prems(2) e by (simp add: pos_divide_le_eq mult.assoc mult.commute)
    then obtain m :: nat and y where "log_down (x / EULER) (k + 1) = Some (y, k + 1 + of_nat m)" "x / EULER = y * EULER ^ m" "0 < y" "y \<le> 3 / 2"
        "m = 0 \<or> 1 / 2 \<le> y"
      using Suc.IH [OF divide_pos_pos [OF Suc.prems(1) e]] by metis
    then show ?thesis
      using True e big by (intro exI [of _ "Suc m"] exI [of _ y]) (subst log_down.simps, auto simp: field_simps)
  next
    case False
    then show ?thesis
      using Suc.prems by (intro exI [of _ 0] exI [of _ x]) (subst log_down.simps, simp)
  qed
qed

lemma log_up_ends: "0 < x \<Longrightarrow> x \<le> 3 / 2 \<Longrightarrow> 1 \<le> 2 * x * EULER ^ n \<Longrightarrow>
    \<exists>(m :: nat) y. log_up x k = Some (y, k - of_nat m) \<and> y = x * EULER ^ m \<and> 1 / 2 \<le> y \<and> y \<le> 3 / 2"
proof (induction n arbitrary: x k)
  case 0
  then show ?case
    by (intro exI [of _ 0] exI [of _ x]) (subst log_up.simps, simp)
next
  case (Suc n)
  show ?case
  proof (cases "x < 1 / 2")
    case True
    have e: "0 < EULER"
      using EULER_bounds(1) by linarith
    have "x * EULER \<le> 1 / 2 * 3"
      using True EULER_bounds(2) Suc.prems(1) e by (intro mult_mono) simp_all
    then obtain m :: nat and y where "log_up (x * EULER) (k - 1) = Some (y, k - 1 - of_nat m)" "y = x * EULER * EULER ^ m" "1 / 2 \<le> y" "y \<le> 3 / 2"
      using Suc.IH [of "x * EULER" "k - 1"] Suc.prems(1,3) e by (auto simp: mult.assoc)
    then show ?thesis
      using True by (intro exI [of _ "Suc m"] exI [of _ y]) (subst log_up.simps, simp add: mult.assoc)
  next
    case False
    then show ?thesis
      using Suc.prems by (intro exI [of _ 0] exI [of _ x]) (subst log_up.simps, simp)
  qed
qed

subsection \<open>Equations\<close>

lemma quadratic_exact:
  assumes "a \<noteq> (0 :: real)" "s * s = b * b - 4 * a * c" "x = (- b + s) / (2 * a)"
  shows "a * x * x + b * x + c = 0"
proof -
  have s: "s = 2 * a * x + b"
    using assms(1,3) by (simp add: field_simps)
  have "4 * a * (a * x * x + b * x + c) = s * s - (b * b - 4 * a * c)"
    unfolding s by (simp add: algebra_simps)
  then show ?thesis
    using assms(1,2) by simp
qed

lemma depressed_equation:
  assumes "coef_a f \<noteq> 0" "depressed f = (p, q, e)"
  shows "cubic_evaluate f (t + - coef_b f / (3 * coef_a f)) = coef_a f * (t * t * t + p * t + q)" "e = q * q / 4 + p * p * p / 27"
proof -
  have p: "p = (3 * coef_a f * coef_c f - coef_b f * coef_b f) / (3 * coef_a f * coef_a f)"
    and q: "q = (2 * coef_b f * coef_b f * coef_b f - 9 * coef_a f * coef_b f * coef_c f + 27 * coef_a f * coef_a f * coef_d f) / (27 * coef_a f * coef_a f * coef_a f)"
    and "e = q * q / 4 + p * p * p / 27"
    using assms(2) by (auto simp: depressed_def Let_def)
  then show "e = q * q / 4 + p * p * p / 27"
    by simp
  show "cubic_evaluate f (t + - coef_b f / (3 * coef_a f)) = coef_a f * (t * t * t + p * t + q)"
    unfolding p q cubic_evaluate_def using assms(1) by (simp add: field_simps)
qed

lemma double_root:
  assumes "q * q / 4 + p * p * p / 27 = (0 :: real)" "u * u * u = - q / 2"
  shows "(2 * u) * (2 * u) * (2 * u) + p * (2 * u) + q = 0" "(- u) * (- u) * (- u) + p * (- u) + q = 0"
proof -
  have q: "q = - 2 * (u * u * u)"
    using assms(2) by simp
  have "(u * u) * (u * u) * (u * u) + (p / 3) * (p / 3) * (p / 3) = 0"
    using assms(1) unfolding q by (simp add: field_simps)
  then have "(u * u) ^ 3 = (- (p / 3)) ^ 3"
    by (simp add: power3_eq_cube)
  then have "u * u = - (p / 3)"
    using power_eq_iff_eq_base odd_real_root_unique [of 3] by (metis odd_numeral odd_real_root_power_cancel)
  then have p: "p = - 3 * (u * u)"
    by simp
  show "(2 * u) * (2 * u) * (2 * u) + p * (2 * u) + q = 0" "(- u) * (- u) * (- u) + p * (- u) + q = 0"
    unfolding p q by (simp_all add: algebra_simps)
qed

subsection \<open>Properties\<close>



text \<open>The angle is brought into one turn by whole turns, and there sine and cosine are within \<open>1 / 10 ^ 15\<close> of the
  functions.\<close>
theorem trigonometry_accurate:
  "\<exists>(k :: int) y s c. normalize_angle x = Inr y \<and> y = x + of_int k * (2 * PI) \<and> \<bar>y\<bar> \<le> PI \<and>
     ct_sin x = Inr s \<and> ct_cos x = Inr c \<and> \<bar>s - sin y\<bar> \<le> 1 / 10 ^ 15 \<and> \<bar>c - cos y\<bar> \<le> 1 / 10 ^ 15"
proof -
  obtain k :: int where k: "normalize_angle x = Inr (x + of_int k * (2 * PI))" "\<bar>x + of_int k * (2 * PI)\<bar> \<le> PI"
    using normalize_angle_ok by blast
  show ?thesis
    using k sin_series_accurate [OF k(2)] cos_series_accurate [OF k(2)]
    by (intro exI [of _ k] exI [of _ "x + of_int k * (2 * PI)"] exI [of _ "sin_series (x + of_int k * (2 * PI))"]
        exI [of _ "cos_series (x + of_int k * (2 * PI))"]) (simp add: ct_sin_def ct_cos_def)
qed

text \<open>\<open>pow\<close> by repeated squaring is the power, for negative exponents its inverse, in every field.\<close>
theorem pow_exact:
  fixes b :: "'a::field"
  assumes "- (2 ^ 31) < n"
  shows "ct_pow b n = Some (b powi n)"
  using assms by (auto simp: ct_pow_def pow_loop_power Let_def power_int_def field_simps)

theorem pow_exact_witness: "ct_pow (2 :: real) (- 3) = Some (1 / 8)"
  using pow_exact [of "- 3" "2 :: real"] by (simp add: power_int_minus field_simps)

text \<open>The quadratic equation: no root for a negative discriminant, the exact double root for zero, and for a
  discriminant above the tolerance of the square root two values within that tolerance, divided by twice
  the leading coefficient, of the two roots.\<close>
theorem quadratic_solved:
  assumes "a \<noteq> 0" "delta = b * b - 4 * a * c"
  shows "(delta < 0 \<longrightarrow> (\<exists>r. solve_with a b c = Inr r \<and> root_count r = 0) \<and> (\<forall>x. a * x * x + b * x + c \<noteq> 0)) \<and>
     (delta = 0 \<longrightarrow> (\<exists>r. solve_with a b c = Inr r \<and> root_count r = 1 \<and> a * x1 r * x1 r + b * x1 r + c = 0)) \<and>
     (1 / 10 ^ 12 < delta \<longrightarrow> (\<exists>r u v. solve_with a b c = Inr r \<and> root_count r = 2 \<and> a * u * u + b * u + c = 0 \<and> a * v * v + b * v + c = 0 \<and>
        u \<noteq> v \<and> \<bar>x1 r - u\<bar> \<le> 1 / 10 ^ 12 / (2 * \<bar>a\<bar>) \<and> \<bar>x2 r - v\<bar> \<le> 1 / 10 ^ 12 / (2 * \<bar>a\<bar>)))"
proof (intro conjI impI)
  assume d: "delta < 0"
  show "\<exists>r. solve_with a b c = Inr r \<and> root_count r = 0"
    using d assms by (simp add: solve_with_def Let_def)
  show "\<forall>x. a * x * x + b * x + c \<noteq> 0"
  proof (intro allI notI)
    fix x
    assume z: "a * x * x + b * x + c = 0"
    have "delta = (2 * a * x + b) * (2 * a * x + b) - 4 * a * (a * x * x + b * x + c)"
      unfolding assms(2) by (simp add: algebra_simps)
    then show False
      using z d zero_le_square [of "2 * a * x + b"] by simp
  qed
next
  assume d: "delta = 0"
  show "\<exists>r. solve_with a b c = Inr r \<and> root_count r = 1 \<and> a * x1 r * x1 r + b * x1 r + c = 0"
    using d assms quadratic_exact [OF assms(1), of 0 b c] by (simp add: solve_with_def Let_def)
next
  assume d: "1 / 10 ^ 12 < delta"
  then have pos: "0 < delta"
    by (rule less_trans [rotated]) simp
  obtain s where s: "ct_sqrt delta = Inr s" "sqrt delta \<le> s" "s - sqrt delta \<le> 1 / 10 ^ 12"
    using ct_sqrt_accurate [OF d] by blast
  let ?u = "(- b + - sqrt delta) / (2 * a)" and ?v = "(- b + sqrt delta) / (2 * a)"
  have roots: "a * ?u * ?u + b * ?u + c = 0" "a * ?v * ?v + b * ?v + c = 0"
    using quadratic_exact [OF assms(1), of "- sqrt delta" b c] quadratic_exact [OF assms(1), of "sqrt delta" b c] pos assms(2) by simp_all
  have near: "\<bar>(- b + y) / (2 * a) - (- b + z) / (2 * a)\<bar> \<le> 1 / 10 ^ 12 / (2 * \<bar>a\<bar>)" if "\<bar>y - z\<bar> \<le> 1 / 10 ^ 12" for y z
  proof -
    have "(- b + y) / (2 * a) - (- b + z) / (2 * a) = (y - z) / (2 * a)"
      by (simp add: diff_divide_distrib [symmetric])
    then have "\<bar>(- b + y) / (2 * a) - (- b + z) / (2 * a)\<bar> = \<bar>y - z\<bar> / (2 * \<bar>a\<bar>)"
      by (simp add: abs_mult)
    then show ?thesis
      using divide_right_mono [OF that, of "2 * \<bar>a\<bar>"] by simp
  qed
  have "solve_with a b c = Inr \<lparr>has_real_roots = True, root_count = 2, x1 = (- b + - s) / (2 * a), x2 = (- b + s) / (2 * a)\<rparr>"
    using s(1) pos assms by (simp add: solve_with_def Let_def)
  moreover have "?u \<noteq> ?v"
    using pos assms(1) by simp
  ultimately show "\<exists>r u v. solve_with a b c = Inr r \<and> root_count r = 2 \<and> a * u * u + b * u + c = 0 \<and> a * v * v + b * v + c = 0 \<and>
      u \<noteq> v \<and> \<bar>x1 r - u\<bar> \<le> 1 / 10 ^ 12 / (2 * \<bar>a\<bar>) \<and> \<bar>x2 r - v\<bar> \<le> 1 / 10 ^ 12 / (2 * \<bar>a\<bar>)"
    using roots near [of "- s" "- sqrt delta"] near [of s "sqrt delta"] s
    by (intro exI [of _ "\<lparr>has_real_roots = True, root_count = 2, x1 = (- b + - s) / (2 * a), x2 = (- b + s) / (2 * a)\<rparr>"] exI [of _ ?u] exI [of _ ?v])
      simp
qed

theorem quadratic_solved_witness: "\<exists>r. solve_with 1 (- 3) 2 = Inr r \<and> root_count r = 2"
  using quadratic_solved [of 1 1 "- 3" 2] by auto

text \<open>The cubic equation with a double root: the two values returned are within four and two tolerances of roots.  A
  vanishing leading coefficient and three different roots are refused.\<close>
theorem cubic_double_root:
  assumes "depressed f = (p, q, e)" "coef_a f \<noteq> 0"
  shows "(e < 0 \<longrightarrow> cubic_solve f = Inl Domain_error) \<and>
     (e = 0 \<and> 2 / 10 ^ 12 < \<bar>q\<bar> \<longrightarrow> (\<exists>x y u v. cubic_solve f = Inr (2, [x, y, 0]) \<and> cubic_evaluate f u = 0 \<and> cubic_evaluate f v = 0 \<and>
        \<bar>x - u\<bar> \<le> 4 / 10 ^ 12 \<and> \<bar>y - v\<bar> \<le> 2 / 10 ^ 12))"
proof (intro conjI impI)
  assume "e < 0"
  then show "cubic_solve f = Inl Domain_error"
    using assms by (simp add: cubic_solve_def)
next
  assume e: "e = 0 \<and> 2 / 10 ^ 12 < \<bar>q\<bar>"
  let ?r = "root 3 (- q / 2)" and ?shift = "- coef_b f / (3 * coef_a f)"
  obtain u where u: "ct_cbrt (- q / 2) = Inr u" "\<bar>u - ?r\<bar> \<le> 2 / 10 ^ 12"
    using ct_cbrt_accurate [of "- q / 2"] e by auto
  have "?r * ?r * ?r = - q / 2"
    using odd_real_root_pow [of 3 "- q / 2"] by (simp add: power3_eq_cube)
  note roots = double_root [OF _ this, of p]
  have "cubic_evaluate f (2 * ?r + ?shift) = 0" "cubic_evaluate f (- ?r + ?shift) = 0"
    using roots depressed_equation [OF assms(2,1)] e by simp_all
  moreover have "cubic_solve f = Inr (2, [2 * u + ?shift, - u + ?shift, 0])"
    using assms e u(1) by (auto simp: cubic_solve_def Let_def)
  moreover have "\<bar>(2 * u + ?shift) - (2 * ?r + ?shift)\<bar> \<le> 4 / 10 ^ 12" "\<bar>(- u + ?shift) - (- ?r + ?shift)\<bar> \<le> 2 / 10 ^ 12"
    using u(2) unfolding abs_le_iff by linarith+
  ultimately show "\<exists>x y u v. cubic_solve f = Inr (2, [x, y, 0]) \<and> cubic_evaluate f u = 0 \<and> cubic_evaluate f v = 0 \<and>
      \<bar>x - u\<bar> \<le> 4 / 10 ^ 12 \<and> \<bar>y - v\<bar> \<le> 2 / 10 ^ 12"
    by blast
qed

theorem cubic_double_root_witness:
  "\<exists>x y. cubic_solve \<lparr>coef_a = 1, coef_b = 0, coef_c = - 3, coef_d = 2\<rparr> = Inr (2, [x, y, 0])"
  using cubic_double_root [of "\<lparr>coef_a = 1, coef_b = 0, coef_c = - 3, coef_d = 2\<rparr>" "- 3" 2 0] by (auto simp: depressed_def)

text \<open>The operations of the class for complex numbers are those of the complex field.\<close>

definition cx :: "ct_complex \<Rightarrow> complex" where
  "cx z = Complex (fst z) (snd z)"

theorem complex_operations:
  "cx (c_add z w) = cx z + cx w \<and> cx (c_sub z w) = cx z - cx w \<and> cx (c_mul z w) = cx z * cx w \<and> cx (conjugate z) = cnj (cx z) \<and>
   magnitude_sq z = (cmod (cx z))\<^sup>2 \<and> (if cx w = 0 then c_div z w = Inl NaN else \<exists>v. c_div z w = Inr v \<and> cx v = cx z / cx w)"
proof -
  have "magnitude_sq z = (cmod (cx z))\<^sup>2"
    by (simp only: magnitude_sq_def cx_def cmod_power2 complex.sel) (simp only: power2_eq_square)
  then show ?thesis
    by (auto simp: cx_def c_add_def c_sub_def c_mul_def c_div_def conjugate_def complex_eq_iff power2_eq_square
        Re_divide Im_divide Let_def sum_squares_eq_zero_iff)
qed

text \<open>\<open>pow_int\<close> takes the quotient of the parts for the angle: the first power of minus one is one.\<close>
theorem pow_int_wrong_quadrant: "pow_int (- 1, 0) 1 = Inr (1, 0) \<and> cx (- 1, 0) ^ 1 \<noteq> cx (1, 0)"
proof -
  have "sin_series 0 = 0" "cos_series 0 = 1"
    by (simp_all add: sin_series_sum cos_series_sum sum.lessThan_Suc_shift [of _ 29, simplified])
  then show ?thesis
    using PI_pos pow_loop_power [of 1 "1 :: real" 1]
    by (simp add: pow_int_def magnitude_def magnitude_sq_def ct_sqrt_def ct_pow_def ends_def ct_cos_def ct_sin_def normalize_angle_small cx_def complex_eq_iff)
qed

text \<open>\<open>log\<close> ends for every positive number: its argument is the Euler constant of the code to a whole power, times a
  number between one half and three halves from which ten Halley steps start.\<close>
theorem log_reduces:
  assumes "0 < x"
  shows "\<exists>(k :: int) y. ct_log x = Inr ((halley_step y ^^ 10) (y - 1) + of_int k) \<and> x = y * EULER powi k \<and> 1 / 2 \<le> y \<and> y \<le> 3 / 2"
proof -
  have e: "1 < EULER" "0 < EULER"
    using EULER_bounds(1) by linarith+
  obtain n where "x < EULER ^ n"
    using real_arch_pow [OF e(1)] by blast
  then have "x \<le> 3 / 2 * EULER ^ n"
    using zero_less_power [OF e(2), of n] by linarith
  then obtain m :: nat and y where down: "log_down x 0 = Some (y, of_nat m)" "x = y * EULER ^ m" "0 < y" "y \<le> 3 / 2" "m = 0 \<or> 1 / 2 \<le> y"
    using log_down_ends [OF assms, of n 0] by auto
  obtain n' where "1 / (2 * y) < EULER ^ n'"
    using real_arch_pow [OF e(1)] by blast
  then have "1 \<le> 2 * y * EULER ^ n'"
    using down(3) by (simp add: pos_divide_less_eq mult.commute mult.left_commute)
  then obtain m' :: nat and z where up: "log_up y (of_nat m) = Some (z, of_nat m - of_nat m')" "z = y * EULER ^ m'" "1 / 2 \<le> z" "z \<le> 3 / 2"
    using log_up_ends [OF down(3,4), of n' "of_nat m"] by auto
  have "x = z * EULER powi (int m - int m')"
    using down(2) up(2) e(2) by (simp add: power_int_diff field_simps)
  then show ?thesis
    using assms down(1) up by (intro exI [of _ "int m - int m'"] exI [of _ z]) (simp add: ct_log_def ends_def)
qed

theorem log_reduces_witness: "\<exists>v. ct_log 2 = Inr v"
  using log_reduces [of 2] by auto

end
