(* ===== verification/Math_Matrix.thy ===== *)
theory Math_Matrix
  imports Ct_Real
begin

text \<open>
  The numerical headers of \<open>src/document/laboratory/cpp/Math\<close> on top of \<open>compile_time_math.h\<close>: \<open>Matrix/matrix.h\<close>,
  \<open>Calculus/calculus.h\<close>, \<open>ProbabilityStatistics/prob_and_statis.h\<close>, \<open>OptimizerFunction/optimizer.h\<close> and
  \<open>OptimizeParameter/v0_OP.h\<close>.  A matrix is its array, row by row; the template parameters for its rows and
  columns are arguments.  Numbers are real, or those of any ring where the code only adds and multiplies.
\<close>

subsection \<open>Matrices\<close>

definition m_at :: "nat \<Rightarrow> 'a list \<Rightarrow> nat \<Rightarrow> nat \<Rightarrow> 'a" where
  "m_at cols d r c = d ! (r * cols + c)"

definition m_put :: "nat \<Rightarrow> nat \<Rightarrow> nat \<Rightarrow> 'a \<Rightarrow> 'a list \<Rightarrow> 'a list" where
  "m_put cols r c v d = d[r * cols + c := v]"

definition m_zero :: "nat \<Rightarrow> nat \<Rightarrow> 'a::zero list" where
  "m_zero rows cols = replicate (rows * cols) 0"

definition m_init :: "nat \<Rightarrow> nat \<Rightarrow> 'a::zero list \<Rightarrow> 'a list" where
  "m_init rows cols init_list = fold (\<lambda>(i, v) d. d[i := v]) (zip [0..<rows * cols] init_list) (m_zero rows cols)"

definition cells :: "nat \<Rightarrow> nat \<Rightarrow> (nat \<times> nat) list" where
  "cells rows cols = List.product [0..<rows] [0..<cols]"

definition m_transpose :: "nat \<Rightarrow> nat \<Rightarrow> 'a::zero list \<Rightarrow> 'a list" where
  "m_transpose rows cols d = fold (\<lambda>(r, c). m_put rows c r (m_at cols d r c)) (cells rows cols) (m_zero cols rows)"

definition m_transform :: "('a \<Rightarrow> 'b) \<Rightarrow> 'a list \<Rightarrow> 'b list" where
  "m_transform f d = map f d"

definition get_minor :: "nat \<Rightarrow> nat \<Rightarrow> 'a list \<Rightarrow> nat \<Rightarrow> nat \<Rightarrow> 'a list" where
  "get_minor rows cols A exclude_row exclude_col =
     map (\<lambda>(r, c). m_at cols A r c) (filter (\<lambda>(r, c). r \<noteq> exclude_row \<and> c \<noteq> exclude_col) (cells rows cols))"

fun determinant :: "nat \<Rightarrow> 'a::comm_ring_1 list \<Rightarrow> 'a" where
  "determinant 0 A = 0"
| "determinant (Suc 0) A = m_at 1 A 0 0"
| "determinant (Suc (Suc 0)) A = m_at 2 A 0 0 * m_at 2 A 1 1 - m_at 2 A 0 1 * m_at 2 A 1 0"
| "determinant (Suc (Suc (Suc n))) A =
     fst (fold (\<lambda>c (det, sign).
         let minor_det = determinant (Suc (Suc n)) (get_minor (Suc (Suc (Suc n))) (Suc (Suc (Suc n))) A 0 c)
         in (det + sign * m_at (Suc (Suc (Suc n))) A 0 c * minor_det, - sign))
       [0..<Suc (Suc (Suc n))] (0, 1))"

definition m_multiply :: "nat \<Rightarrow> nat \<Rightarrow> nat \<Rightarrow> 'a::{zero,plus,times} list \<Rightarrow> 'a list \<Rightarrow> 'a list" where
  "m_multiply M K N A B =
     fold (\<lambda>(i, k) result. let temp = m_at K A i k in
         fold (\<lambda>j result. m_put N i j (m_at N result i j + temp * m_at N B k j) result) [0..<N] result)
       (cells M K) (m_zero M N)"

definition constexpr_sqrt :: "real \<Rightarrow> real math" where
  "constexpr_sqrt x =
     (if x < 0 then Inr 0 else if x = 0 \<or> x = 1 then Inr x else ends (newton (sqrt_step x) (1 / 10 ^ 15) x 0))"

text \<open>The product of a matrix with a vector, as the two loops of \<open>power_iteration\<close> compute it.\<close>

definition m_apply :: "nat \<Rightarrow> real list \<Rightarrow> real list \<Rightarrow> real list" where
  "m_apply N A b = map (\<lambda>i. fold (\<lambda>j s. s + m_at N A i j * b ! j) [0..<N] 0) [0..<N]"

fun power_loop :: "nat \<Rightarrow> nat \<Rightarrow> real list \<Rightarrow> real \<Rightarrow> real \<Rightarrow> real list \<Rightarrow> (real \<times> real list) math" where
  "power_loop N 0 A tolerance eigenvalue b_k = Inr (eigenvalue, b_k)"
| "power_loop N (Suc iter) A tolerance eigenvalue b_k =
     (let b_k1 = m_apply N A b_k in
      bind_math (constexpr_sqrt (fold (\<lambda>i s. s + b_k1 ! i * b_k1 ! i) [0..<N] 0)) (\<lambda>norm.
      if norm < 1 / 10 ^ 12 then Inr (eigenvalue, b_k)
      else
        let b_k1 = map (\<lambda>x. x / norm) b_k1;
            ax = m_apply N A b_k1;
            next_eigenvalue = fold (\<lambda>i s. s + b_k1 ! i * ax ! i) [0..<N] 0;
            diff = next_eigenvalue - eigenvalue;
            abs_diff = (if diff < 0 then - diff else diff)
        in if abs_diff < tolerance then Inr (next_eigenvalue, b_k1)
           else power_loop N iter A tolerance next_eigenvalue b_k1))"

text \<open>\<open>std::array<double, N> b_k{1.0}\<close> sets the first element only.\<close>

definition power_iteration :: "nat \<Rightarrow> real list \<Rightarrow> nat \<Rightarrow> real \<Rightarrow> (real \<times> real list) math" where
  "power_iteration N A max_iterations tolerance = power_loop N max_iterations A tolerance 0 (1 # replicate (N - 1) 0)"

subsection \<open>Derivatives\<close>

definition derivative :: "(real \<Rightarrow> real) \<Rightarrow> real \<Rightarrow> real \<Rightarrow> real" where
  "derivative f x h = (f (x + h) - f (x - h)) / (2 * h)"

definition compute_gradient :: "(real list \<Rightarrow> real) \<Rightarrow> real list \<Rightarrow> real \<Rightarrow> real list" where
  "compute_gradient f x h = map (\<lambda>i. (f (x[i := x ! i + h]) - f (x[i := x ! i - h])) / (2 * h)) [0..<length x]"

fun gradient_descent :: "(real list \<Rightarrow> real) \<Rightarrow> real \<Rightarrow> real \<Rightarrow> nat \<Rightarrow> real list \<Rightarrow> real list" where
  "gradient_descent loss learning_rate tolerance 0 position = position"
| "gradient_descent loss learning_rate tolerance (Suc epochs) position =
     (let grad = compute_gradient loss position (1 / 10 ^ 5);
          grad_norm = fold (\<lambda>g s. s + g * g) grad 0
      in if sqrt grad_norm < tolerance then position
         else gradient_descent loss learning_rate tolerance epochs
           (map (\<lambda>i. position ! i - learning_rate * grad ! i) [0..<length position]))"

definition compute_matrix_gradient :: "nat \<Rightarrow> nat \<Rightarrow> (real list \<Rightarrow> real) \<Rightarrow> real list \<Rightarrow> real \<Rightarrow> real list" where
  "compute_matrix_gradient rows cols loss W h =
     fold (\<lambda>(r, c). m_put cols r c
         ((loss (m_put cols r c (m_at cols W r c + h) W) - loss (m_put cols r c (m_at cols W r c - h) W)) / (2 * h)))
       (cells rows cols) (m_zero rows cols)"

fun matrix_gradient_descent :: "nat \<Rightarrow> nat \<Rightarrow> (real list \<Rightarrow> real) \<Rightarrow> real \<Rightarrow> real \<Rightarrow> nat \<Rightarrow> real list \<Rightarrow> real list" where
  "matrix_gradient_descent rows cols loss learning_rate tolerance 0 W = W"
| "matrix_gradient_descent rows cols loss learning_rate tolerance (Suc epochs) W =
     (let grad = compute_matrix_gradient rows cols loss W (1 / 10 ^ 5);
          norm = fold (\<lambda>(r, c) s. s + m_at cols grad r c * m_at cols grad r c) (cells rows cols) 0
      in if sqrt norm < tolerance then W
         else matrix_gradient_descent rows cols loss learning_rate tolerance epochs
           (fold (\<lambda>(r, c) W. m_put cols r c (m_at cols W r c - learning_rate * m_at cols grad r c) W) (cells rows cols) W))"

definition compute_mse_loss :: "nat \<Rightarrow> nat \<Rightarrow> real list \<Rightarrow> real list \<Rightarrow> real list \<Rightarrow> real" where
  "compute_mse_loss M K X Y W =
     (let Y_pred = m_multiply M K 1 X W
      in fold (\<lambda>i s. let err = m_at 1 Y_pred i 0 - m_at 1 Y i 0 in s + err * err) [0..<M] 0 / of_nat M)"

definition compute_weight_gradient :: "nat \<Rightarrow> (real list \<Rightarrow> real) \<Rightarrow> real list \<Rightarrow> real \<Rightarrow> real list" where
  "compute_weight_gradient K loss W h =
     fold (\<lambda>r. m_put 1 r 0 ((loss (m_put 1 r 0 (m_at 1 W r 0 + h) W) - loss (m_put 1 r 0 (m_at 1 W r 0 - h) W)) / (2 * h)))
       [0..<K] (m_zero K 1)"

subsection \<open>Statistics and losses\<close>

record data_stats =
  mean :: real
  variance :: real
  standard_deviation :: real

definition compute_statistics :: "real list \<Rightarrow> data_stats math" where
  "compute_statistics dataset =
     (let sum = fold (\<lambda>v s. s + v) dataset 0;
          mean = sum / of_nat (length dataset);
          squared_diff_sum = fold (\<lambda>v s. let diff = v - mean in s + diff * diff) dataset 0;
          variance = squared_diff_sum / of_nat (length dataset - 1)
      in bind_math (ct_sqrt variance) (\<lambda>std_dev. Inr \<lparr>mean = mean, variance = variance, standard_deviation = std_dev\<rparr>))"

definition column_mean :: "nat \<Rightarrow> nat \<Rightarrow> real list \<Rightarrow> nat \<Rightarrow> real" where
  "column_mean rows cols X c = fold (\<lambda>r s. s + m_at cols X r c) [0..<rows] 0 / of_nat rows"

definition column_std :: "nat \<Rightarrow> nat \<Rightarrow> real list \<Rightarrow> nat \<Rightarrow> real math" where
  "column_std rows cols X c =
     (let squared_diff_sum = fold (\<lambda>r s. let diff = m_at cols X r c - column_mean rows cols X c in s + diff * diff) [0..<rows] 0
      in bind_math (ct_sqrt (squared_diff_sum / of_nat (rows - 1))) (\<lambda>s. Inr (if s < 1 / 10 ^ 12 then 1 else s)))"

text \<open>The statistics of all columns come first; then the elements are scaled.\<close>

fun all_math :: "'a math list \<Rightarrow> 'a list math" where
  "all_math [] = Inr []"
| "all_math (x # xs) = bind_math x (\<lambda>a. bind_math (all_math xs) (\<lambda>as. Inr (a # as)))"

definition z_score_normalize :: "nat \<Rightarrow> nat \<Rightarrow> real list \<Rightarrow> real list math" where
  "z_score_normalize rows cols X =
     (let means = map (column_mean rows cols X) [0..<cols]
      in bind_math (all_math (map (column_std rows cols X) [0..<cols])) (\<lambda>std_devs.
         Inr (fold (\<lambda>(r, c). m_put cols r c ((m_at cols X r c - means ! c) / std_devs ! c)) (cells rows cols) (m_zero rows cols))))"

definition clip_prediction :: "real \<Rightarrow> real" where
  "clip_prediction p = (let epsilon = 1 / 10 ^ 15; p = (if p < epsilon then epsilon else p) in if p > 1 - epsilon then 1 - epsilon else p)"

fun cross_entropy_loop :: "(real \<times> real) list \<Rightarrow> real \<Rightarrow> real math" where
  "cross_entropy_loop [] total_loss = Inr total_loss"
| "cross_entropy_loop ((y, p) # rest) total_loss =
     (let p = clip_prediction p in
      bind_math (ct_log p) (\<lambda>lp. bind_math (ct_log (1 - p)) (\<lambda>lq. cross_entropy_loop rest (total_loss + (y * lp + (1 - y) * lq)))))"

definition compute_binary_cross_entropy :: "real list \<Rightarrow> real list \<Rightarrow> real math" where
  "compute_binary_cross_entropy targets predictions =
     bind_math (cross_entropy_loop (zip targets predictions) 0) (\<lambda>total_loss. Inr (- total_loss / of_nat (length targets)))"

definition wavy :: "real \<Rightarrow> real" where
  "wavy w = 4 * w * w * w - 6 * w * w + 4"

definition compute_wavy_gradient :: "nat \<Rightarrow> nat \<Rightarrow> real list \<Rightarrow> real list" where
  "compute_wavy_gradient rows cols W =
     fold (\<lambda>(r, c). m_put cols r c (wavy (m_at cols W r c))) (cells rows cols) (m_zero rows cols)"

fun momentum_loop :: "nat \<Rightarrow> nat \<Rightarrow> real \<Rightarrow> real \<Rightarrow> nat \<Rightarrow> real list \<times> real list \<Rightarrow> real list \<times> real list" where
  "momentum_loop rows cols alpha beta 0 s = s"
| "momentum_loop rows cols alpha beta (Suc epochs) (W, V) =
     (let grad = compute_wavy_gradient rows cols W
      in momentum_loop rows cols alpha beta epochs
        (fold (\<lambda>(r, c) (W, V).
            let V = m_put cols r c (beta * m_at cols V r c + (1 - beta) * m_at cols grad r c) V
            in (m_put cols r c (m_at cols W r c - alpha * m_at cols V r c) W, V))
          (cells rows cols) (W, V)))"

definition train_with_momentum :: "nat \<Rightarrow> nat \<Rightarrow> real list \<Rightarrow> real \<Rightarrow> real \<Rightarrow> nat \<Rightarrow> real list" where
  "train_with_momentum rows cols W alpha beta epochs =
     fst (momentum_loop rows cols alpha beta epochs (W, m_zero rows cols))"

subsection \<open>Cells\<close>

lemma set_cells: "set (cells rows cols) = {..<rows} \<times> {..<cols}"
  by (auto simp: cells_def)

lemma no_cells [simp]: "cells rows 0 = []" "cells 0 cols = []"
  using set_cells [of rows 0] set_cells [of 0 cols] by simp_all

lemma distinct_cells: "distinct (cells rows cols)"
  by (simp add: cells_def distinct_product)

lemma cell_index_inj: "(c :: nat) < cols \<Longrightarrow> c' < cols \<Longrightarrow> r * cols + c = r' * cols + c' \<longleftrightarrow> r = r' \<and> c = c'"
proof
  assume c: "c < cols" "c' < cols" and e: "r * cols + c = r' * cols + c'"
  have "(r * cols + c) div cols = r \<and> (r * cols + c) mod cols = c" if "c < cols" for r c :: nat
    using that by simp
  from this [OF c(1), of r] this [OF c(2), of r'] show "r = r' \<and> c = c'"
    using e by simp
qed simp

lemma cell_index_less: "(r :: nat) < rows \<Longrightarrow> c < cols \<Longrightarrow> r * cols + c < rows * cols"
proof -
  assume "r < rows" "c < cols"
  then have "r * cols + c < Suc r * cols"
    by simp
  also have "\<dots> \<le> rows * cols"
    using \<open>r < rows\<close> by (intro mult_le_mono1) simp
  finally show ?thesis .
qed

lemma length_m_put [simp]: "length (m_put cols r c v d) = length d"
  by (simp add: m_put_def)

lemma length_m_zero [simp]: "length (m_zero rows cols) = rows * cols"
  by (simp add: m_zero_def)

lemma m_at_put:
  assumes "length d = rows * cols" "r < rows" "c < cols" "r' < rows" "c' < cols"
  shows "m_at cols (m_put cols r c v d) r' c' = (if r' = r \<and> c' = c then v else m_at cols d r' c')"
  using assms cell_index_less [of r rows c cols] cell_index_inj [of c cols c' r r']
  by (auto simp: m_at_def m_put_def nth_list_update)

lemma m_at_zero: "r < rows \<Longrightarrow> c < cols \<Longrightarrow> m_at cols (m_zero rows cols) r c = 0"
  by (simp add: m_at_def m_zero_def cell_index_less)

lemma fold_put_length [simp]: "length (fold (\<lambda>(r, c). m_put cols r c (f r c)) ps d) = length d"
  by (induction ps arbitrary: d) (simp_all add: case_prod_beta)

lemma fold_put_at:
  assumes "length d = rows * cols" "set ps \<subseteq> {..<rows} \<times> {..<cols}" "i < rows" "j < cols"
  shows "m_at cols (fold (\<lambda>(r, c). m_put cols r c (f r c)) ps d) i j = (if (i, j) \<in> set ps then f i j else m_at cols d i j)"
  using assms(1,2)
proof (induction ps arbitrary: d)
  case (Cons p ps)
  obtain r c where p: "p = (r, c)"
    by fastforce
  then show ?case
    using Cons m_at_put [of d rows cols r c i j "f r c"] assms(3,4) by auto
qed simp

text \<open>The nested loops that assign every element of a matrix.\<close>

lemma fill_at:
  assumes "length d = rows * cols" "i < rows" "j < cols"
  shows "m_at cols (fold (\<lambda>(r, c). m_put cols r c (f r c)) (cells rows cols) d) i j = f i j"
  using fold_put_at [OF assms(1) _ assms(2,3), of "cells rows cols" f] assms(2,3) by (simp add: set_cells)

lemma matrix_eqI:
  assumes "length d = rows * cols" "length e = rows * cols" "\<And>i j. i < rows \<Longrightarrow> j < cols \<Longrightarrow> m_at cols d i j = m_at cols e i j"
  shows "d = e"
proof (rule nth_equalityI)
  fix k
  assume "k < length d"
  then have k: "k div cols < rows" "k mod cols < cols" "k div cols * cols + k mod cols = k"
    using assms(1) by (auto simp: less_mult_imp_div_less mult.commute intro!: mod_less_divisor gr0I)
  show "d ! k = e ! k"
    using assms(3) [OF k(1,2)] k(3) by (simp add: m_at_def)
qed (use assms in simp)

lemma fold_sum: "fold (\<lambda>i s. s + f i) [0..<n] a = a + (\<Sum>i<n. f i :: 'a::comm_monoid_add)"
  by (induction n) (simp_all add: add.assoc)

lemma transpose_at:
  assumes "length d = rows * cols" "i < cols" "j < rows"
  shows "m_at rows (m_transpose rows cols d) i j = m_at cols d j i" "length (m_transpose rows cols d) = cols * rows"
proof -
  have e: "m_transpose rows cols d = fold (\<lambda>(c, r). m_put rows c r (m_at cols d r c)) (map prod.swap (cells rows cols)) (m_zero cols rows)"
    by (simp add: m_transpose_def fold_map comp_def split_def)
  have "set (map prod.swap (cells rows cols)) = {..<cols} \<times> {..<rows}"
    by (auto simp: set_cells)
  then show "m_at rows (m_transpose rows cols d) i j = m_at cols d j i"
    unfolding e using fold_put_at [of "m_zero cols rows" cols rows "map prod.swap (cells rows cols)" i j "\<lambda>c r. m_at cols d r c"] assms(2,3)
    by simp
  show "length (m_transpose rows cols d) = cols * rows"
    unfolding e by simp
qed

subsection \<open>The product\<close>

lemma row_step_length [simp]:
  "length (fold (\<lambda>j result. m_put N i j (m_at N result i j + temp * m_at N B k j) result) js res) = length res"
  by (induction js arbitrary: res) simp_all

lemma row_step:
  fixes res :: "'a::semiring_0 list"
  assumes "length res = M * N" "i < M" "i' < M" "j' < N" "n \<le> N"
  shows "m_at N (fold (\<lambda>j result. m_put N i j (m_at N result i j + temp * m_at N B k j) result) [0..<n] res) i' j' =
    (if i' = i \<and> j' < n then m_at N res i' j' + temp * m_at N B k j' else m_at N res i' j')"
  using assms(5)
proof (induction n)
  case (Suc n)
  have "m_at N (m_put N i n v r) i' j' = (if i' = i \<and> j' = n then v else m_at N r i' j')" if "length r = M * N" for v and r :: "'a list"
    using that assms Suc.prems by (intro m_at_put) simp_all
  then show ?case
    using Suc assms(1) by auto
qed simp

lemma multiply_fold:
  fixes res :: "'a::semiring_0 list"
  assumes "length res = M * N" "set ps \<subseteq> {..<M} \<times> {..<K}" "i < M" "j < N"
  shows "m_at N (fold (\<lambda>(i, k) result. let temp = m_at K A i k in
         fold (\<lambda>j result. m_put N i j (m_at N result i j + temp * m_at N B k j) result) [0..<N] result) ps res) i j =
    m_at N res i j + sum_list (map (\<lambda>(i', k). if i' = i then m_at K A i k * m_at N B k j else 0) ps)"
  using assms(1,2)
proof (induction ps arbitrary: res)
  case (Cons p ps)
  obtain i' k where p: "p = (i', k)"
    by fastforce
  have "i' < M"
    using Cons.prems(2) p by auto
  then show ?case
    using Cons p row_step [OF Cons.prems(1) \<open>i' < M\<close> assms(3,4), of N "m_at K A i' k" B k] assms(4)
    by (auto simp: Let_def add.assoc)
qed simp

lemma multiply_at:
  fixes A :: "'a::semiring_0 list"
  assumes "i < M" "j < N"
  shows "m_at N (m_multiply M K N A B) i j = (\<Sum>k<K. m_at K A i k * m_at N B k j)"
proof -
  have "sum_list (map (\<lambda>(i', k). if i' = i then m_at K A i k * m_at N B k j else 0) (cells M K)) =
      (\<Sum>p\<in>{..<M} \<times> {..<K}. case p of (i', k) \<Rightarrow> if i' = i then m_at K A i k * m_at N B k j else 0)"
    using sum_list_distinct_conv_sum_set [OF distinct_cells [of M K]] by (simp add: set_cells)
  also have "\<dots> = (\<Sum>i'<M. \<Sum>k<K. if i' = i then m_at K A i k * m_at N B k j else 0)"
    by (simp add: sum.cartesian_product)
  also have "\<dots> = (\<Sum>i'<M. if i' = i then \<Sum>k<K. m_at K A i k * m_at N B k j else 0)"
    by (intro sum.cong) simp_all
  also have "\<dots> = (\<Sum>k<K. m_at K A i k * m_at N B k j)"
    using assms(1) by simp
  finally show ?thesis
    unfolding m_multiply_def using multiply_fold [of "m_zero M N" M N "cells M K" K i j A B] assms by (simp add: set_cells m_at_zero)
qed

lemma multiply_length: "length (m_multiply M K N A B) = M * N"
proof -
  have "length (fold (\<lambda>(i, k) result. let temp = m_at K A i k in
         fold (\<lambda>j result. m_put N i j (m_at N result i j + temp * m_at N B k j) result) [0..<N] result) ps res) = length res" for ps res
    by (induction ps arbitrary: res) (auto simp: Let_def)
  then show ?thesis
    by (simp add: m_multiply_def)
qed

subsection \<open>The mean squared error\<close>

lemma column_vector [simp]: "m_at (Suc 0) d r 0 = d ! r" "m_put (Suc 0) r 0 v d = d[r := v]"
  by (simp_all add: m_at_def m_put_def)

definition residual :: "nat \<Rightarrow> real list \<Rightarrow> real list \<Rightarrow> real list \<Rightarrow> nat \<Rightarrow> real" where
  "residual K X Y W i = (\<Sum>k<K. m_at K X i k * W ! k) - Y ! i"

lemma mse_residuals: "compute_mse_loss M K X Y W = (\<Sum>i<M. (residual K X Y W i)\<^sup>2) / of_nat M"
proof -
  have "m_at 1 (m_multiply M K 1 X W) i 0 - m_at 1 Y i 0 = residual K X Y W i" if "i < M" for i
    using multiply_at [OF that, of 0 1 K X W] by (simp add: residual_def)
  then have "(\<Sum>i<M. (m_at 1 (m_multiply M K 1 X W) i 0 - m_at 1 Y i 0) * (m_at 1 (m_multiply M K 1 X W) i 0 - m_at 1 Y i 0)) =
      (\<Sum>i<M. (residual K X Y W i)\<^sup>2)"
    by (intro sum.cong) (simp_all add: power2_eq_square)
  then show ?thesis
    by (simp add: compute_mse_loss_def Let_def fold_sum [where a = 0, simplified])
qed

lemma residual_update:
  assumes "length W = K" "r < K"
  shows "residual K X Y (W[r := W ! r + t]) i = residual K X Y W i + t * m_at K X i r"
proof -
  have "(\<Sum>k<K. m_at K X i k * W[r := W ! r + t] ! k) = (\<Sum>k<K. m_at K X i k * W ! k + (if k = r then t * m_at K X i r else 0))"
    using assms by (intro sum.cong) (auto simp: nth_list_update algebra_simps)
  then show ?thesis
    using assms(2) by (simp add: residual_def sum.distrib)
qed

lemma weight_gradient_at:
  assumes "i < K"
  shows "compute_weight_gradient K loss W h ! i = (loss (W[i := W ! i + h]) - loss (W[i := W ! i - h])) / (2 * h)"
proof -
  let ?f = "\<lambda>r (c :: nat). (loss (m_put 1 r 0 (m_at 1 W r 0 + h) W) - loss (m_put 1 r 0 (m_at 1 W r 0 - h) W)) / (2 * h)"
  have e: "cells K 1 = map (\<lambda>r. (r, 0)) [0..<K]"
    by (simp add: cells_def product_concat_map concat_map_singleton)
  have "compute_weight_gradient K loss W h = fold (\<lambda>(r, c). m_put 1 r c (?f r c)) (cells K 1) (m_zero K 1)"
    unfolding e by (simp add: compute_weight_gradient_def fold_map comp_def)
  then show ?thesis
    using fill_at [of "m_zero K 1" K 1 i 0 ?f] assms by simp
qed

subsection \<open>The first axis\<close>

definition first_axis :: "nat \<Rightarrow> real list" where
  "first_axis N = 1 # replicate (N - 1) 0"

lemma first_axis_nth: "i < N \<Longrightarrow> first_axis N ! i = (if i = 0 then 1 else 0)"
  by (cases i) (auto simp: first_axis_def)

lemma apply_first_axis:
  assumes "0 < N" "\<And>i. i < N \<Longrightarrow> m_at N A i 0 = (if i = 0 then 1 else 0)"
  shows "m_apply N A (first_axis N) = first_axis N"
proof (rule nth_equalityI)
  fix i
  assume "i < length (m_apply N A (first_axis N))"
  then have i: "i < N"
    by (simp add: m_apply_def)
  have "(\<Sum>j<N. m_at N A i j * first_axis N ! j) = (\<Sum>j<N. if j = 0 then m_at N A i 0 else 0)"
    by (intro sum.cong) (auto simp: first_axis_nth)
  then show "m_apply N A (first_axis N) ! i = first_axis N ! i"
    using i assms by (simp add: m_apply_def fold_sum first_axis_nth)
qed (use assms(1) in \<open>simp add: m_apply_def first_axis_def\<close>)

lemma first_axis_square: "0 < N \<Longrightarrow> fold (\<lambda>i s. s + first_axis N ! i * first_axis N ! i) [0..<N] 0 = 1"
proof -
  assume "0 < N"
  have "(\<Sum>i<N. first_axis N ! i * first_axis N ! i) = (\<Sum>i<N. if i = 0 then 1 else 0)"
    by (intro sum.cong) (auto simp: first_axis_nth)
  then show ?thesis
    using \<open>0 < N\<close> by (simp add: fold_sum)
qed

lemma power_loop_first_axis:
  assumes "0 < N" "\<And>i. i < N \<Longrightarrow> m_at N A i 0 = (if i = 0 then 1 else 0)" "0 < tolerance" "0 < iter \<or> v = 1"
  shows "power_loop N iter A tolerance v (first_axis N) = Inr (1, first_axis N)"
  using assms(4)
proof (induction iter arbitrary: v)
  case (Suc iter)
  note step = apply_first_axis [OF assms(1,2)] first_axis_square [OF assms(1)]
  show ?case
    using Suc.IH [of 1] assms(3) by (simp add: step constexpr_sqrt_def Let_def)
qed simp

subsection \<open>Central differences\<close>

lemma central_difference_limit:
  assumes "(f has_real_derivative D) (at x)"
  shows "((\<lambda>h. derivative f x h) \<longlongrightarrow> D) (at 0)"
proof -
  let ?q = "\<lambda>h. (f (x + h) - f x) / h"
  have q: "(?q \<longlongrightarrow> D) (at 0)"
    using assms by (simp add: DERIV_def)
  have "filterlim uminus (at (0 :: real)) (at 0)"
    by (simp add: filterlim_at eventually_at_filter tendsto_minus_cancel_left [of _ 0, simplified])
  from filterlim_compose [OF q this] have "((\<lambda>h. ?q (- h)) \<longlongrightarrow> D) (at 0)" .
  then have "((\<lambda>h. (?q h + ?q (- h)) / 2) \<longlongrightarrow> (D + D) / 2) (at 0)"
    by (intro tendsto_divide tendsto_add q) simp_all
  then have lim: "((\<lambda>h. (?q h + ?q (- h)) / 2) \<longlongrightarrow> D) (at 0)"
    by simp
  have "(?q h + ?q (- h)) / 2 = derivative f x h" if "h \<noteq> 0" for h
    using that by (simp add: derivative_def field_simps)
  then have "eventually (\<lambda>h. (?q h + ?q (- h)) / 2 = derivative f x h) (at 0)"
    unfolding eventually_at_filter by (intro always_eventually allI impI)
  then show ?thesis
    by (rule Lim_transform_eventually [OF lim])
qed

subsection \<open>Scaled columns\<close>

lemma ct_sqrt_total: "0 \<le> v \<Longrightarrow> \<exists>x. ct_sqrt v = Inr x"
  using ct_sqrt_accurate [of v] ct_sqrt_tiny [of v] by (cases "1 / 10 ^ 12 < v") auto

lemma all_math_ok: "(\<And>x. x \<in> set xs \<Longrightarrow> \<exists>v. x = Inr v) \<Longrightarrow> \<exists>vs. all_math xs = Inr vs"
proof (induction xs)
  case (Cons x xs)
  then obtain v vs where "x = Inr v" "all_math xs = Inr vs"
    by (metis list.set_intros(1,2))
  then show ?case
    by simp
qed simp

lemma column_std_total: "\<exists>s. column_std rows cols X c = Inr s"
proof -
  let ?q = "fold (\<lambda>r s. let diff = m_at cols X r c - column_mean rows cols X c in s + diff * diff) [0..<rows] 0"
  have "0 \<le> ?q"
    by (simp add: Let_def fold_sum sum_nonneg)
  then obtain v where "ct_sqrt (?q / of_nat (rows - 1)) = Inr v"
    using ct_sqrt_total [of "?q / of_nat (rows - 1)"] by auto
  then show ?thesis
    by (simp add: column_std_def Let_def)
qed

lemma scaled_mean_zero:
  assumes "0 < rows"
  shows "(\<Sum>r<rows. (m_at cols X r c - column_mean rows cols X c) / s) = 0"
proof -
  have "(\<Sum>r<rows. m_at cols X r c - column_mean rows cols X c) = 0"
    using assms by (simp add: sum_subtractf column_mean_def fold_sum)
  then show ?thesis
    by (simp add: sum_divide_distrib [symmetric])
qed

subsection \<open>Properties\<close>

text \<open>\<open>multiply\<close> computes the matrix product, and transposing twice gives the matrix back.\<close>
theorem matrix_product:
  fixes A :: "'a::semiring_0 list"
  shows "(\<forall>i<M. \<forall>j<N. m_at N (m_multiply M K N A B) i j = (\<Sum>k<K. m_at K A i k * m_at N B k j)) \<and>
     (length A = M * K \<longrightarrow> m_transpose K M (m_transpose M K A) = A)"
proof (intro conjI impI allI)
  fix i j
  assume "i < M" "j < N"
  then show "m_at N (m_multiply M K N A B) i j = (\<Sum>k<K. m_at K A i k * m_at N B k j)"
    by (rule multiply_at)
next
  assume l: "length A = M * K"
  show "m_transpose K M (m_transpose M K A) = A"
  proof (cases "M = 0 \<or> K = 0")
    case True
    then show ?thesis
      using l by (auto simp: m_transpose_def m_zero_def)
  next
    case False
    have t: "length (m_transpose M K A) = K * M"
      using transpose_at(2) [OF l, of 0 0] False by simp
    show ?thesis
    proof (rule matrix_eqI [of _ M K])
      show "length (m_transpose K M (m_transpose M K A)) = M * K"
        using transpose_at(2) [OF t, of 0 0] False by simp
      show "m_at K (m_transpose K M (m_transpose M K A)) i j = m_at K A i j" if "i < M" "j < K" for i j
        using transpose_at(1) [OF t that] transpose_at(1) [OF l that(2,1)] by simp
    qed (rule l)
  qed
qed

theorem matrix_product_witness: "m_transpose 3 2 (m_transpose 2 3 [1, 2, 3, 4, 5, 6 :: int]) = [1, 2, 3, 4, 5, 6]"
  using matrix_product [where A = "[1, 2, 3, 4, 5, 6 :: int]" and M = 2 and K = 3 and N = 0 and B = "[]"] by simp



text \<open>The power iteration starts from the first axis and not, as its comment says, from a vector of ones: when the first
  column of the matrix is that axis, it returns the eigenvalue one, whatever the other eigenvalues are.\<close>
theorem power_iteration_first_axis:
  assumes "0 < N" "\<forall>i<N. m_at N A i 0 = (if i = 0 then 1 else 0)" "0 < max_iterations" "0 < tolerance"
  shows "power_iteration N A max_iterations tolerance = Inr (1, 1 # replicate (N - 1) 0)"
  using power_loop_first_axis [of N A tolerance max_iterations 0] assms by (simp add: power_iteration_def first_axis_def)

theorem power_iteration_first_axis_witness: "power_iteration 2 [1, 0, 0, 2] 1000 (1 / 10 ^ 7) = Inr (1, [1, 0])"
  using power_iteration_first_axis [of 2 "[1, 0, 0, 2]" 1000 "1 / 10 ^ 7"] by (auto simp: m_at_def less_Suc_eq numeral_2_eq_2)

text \<open>Central differences converge to the derivative as the step goes to zero, and are the derivative for every step
  where the function is a polynomial of the second degree.\<close>
theorem central_difference_correct:
  assumes "(f has_real_derivative D) (at x)" "h \<noteq> 0"
  shows "((\<lambda>h. derivative f x h) \<longlongrightarrow> D) (at 0) \<and> derivative (\<lambda>x. a * x * x + b * x + c) x h = 2 * a * x + b"
  using central_difference_limit [OF assms(1)] assms(2) by (simp add: derivative_def field_simps)

theorem central_difference_correct_witness: "((\<lambda>h. derivative sin 0 h) \<longlongrightarrow> cos 0) (at 0)"
  using central_difference_correct [OF DERIV_sin, of 1 0] by simp

text \<open>Normalization returns a matrix, and every column of it has the mean zero.\<close>
theorem z_scores_centred:
  assumes "1 < rows"
  shows "\<exists>Z. z_score_normalize rows cols X = Inr Z \<and> (\<forall>c<cols. (\<Sum>r<rows. m_at cols Z r c) = 0)"
proof -
  obtain sds where sds: "all_math (map (column_std rows cols X) [0..<cols]) = Inr sds"
    using all_math_ok [of "map (column_std rows cols X) [0..<cols]"] column_std_total by fastforce
  let ?Z = "fold (\<lambda>(r, c). m_put cols r c ((m_at cols X r c - map (column_mean rows cols X) [0..<cols] ! c) / sds ! c)) (cells rows cols) (m_zero rows cols)"
  have "(\<Sum>r<rows. m_at cols ?Z r c) = (\<Sum>r<rows. (m_at cols X r c - column_mean rows cols X c) / sds ! c)" if "c < cols" for c
  proof (intro sum.cong)
    fix r
    assume "r \<in> {..<rows}"
    then show "m_at cols ?Z r c = (m_at cols X r c - column_mean rows cols X c) / sds ! c"
      using that by (subst fill_at [of _ rows]) simp_all
  qed simp
  then show ?thesis
    using sds scaled_mean_zero [of rows cols X] assms by (intro exI [of _ ?Z]) (simp add: z_score_normalize_def)
qed

theorem z_scores_centred_witness: "\<exists>Z. z_score_normalize 2 1 [3, 5] = Inr Z \<and> (\<Sum>r<2. m_at 1 Z r 0) = 0"
  using z_scores_centred [of 2 1 "[3, 5]"] by auto

text \<open>The gradient the optimizer descends is that of \<open>w ^ 4 - 2 * w ^ 3 + 4 * w\<close>; it is not the gradient of the loss in
  the comment, \<open>w ^ 4 - 4 * w ^ 3 + 4 * w\<close>, nor the formula in the next comment, \<open>4 * w ^ 3 - 8 * w + 2\<close>.\<close>
theorem wavy_gradient_of:
  "((\<lambda>w. w ^ 4 - 2 * w ^ 3 + 4 * w) has_real_derivative wavy w) (at w) \<and>
   ((\<lambda>w. w ^ 4 - 4 * w ^ 3 + 4 * w) has_real_derivative 4 * w ^ 3 - 12 * w ^ 2 + 4) (at w) \<and> wavy 1 \<noteq> 4 * 1 ^ 3 - 12 * 1 ^ 2 + 4 \<and> wavy 1 \<noteq> 4 * 1 ^ 3 - 8 * 1 + 2"
  by (auto simp: wavy_def power2_eq_square power3_eq_cube intro!: derivative_eq_intros)

text \<open>The expansion along the first row gives the rule of Sarrus for three rows.\<close>
theorem determinant_sarrus:
  "determinant 3 [a, b, c, d, e, f, g, h, i :: 'a::comm_ring_1] = a * e * i + b * f * g + c * d * h - c * e * g - b * d * i - a * f * h"
  by (simp add: eval_nat_numeral get_minor_def m_at_def cells_def algebra_simps)

end
