(* ===== verification/Block_Pool.thy ===== *)
theory Block_Pool
  imports Prelude
begin

text \<open>
  Free lists threaded through the blocks of a pool, and the pool allocator of
  \<open>src/document/laboratory/cpp/FriendlyCache/PoolAllocator.h\<close>.  Blocks are numbered; the pointer stored in
  an unused block is a function from block numbers to pointers.

  The locale \<open>free_list\<close> states what a client of a pool relies on.  It is interpreted here for
  \<open>PoolAllocator\<close> and in \<open>Order_Heap\<close> for the pool of the order book.
\<close>

section \<open>Chains of blocks\<close>

type_synonym ptr = "nat option"

fun chain :: "(nat \<Rightarrow> ptr) \<Rightarrow> ptr \<Rightarrow> nat list \<Rightarrow> bool" where
  "chain nx p [] = (p = None)"
| "chain nx p (a # as) = (p = Some a \<and> chain nx (nx a) as)"

lemma chain_None [simp]: "chain nx None as \<longleftrightarrow> as = []"
  by (cases as) auto

lemma chain_Some [simp]: "chain nx (Some a) as \<longleftrightarrow> (\<exists>as'. as = a # as' \<and> chain nx (nx a) as')"
  by (cases as) auto

lemma chain_agree: "chain nx p as \<Longrightarrow> \<forall>a \<in> set as. nx' a = nx a \<Longrightarrow> chain nx' p as"
  by (induction as arbitrary: p) auto

text \<open>The unused blocks of a pool, given those in use.\<close>

definition pool_inv :: "(nat \<Rightarrow> ptr) \<Rightarrow> ptr \<Rightarrow> nat set \<Rightarrow> nat set \<Rightarrow> bool" where
  "pool_inv nx p blocks live \<longleftrightarrow>
     (\<exists>fs. chain nx p fs \<and> distinct fs \<and> set fs \<inter> live = {} \<and> set fs \<union> live = blocks)"

lemma pool_inv_cong:
  assumes "pool_inv nx p blocks live" and "\<And>a. a \<in> blocks - live \<Longrightarrow> nx' a = nx a"
  shows "pool_inv nx' p blocks live"
proof -
  obtain fs where "chain nx p fs" "distinct fs" "set fs \<inter> live = {}" "set fs \<union> live = blocks"
    using assms(1) by (auto simp: pool_inv_def)
  moreover from this have "chain nx' p fs"
    using assms(2) chain_agree [of nx p fs nx'] by blast
  ultimately show ?thesis by (auto simp: pool_inv_def)
qed

section \<open>What a pool promises\<close>

locale free_list =
  fixes next_of :: "'s \<Rightarrow> nat \<Rightarrow> ptr" and root :: "'s \<Rightarrow> ptr"
    and take :: "'s \<Rightarrow> (nat \<times> 's) option" and give :: "nat \<Rightarrow> 's \<Rightarrow> 's"
  assumes take_empty: "root s = None \<Longrightarrow> take s = None"
    and take_root: "root s = Some a \<Longrightarrow>
      \<exists>s'. take s = Some (a, s') \<and> root s' = next_of s a \<and> (\<forall>b. b \<noteq> a \<longrightarrow> next_of s' b = next_of s b)"
    and give_root: "root (give a s) = Some a" "next_of (give a s) a = root s"
      "b \<noteq> a \<Longrightarrow> next_of (give a s) b = next_of s b"
begin

text \<open>As long as a block is unused a request is granted, with an unused block.\<close>

lemma take_fresh:
  assumes inv: "pool_inv (next_of s) (root s) blocks live" and room: "live \<noteq> blocks"
  shows "\<exists>a s'. take s = Some (a, s') \<and> a \<in> blocks - live \<and> pool_inv (next_of s') (root s') blocks (insert a live) \<and>
    (\<forall>b. b \<noteq> a \<longrightarrow> next_of s' b = next_of s b)"
proof -
  obtain fs where fs: "chain (next_of s) (root s) fs" "distinct fs" "set fs \<inter> live = {}" "set fs \<union> live = blocks"
    using inv by (auto simp: pool_inv_def)
  with room obtain a fs' where a: "fs = a # fs'" by (cases fs) auto
  with fs(1) have "root s = Some a" by simp
  from take_root [OF this] obtain s' where s': "take s = Some (a, s')" "root s' = next_of s a"
      "\<forall>b. b \<noteq> a \<longrightarrow> next_of s' b = next_of s b"
    by blast
  have "\<forall>b \<in> set fs'. next_of s' b = next_of s b" using fs(2) a s'(3) by auto
  moreover have "chain (next_of s) (root s') fs'" using fs(1) a s'(2) by simp
  ultimately have "chain (next_of s') (root s') fs'" by (rule chain_agree [rotated])
  then have "pool_inv (next_of s') (root s') blocks (insert a live)"
    using fs a by (auto simp: pool_inv_def intro!: exI [of _ fs'])
  with s' fs a show ?thesis by auto
qed

lemma take_exhausted:
  assumes "pool_inv (next_of s) (root s) blocks blocks"
  shows "take s = None"
proof -
  obtain fs where fs: "chain (next_of s) (root s) fs" "set fs \<inter> blocks = {}" "set fs \<union> blocks = blocks"
    using assms by (auto simp: pool_inv_def)
  then have "fs = []" by (cases fs) auto
  with fs(1) show ?thesis by (simp add: take_empty)
qed

text \<open>A block in use is returned.\<close>

lemma give_back:
  assumes inv: "pool_inv (next_of s) (root s) blocks live" and a: "a \<in> live" "a \<in> blocks"
  shows "pool_inv (next_of (give a s)) (root (give a s)) blocks (live - {a})"
proof -
  obtain fs where fs: "chain (next_of s) (root s) fs" "distinct fs" "set fs \<inter> live = {}" "set fs \<union> live = blocks"
    using inv by (auto simp: pool_inv_def)
  have new: "a \<notin> set fs" using fs(3) a by blast
  then have "\<forall>b \<in> set fs. next_of (give a s) b = next_of s b" by (metis give_root(3))
  with fs(1) have "chain (next_of (give a s)) (root s) fs" by (rule chain_agree)
  then have "chain (next_of (give a s)) (root (give a s)) (a # fs)"
    by (simp add: give_root)
  then show ?thesis
    using fs a new unfolding pool_inv_def by (intro exI [of _ "a # fs"]) auto
qed

end

section \<open>PoolAllocator\<close>

text \<open>The pool and the root of its free list are shared by all copies of an allocator: \<open>use_count\<close> is the
  reference count of \<open>m_pool\<close>, \<open>root_live\<close> whether the root \<open>m_free_list\<close> has not been deleted, \<open>news\<close> the
  number of arrays obtained from the global heap and not yet deleted.\<close>

record pool =
  node_next :: "nat \<Rightarrow> ptr"
  m_free_list :: ptr
  pool_use_count :: nat
  root_live :: bool
  news :: nat

datatype pool_error = bad_alloc

datatype mem = Block nat | Array

fun link_blocks :: "nat \<Rightarrow> nat \<Rightarrow> pool \<Rightarrow> pool" where
  "link_blocks i 0 p = p"
| "link_blocks i (Suc k) p =
     link_blocks (i + 1) k (p\<lparr>node_next := (node_next p)(i := m_free_list p), m_free_list := Some i\<rparr>)"

definition init_pool :: "nat \<Rightarrow> pool" where
  "init_pool BlockCount = link_blocks 0 BlockCount
     \<lparr>node_next = (\<lambda>_. None), m_free_list = None, pool_use_count = 1, root_live = True, news = 0\<rparr>"

definition pool_copy :: "pool \<Rightarrow> pool" where
  "pool_copy p = p\<lparr>pool_use_count := pool_use_count p + 1\<rparr>"

definition pool_dtor :: "pool \<Rightarrow> pool" where
  "pool_dtor p =
     (let p = (if pool_use_count p = 1 then p\<lparr>root_live := False\<rparr> else p)
      in p\<lparr>pool_use_count := pool_use_count p - 1\<rparr>)"

text \<open>The pool that the target of a move assignment has held so far: only its share of \<open>m_pool\<close> is dropped.\<close>

definition pool_overwritten :: "pool \<Rightarrow> pool" where
  "pool_overwritten p = p\<lparr>pool_use_count := pool_use_count p - 1\<rparr>"

definition allocate :: "nat \<Rightarrow> pool \<Rightarrow> pool_error + mem \<times> pool" where
  "allocate n p =
     (if n > 1 then Inr (Array, p\<lparr>news := news p + 1\<rparr>)
      else case m_free_list p of
        None \<Rightarrow> Inl bad_alloc
      | Some node \<Rightarrow> Inr (Block node, p\<lparr>m_free_list := node_next p node\<rparr>))"

definition deallocate :: "mem option \<Rightarrow> nat \<Rightarrow> pool \<Rightarrow> pool" where
  "deallocate ptr n p =
     (case ptr of
        None \<Rightarrow> p
      | Some m \<Rightarrow>
          if n > 1 then p\<lparr>news := news p - 1\<rparr>
          else case m of
            Block node \<Rightarrow> p\<lparr>node_next := (node_next p)(node := m_free_list p), m_free_list := Some node\<rparr>
          | Array \<Rightarrow> p)"

text \<open>The requests of the containers: one block at a time.\<close>

definition take_block :: "pool \<Rightarrow> (nat \<times> pool) option" where
  "take_block p = (case allocate 1 p of Inr (Block a, p') \<Rightarrow> Some (a, p') | _ \<Rightarrow> None)"

definition give_block :: "nat \<Rightarrow> pool \<Rightarrow> pool" where
  "give_block a p = deallocate (Some (Block a)) 1 p"

lemma take_block_eq: "take_block p = (case m_free_list p of None \<Rightarrow> None | Some a \<Rightarrow> Some (a, p\<lparr>m_free_list := node_next p a\<rparr>))"
  by (simp add: take_block_def allocate_def split: option.split)

lemma give_block_eq: "give_block a p = p\<lparr>node_next := (node_next p)(a := m_free_list p), m_free_list := Some a\<rparr>"
  by (simp add: give_block_def deallocate_def)

interpretation pa: free_list node_next m_free_list take_block give_block
  by unfold_locales (auto simp: take_block_eq give_block_eq)

abbreviation blocks_in_use :: "nat \<Rightarrow> nat set \<Rightarrow> pool \<Rightarrow> bool" where
  "blocks_in_use n live p \<equiv> pool_inv (node_next p) (m_free_list p) {0..<n} live"

lemma link_blocks_chain:
  assumes "chain (node_next p) (m_free_list p) fs" and "distinct fs" and "set fs = {0..<i}"
  shows "\<exists>fs'. chain (node_next (link_blocks i k p)) (m_free_list (link_blocks i k p)) fs' \<and> distinct fs' \<and> set fs' = {0..<i + k}"
  using assms
proof (induction i k p arbitrary: fs rule: link_blocks.induct)
  case (2 i k p)
  have "chain ((node_next p)(i := m_free_list p)) (m_free_list p) fs"
    using 2(4) chain_agree [OF 2(2), of "(node_next p)(i := m_free_list p)"] by auto
  then have "\<exists>fs'. chain (node_next (link_blocks (i + 1) k (p\<lparr>node_next := (node_next p)(i := m_free_list p), m_free_list := Some i\<rparr>)))
      (m_free_list (link_blocks (i + 1) k (p\<lparr>node_next := (node_next p)(i := m_free_list p), m_free_list := Some i\<rparr>))) fs' \<and>
      distinct fs' \<and> set fs' = {0..<i + 1 + k}"
    using 2(3,4) by (intro 2(1) [of "i # fs"]) (simp_all add: atLeast0_lessThan_Suc fun_upd_def)
  then show ?case by simp
qed auto

lemma init_pool_inv: "blocks_in_use n {} (init_pool n)"
proof -
  obtain fs where "chain (node_next (init_pool n)) (m_free_list (init_pool n)) fs" "distinct fs" "set fs = {0..<n}"
    using link_blocks_chain [of "\<lparr>node_next = (\<lambda>_. None), m_free_list = None, pool_use_count = 1, root_live = True, news = 0\<rparr>" "[]" 0 n]
    by (auto simp: init_pool_def)
  then show ?thesis by (auto simp: pool_inv_def)
qed

text \<open>Lifetime of the root.  While copies are made and destroyed, the root is there exactly as long as some copy
  is; the pool that a move assignment overwrites as its last owner is released without its root.\<close>

fun pool_life :: "bool list \<Rightarrow> pool \<Rightarrow> pool" where
  "pool_life [] p = p"
| "pool_life (copied # evs) p = pool_life evs (if copied then pool_copy p else pool_dtor p)"

lemma root_outlives_copies:
  assumes "root_live p = (0 < pool_use_count p)"
    and "\<forall>i < length evs. 0 < pool_use_count (pool_life (List.take i evs) p)"
  shows "root_live (pool_life evs p) = (0 < pool_use_count (pool_life evs p))"
  using assms
proof (induction evs arbitrary: p)
  case (Cons copied evs)
  let ?p = "if copied then pool_copy p else pool_dtor p"
  have "0 < pool_use_count p" using Cons.prems(2) by force
  then have "root_live ?p = (0 < pool_use_count ?p)"
    using Cons.prems(1) by (auto simp: pool_copy_def pool_dtor_def)
  moreover have "\<forall>i < length evs. 0 < pool_use_count (pool_life (List.take i evs) ?p)"
    using Cons.prems(2) by force
  ultimately show ?case using Cons.IH [of ?p] by simp
qed simp

lemma init_pool_owner: "pool_use_count (link_blocks i k p) = pool_use_count p" "root_live (link_blocks i k p) = root_live p"
  by (induction i k p rule: link_blocks.induct) simp_all

lemma move_assignment_leaks_root:
  "pool_use_count (pool_overwritten (init_pool n)) = 0" "root_live (pool_overwritten (init_pool n))"
  by (simp_all add: pool_overwritten_def init_pool_def init_pool_owner)

end
