(* ===== verification/Lru_Cache.thy ===== *)
theory Lru_Cache
  imports Block_Pool "HOL-Library.Multiset"
begin

text \<open>
  \<open>MemoryFriendlyLRUCache\<close> of \<open>src/document/laboratory/cpp/FriendlyCache/PoolAllocator.h\<close>.

  A node of \<open>std::list\<close> or of \<open>std::unordered_map\<close> is a block of the pool its container allocates from; an
  iterator is the number of a list node.  The list is the sequence of its nodes from front to back with their
  items; the map associates with a key its own node and the iterator it stores.  A request for a node that
  the pool refuses is \<open>bad_alloc\<close>; the use of an iterator whose node is not in the list, or of \<open>back\<close> on an
  empty list, is undefined behaviour, \<open>Dangling\<close>.
\<close>

section \<open>The cache\<close>

record ('k, 'v) cache =
  m_list :: "(nat \<times> 'k \<times> 'v) list"
  m_map :: "('k \<times> nat \<times> nat) list"
  list_pool :: pool
  map_pool :: pool
  m_capacity :: nat

datatype cache_error = No_Memory | Dangling

definition init_lru :: "nat \<Rightarrow> ('k, 'v) cache" where
  "init_lru Capacity = \<lparr>m_list = [], m_map = [], list_pool = init_pool Capacity, map_pool = init_pool Capacity,
     m_capacity = Capacity\<rparr>"

text \<open>\<open>m_list.splice(m_list.begin(), m_list, it)\<close>\<close>

definition splice_front :: "nat \<Rightarrow> (nat \<times> 'a) list \<Rightarrow> (nat \<times> 'a) list" where
  "splice_front it xs = (case al_find it xs of None \<Rightarrow> xs | Some x \<Rightarrow> (it, x) # al_erase it xs)"

definition cache_get :: "'k \<Rightarrow> ('k, 'v) cache \<Rightarrow> cache_error + 'v option \<times> ('k, 'v) cache" where
  "cache_get key c =
     (case al_find key (m_map c) of
        None \<Rightarrow> Inr (None, c)
      | Some (_, it) \<Rightarrow>
          (case al_find it (m_list c) of
             None \<Rightarrow> Inl Dangling
           | Some (_, v) \<Rightarrow> Inr (Some v, c\<lparr>m_list := splice_front it (m_list c)\<rparr>)))"

text \<open>\<open>m_list.back()\<close>, \<open>m_map.erase(last.first)\<close>, \<open>m_list.pop_back()\<close>\<close>

definition evict :: "('k, 'v) cache \<Rightarrow> cache_error + ('k, 'v) cache" where
  "evict c =
     (if m_list c = [] then Inl Dangling
      else let (node, key, _) = last (m_list c);
               c = (case al_find key (m_map c) of
                      None \<Rightarrow> c
                    | Some (map_node, _) \<Rightarrow>
                        c\<lparr>m_map := al_erase key (m_map c), map_pool := give_block map_node (map_pool c)\<rparr>)
           in Inr (c\<lparr>m_list := butlast (m_list c), list_pool := give_block node (list_pool c)\<rparr>))"

text \<open>\<open>m_list.emplace_front(key, value)\<close> and \<open>m_map[key] = m_list.begin()\<close> for a key that is not in the map\<close>

definition insert_front :: "'k \<Rightarrow> 'v \<Rightarrow> ('k, 'v) cache \<Rightarrow> cache_error + ('k, 'v) cache" where
  "insert_front key v c =
     (case take_block (list_pool c) of
        None \<Rightarrow> Inl No_Memory
      | Some (node, lp) \<Rightarrow>
          let c = c\<lparr>m_list := (node, key, v) # m_list c, list_pool := lp\<rparr>
          in case take_block (map_pool c) of
               None \<Rightarrow> Inl No_Memory
             | Some (map_node, mp) \<Rightarrow> Inr (c\<lparr>m_map := al_put key (map_node, node) (m_map c), map_pool := mp\<rparr>))"

definition cache_put :: "'k \<Rightarrow> 'v \<Rightarrow> ('k, 'v) cache \<Rightarrow> cache_error + ('k, 'v) cache" where
  "cache_put key v c =
     (case al_find key (m_map c) of
        Some (_, it) \<Rightarrow>
          (case al_find it (m_list c) of
             None \<Rightarrow> Inl Dangling
           | Some (k, _) \<Rightarrow> Inr (c\<lparr>m_list := splice_front it (al_put it (k, v) (m_list c))\<rparr>))
      | None \<Rightarrow>
          (if length (m_list c) \<ge> m_capacity c
           then (case evict c of Inl e \<Rightarrow> Inl e | Inr c' \<Rightarrow> insert_front key v c')
           else insert_front key v c))"

definition cache_size :: "('k, 'v) cache \<Rightarrow> nat" where
  "cache_size c = length (m_list c)"

section \<open>Specification\<close>

text \<open>The items with the most recently used first.\<close>

fun spec_get :: "'k \<Rightarrow> ('k \<times> 'v) list \<Rightarrow> 'v option \<times> ('k \<times> 'v) list" where
  "spec_get k xs = (case al_find k xs of None \<Rightarrow> (None, xs) | Some v \<Rightarrow> (Some v, (k, v) # al_erase k xs))"

fun spec_put :: "nat \<Rightarrow> 'k \<Rightarrow> 'v \<Rightarrow> ('k \<times> 'v) list \<Rightarrow> ('k \<times> 'v) list" where
  "spec_put cap k v xs =
     (if al_find k xs \<noteq> None then (k, v) # al_erase k xs
      else (k, v) # (if length xs \<ge> cap then butlast xs else xs))"

datatype ('k, 'v) cache_op = Get 'k | Put 'k 'v

fun spec_run :: "nat \<Rightarrow> ('k, 'v) cache_op list \<Rightarrow> ('k \<times> 'v) list \<Rightarrow> 'v option list \<times> ('k \<times> 'v) list" where
  "spec_run cap [] xs = ([], xs)"
| "spec_run cap (Get k # ops) xs =
     (let (r, xs) = spec_get k xs; (rs, xs) = spec_run cap ops xs in (r # rs, xs))"
| "spec_run cap (Put k v # ops) xs = spec_run cap ops (spec_put cap k v xs)"

fun cache_run :: "('k, 'v) cache_op list \<Rightarrow> ('k, 'v) cache \<Rightarrow> cache_error + 'v option list \<times> ('k, 'v) cache" where
  "cache_run [] c = Inr ([], c)"
| "cache_run (Get k # ops) c =
     (case cache_get k c of
        Inl e \<Rightarrow> Inl e
      | Inr (r, c) \<Rightarrow> (case cache_run ops c of Inl e \<Rightarrow> Inl e | Inr (rs, c) \<Rightarrow> Inr (r # rs, c)))"
| "cache_run (Put k v # ops) c =
     (case cache_put k v c of Inl e \<Rightarrow> Inl e | Inr c \<Rightarrow> cache_run ops c)"

section \<open>Invariant\<close>

abbreviation node_key :: "nat \<times> 'k \<times> 'v \<Rightarrow> nat \<times> 'k" where
  "node_key \<equiv> \<lambda>(it, k, v). (it, k)"

abbreviation entry_key :: "'k \<times> nat \<times> nat \<Rightarrow> nat \<times> 'k" where
  "entry_key \<equiv> \<lambda>(k, n, it). (it, k)"

text \<open>Each key has one node, which its map entry points to; the blocks in use are the nodes of the two
  containers.\<close>

definition nodes_ok :: "(nat \<times> 'k) list \<Rightarrow> ('k \<times> nat \<times> nat) list \<Rightarrow> bool" where
  "nodes_ok ns m \<longleftrightarrow> distinct (map fst ns) \<and> distinct (map snd ns) \<and> distinct (al_keys m) \<and> distinct (map (fst \<circ> snd) m) \<and>
     entry_key ` set m = set ns"

definition cache_inv :: "('k, 'v) cache \<Rightarrow> bool" where
  "cache_inv c \<longleftrightarrow> 0 < m_capacity c \<and> length (m_list c) \<le> m_capacity c \<and>
     nodes_ok (map node_key (m_list c)) (m_map c) \<and>
     blocks_in_use (m_capacity c) (fst ` set (m_list c)) (list_pool c) \<and>
     blocks_in_use (m_capacity c) ((fst \<circ> snd) ` set (m_map c)) (map_pool c)"

definition items :: "('k, 'v) cache \<Rightarrow> ('k \<times> 'v) list" where
  "items c = map snd (m_list c)"

lemma init_lru_inv: "0 < cap \<Longrightarrow> cache_inv (init_lru cap)"
  by (simp add: cache_inv_def nodes_ok_def init_lru_def init_pool_inv)

lemma nodes_distinct:
  assumes "nodes_ok (map node_key xs) m"
  shows "distinct (al_keys xs)" "distinct (al_keys (map snd xs))"
proof -
  have "map fst (map node_key xs) = al_keys xs" "map snd (map node_key xs) = al_keys (map snd xs)" by auto
  then show "distinct (al_keys xs)" "distinct (al_keys (map snd xs))"
    using assms by (simp_all only: nodes_ok_def)
qed

text \<open>Erasing a node from the list erases its key from the items.\<close>

lemma erase_item:
  assumes "distinct (al_keys xs)" and "distinct (al_keys (map snd xs))" and "(it, k, v) \<in> set xs"
  shows "map snd (al_erase it xs) = al_erase k (map snd xs)"
  using assms
proof (induction xs)
  case (Cons x xs)
  obtain it' k' v' where x: "x = (it', k', v')" by (cases x)
  show ?case using Cons by (force simp: x)
qed simp

lemma map_lookup:
  assumes ok: "nodes_ok (map node_key xs) m"
  shows "case al_find k m of
      None \<Rightarrow> al_find k (map snd xs) = None
    | Some (n, it) \<Rightarrow> \<exists>v. (it, k, v) \<in> set xs \<and> al_find it xs = Some (k, v) \<and> al_find k (map snd xs) = Some v"
proof (cases "al_find k m")
  case None
  have "k \<notin> fst ` set (map snd xs)"
  proof
    assume "k \<in> fst ` set (map snd xs)"
    then obtain it v where "(it, k, v) \<in> set xs" by force
    then have "(it, k) \<in> entry_key ` set m" using ok by (force simp: nodes_ok_def)
    then show False using None by (force simp: al_find_None)
  qed
  then have "al_find k (map snd xs) = None" by (simp only: al_find_None not_False_eq_True)
  then show ?thesis using None by simp
next
  case (Some e)
  obtain n it where e: "e = (n, it)" by (cases e)
  then have "(it, k) \<in> node_key ` set xs"
    using al_find_in [OF Some] ok by (force simp: nodes_ok_def)
  then obtain v where v: "(it, k, v) \<in> set xs" by auto
  then have "(k, v) \<in> set (map snd xs)" by force
  then show ?thesis
    using Some e v al_find_member [OF nodes_distinct(1) [OF ok], of it "(k, v)"]
      al_find_member [OF nodes_distinct(2) [OF ok], of k v] by auto
qed

lemma mset_erase: "al_find k m = Some v \<Longrightarrow> add_mset (k, v) (mset (al_erase k m)) = mset m"
  by (induction k m rule: al_erase.induct) (auto split: if_splits)

lemma mset_splice: "mset (splice_front it xs) = mset xs"
  by (simp add: splice_front_def mset_erase split: option.split)

lemma nodes_ok_mset:
  assumes "nodes_ok ns m" and "mset ns' = mset ns"
  shows "nodes_ok ns' m"
proof -
  have "mset (map fst ns') = mset (map fst ns)" "mset (map snd ns') = mset (map snd ns)"
    by (simp_all add: assms(2))
  moreover have "set ns' = set ns" by (rule mset_eq_setD [OF assms(2)])
  ultimately have "distinct (map fst ns') = distinct (map fst ns)" "distinct (map snd ns') = distinct (map snd ns)" "set ns' = set ns"
    using mset_eq_imp_distinct_iff by blast+
  then show ?thesis using assms(1) by (simp add: nodes_ok_def)
qed

lemma put_node_key: "al_find it xs = Some (k, v') \<Longrightarrow> map node_key (al_put it (k, v) xs) = map node_key xs"
  by (induction xs) (auto split: if_splits)

text \<open>Reordering the nodes, or changing the value of a node, keeps the invariant.\<close>

lemma cache_inv_relist:
  assumes inv: "cache_inv c" and same: "mset (map node_key xs) = mset (map node_key (m_list c))"
  shows "cache_inv (c\<lparr>m_list := xs\<rparr>)"
proof -
  have "set (map node_key xs) = set (map node_key (m_list c))" by (rule mset_eq_setD [OF same])
  then have "fst ` set (map node_key xs) = fst ` set (map node_key (m_list c))" by simp
  then have "fst ` set xs = fst ` set (m_list c)" by (simp add: image_image split_beta)
  moreover have "length xs = length (m_list c)" using mset_eq_length [OF same] by simp
  ultimately show ?thesis
    using inv nodes_ok_mset [OF _ same] by (auto simp: cache_inv_def)
qed

lemma get_refines:
  assumes inv: "cache_inv c"
  shows "\<exists>c'. cache_get k c = Inr (fst (spec_get k (items c)), c') \<and> cache_inv c' \<and>
    items c' = snd (spec_get k (items c)) \<and> m_capacity c' = m_capacity c"
proof -
  have ok: "nodes_ok (map node_key (m_list c)) (m_map c)" using inv by (simp add: cache_inv_def)
  note dist = nodes_distinct [OF ok]
  show ?thesis
  proof (cases "al_find k (m_map c)")
    case None
    then show ?thesis using map_lookup [OF ok, of k] inv by (simp add: cache_get_def items_def)
  next
    case (Some e)
    obtain n it where e: "e = (n, it)" by (cases e)
    then obtain v where v: "(it, k, v) \<in> set (m_list c)" "al_find it (m_list c) = Some (k, v)" "al_find k (items c) = Some v"
      using map_lookup [OF ok, of k] Some by (auto simp: items_def)
    have "cache_inv (c\<lparr>m_list := splice_front it (m_list c)\<rparr>)"
      using mset_splice [of it "m_list c"] by (intro cache_inv_relist [OF inv]) simp
    then show ?thesis
      using Some e v erase_item [OF dist v(1)]
      by (simp add: cache_get_def splice_front_def items_def)
  qed
qed

text \<open>The entry of the last node can be erased.\<close>

lemma erase_entry:
  assumes ok: "nodes_ok (ns @ [(node, key)]) m"
  shows "\<exists>n. al_find key m = Some (n, node) \<and> nodes_ok ns (al_erase key m) \<and> n \<in> (fst \<circ> snd) ` set m \<and>
    (fst \<circ> snd) ` set (al_erase key m) = (fst \<circ> snd) ` set m - {n}"
proof -
  have dk: "distinct (al_keys m)" and dn: "distinct (map (fst \<circ> snd) m)" and ent: "entry_key ` set m = set (ns @ [(node, key)])"
    using ok by (simp_all add: nodes_ok_def)
  then have "(node, key) \<in> entry_key ` set m" by simp
  then obtain n where n: "(key, n, node) \<in> set m" by auto
  then have find: "al_find key m = Some (n, node)" by (simp add: al_find_member [OF dk])
  have erased: "set (al_erase key m) = set m - {(key, n, node)}"
    using al_find_member [OF dk, of key] find by (force simp: al_erase_filter [OF dk])
  have inj: "inj_on entry_key (set m)" "inj_on (fst \<circ> snd) (set m)"
    using dk dn by (force simp: inj_on_def distinct_map)+
  have "entry_key ` set (al_erase key m) = entry_key ` set m - {(node, key)}"
    unfolding erased using n inj_on_image_set_diff [OF inj(1), of "set m" "{(key, n, node)}"] by auto
  also have "\<dots> = set ns" using ok unfolding ent by (force simp: nodes_ok_def)
  finally have "nodes_ok ns (al_erase key m)"
    using ok dk by (auto simp: nodes_ok_def al_erase_filter distinct_map_filter)
  moreover have "(fst \<circ> snd) ` set (al_erase key m) = (fst \<circ> snd) ` set m - {n}"
    unfolding erased using n inj_on_image_set_diff [OF inj(2), of "set m" "{(key, n, node)}"] by auto
  moreover have "n \<in> (fst \<circ> snd) ` set m" using n by force
  ultimately show ?thesis using find by blast
qed

lemma blocks_subset: "blocks_in_use n live p \<Longrightarrow> live \<subseteq> {0..<n}"
  by (auto simp: pool_inv_def)

lemma evict_refines:
  assumes inv: "cache_inv c" and nonempty: "m_list c \<noteq> []"
  shows "\<exists>c'. evict c = Inr c' \<and> cache_inv c' \<and> m_list c' = butlast (m_list c) \<and> m_capacity c' = m_capacity c \<and>
    m_map c' = al_erase (fst (snd (last (m_list c)))) (m_map c)"
proof -
  obtain node key v where lst: "last (m_list c) = (node, key, v)" by (cases "last (m_list c)")
  define xs where "xs = butlast (m_list c)"
  have xs: "m_list c = xs @ [(node, key, v)]" using nonempty lst by (metis append_butlast_last_id xs_def)
  have ok: "nodes_ok (map node_key xs @ [(node, key)]) (m_map c)" using inv by (simp add: cache_inv_def xs)
  then obtain n where n: "al_find key (m_map c) = Some (n, node)" "nodes_ok (map node_key xs) (al_erase key (m_map c))"
      "n \<in> (fst \<circ> snd) ` set (m_map c)" "(fst \<circ> snd) ` set (al_erase key (m_map c)) = (fst \<circ> snd) ` set (m_map c) - {n}"
    using erase_entry [OF ok] by (elim exE conjE) (rule that)
  let ?c = "c\<lparr>m_map := al_erase key (m_map c), map_pool := give_block n (map_pool c),
    m_list := xs, list_pool := give_block node (list_pool c)\<rparr>"
  have "blocks_in_use (m_capacity c) (fst ` set (m_list c) - {node}) (give_block node (list_pool c))"
    using inv blocks_subset by (intro pa.give_back) (fastforce simp: cache_inv_def xs)+
  moreover have "node \<notin> fst ` set xs" using ok by (force simp: nodes_ok_def)
  then have "fst ` set (m_list c) - {node} = fst ` set xs" by (auto simp: xs)
  moreover have "blocks_in_use (m_capacity c) ((fst \<circ> snd) ` set (m_map c) - {n}) (give_block n (map_pool c))"
    using inv n(3) blocks_subset by (intro pa.give_back) (fastforce simp: cache_inv_def)+
  ultimately have "cache_inv ?c"
    using inv n(2,4) by (simp add: cache_inv_def xs)
  moreover have "evict c = Inr ?c"
    using nonempty lst n(1) by (simp add: evict_def xs_def)
  ultimately show ?thesis using lst by (simp add: xs_def)
qed

lemma insert_refines:
  assumes inv: "cache_inv c" and new: "al_find k (m_map c) = None" and room: "length (m_list c) < m_capacity c"
  shows "\<exists>c'. insert_front k v c = Inr c' \<and> cache_inv c' \<and> items c' = (k, v) # items c \<and> m_capacity c' = m_capacity c"
proof -
  have ok: "nodes_ok (map node_key (m_list c)) (m_map c)" using inv by (simp add: cache_inv_def)
  let ?B = "{0..<m_capacity c}"
  have "card (fst ` set (m_list c)) < card ?B"
    using room card_length [of "map fst (m_list c)"] by simp
  then have "fst ` set (m_list c) \<noteq> ?B" by auto
  then obtain node lp where lp: "take_block (list_pool c) = Some (node, lp)" "node \<in> ?B - fst ` set (m_list c)"
      "blocks_in_use (m_capacity c) (insert node (fst ` set (m_list c))) lp"
    using pa.take_fresh [of "list_pool c" ?B "fst ` set (m_list c)"] inv by (auto simp: cache_inv_def)
  have "length (m_map c) = card (fst ` set (m_map c))"
    using ok distinct_card [of "al_keys (m_map c)"] by (simp add: nodes_ok_def)
  also have "fst ` set (m_map c) = snd ` entry_key ` set (m_map c)" by force
  also have "\<dots> = set (map snd (map node_key (m_list c)))" using ok by (simp add: nodes_ok_def image_image)
  also have "card \<dots> \<le> length (m_list c)" using card_length [of "map snd (map node_key (m_list c))"] by simp
  finally have "card ((fst \<circ> snd) ` set (m_map c)) < card ?B"
    using room card_length [of "map (fst \<circ> snd) (m_map c)"] by simp
  then have "(fst \<circ> snd) ` set (m_map c) \<noteq> ?B" by auto
  then obtain n mp where mp: "take_block (map_pool c) = Some (n, mp)" "n \<in> ?B - (fst \<circ> snd) ` set (m_map c)"
      "blocks_in_use (m_capacity c) (insert n ((fst \<circ> snd) ` set (m_map c))) mp"
    using pa.take_fresh [of "map_pool c" ?B "(fst \<circ> snd) ` set (m_map c)"] inv by (auto simp: cache_inv_def)
  have "k \<notin> snd ` entry_key ` set (m_map c)" using new by (force simp: al_find_None)
  then have "k \<notin> snd ` set (map node_key (m_list c))" using ok by (simp only: nodes_ok_def simp_thms)
  moreover have "node \<notin> fst ` set (map node_key (m_list c))" using lp(2) by force
  moreover have "k \<notin> fst ` set (m_map c)" "n \<notin> (fst \<circ> snd) ` set (m_map c)" using new mp(2) by (auto simp: al_find_None)
  ultimately have "nodes_ok ((node, k) # map node_key (m_list c)) (m_map c @ [(k, n, node)])"
    using ok unfolding nodes_ok_def by (simp add: image_image)
  then show ?thesis
    using inv room lp mp new
    by (auto simp: insert_front_def Let_def items_def cache_inv_def al_put_new)
qed

lemma put_hit:
  assumes inv: "cache_inv c" and find: "al_find k (m_map c) = Some (n, it)"
  shows "\<exists>c'. cache_put k v c = Inr c' \<and> cache_inv c' \<and> items c' = (k, v) # al_erase k (items c) \<and>
    m_capacity c' = m_capacity c \<and> al_find k (items c) \<noteq> None"
proof -
  have ok: "nodes_ok (map node_key (m_list c)) (m_map c)" using inv by (simp add: cache_inv_def)
  note dist = nodes_distinct [OF ok]
  obtain v' where v': "(it, k, v') \<in> set (m_list c)" "al_find it (m_list c) = Some (k, v')" "al_find k (items c) = Some v'"
    using map_lookup [OF ok, of k] find by (auto simp: items_def)
  let ?xs = "al_put it (k, v) (m_list c)"
  have "mset (map node_key (splice_front it ?xs)) = mset (map node_key ?xs)" by (simp add: mset_splice)
  also have "\<dots> = mset (map node_key (m_list c))" by (simp only: put_node_key [OF v'(2)])
  finally have "cache_inv (c\<lparr>m_list := splice_front it ?xs\<rparr>)" by (rule cache_inv_relist [OF inv])
  moreover have "al_erase it ?xs = al_erase it (m_list c)" using v'(2) by (simp add: al_erase_put)
  ultimately show ?thesis
    using find v' erase_item [OF dist v'(1)]
    by (simp add: cache_put_def splice_front_def items_def)
qed

lemma put_refines:
  assumes inv: "cache_inv c"
  shows "\<exists>c'. cache_put k v c = Inr c' \<and> cache_inv c' \<and> items c' = spec_put (m_capacity c) k v (items c) \<and>
    m_capacity c' = m_capacity c"
proof (cases "al_find k (m_map c)")
  case (Some e)
  then show ?thesis using put_hit [OF inv, of k "fst e" "snd e" v] by auto
next
  case None
  have ok: "nodes_ok (map node_key (m_list c)) (m_map c)" using inv by (simp add: cache_inv_def)
  have absent: "al_find k (items c) = None" using map_lookup [OF ok, of k] None by (simp add: items_def)
  show ?thesis
  proof (cases "length (m_list c) \<ge> m_capacity c")
    case True
    then have "m_list c \<noteq> []" using inv by (auto simp: cache_inv_def)
    from evict_refines [OF inv this] obtain c1 where c1: "evict c = Inr c1" "cache_inv c1" "m_list c1 = butlast (m_list c)"
        "m_capacity c1 = m_capacity c" "m_map c1 = al_erase (fst (snd (last (m_list c)))) (m_map c)"
      by blast
    have "al_find k (m_map c1) = None" using None c1(5) ok by (simp add: nodes_ok_def)
    moreover have "length (m_list c1) < m_capacity c1" using inv c1(3,4) by (auto simp: cache_inv_def)
    ultimately show ?thesis
      using insert_refines [OF c1(2), of k v] None True c1 absent
      by (auto simp: cache_put_def items_def map_butlast)
  next
    case False
    then show ?thesis using insert_refines [OF inv None, of v] None absent by (auto simp: cache_put_def items_def)
  qed
qed

lemma run_refines:
  assumes "cache_inv c"
  shows "\<exists>c'. cache_run ops c = Inr (fst (spec_run (m_capacity c) ops (items c)), c') \<and> cache_inv c' \<and>
    items c' = snd (spec_run (m_capacity c) ops (items c)) \<and> m_capacity c' = m_capacity c"
  using assms
proof (induction ops arbitrary: c)
  case (Cons op ops)
  show ?case
  proof (cases op)
    case (Get k)
    obtain c' where c': "cache_get k c = Inr (fst (spec_get k (items c)), c')" "cache_inv c'"
        "items c' = snd (spec_get k (items c))" "m_capacity c' = m_capacity c"
      using get_refines [OF Cons.prems, of k] by blast
    with Cons.IH [OF c'(2)] Get show ?thesis by (auto simp: Let_def split_beta simp del: spec_get.simps)
  next
    case (Put k v)
    obtain c' where c': "cache_put k v c = Inr c'" "cache_inv c'"
        "items c' = spec_put (m_capacity c) k v (items c)" "m_capacity c' = m_capacity c"
      using put_refines [OF Cons.prems, of k v] by blast
    with Cons.IH [OF c'(2)] Put show ?thesis by (auto simp del: spec_put.simps)
  qed
qed simp

lemma init_lru_simps: "m_capacity (init_lru cap) = cap" "items (init_lru cap) = []"
  by (simp_all add: init_lru_def items_def)

lemma cache_of_spec:
  assumes "0 < cap"
  shows "\<exists>c. cache_run ops (init_lru cap) = Inr (fst (spec_run cap ops []), c) \<and>
    items c = snd (spec_run cap ops []) \<and> cache_size c \<le> cap"
  using run_refines [OF init_lru_inv [OF assms], of ops] by (auto simp: init_lru_simps cache_inv_def cache_size_def)

section \<open>Recency\<close>

text \<open>A key is in the cache and only keys of \<open>U\<close> are more recent.\<close>

definition recent :: "nat \<Rightarrow> 'k \<Rightarrow> 'v \<Rightarrow> 'k set \<Rightarrow> ('k \<times> 'v) list \<Rightarrow> bool" where
  "recent cap k v U xs \<longleftrightarrow> distinct (al_keys xs) \<and> length xs \<le> cap \<and>
     (\<exists>as bs. xs = as @ (k, v) # bs \<and> fst ` set as \<subseteq> U)"

lemma recentI:
  "distinct (al_keys xs) \<Longrightarrow> length xs \<le> cap \<Longrightarrow> xs = as @ (k, v) # bs \<Longrightarrow> fst ` set as \<subseteq> U \<Longrightarrow> recent cap k v U xs"
  by (auto simp: recent_def)

lemma recent_found: "recent cap k v U xs \<Longrightarrow> al_find k xs = Some v"
  by (auto simp: recent_def al_find_member)

lemma recent_front:
  assumes "recent cap k v U xs" and "j \<noteq> k" and "al_find j xs \<noteq> None"
  shows "recent cap k v (insert j U) ((j, w) # al_erase j xs)"
proof -
  obtain as bs where xs: "distinct (al_keys xs)" "length xs \<le> cap" "xs = as @ (k, v) # bs" "fst ` set as \<subseteq> U"
    using assms(1) by (auto simp: recent_def)
  have "length (al_erase j xs) < length xs" using length_al_erase [OF assms(3)] by simp
  moreover have "j \<notin> fst ` set (al_erase j xs)" by (auto simp: al_erase_filter [OF xs(1)])
  moreover have "(j, w) # al_erase j xs = ((j, w) # filter (\<lambda>x. fst x \<noteq> j) as) @ (k, v) # filter (\<lambda>x. fst x \<noteq> j) bs"
    unfolding al_erase_filter [OF xs(1)] using assms(2) by (simp add: xs(3))
  ultimately show ?thesis
    using xs(2,4) distinct_al_erase [OF xs(1), of j]
    by (intro recentI [where as = "(j, w) # filter (\<lambda>x. fst x \<noteq> j) as"]) auto
qed

lemma recent_evict:
  assumes "recent cap k v U xs" and "j \<noteq> k" and "al_find j xs = None" and "finite U" and "card (insert j U) < cap"
  shows "recent cap k v (insert j U) ((j, w) # (if length xs \<ge> cap then butlast xs else xs))"
proof -
  obtain as bs where xs: "distinct (al_keys xs)" "length xs \<le> cap" "xs = as @ (k, v) # bs" "fst ` set as \<subseteq> U"
    using assms(1) by (auto simp: recent_def)
  have new: "j \<notin> fst ` set xs" using assms(3) by (simp add: al_find_None)
  then have "j \<notin> fst ` set as" by (auto simp: xs(3))
  then have card_as: "card (insert j (fst ` set as)) = Suc (length as)"
    using xs(1) distinct_card [of "al_keys as"] by (simp add: xs(3))
  show ?thesis
  proof (cases "length xs \<ge> cap")
    case True
    have "bs \<noteq> []"
    proof
      assume "bs = []"
      then have "cap \<le> Suc (length as)" using True xs(3) by simp
      also have "\<dots> = card (insert j (fst ` set as))" by (simp only: card_as)
      also have "\<dots> \<le> card (insert j U)" using assms(4) xs(4) by (intro card_mono) auto
      finally show False using assms(5) by simp
    qed
    then have "butlast xs = as @ (k, v) # butlast bs" by (simp add: xs(3) butlast_append)
    moreover have "distinct (al_keys (butlast xs))" using xs(1) by (simp add: distinct_butlast map_butlast)
    moreover have "j \<notin> fst ` set (butlast xs)" using new by (auto dest: in_set_butlastD)
    moreover have "Suc (length (butlast xs)) \<le> cap" using xs(2,3) by simp
    ultimately have "recent cap k v (insert j U) ((j, w) # butlast xs)"
      using xs(4) by (intro recentI [where as = "(j, w) # as"]) auto
    with True show ?thesis by simp
  next
    case False
    have "recent cap k v (insert j U) ((j, w) # xs)"
      using new False xs by (intro recentI [where as = "(j, w) # as"]) auto
    with False show ?thesis by simp
  qed
qed

fun op_key :: "('k, 'v) cache_op \<Rightarrow> 'k" where
  "op_key (Get k) = k"
| "op_key (Put k v) = k"

fun puts :: "'k \<Rightarrow> ('k, 'v) cache_op \<Rightarrow> bool" where
  "puts k (Get k') = False"
| "puts k (Put k' v) = (k' = k)"

lemma recent_step_get:
  assumes "recent cap k v U xs"
  shows "recent cap k v (insert j U) (snd (spec_get j xs))"
proof (cases "j = k")
  case True
  obtain as bs where xs: "distinct (al_keys xs)" "length xs \<le> cap" "xs = as @ (k, v) # bs"
    using assms by (auto simp: recent_def)
  have "al_find k xs \<noteq> None" using recent_found [OF assms] by simp
  from length_al_erase [OF this] have "recent cap k v (insert k U) ((k, v) # al_erase k xs)"
    using xs(1,2) distinct_al_erase [OF xs(1), of k]
    by (intro recentI [where as = "[]"]) (auto simp: al_keys_erase [OF xs(1)])
  with True recent_found [OF assms] show ?thesis by simp
next
  case False
  have "recent cap k v (insert j U) xs" using assms by (auto simp: recent_def)
  then show ?thesis using recent_front [OF assms False] by (simp split: option.split)
qed

lemma recent_run:
  assumes "recent cap k v U xs" and "finite U" and "card (U \<union> op_key ` set ops) < cap" and "\<forall>op \<in> set ops. \<not> puts k op"
  shows "\<exists>U'. recent cap k v U' (snd (spec_run cap ops xs))"
  using assms
proof (induction ops arbitrary: xs U)
  case (Cons op ops)
  have U: "finite (insert (op_key op) U)" "insert (op_key op) U \<union> op_key ` set ops = U \<union> op_key ` set (op # ops)"
    using Cons.prems(2) by auto
  have "card (insert (op_key op) U) \<le> card (U \<union> op_key ` set (op # ops))"
    using Cons.prems(2) by (intro card_mono) auto
  then have small: "card (insert (op_key op) U) < cap" using Cons.prems(3) by simp
  note IH = Cons.IH [where U = "insert (op_key op) U", OF _ U(1), unfolded U(2), OF _ Cons.prems(3)]
  show ?case
  proof (cases op)
    case (Get j)
    then show ?thesis
      using IH [of "snd (spec_get j xs)"] recent_step_get [OF Cons.prems(1), of j] Cons.prems(4) by (auto simp: Let_def split_beta simp del: spec_get.simps)
  next
    case (Put j w)
    then have "j \<noteq> k" using Cons.prems(4) by auto
    then have "recent cap k v (insert j U) (spec_put cap j w xs)"
      using recent_front [OF Cons.prems(1), of j w] recent_evict [OF Cons.prems(1), of j w] Cons.prems(2) small Put by simp
    then show ?thesis
      using IH [of "spec_put cap j w xs"] Cons.prems(4) Put by (auto simp del: spec_put.simps)
  qed
qed auto

lemma spec_run_append:
  "spec_run cap (ops @ ops') xs =
     (fst (spec_run cap ops xs) @ fst (spec_run cap ops' (snd (spec_run cap ops xs))), snd (spec_run cap ops' (snd (spec_run cap ops xs))))"
proof (induction ops arbitrary: xs)
  case (Cons op ops)
  then show ?case by (cases op) (simp_all add: Let_def split_beta del: spec_get.simps spec_put.simps)
qed simp

lemma spec_put_ok:
  assumes "distinct (al_keys xs)" and "length xs \<le> cap" and "0 < cap"
  shows "recent cap k v {} (spec_put cap k v xs)"
proof (cases "al_find k xs")
  case (Some v')
  then have "recent cap k v {} ((k, v) # al_erase k xs)"
    using assms length_al_erase [of k xs] distinct_al_erase [OF assms(1), of k]
    by (intro recentI [where as = "[]"]) (auto simp: al_keys_erase [OF assms(1)])
  with Some show ?thesis by simp
next
  case None
  have "distinct (al_keys (butlast xs))" using assms(1) by (simp add: map_butlast distinct_butlast)
  moreover have "k \<notin> fst ` set (butlast xs)" using None by (auto simp: al_find_None dest: in_set_butlastD)
  ultimately have "recent cap k v {} ((k, v) # (if length xs \<ge> cap then butlast xs else xs))"
    using None assms by (intro recentI [where as = "[]"]) (auto simp: al_find_None)
  with None show ?thesis by simp
qed

lemma spec_get_ok:
  assumes "distinct (al_keys xs)" and "length xs \<le> cap"
  shows "distinct (al_keys (snd (spec_get k xs))) \<and> length (snd (spec_get k xs)) \<le> cap"
  using assms length_al_erase [of k xs] distinct_al_erase [OF assms(1), of k]
  by (auto simp: al_keys_erase [OF assms(1)] split: option.split)

lemma spec_run_ok:
  assumes "distinct (al_keys xs)" and "length xs \<le> cap" and "0 < cap"
  shows "distinct (al_keys (snd (spec_run cap ops xs))) \<and> length (snd (spec_run cap ops xs)) \<le> cap"
  using assms
proof (induction ops arbitrary: xs)
  case (Cons op ops)
  show ?case
  proof (cases op)
    case (Get k)
    with Cons.IH [of "snd (spec_get k xs)"] spec_get_ok [OF Cons.prems(1,2), of k] Cons.prems(3)
    show ?thesis by (simp add: Let_def split_beta del: spec_get.simps)
  next
    case (Put k v)
    with Cons.IH [of "spec_put cap k v xs"] spec_put_ok [OF Cons.prems, of k v] Cons.prems(3)
    show ?thesis by (simp add: recent_def del: spec_put.simps)
  qed
qed simp

section \<open>Properties\<close>

text \<open>C21: Refinement.  Every sequence of calls on a new cache of positive capacity runs without exhausting
  either pool and without touching a node that is not in the list, returns what the specification of an LRU
  cache returns, and ends with its items, in its order; it never holds more than its capacity.\<close>

theorem cache_refines_lru:
  assumes "0 < cap"
  shows "\<exists>c. cache_run ops (init_lru cap) = Inr (fst (spec_run cap ops []), c) \<and>
    items c = snd (spec_run cap ops []) \<and> cache_size c \<le> cap"
  by (rule cache_of_spec [OF assms])

theorem cache_refines_lru_witness:
  "\<exists>c. cache_run [Put 1 ''Data_1'', Put 2 ''Data_2'', Get 1, Put (3 :: int) ''Data_3'', Get 2] (init_lru 2) =
     Inr ([Some ''Data_1'', None], c) \<and> items c = [(3, ''Data_3''), (1, ''Data_1'')]"
  using cache_refines_lru [of 2 "[Put 1 ''Data_1'', Put 2 ''Data_2'', Get 1, Put (3 :: int) ''Data_3'', Get 2]"] by auto

text \<open>Recency.  Whatever was done before, a value that is put is still there after any calls that do not
  put its key again, as long as those calls name fewer different keys than the capacity.\<close>

theorem recent_key_hit:
  assumes "card (op_key ` set ops) < cap" and "\<forall>op \<in> set ops. \<not> puts k op"
  shows "\<exists>rs c. cache_run (before @ [Put k v] @ ops @ [Get k]) (init_lru cap) = Inr (rs, c) \<and> last rs = Some v"
proof -
  have cap: "0 < cap" using assms(1) by simp
  let ?xs = "spec_put cap k v (snd (spec_run cap before []))"
  have "recent cap k v {} ?xs" using spec_run_ok [of "[]" cap before] cap by (intro spec_put_ok) auto
  then obtain U where "recent cap k v U (snd (spec_run cap ops ?xs))"
    using recent_run [of cap k v "{}" ?xs ops] assms by auto
  then have "al_find k (snd (spec_run cap ops ?xs)) = Some v" by (rule recent_found)
  then have "\<exists>rs. fst (spec_run cap (before @ [Put k v] @ ops @ [Get k]) []) = rs @ [Some v]"
    by (simp add: spec_run_append Let_def split_beta del: spec_put.simps)
  then show ?thesis using cache_of_spec [OF cap, of "before @ [Put k v] @ ops @ [Get k]"] by auto
qed

theorem recent_key_hit_witness:
  "\<exists>rs c. cache_run ([Put 9 ''x''] @ [Put 1 ''Data_1''] @ [Put 2 ''Data_2'', Get (3 :: int), Get 2] @ [Get 1]) (init_lru 3) = Inr (rs, c) \<and>
     last rs = Some ''Data_1''"
  by (rule recent_key_hit) (auto simp: card_insert_if)

end
