(* ===== verification/Order_Heap.thy ===== *)
theory Order_Heap
  imports Block_Pool
begin

text \<open>
  The memory of the order book of \<open>src/document/laboratory/cpp/Solution/HFT/main.cpp\<close>: orders in a pool, doubly
  linked into the queue of their price level (\<open>Order\<close>, \<open>OrderPool\<close>, \<open>Limit\<close>).  An order is the number of its
  slot; the \<open>next\<close> field of an unused slot is the free list.
\<close>

section \<open>Orders and their pool\<close>

datatype Side = BUY | SELL

record Order =
  oid :: u64
  oprice :: u32
  oqty :: u32
  oside :: Side
  oprev :: ptr
  onext :: ptr

record OrderPool =
  m_pool :: "nat \<Rightarrow> Order"
  order_free :: ptr

definition init_orders :: "nat \<Rightarrow> OrderPool" where
  "init_orders MaxOrders =
     \<lparr>m_pool = (\<lambda>i. \<lparr>oid = 0, oprice = 0, oqty = 0, oside = BUY, oprev = None,
                     onext = if i + 1 < MaxOrders then Some (i + 1) else None\<rparr>),
      order_free = Some 0\<rparr>"

definition allocate_order :: "OrderPool \<Rightarrow> (nat \<times> OrderPool) option" where
  "allocate_order p =
     (case order_free p of
        None \<Rightarrow> None
      | Some node \<Rightarrow>
          Some (node, p\<lparr>order_free := onext (m_pool p node),
                        m_pool := (m_pool p)(node := (m_pool p node)\<lparr>oprev := None, onext := None\<rparr>)\<rparr>))"

definition deallocate_order :: "nat \<Rightarrow> OrderPool \<Rightarrow> OrderPool" where
  "deallocate_order node p =
     p\<lparr>m_pool := (m_pool p)(node := (m_pool p node)\<lparr>onext := order_free p\<rparr>), order_free := Some node\<rparr>"

definition set_next :: "nat \<Rightarrow> ptr \<Rightarrow> OrderPool \<Rightarrow> OrderPool" where
  "set_next a q p = p\<lparr>m_pool := (m_pool p)(a := (m_pool p a)\<lparr>onext := q\<rparr>)\<rparr>"

definition set_prev :: "nat \<Rightarrow> ptr \<Rightarrow> OrderPool \<Rightarrow> OrderPool" where
  "set_prev a q p = p\<lparr>m_pool := (m_pool p)(a := (m_pool p a)\<lparr>oprev := q\<rparr>)\<rparr>"

definition set_qty :: "nat \<Rightarrow> u32 \<Rightarrow> OrderPool \<Rightarrow> OrderPool" where
  "set_qty a n p = p\<lparr>m_pool := (m_pool p)(a := (m_pool p a)\<lparr>oqty := n\<rparr>)\<rparr>"

abbreviation next_order :: "OrderPool \<Rightarrow> nat \<Rightarrow> ptr" where
  "next_order p a \<equiv> onext (m_pool p a)"

interpretation ord: free_list next_order order_free allocate_order deallocate_order
  by unfold_locales (auto simp: allocate_order_def deallocate_order_def)

section \<open>Price levels\<close>

record Limit =
  lprice :: u32
  total_volume :: u32
  lhead :: ptr
  ltail :: ptr

definition new_limit :: "u32 \<Rightarrow> Limit" where
  "new_limit price = \<lparr>lprice = price, total_volume = 0, lhead = None, ltail = None\<rparr>"

text \<open>\<open>Limit::append\<close>; \<open>None\<close> if it would dereference a null \<open>tail\<close>.\<close>

definition limit_append :: "nat \<Rightarrow> Limit \<Rightarrow> OrderPool \<Rightarrow> (Limit \<times> OrderPool) option" where
  "limit_append order lim p =
     (let vol = total_volume lim + oqty (m_pool p order)
      in case lhead lim of
           None \<Rightarrow> Some (lim\<lparr>lhead := Some order, ltail := Some order, total_volume := vol\<rparr>, p)
         | Some _ \<Rightarrow>
             (case ltail lim of
                None \<Rightarrow> None
              | Some t \<Rightarrow> Some (lim\<lparr>ltail := Some order, total_volume := vol\<rparr>,
                               set_prev order (Some t) (set_next t (Some order) p))))"

definition limit_remove :: "nat \<Rightarrow> Limit \<Rightarrow> OrderPool \<Rightarrow> Limit \<times> OrderPool" where
  "limit_remove order lim p =
     (let lim = lim\<lparr>total_volume := total_volume lim - oqty (m_pool p order)\<rparr>;
          p = (case oprev (m_pool p order) of None \<Rightarrow> p | Some b \<Rightarrow> set_next b (onext (m_pool p order)) p);
          p = (case onext (m_pool p order) of None \<Rightarrow> p | Some c \<Rightarrow> set_prev c (oprev (m_pool p order)) p);
          lim = (if lhead lim = Some order then lim\<lparr>lhead := onext (m_pool p order)\<rparr> else lim);
          lim = (if ltail lim = Some order then lim\<lparr>ltail := oprev (m_pool p order)\<rparr> else lim)
      in (lim, p))"

section \<open>Doubly linked segments\<close>

text \<open>\<open>seg p pv f as l nx\<close>: from \<open>f\<close> the next pointers run through the orders \<open>as\<close> to \<open>nx\<close>, the prev pointers
  back from the last, \<open>l\<close>, to \<open>pv\<close>.\<close>

fun seg :: "OrderPool \<Rightarrow> ptr \<Rightarrow> ptr \<Rightarrow> nat list \<Rightarrow> ptr \<Rightarrow> ptr \<Rightarrow> bool" where
  "seg p pv f [] l nx = (f = nx \<and> l = pv)"
| "seg p pv f (a # as) l nx = (f = Some a \<and> oprev (m_pool p a) = pv \<and> seg p (Some a) (onext (m_pool p a)) as l nx)"

lemma seg_append:
  "seg p pv f (as @ bs) l nx \<longleftrightarrow> (\<exists>m q. seg p pv f as m q \<and> seg p m q bs l nx)"
  by (induction as arbitrary: pv f) auto

lemma seg_agree:
  "seg p pv f as l nx \<Longrightarrow>
   \<forall>a \<in> set as. oprev (m_pool p' a) = oprev (m_pool p a) \<and> onext (m_pool p' a) = onext (m_pool p a) \<Longrightarrow>
   seg p' pv f as l nx"
  by (induction as arbitrary: pv f) auto

lemma seg_last: "seg p pv f as l nx \<Longrightarrow> l = (if as = [] then pv else Some (last as))"
  by (induction as arbitrary: pv f) auto

lemma seg_first: "seg p pv f as l nx \<Longrightarrow> f = (if as = [] then nx else Some (hd as))"
  by (cases as) auto

lemmas order_updates = set_next_def set_prev_def set_qty_def

text \<open>Redirecting the end or the start of a segment.\<close>

lemma seg_redirect_end:
  assumes "seg p pv f (as @ [b]) l nx" and "b \<notin> set as"
  shows "seg (set_next b q p) pv f (as @ [b]) (Some b) q"
proof -
  obtain m where "seg p pv f as m (Some b)" "oprev (m_pool p b) = m"
    using assms(1) by (auto simp: seg_append)
  moreover from this(1) have "seg (set_next b q p) pv f as m (Some b)"
    by (rule seg_agree) (use assms(2) in \<open>auto simp: set_next_def\<close>)
  ultimately show ?thesis by (auto simp: seg_append set_next_def)
qed

lemma seg_redirect_start:
  assumes "seg p pv f (c # bs) l nx" and "c \<notin> set bs"
  shows "seg (set_prev c q p) q (Some c) (c # bs) l nx"
proof -
  have "seg p (Some c) (onext (m_pool p c)) bs l nx" using assms(1) by simp
  then have "seg (set_prev c q p) (Some c) (onext (m_pool p c)) bs l nx"
    by (rule seg_agree) (use assms(2) in \<open>auto simp: set_prev_def\<close>)
  then show ?thesis by (simp add: set_prev_def)
qed

section \<open>Queue operations on segments\<close>

text \<open>The contents of a slot apart from its links.\<close>

definition content :: "OrderPool \<Rightarrow> nat \<Rightarrow> u64 \<times> u32 \<times> u32 \<times> Side" where
  "content p a = (oid (m_pool p a), oprice (m_pool p a), oqty (m_pool p a), oside (m_pool p a))"

lemma content_links [simp]: "content (set_next b q p) = content p" "content (set_prev b q p) = content p"
  by (auto simp: content_def order_updates)

lemma links_free [simp]: "order_free (set_next b q p) = order_free p" "order_free (set_prev b q p) = order_free p"
  "order_free (set_qty b n p) = order_free p"
  by (simp_all add: order_updates)

lemma links_other [simp]: "a \<noteq> b \<Longrightarrow> m_pool (set_next b q p) a = m_pool p a" "a \<noteq> b \<Longrightarrow> m_pool (set_prev b q p) a = m_pool p a"
  "a \<noteq> b \<Longrightarrow> m_pool (set_qty b n p) a = m_pool p a"
  by (simp_all add: order_updates)

lemma seg_links:
  assumes "seg p None f (as @ a # bs) l None" and "distinct (as @ a # bs)"
  shows "oprev (m_pool p a) = (if as = [] then None else Some (last as))"
    and "onext (m_pool p a) = (if bs = [] then None else Some (hd bs))"
    and "f = Some a \<longleftrightarrow> as = []" and "l = Some a \<longleftrightarrow> bs = []"
proof -
  obtain m q where seg: "seg p None f as m q" "seg p m q (a # bs) l None"
    using assms(1) by (auto simp: seg_append)
  then show "oprev (m_pool p a) = (if as = [] then None else Some (last as))"
    "onext (m_pool p a) = (if bs = [] then None else Some (hd bs))"
    using seg_last [OF seg(1)] seg_first [of p "Some a" "onext (m_pool p a)" bs l None] by auto
  show "f = Some a \<longleftrightarrow> as = []"
    using seg_first [OF assms(1)] assms(2) by (cases as) auto
  show "l = Some a \<longleftrightarrow> bs = []"
    using seg_last [OF assms(1)] assms(2) by (cases bs rule: rev_cases) auto
qed

text \<open>Removing a slot joins the two parts of its queue and changes no other slot and no contents.\<close>

lemma limit_remove_seg:
  assumes seg: "seg p None (lhead lim) (as @ a # bs) (ltail lim) None" and dist: "distinct (as @ a # bs)"
  shows "\<exists>lim' p'. limit_remove a lim p = (lim', p') \<and> seg p' None (lhead lim') (as @ bs) (ltail lim') None \<and>
    total_volume lim' = total_volume lim - oqty (m_pool p a) \<and> lprice lim' = lprice lim \<and>
    order_free p' = order_free p \<and> content p' = content p \<and>
    (\<forall>x. x \<notin> set as \<union> set bs \<longrightarrow> m_pool p' x = m_pool p x)"
proof -
  note links = seg_links [OF seg dist]
  define p1 where "p1 = (if as = [] then p else set_next (last as) (onext (m_pool p a)) p)"
  define p2 where "p2 = (if bs = [] then p1 else set_prev (hd bs) (oprev (m_pool p a)) p1)"
  have last_as: "as \<noteq> [] \<Longrightarrow> last as \<in> set as" and hd_bs: "bs \<noteq> [] \<Longrightarrow> hd bs \<in> set bs" by auto
  have a1: "m_pool p1 a = m_pool p a" and a2: "m_pool p2 a = m_pool p a"
    using dist last_as hd_bs unfolding p1_def p2_def by (auto simp: order_updates)
  define lim' where "lim' = lim\<lparr>total_volume := total_volume lim - oqty (m_pool p a),
    lhead := if as = [] then onext (m_pool p a) else lhead lim, ltail := if bs = [] then oprev (m_pool p a) else ltail lim\<rparr>"
  have "limit_remove a lim p = (lim', p2)"
  proof -
    have step1: "(case oprev (m_pool p a) of None \<Rightarrow> p | Some b \<Rightarrow> set_next b (onext (m_pool p a)) p) = p1"
      by (simp add: links(1) p1_def)
    have step2: "(case onext (m_pool p1 a) of None \<Rightarrow> p1 | Some c \<Rightarrow> set_prev c (oprev (m_pool p1 a)) p1) = p2"
      by (simp add: a1 links(2) p2_def)
    show ?thesis
      unfolding limit_remove_def Let_def step1 step2 by (simp add: a2 links(3,4) lim'_def)
  qed
  moreover have "seg p2 None (lhead lim') (as @ bs) (ltail lim') None"
  proof -
    obtain m q where parts: "seg p None (lhead lim) as m (Some a)" "seg p (Some a) (onext (m_pool p a)) bs (ltail lim) None"
      using seg by (auto simp: seg_append)
    have "seg p1 None (lhead lim') as (oprev (m_pool p a)) (onext (m_pool p a))"
    proof (cases as rule: rev_cases)
      case (snoc as' b)
      then show ?thesis
        using seg_redirect_end [of p None "lhead lim" as' b _ "Some a" "onext (m_pool p a)"] parts(1) dist
        by (simp add: p1_def lim'_def links(1))
    qed (simp add: lim'_def links(1))
    then have "seg p2 None (lhead lim') as (oprev (m_pool p a)) (onext (m_pool p a))"
      by (rule seg_agree) (use dist hd_bs in \<open>auto simp: p2_def order_updates disjoint_iff\<close>)
    moreover have "seg p1 (Some a) (onext (m_pool p a)) bs (ltail lim) None"
      using parts(2) by (rule seg_agree) (use dist last_as in \<open>auto simp: p1_def order_updates disjoint_iff\<close>)
    then have "seg p2 (oprev (m_pool p a)) (onext (m_pool p a)) bs (ltail lim') None"
      using seg_redirect_start [of p1 "Some a" "onext (m_pool p a)" "hd bs" "tl bs"] dist
      by (cases bs) (auto simp: p2_def lim'_def links(2))
    ultimately show ?thesis by (auto simp: seg_append)
  qed
  moreover have "order_free p2 = order_free p" "content p2 = content p" by (auto simp: p1_def p2_def)
  moreover have "m_pool p2 x = m_pool p x" if "x \<notin> set as \<union> set bs" for x
    using that last_as hd_bs by (cases "as = []"; cases "bs = []") (auto simp: p1_def p2_def order_updates)
  ultimately show ?thesis by (auto simp: lim'_def)
qed

lemma limit_append_seg:
  assumes seg: "seg p None (lhead lim) as (ltail lim) None" and dist: "distinct (as @ [a])"
    and fresh: "oprev (m_pool p a) = None" "onext (m_pool p a) = None"
  shows "\<exists>lim' p'. limit_append a lim p = Some (lim', p') \<and> seg p' None (lhead lim') (as @ [a]) (ltail lim') None \<and>
    total_volume lim' = total_volume lim + oqty (m_pool p a) \<and> lprice lim' = lprice lim \<and>
    order_free p' = order_free p \<and> content p' = content p \<and>
    (\<forall>x. x \<notin> set (as @ [a]) \<longrightarrow> m_pool p' x = m_pool p x)"
proof (cases as rule: rev_cases)
  case Nil
  then show ?thesis using seg fresh by (auto simp: limit_append_def)
next
  case (snoc as' t)
  have ht: "lhead lim \<noteq> None" "ltail lim = Some t"
    using seg_first [OF seg] seg_last [OF seg] snoc by auto
  let ?p = "set_prev a (Some t) (set_next t (Some a) p)"
  have "seg (set_next t (Some a) p) None (lhead lim) (as' @ [t]) (Some t) (Some a)"
    using seg dist snoc by (intro seg_redirect_end) auto
  then have "seg ?p None (lhead lim) (as' @ [t]) (Some t) (Some a)"
    by (rule seg_agree) (use dist snoc in \<open>auto simp: order_updates\<close>)
  moreover have "seg ?p (Some t) (Some a) [a] (Some a) None"
    using fresh dist snoc by (simp add: order_updates)
  ultimately have "seg ?p None (lhead lim) (as @ [a]) (Some a) None"
    unfolding snoc by (subst seg_append) blast
  then show ?thesis
    using ht snoc by (auto simp: limit_append_def split: option.split)
qed

end
