(* ===== verification/Order_Book.thy ===== *)
theory Order_Book
  imports Order_Heap
begin

text \<open>
  The order book of \<open>src/document/laboratory/cpp/Solution/HFT/main.cpp\<close> (\<open>OrderBook::limit_order\<close>,
  \<open>OrderBook::cancel_order\<close>) over the memory of \<open>Order_Heap\<close>.

  A \<open>std::map\<close> of price levels is the list of its entries in the order of its comparison; the \<open>Limit\<close> objects
  it owns are stored in it.  The loops over the queue of a level and over the levels follow pointers, so they
  are partial functions: \<open>None\<close> stands for a loop that does not end, and for the dereference of a null pointer.
\<close>

section \<open>Matching\<close>

record match_state =
  remaining_qty :: u32
  limit_level :: Limit
  match_pool :: OrderPool
  match_orders :: "(u64 \<times> nat) list"

text \<open>The body of the loop over the queue of a level.\<close>

definition match_order :: "nat \<Rightarrow> match_state \<Rightarrow> match_state" where
  "match_order resting s =
     (let match_qty = min (remaining_qty s) (oqty (m_pool (match_pool s) resting));
          s = s\<lparr>remaining_qty := remaining_qty s - match_qty,
                match_pool := set_qty resting (oqty (m_pool (match_pool s) resting) - match_qty) (match_pool s),
                limit_level := (limit_level s)\<lparr>total_volume := total_volume (limit_level s) - match_qty\<rparr>\<rparr>
      in if oqty (m_pool (match_pool s) resting) = 0
         then let (lim, p) = limit_remove resting (limit_level s) (match_pool s)
              in s\<lparr>limit_level := lim, match_orders := al_erase (oid (m_pool p resting)) (match_orders s),
                   match_pool := deallocate_order resting p\<rparr>
         else s)"

partial_function (option) sweep_level :: "ptr \<Rightarrow> match_state \<Rightarrow> match_state option" where
  "sweep_level resting_order s =
     (case resting_order of
        None \<Rightarrow> Some s
      | Some a \<Rightarrow>
          if remaining_qty s > 0
          then sweep_level (onext (m_pool (match_pool s) a)) (match_order a s)
          else Some s)"

type_synonym levels = "(u32 \<times> Limit) list"

text \<open>The loop over the levels of the opposite side; \<open>crosses\<close> is the economic boundary check.\<close>

partial_function (option) match_levels ::
  "(u32 \<Rightarrow> bool) \<Rightarrow> u32 \<Rightarrow> levels \<Rightarrow> OrderPool \<Rightarrow> (u64 \<times> nat) list \<Rightarrow>
   (u32 \<times> levels \<times> OrderPool \<times> (u64 \<times> nat) list) option" where
  "match_levels crosses remaining levels p om =
     (if remaining > 0 \<and> levels \<noteq> [] then
        (let (best, lim) = hd levels
         in if \<not> crosses best then Some (remaining, levels, p, om)
            else Option.bind
              (sweep_level (lhead lim) \<lparr>remaining_qty = remaining, limit_level = lim, match_pool = p, match_orders = om\<rparr>)
              (\<lambda>s. match_levels crosses (remaining_qty s)
                 (if lhead (limit_level s) = None then tl levels else (best, limit_level s) # tl levels)
                 (match_pool s) (match_orders s)))
      else Some (remaining, levels, p, om))"

declare sweep_level.simps [code] match_levels.simps [code]

section \<open>The book\<close>

record OrderBook =
  book_pool :: OrderPool
  m_order_map :: "(u64 \<times> nat) list"
  m_sell_limits :: levels
  m_buy_limits :: levels

definition init_book :: "nat \<Rightarrow> OrderBook" where
  "init_book MaxOrders =
     \<lparr>book_pool = init_orders MaxOrders, m_order_map = [], m_sell_limits = [], m_buy_limits = []\<rparr>"

text \<open>A buyer is matched with the lowest asks, a seller with the highest bids.\<close>

definition match_buy :: "u32 \<Rightarrow> u32 \<Rightarrow> OrderBook \<Rightarrow> (u32 \<times> OrderBook) option" where
  "match_buy price qty b =
     map_option (\<lambda>(r, levels, p, om). (r, b\<lparr>m_sell_limits := levels, book_pool := p, m_order_map := om\<rparr>))
       (match_levels (\<lambda>best_sell_price. \<not> price < best_sell_price) qty (m_sell_limits b) (book_pool b) (m_order_map b))"

definition match_sell :: "u32 \<Rightarrow> u32 \<Rightarrow> OrderBook \<Rightarrow> (u32 \<times> OrderBook) option" where
  "match_sell price qty b =
     map_option (\<lambda>(r, levels, p, om). (r, b\<lparr>m_buy_limits := levels, book_pool := p, m_order_map := om\<rparr>))
       (match_levels (\<lambda>best_buy_price. \<not> price > best_buy_price) qty (m_buy_limits b) (book_pool b) (m_order_map b))"

text \<open>Insertion of a new key into an ordered map.\<close>

fun level_put :: "('k \<Rightarrow> 'k \<Rightarrow> bool) \<Rightarrow> 'k \<Rightarrow> 'v \<Rightarrow> ('k \<times> 'v) list \<Rightarrow> ('k \<times> 'v) list" where
  "level_put before k v [] = [(k, v)]"
| "level_put before k v ((k', v') # r) =
     (if before k k' then (k, v) # (k', v') # r else (k', v') # level_put before k v r)"

text \<open>\<open>if (it == limits.end()) limits[price] = new Limit{price}; limits[price]->append(new_order);\<close>\<close>

definition book_side :: "(u32 \<Rightarrow> u32 \<Rightarrow> bool) \<Rightarrow> u32 \<Rightarrow> nat \<Rightarrow> levels \<Rightarrow> OrderPool \<Rightarrow> (levels \<times> OrderPool) option" where
  "book_side before price order levels p =
     (let levels = (if al_find price levels = None then level_put before price (new_limit price) levels else levels)
      in case al_find price levels of
           None \<Rightarrow> None
         | Some lim \<Rightarrow> map_option (\<lambda>(lim, p). (al_put price lim levels, p)) (limit_append order lim p))"

definition fill_order :: "nat \<Rightarrow> u64 \<Rightarrow> u32 \<Rightarrow> u32 \<Rightarrow> Side \<Rightarrow> OrderPool \<Rightarrow> OrderPool" where
  "fill_order a ident price qty side p =
     p\<lparr>m_pool := (m_pool p)(a := (m_pool p a)\<lparr>oid := ident, oprice := price, oqty := qty, oside := side\<rparr>)\<rparr>"

text \<open>The second phase: what is left of an order rests in the book.  An exhausted pool drops it.\<close>

definition book_order :: "u64 \<Rightarrow> u32 \<Rightarrow> u32 \<Rightarrow> Side \<Rightarrow> OrderBook \<Rightarrow> OrderBook option" where
  "book_order ident price remaining side b =
     (case allocate_order (book_pool b) of
        None \<Rightarrow> Some b
      | Some (a, p) \<Rightarrow>
          let p = fill_order a ident price remaining side p
          in case side of
               BUY \<Rightarrow> map_option (\<lambda>(levels, p). b\<lparr>m_buy_limits := levels, book_pool := p,
                                                  m_order_map := al_put ident a (m_order_map b)\<rparr>)
                        (book_side (>) price a (m_buy_limits b) p)
             | SELL \<Rightarrow> map_option (\<lambda>(levels, p). b\<lparr>m_sell_limits := levels, book_pool := p,
                                                   m_order_map := al_put ident a (m_order_map b)\<rparr>)
                        (book_side (<) price a (m_sell_limits b) p))"

definition limit_order :: "u64 \<Rightarrow> u32 \<Rightarrow> u32 \<Rightarrow> Side \<Rightarrow> OrderBook \<Rightarrow> OrderBook option" where
  "limit_order ident price qty side b =
     Option.bind (case side of BUY \<Rightarrow> match_buy price qty b | SELL \<Rightarrow> match_sell price qty b)
       (\<lambda>(remaining, b). if remaining > 0 then book_order ident price remaining side b else Some b)"

text \<open>The part of \<open>cancel_order\<close> on the limits of one side.\<close>

definition cancel_side :: "nat \<Rightarrow> u32 \<Rightarrow> levels \<Rightarrow> OrderPool \<Rightarrow> levels \<times> OrderPool" where
  "cancel_side order price levels p =
     (case al_find price levels of
        None \<Rightarrow> (levels, p)
      | Some lim \<Rightarrow>
          let (lim, p) = limit_remove order lim p
          in (if lhead lim = None then al_erase price levels else al_put price lim levels, p))"

definition cancel_order :: "u64 \<Rightarrow> OrderBook \<Rightarrow> OrderBook" where
  "cancel_order ident b =
     (case al_find ident (m_order_map b) of
        None \<Rightarrow> b
      | Some order \<Rightarrow>
          let price = oprice (m_pool (book_pool b) order);
              b = (case oside (m_pool (book_pool b) order) of
                     BUY \<Rightarrow> let (levels, p) = cancel_side order price (m_buy_limits b) (book_pool b)
                            in b\<lparr>m_buy_limits := levels, book_pool := p\<rparr>
                   | SELL \<Rightarrow> let (levels, p) = cancel_side order price (m_sell_limits b) (book_pool b)
                            in b\<lparr>m_sell_limits := levels, book_pool := p\<rparr>)
          in b\<lparr>m_order_map := al_erase ident (m_order_map b), book_pool := deallocate_order order (book_pool b)\<rparr>)"

section \<open>Specification\<close>

text \<open>A side of the market: its prices, best first, each with the identifiers and open quantities of the
  resting orders, oldest first.\<close>

type_synonym market_side = "(u32 \<times> (u64 \<times> u32) list) list"

fun a_sweep :: "(u64 \<times> u32) list \<Rightarrow> u32 \<Rightarrow> u32 \<times> (u64 \<times> u32) list" where
  "a_sweep [] r = (r, [])"
| "a_sweep ((i, q) # os) r =
     (if r = 0 then (r, (i, q) # os) else if q \<le> r then a_sweep os (r - q) else (0, (i, q - r) # os))"

fun a_match :: "(u32 \<Rightarrow> bool) \<Rightarrow> market_side \<Rightarrow> u32 \<Rightarrow> u32 \<times> market_side" where
  "a_match crosses [] r = (r, [])"
| "a_match crosses ((p, os) # ls) r =
     (if r = 0 \<or> \<not> crosses p then (r, (p, os) # ls)
      else case a_sweep os r of (r', os') \<Rightarrow> if os' = [] then a_match crosses ls r' else (r', (p, os') # ls))"

definition a_book :: "(u32 \<Rightarrow> u32 \<Rightarrow> bool) \<Rightarrow> u32 \<Rightarrow> u64 \<times> u32 \<Rightarrow> market_side \<Rightarrow> market_side" where
  "a_book before price e ls =
     (if price \<in> fst ` set ls then map (\<lambda>(p, os). (p, if p = price then os @ [e] else os)) ls
      else level_put before price [e] ls)"

definition a_cancel :: "u64 \<Rightarrow> market_side \<Rightarrow> market_side" where
  "a_cancel ident ls = filter (\<lambda>(p, os). os \<noteq> []) (map (\<lambda>(p, os). (p, filter (\<lambda>(i, q). i \<noteq> ident) os)) ls)"

text \<open>The market: asks and bids.\<close>

type_synonym market = "market_side \<times> market_side"

fun a_limit :: "u64 \<Rightarrow> u32 \<Rightarrow> u32 \<Rightarrow> Side \<Rightarrow> market \<Rightarrow> market" where
  "a_limit ident price qty BUY (asks, bids) =
     (case a_match (\<lambda>best. best \<le> price) asks qty of
        (r, asks') \<Rightarrow> (asks', if r > 0 then a_book (>) price (ident, r) bids else bids))"
| "a_limit ident price qty SELL (asks, bids) =
     (case a_match (\<lambda>best. price \<le> best) bids qty of
        (r, bids') \<Rightarrow> (if r > 0 then a_book (<) price (ident, r) asks else asks, bids'))"

end
