(* ===== verification/Order_Refine.thy ===== *)
theory Order_Refine
  imports Order_Book
begin

text \<open>
  The order book over its heap implements the market of the specification: an invariant that relates the
  pool, the queues, the levels and the order map with a market, and its preservation by \<open>limit_order\<close> and
  \<open>cancel_order\<close>.
\<close>

section \<open>Representation\<close>

text \<open>The queue of a level: its links, and what it says of its orders.\<close>

definition queue_ok :: "OrderPool \<Rightarrow> Side \<Rightarrow> u32 \<Rightarrow> Limit \<Rightarrow> nat list \<Rightarrow> bool" where
  "queue_ok p side price lim as \<longleftrightarrow>
     seg p None (lhead lim) as (ltail lim) None \<and>
     (\<forall>a \<in> set as. oprice (m_pool p a) = price \<and> oside (m_pool p a) = side \<and> oqty (m_pool p a) \<noteq> 0) \<and>
     lprice lim = price \<and> total_volume lim = sum_list (map (\<lambda>a. oqty (m_pool p a)) as)"

definition entry :: "OrderPool \<Rightarrow> nat \<Rightarrow> u64 \<times> u32" where
  "entry p a = (oid (m_pool p a), oqty (m_pool p a))"

text \<open>The pool and the order map, given the slots of the resting orders.\<close>

definition store_ok :: "nat \<Rightarrow> nat set \<Rightarrow> OrderPool \<Rightarrow> (u64 \<times> nat) list \<Rightarrow> bool" where
  "store_ok N live p om \<longleftrightarrow>
     pool_inv (next_order p) (order_free p) {0..<N} live \<and> distinct (al_keys om) \<and>
     (\<forall>i a. al_find i om = Some a \<longleftrightarrow> a \<in> live \<and> oid (m_pool p a) = i)"

lemma content_eqD:
  assumes "content p' a = content p a"
  shows "oid (m_pool p' a) = oid (m_pool p a)" "oprice (m_pool p' a) = oprice (m_pool p a)"
    "oqty (m_pool p' a) = oqty (m_pool p a)" "oside (m_pool p' a) = oside (m_pool p a)" "entry p' a = entry p a"
  using assms by (simp_all add: content_def entry_def)

lemma queue_ok_agree:
  assumes "queue_ok p side price lim as" and "\<forall>a \<in> set as. m_pool p' a = m_pool p a"
  shows "queue_ok p' side price lim as"
proof -
  have "(\<Sum>a\<leftarrow>as. oqty (m_pool p' a)) = (\<Sum>a\<leftarrow>as. oqty (m_pool p a))"
    by (rule arg_cong [of _ _ sum_list]) (simp add: assms(2))
  moreover have "seg p' None (lhead lim) as (ltail lim) None"
    by (rule seg_agree [of p]) (use assms in \<open>auto simp: queue_ok_def\<close>)
  ultimately show ?thesis using assms by (simp add: queue_ok_def)
qed

lemma queue_ok_empty: "queue_ok p side price lim as \<Longrightarrow> lhead lim = None \<longleftrightarrow> as = []"
  by (cases as) (auto simp: queue_ok_def)

lemma queue_ok_content:
  assumes "seg p' None (lhead lim) as (ltail lim) None" and "\<forall>a \<in> set as. content p' a = content p a"
    and "\<forall>a \<in> set as. oprice (m_pool p a) = price \<and> oside (m_pool p a) = side \<and> oqty (m_pool p a) \<noteq> 0"
    and "lprice lim = price" and "total_volume lim = sum_list (map (\<lambda>a. oqty (m_pool p a)) as)"
  shows "queue_ok p' side price lim as"
proof -
  have same: "oprice (m_pool p' a) = oprice (m_pool p a) \<and> oqty (m_pool p' a) = oqty (m_pool p a) \<and>
      oside (m_pool p' a) = oside (m_pool p a)" if "a \<in> set as" for a
    using content_eqD(2-4) [of p' a p] assms(2) that by blast
  then have "(\<Sum>a\<leftarrow>as. oqty (m_pool p' a)) = (\<Sum>a\<leftarrow>as. oqty (m_pool p a))"
    by (intro arg_cong [of _ _ sum_list]) simp
  then show ?thesis
    using assms(1,3-5) same by (simp add: queue_ok_def)
qed

text \<open>Steps that leave the unused slots alone and keep the identifiers of the used ones.\<close>

lemma store_ok_agree:
  assumes "store_ok N live p om" and "order_free p' = order_free p"
    and "\<forall>a. a \<notin> live \<longrightarrow> m_pool p' a = m_pool p a" and "\<forall>a \<in> live. oid (m_pool p' a) = oid (m_pool p a)"
  shows "store_ok N live p' om"
proof -
  have "pool_inv (next_order p') (order_free p') {0..<N} live"
    using assms pool_inv_cong [of "next_order p" "order_free p" "{0..<N}" live "next_order p'"] by (simp add: store_ok_def)
  then show ?thesis using assms by (auto simp: store_ok_def)
qed

lemma store_ok_drop:
  assumes ok: "store_ok N live p om" and a: "a \<in> live"
  shows "store_ok N (live - {a}) (deallocate_order a p) (al_erase (oid (m_pool p a)) om)"
proof -
  have "a \<in> {0..<N}" using ok a by (auto simp: store_ok_def pool_inv_def)
  then have "pool_inv (next_order (deallocate_order a p)) (order_free (deallocate_order a p)) {0..<N} (live - {a})"
    using ok a by (intro ord.give_back) (auto simp: store_ok_def)
  moreover have "al_find i om = Some b \<longleftrightarrow> b \<in> live \<and> oid (m_pool p b) = i" for i b
    using ok by (simp add: store_ok_def)
  moreover from this have "\<forall>b \<in> live. oid (m_pool p b) = oid (m_pool p a) \<longrightarrow> b = a"
    using a by (metis option.inject)
  moreover have "oid (m_pool (deallocate_order a p) b) = oid (m_pool p b)" for b
    by (simp add: deallocate_order_def)
  ultimately show ?thesis
    using ok unfolding store_ok_def by (auto simp: distinct_al_erase)
qed

section \<open>One level\<close>

text \<open>A resting order that is filled leaves the queue, the order map and its slot.\<close>

lemma match_order_fill:
  assumes q: "queue_ok (match_pool s) side price (limit_level s) (a # as)" and d: "distinct (a # as)"
    and st: "store_ok N live (match_pool s) (match_orders s)" and sub: "set (a # as) \<subseteq> live"
    and fill: "oqty (m_pool (match_pool s) a) \<le> remaining_qty s"
  shows "remaining_qty (match_order a s) = remaining_qty s - oqty (m_pool (match_pool s) a) \<and>
    queue_ok (match_pool (match_order a s)) side price (limit_level (match_order a s)) as \<and>
    store_ok N (live - {a}) (match_pool (match_order a s)) (match_orders (match_order a s)) \<and>
    lhead (limit_level (match_order a s)) = onext (m_pool (match_pool s) a) \<and>
    map (entry (match_pool (match_order a s))) as = map (entry (match_pool s)) as \<and>
    (\<forall>x. x \<notin> set (a # as) \<longrightarrow> m_pool (match_pool (match_order a s)) x = m_pool (match_pool s) x)"
proof -
  define p where "p = match_pool s"
  define n where "n = oqty (m_pool p a)"
  define lim where "lim = (limit_level s)\<lparr>total_volume := total_volume (limit_level s) - n\<rparr>"
  define p1 where "p1 = set_qty a 0 p"
  have seg0: "seg p None (lhead lim) (a # as) (ltail lim) None"
    using q by (simp add: queue_ok_def p_def lim_def)
  then have seg: "seg p1 None (lhead lim) ([] @ a # as) (ltail lim) None"
    by (simp only: append_Nil, rule seg_agree) (auto simp: p1_def set_qty_def)
  obtain lim' p2 where rem: "limit_remove a lim p1 = (lim', p2)" "seg p2 None (lhead lim') as (ltail lim') None"
      "total_volume lim' = total_volume lim" "lprice lim' = lprice lim" "order_free p2 = order_free p1"
      "content p2 = content p1" "\<forall>x. x \<notin> set as \<longrightarrow> m_pool p2 x = m_pool p1 x"
    using limit_remove_seg [OF seg] d by (auto simp: p1_def set_qty_def)
  have a: "a \<notin> set as" using d by simp
  have head: "lhead lim' = onext (m_pool p a)"
    using seg_first [OF rem(2)] seg0 seg_first [of p "Some a" "onext (m_pool p a)" as] by auto
  have s': "match_order a s = s\<lparr>remaining_qty := remaining_qty s - n, limit_level := lim',
      match_orders := al_erase (oid (m_pool p2 a)) (match_orders s), match_pool := deallocate_order a p2\<rparr>"
    using fill rem(1) by (simp add: match_order_def Let_def p_def n_def lim_def p1_def min_absorb2 set_qty_def)
  have cont: "content (deallocate_order a p2) b = content p b" if "b \<in> set as" for b
  proof -
    have "content (deallocate_order a p2) b = content p2 b" by (simp add: content_def deallocate_order_def)
    also have "\<dots> = content p b" using that a by (auto simp: rem(6) content_def p1_def set_qty_def)
    finally show ?thesis .
  qed
  have "queue_ok (deallocate_order a p2) side price lim' as"
  proof (rule queue_ok_content)
    show "seg (deallocate_order a p2) None (lhead lim') as (ltail lim') None"
      using rem(2) by (rule seg_agree) (use a in \<open>auto simp: deallocate_order_def\<close>)
    show "\<forall>b \<in> set as. content (deallocate_order a p2) b = content p b" using cont by blast
  qed (use q rem(3,4) in \<open>auto simp: queue_ok_def p_def lim_def n_def\<close>)
  moreover have "store_ok N live p2 (match_orders s)"
    by (rule store_ok_agree [OF st])
      (use rem(5-7) sub in \<open>auto simp: p1_def p_def set_qty_def content_def fun_eq_iff\<close>)
  then have "store_ok N (live - {a}) (deallocate_order a p2) (al_erase (oid (m_pool p2 a)) (match_orders s))"
    using sub by (intro store_ok_drop) auto
  moreover have "m_pool (deallocate_order a p2) x = m_pool p x" if "x \<notin> set (a # as)" for x
    using that rem(7) by (simp add: deallocate_order_def p1_def set_qty_def)
  moreover have "map (entry (deallocate_order a p2)) as = map (entry p) as"
    using content_eqD(5) [OF cont] by simp
  ultimately show ?thesis
    unfolding s' using head by (simp add: p_def n_def)
qed

text \<open>A resting order that is larger than what is left keeps its place with the rest of its quantity.\<close>

lemma match_order_part:
  assumes q: "queue_ok (match_pool s) side price (limit_level s) (a # as)" and d: "distinct (a # as)"
    and st: "store_ok N live (match_pool s) (match_orders s)" and sub: "set (a # as) \<subseteq> live"
    and part: "remaining_qty s < oqty (m_pool (match_pool s) a)"
  shows "remaining_qty (match_order a s) = 0 \<and>
    queue_ok (match_pool (match_order a s)) side price (limit_level (match_order a s)) (a # as) \<and>
    store_ok N live (match_pool (match_order a s)) (match_orders (match_order a s)) \<and>
    map (entry (match_pool (match_order a s))) (a # as) =
      (oid (m_pool (match_pool s) a), oqty (m_pool (match_pool s) a) - remaining_qty s) # map (entry (match_pool s)) as \<and>
    (\<forall>x. x \<noteq> a \<longrightarrow> m_pool (match_pool (match_order a s)) x = m_pool (match_pool s) x)"
proof -
  define p where "p = match_pool s"
  define r where "r = remaining_qty s"
  define p1 where "p1 = set_qty a (oqty (m_pool p a) - r) p"
  have left: "oqty (m_pool p a) - r \<noteq> 0" using part by (simp add: p_def r_def)
  have s': "match_order a s = s\<lparr>remaining_qty := 0, match_pool := p1,
      limit_level := (limit_level s)\<lparr>total_volume := total_volume (limit_level s) - r\<rparr>\<rparr>"
    using part left by (simp add: match_order_def Let_def p_def r_def p1_def min_absorb1 less_imp_le set_qty_def)
  have a: "a \<notin> set as" using d by simp
  have other: "m_pool p1 x = m_pool p x" if "x \<noteq> a" for x using that by (simp add: p1_def)
  then have rest: "\<forall>b \<in> set as. m_pool p1 b = m_pool p b" using a by metis
  have "seg p1 None (lhead (limit_level s)) (a # as) (ltail (limit_level s)) None"
    by (rule seg_agree [of p]) (use q in \<open>auto simp: queue_ok_def p_def p1_def set_qty_def\<close>)
  moreover have "(\<Sum>b\<leftarrow>as. oqty (m_pool p1 b)) = (\<Sum>b\<leftarrow>as. oqty (m_pool p b))"
    by (rule arg_cong [of _ _ sum_list]) (simp add: rest)
  moreover have "oqty (m_pool p1 a) = oqty (m_pool p a) - r" "oid (m_pool p1 a) = oid (m_pool p a)"
      "oprice (m_pool p1 a) = oprice (m_pool p a)" "oside (m_pool p1 a) = oside (m_pool p a)"
    by (simp_all add: p1_def set_qty_def)
  ultimately have "queue_ok p1 side price ((limit_level s)\<lparr>total_volume := total_volume (limit_level s) - r\<rparr>) (a # as)"
    using q left rest by (simp add: queue_ok_def p_def)
  moreover have "store_ok N live p1 (match_orders s)"
    by (rule store_ok_agree [OF st]) (use sub in \<open>auto simp: p1_def p_def set_qty_def\<close>)
  moreover have "map (entry p1) (a # as) = (oid (m_pool p a), oqty (m_pool p a) - r) # map (entry p) as"
    using rest by (simp add: entry_def p1_def set_qty_def)
  ultimately show ?thesis
    unfolding s' using other by (simp add: p_def r_def)
qed

lemma sweep_level_refines:
  assumes "queue_ok (match_pool s) side price (limit_level s) as" and "distinct as"
    and "store_ok N live (match_pool s) (match_orders s)" and "set as \<subseteq> live"
  shows "\<exists>s' k. sweep_level (lhead (limit_level s)) s = Some s' \<and>
    queue_ok (match_pool s') side price (limit_level s') (drop k as) \<and>
    store_ok N (live - set (take k as)) (match_pool s') (match_orders s') \<and>
    a_sweep (map (entry (match_pool s)) as) (remaining_qty s) =
      (remaining_qty s', map (entry (match_pool s')) (drop k as)) \<and>
    (\<forall>x. x \<notin> set as \<longrightarrow> m_pool (match_pool s') x = m_pool (match_pool s) x)"
  using assms
proof (induction as arbitrary: s live)
  case Nil
  then show ?case by (auto simp: queue_ok_def sweep_level.simps)
next
  case (Cons a as)
  have head: "lhead (limit_level s) = Some a" using Cons.prems(1) by (simp add: queue_ok_def)
  let ?q = "oqty (m_pool (match_pool s) a)"
  have first: "entry (match_pool s) a = (oid (m_pool (match_pool s) a), ?q)" by (simp add: entry_def)
  consider (zero) "remaining_qty s = 0" | (fill) "remaining_qty s > 0" "?q \<le> remaining_qty s"
    | (part) "remaining_qty s > 0" "remaining_qty s < ?q"
    using word_gt_0 [of "remaining_qty s"] linorder_not_le [of ?q "remaining_qty s"] by metis
  then show ?case
  proof cases
    case zero
    then show ?thesis
      using Cons.prems by (intro exI [of _ s] exI [of _ 0]) (simp add: head first sweep_level.simps)
  next
    case fill
    let ?s = "match_order a s"
    note step = match_order_fill [OF Cons.prems fill(2)]
    have run: "sweep_level (lhead (limit_level s)) s = sweep_level (lhead (limit_level ?s)) ?s"
      using fill step by (simp add: head sweep_level.simps [of "Some a"])
    have "distinct as" "set as \<subseteq> live - {a}" using Cons.prems by auto
    from Cons.IH [OF _ this(1) _ this(2), of ?s] step obtain s' k where s': "sweep_level (lhead (limit_level ?s)) ?s = Some s'"
        "queue_ok (match_pool s') side price (limit_level s') (drop k as)"
        "store_ok N (live - {a} - set (take k as)) (match_pool s') (match_orders s')"
        "a_sweep (map (entry (match_pool ?s)) as) (remaining_qty ?s) = (remaining_qty s', map (entry (match_pool s')) (drop k as))"
        "\<forall>x. x \<notin> set as \<longrightarrow> m_pool (match_pool s') x = m_pool (match_pool ?s) x"
      by blast
    have "live - {a} - set (take k as) = live - set (take (Suc k) (a # as))" by auto
    then show ?thesis
      using fill s' step run by (intro exI [of _ s'] exI [of _ "Suc k"]) (simp add: first word_gt_0)
  next
    case part
    note step = match_order_part [OF Cons.prems part(2)]
    have "sweep_level (lhead (limit_level s)) s = Some (match_order a s)"
      using part step by (simp add: head sweep_level.simps [of "Some a"] sweep_level.simps [of "next_order p a" for p] split: option.split)
    moreover have "\<not> ?q \<le> remaining_qty s" using part(2) by (simp only: not_le)
    ultimately show ?thesis
      using part step by (intro exI [of _ "match_order a s"] exI [of _ 0]) (simp add: first word_gt_0)
  qed
qed

section \<open>The levels of a side\<close>

definition levels_ok :: "OrderPool \<Rightarrow> Side \<Rightarrow> levels \<Rightarrow> nat list list \<Rightarrow> bool" where
  "levels_ok p side lv qs \<longleftrightarrow> list_all2 (\<lambda>(price, lim) as. queue_ok p side price lim as) lv qs"

definition market_of :: "OrderPool \<Rightarrow> levels \<Rightarrow> nat list list \<Rightarrow> market_side" where
  "market_of p lv qs = map2 (\<lambda>(price, lim) as. (price, map (entry p) as)) lv qs"

lemma levels_ok_simps [simp]:
  "levels_ok p side [] [] = True"
  "levels_ok p side ((price, lim) # lv) (as # qs) = (queue_ok p side price lim as \<and> levels_ok p side lv qs)"
  by (simp_all add: levels_ok_def)

lemma market_of_simps [simp]:
  "market_of p [] qs = []"
  "market_of p ((price, lim) # lv) (as # qs) = (price, map (entry p) as) # market_of p lv qs"
  by (simp_all add: market_of_def)

lemma levels_ok_length: "levels_ok p side lv qs \<Longrightarrow> length lv = length qs"
  by (simp add: levels_ok_def list_all2_lengthD)

lemma levels_induct [consumes 1, case_names Nil Cons]:
  assumes "length lv = length qs" and "P [] []"
    and "\<And>price lim lv as qs. length lv = length qs \<Longrightarrow> P lv qs \<Longrightarrow> P ((price, lim) # lv) (as # qs)"
  shows "P lv qs"
  using assms by (induction lv qs rule: list_induct2) auto

lemma levels_ok_agree:
  assumes "levels_ok p side lv qs" and "\<forall>a \<in> set (concat qs). m_pool p' a = m_pool p a"
  shows "levels_ok p' side lv qs \<and> market_of p' lv qs = market_of p lv qs"
  using levels_ok_length [OF assms(1)] assms
proof (induction lv qs rule: levels_induct)
  case (Cons price lim lv as qs)
  have "queue_ok p' side price lim as"
    by (rule queue_ok_agree [of p]) (use Cons.prems in auto)
  moreover have "map (entry p') as = map (entry p) as" using Cons.prems(2) by (simp add: entry_def)
  ultimately show ?case using Cons by simp
qed simp

lemma a_sweep_left: "a_sweep os r = (r', os') \<Longrightarrow> os' \<noteq> [] \<Longrightarrow> r' = 0"
  by (induction os r rule: a_sweep.induct) (auto split: if_splits)

text \<open>The outcome of matching against the levels of one side, as the heap program and the specification see it.\<close>

definition matched :: "nat \<Rightarrow> nat set \<Rightarrow> Side \<Rightarrow> (u32 \<Rightarrow> bool) \<Rightarrow> u32 \<Rightarrow> levels \<Rightarrow> nat list list \<Rightarrow> OrderPool \<Rightarrow> (u64 \<times> nat) list \<Rightarrow>
    u32 \<Rightarrow> levels \<Rightarrow> nat list list \<Rightarrow> OrderPool \<Rightarrow> (u64 \<times> nat) list \<Rightarrow> bool" where
  "matched N live side crosses r lv qs p om r' lv' qs' p' om' \<longleftrightarrow>
     match_levels crosses r lv p om = Some (r', lv', p', om') \<and>
     levels_ok p' side lv' qs' \<and> distinct (concat qs') \<and> [] \<notin> set qs' \<and> set (concat qs') \<subseteq> set (concat qs) \<and>
     store_ok N (live - (set (concat qs) - set (concat qs'))) p' om' \<and>
     a_match crosses (market_of p lv qs) r = (r', market_of p' lv' qs') \<and>
     (\<forall>x. x \<notin> set (concat qs) \<longrightarrow> m_pool p' x = m_pool p x)"

lemma matched_stop:
  assumes "levels_ok p side ((price, lim) # lv) (as # qs)" and "distinct (concat (as # qs))" and "[] \<notin> set (as # qs)"
    and "store_ok N live p om" and "\<not> (r > 0 \<and> crosses price)"
  shows "matched N live side crosses r ((price, lim) # lv) (as # qs) p om r ((price, lim) # lv) (as # qs) p om"
proof -
  have "match_levels crosses r ((price, lim) # lv) p om = Some (r, (price, lim) # lv, p, om)"
    using assms(5) by (simp add: match_levels.simps)
  moreover have "a_match crosses (market_of p ((price, lim) # lv) (as # qs)) r = (r, market_of p ((price, lim) # lv) (as # qs))"
    using assms(5) by (auto simp: word_gt_0)
  ultimately show ?thesis
    using assms(1-4) by (simp add: matched_def)
qed

text \<open>A level that is swept empty is erased and matching goes on; what is left of one ends it.\<close>

lemma matched_emptied:
  assumes "distinct (concat (as # qs))" and "r > 0" and "crosses price"
    and sweep: "sweep_level (lhead lim) \<lparr>remaining_qty = r, limit_level = lim, match_pool = p, match_orders = om\<rparr> = Some s'"
      "lhead (limit_level s') = None" "a_sweep (map (entry p) as) r = (remaining_qty s', [])"
      "\<forall>x. x \<notin> set as \<longrightarrow> m_pool (match_pool s') x = m_pool p x" "market_of (match_pool s') lv qs = market_of p lv qs"
    and ih: "matched N (live - set as) side crosses (remaining_qty s') lv qs (match_pool s') (match_orders s') r' lv' qs' p' om'"
  shows "matched N live side crosses r ((price, lim) # lv) (as # qs) p om r' lv' qs' p' om'"
proof -
  note ih = ih [unfolded matched_def]
  have "set (concat qs') \<subseteq> set (concat qs)" "set as \<inter> set (concat qs) = {}" using ih assms(1) by simp_all
  then have "live - set as - (set (concat qs) - set (concat qs')) = live - (set (concat (as # qs)) - set (concat qs'))"
    unfolding concat.simps(2) set_append by blast
  moreover have "a_match crosses (market_of p ((price, lim) # lv) (as # qs)) r = (r', market_of p' lv' qs')"
    using assms(2,3) ih sweep(3,5) by (simp add: word_gt_0)
  moreover have "match_levels crosses r ((price, lim) # lv) p om = Some (r', lv', p', om')"
    using ih assms(2,3) sweep(1,2) by (subst match_levels.simps) simp
  moreover have "\<forall>x. x \<notin> set (concat (as # qs)) \<longrightarrow> m_pool p' x = m_pool p x" using ih sweep(4) by simp
  ultimately show ?thesis
    using ih by (auto simp: matched_def)
qed

lemma matched_left:
  assumes "distinct (concat (as # qs))" and "[] \<notin> set qs" and "r > 0" and "crosses price" and left: "drop k as \<noteq> []"
    and sweep: "sweep_level (lhead lim) \<lparr>remaining_qty = r, limit_level = lim, match_pool = p, match_orders = om\<rparr> = Some s'"
      "queue_ok (match_pool s') side price (limit_level s') (drop k as)"
      "store_ok N (live - set (take k as)) (match_pool s') (match_orders s')"
      "a_sweep (map (entry p) as) r = (remaining_qty s', map (entry (match_pool s')) (drop k as))"
      "\<forall>x. x \<notin> set as \<longrightarrow> m_pool (match_pool s') x = m_pool p x"
    and rest: "levels_ok (match_pool s') side lv qs" "market_of (match_pool s') lv qs = market_of p lv qs"
  shows "matched N live side crosses r ((price, lim) # lv) (as # qs) p om
    0 ((price, limit_level s') # lv) (drop k as # qs) (match_pool s') (match_orders s')"
proof -
  have zero: "remaining_qty s' = 0" using a_sweep_left sweep(4) left by force
  have "lhead (limit_level s') \<noteq> None" using queue_ok_empty [OF sweep(2)] left by simp
  then have "match_levels crosses r ((price, lim) # lv) p om =
      Some (0, (price, limit_level s') # lv, match_pool s', match_orders s')"
    using assms(3,4) sweep(1) zero by (subst match_levels.simps) (simp add: match_levels.simps)
  moreover have "live - (set (concat (as # qs)) - set (concat (drop k as # qs))) = live - set (take k as)"
  proof -
    have "set as = set (take k as) \<union> set (drop k as)" "set (take k as) \<inter> set (drop k as) = {}"
      using assms(1) append_take_drop_id [of k as] by (metis set_append, simp add: set_take_disj_set_drop_if_distinct)
    then show ?thesis using assms(1) by auto
  qed
  moreover have "a_match crosses (market_of p ((price, lim) # lv) (as # qs)) r =
      (0, market_of (match_pool s') ((price, limit_level s') # lv) (drop k as # qs))"
    using assms(3,4) zero sweep(4) rest(2) left by (simp add: word_gt_0)
  moreover have "distinct (concat (drop k as # qs))" "set (concat (drop k as # qs)) \<subseteq> set (concat (as # qs))"
    using assms(1) set_drop_subset [of k as] by auto
  ultimately show ?thesis
    using sweep(2,3,5) rest(1) assms(2) left by (simp add: matched_def)
qed

lemma match_levels_matched:
  assumes "levels_ok p side lv qs" and "distinct (concat qs)" and "[] \<notin> set qs"
    and "store_ok N live p om" and "set (concat qs) \<subseteq> live"
  shows "\<exists>r' lv' p' om' qs'. matched N live side crosses r lv qs p om r' lv' qs' p' om'"
  using levels_ok_length [OF assms(1)] assms
proof (induction lv qs arbitrary: p om live r rule: levels_induct)
  case Nil
  then show ?case by (auto simp: matched_def match_levels.simps intro: exI [of _ "[]"])
next
  case (Cons price lim lv as qs)
  note prems = Cons.prems
  show ?case
  proof (cases "r > 0 \<and> crosses price")
    case False
    then show ?thesis using matched_stop [OF prems(1-4), of r crosses] by blast
  next
    case True
    let ?s = "\<lparr>remaining_qty = r, limit_level = lim, match_pool = p, match_orders = om\<rparr>"
    obtain s' k where s': "sweep_level (lhead lim) ?s = Some s'"
        "queue_ok (match_pool s') side price (limit_level s') (drop k as)"
        "store_ok N (live - set (take k as)) (match_pool s') (match_orders s')"
        "a_sweep (map (entry p) as) r = (remaining_qty s', map (entry (match_pool s')) (drop k as))"
        "\<forall>x. x \<notin> set as \<longrightarrow> m_pool (match_pool s') x = m_pool p x"
      using sweep_level_refines [of ?s side price as N live] prems by auto
    have "\<forall>a \<in> set (concat qs). m_pool (match_pool s') a = m_pool p a" using prems(2) s'(5) by auto
    from levels_ok_agree [OF _ this] prems(1)
    have rest: "levels_ok (match_pool s') side lv qs" "market_of (match_pool s') lv qs = market_of p lv qs" by auto
    show ?thesis
    proof (cases "drop k as = []")
      case empty: True
      then have st: "store_ok N (live - set as) (match_pool s') (match_orders s')" using s'(3) by simp
      have "set (concat qs) \<subseteq> live - set as" using prems(2,5) by auto
      with Cons.IH [OF rest(1) _ _ st, of "remaining_qty s'"] prems(2,3)
      obtain r' lv' p' om' qs' where ih: "matched N (live - set as) side crosses (remaining_qty s') lv qs
          (match_pool s') (match_orders s') r' lv' qs' p' om'" by auto
      have "lhead (limit_level s') = None" "a_sweep (map (entry p) as) r = (remaining_qty s', [])"
        using s'(4) empty queue_ok_empty [OF s'(2)] by simp_all
      from matched_emptied [where crosses = crosses and price = price, OF prems(2) conjunct1 [OF True] conjunct2 [OF True] s'(1) this s'(5) rest(2) ih]
      show ?thesis by blast
    next
      case False
      have "[] \<notin> set qs" using prems(3) by simp
      from matched_left [where crosses = crosses and price = price, OF prems(2) this conjunct1 [OF True] conjunct2 [OF True] False s' rest] show ?thesis by blast
    qed
  qed
qed

lemmas match_levels_refines = match_levels_matched [unfolded matched_def]

section \<open>Booking\<close>

lemma levels_ok_append:
  "length l1 = length q1 \<Longrightarrow> levels_ok p side (l1 @ l2) (q1 @ q2) \<longleftrightarrow> levels_ok p side l1 q1 \<and> levels_ok p side l2 q2"
  by (simp add: levels_ok_def list_all2_append)

lemma market_of_append: "length l1 = length q1 \<Longrightarrow> market_of p (l1 @ l2) (q1 @ q2) = market_of p l1 q1 @ market_of p l2 q2"
  by (simp add: market_of_def)

lemma market_of_keys: "length lv = length qs \<Longrightarrow> map fst (market_of p lv qs) = map fst lv"
  by (induction lv qs rule: levels_induct) auto

lemma level_split:
  assumes "length lv = length qs" and "al_find price lv = Some lim"
  shows "\<exists>l1 l2 q1 as q2. lv = l1 @ (price, lim) # l2 \<and> qs = q1 @ as # q2 \<and> length l1 = length q1 \<and> price \<notin> fst ` set l1"
  using assms
proof (induction lv qs rule: levels_induct)
  case (Cons p l lv as qs)
  show ?case
  proof (cases "price = p")
    case True
    then show ?thesis using Cons.prems Cons.hyps by (intro exI [of _ "[]"] exI [of _ lv] exI [of _ as] exI [of _ qs]) auto
  next
    case False
    then obtain l1 l2 q1 as' q2 where "lv = l1 @ (price, lim) # l2" "qs = q1 @ as' # q2" "length l1 = length q1" "price \<notin> fst ` set l1"
      using Cons by auto
    then show ?thesis
      using False by (intro exI [of _ "(p, l) # l1"] exI [of _ l2] exI [of _ "as # q1"] exI [of _ as'] exI [of _ q2]) auto
  qed
qed simp

lemma al_put_split: "k \<notin> fst ` set l1 \<Longrightarrow> al_put k v (l1 @ (k, v') # l2) = l1 @ (k, v) # l2"
  by (induction l1 rule: al_erase.induct) auto

lemma al_erase_split: "k \<notin> fst ` set l1 \<Longrightarrow> al_erase k (l1 @ (k, v') # l2) = l1 @ l2"
  by (induction l1 rule: al_erase.induct) auto

lemma al_find_split: "k \<notin> fst ` set l1 \<Longrightarrow> al_find k (l1 @ (k, v') # l2) = Some v'"
  by (induction l1 rule: al_erase.induct) auto

lemma level_put_split:
  assumes "length lv = length qs"
  shows "\<exists>l1 l2 q1 q2. lv = l1 @ l2 \<and> qs = q1 @ q2 \<and> length l1 = length q1 \<and> level_put before k v lv = l1 @ (k, v) # l2 \<and>
    (\<forall>p e. level_put before k e (market_of p lv qs) = market_of p l1 q1 @ (k, e) # market_of p l2 q2)"
  using assms
proof (induction lv qs rule: levels_induct)
  case Nil
  then show ?case by (intro exI [of _ "[]"]) simp
next
  case (Cons price lim lv as qs)
  show ?case
  proof (cases "before k price")
    case True
    then show ?thesis
      by (intro exI [of _ "[]"] exI [of _ "(price, lim) # lv"] exI [of _ "as # qs"]) simp
  next
    case False
    obtain l1 l2 q1 q2 where ih: "lv = l1 @ l2" "qs = q1 @ q2" "length l1 = length q1" "level_put before k v lv = l1 @ (k, v) # l2"
        "\<forall>p e. level_put before k e (market_of p lv qs) = market_of p l1 q1 @ (k, e) # market_of p l2 q2"
      using Cons.IH by auto
    then show ?thesis
      using False by (intro exI [of _ "(price, lim) # l1"] exI [of _ l2] exI [of _ "as # q1"] exI [of _ q2]) simp
  qed
qed

text \<open>Appending to the queue of one level.\<close>

lemma append_level:
  assumes lv: "levels_ok p side (l1 @ (price, lim) # l2) (q1 @ as # q2)" and len: "length l1 = length q1"
    and d: "distinct (concat (q1 @ as # q2))" and a: "a \<notin> set (concat (q1 @ as # q2))"
    and links: "oprev (m_pool p a) = None" "onext (m_pool p a) = None"
    and order: "oprice (m_pool p a) = price" "oside (m_pool p a) = side" "oqty (m_pool p a) \<noteq> 0"
  shows "\<exists>lim' p'. limit_append a lim p = Some (lim', p') \<and>
    levels_ok p' side (l1 @ (price, lim') # l2) (q1 @ (as @ [a]) # q2) \<and>
    market_of p' (l1 @ (price, lim') # l2) (q1 @ (as @ [a]) # q2) =
      market_of p l1 q1 @ (price, map (entry p) as @ [entry p a]) # market_of p l2 q2 \<and>
    order_free p' = order_free p \<and> content p' = content p \<and> (\<forall>x. x \<notin> set (as @ [a]) \<longrightarrow> m_pool p' x = m_pool p x)"
proof -
  have parts: "levels_ok p side l1 q1" "queue_ok p side price lim as" "levels_ok p side l2 q2"
    using lv by (simp_all add: levels_ok_append [OF len])
  then obtain lim' p' where app: "limit_append a lim p = Some (lim', p')" "seg p' None (lhead lim') (as @ [a]) (ltail lim') None"
      "total_volume lim' = total_volume lim + oqty (m_pool p a)" "lprice lim' = lprice lim"
      "order_free p' = order_free p" "content p' = content p" "\<forall>x. x \<notin> set (as @ [a]) \<longrightarrow> m_pool p' x = m_pool p x"
    using limit_append_seg [of p lim as a] d a links by (auto simp: queue_ok_def)
  have "set (concat q1) \<inter> set (as @ [a]) = {}" "set (concat q2) \<inter> set (as @ [a]) = {}"
    using d a by auto
  then have "\<forall>b \<in> set (concat q1). m_pool p' b = m_pool p b" "\<forall>b \<in> set (concat q2). m_pool p' b = m_pool p b"
    using app(7) by blast+
  from levels_ok_agree [OF parts(1) this(1)] levels_ok_agree [OF parts(3) this(2)]
  have others: "levels_ok p' side l1 q1" "levels_ok p' side l2 q2"
      "market_of p' l1 q1 = market_of p l1 q1" "market_of p' l2 q2 = market_of p l2 q2"
    by auto
  have "queue_ok p' side price lim' (as @ [a])"
    by (rule queue_ok_content [of _ _ _ p])
      (use app(2-4,6) parts(2) order in \<open>auto simp: queue_ok_def\<close>)
  moreover have "entry p' = entry p" by (rule ext, rule content_eqD(5)) (simp add: app(6))
  ultimately show ?thesis
    using app others len by (auto simp: levels_ok_append market_of_append)
qed

lemma append_other: "price \<notin> fst ` set ls \<Longrightarrow> map (\<lambda>(p, os). (p, if p = price then os @ [e] else os)) ls = ls"
  by (induction ls) auto

lemma book_side_refines:
  assumes lv: "levels_ok p side lv qs" and d: "distinct (concat qs)" and ne: "[] \<notin> set qs" and keys: "distinct (map fst lv)"
    and a: "a \<notin> set (concat qs)" and links: "oprev (m_pool p a) = None" "onext (m_pool p a) = None"
    and order: "oprice (m_pool p a) = price" "oside (m_pool p a) = side" "oqty (m_pool p a) \<noteq> 0"
  shows "\<exists>lv' p' qs'. book_side before price a lv p = Some (lv', p') \<and> levels_ok p' side lv' qs' \<and>
    distinct (concat qs') \<and> [] \<notin> set qs' \<and> set (concat qs') = insert a (set (concat qs)) \<and>
    market_of p' lv' qs' = a_book before price (entry p a) (market_of p lv qs) \<and>
    order_free p' = order_free p \<and> content p' = content p \<and>
    (\<forall>x. x \<notin> insert a (set (concat qs)) \<longrightarrow> m_pool p' x = m_pool p x)"
proof (cases "al_find price lv")
  case None
  note len = levels_ok_length [OF lv]
  obtain l1 l2 q1 q2 where sp: "lv = l1 @ l2" "qs = q1 @ q2" "length l1 = length q1"
      "level_put before price (new_limit price) lv = l1 @ (price, new_limit price) # l2"
      "\<forall>p e. level_put before price e (market_of p lv qs) = market_of p l1 q1 @ (price, e) # market_of p l2 q2"
    using level_put_split [OF len, of before price "new_limit price"] by (elim exE conjE) (rule that)
  have new: "price \<notin> fst ` set lv" using None by (simp add: al_find_None)
  then have new1: "price \<notin> fst ` set l1" by (auto simp: sp(1))
  have "queue_ok p side price (new_limit price) []" by (simp add: queue_ok_def new_limit_def)
  then have "levels_ok p side (l1 @ (price, new_limit price) # l2) (q1 @ [] # q2)"
    using lv by (simp add: sp(1,2) levels_ok_append [OF sp(3)])
  from append_level [OF this sp(3) _ _ links order] d a sp(2) obtain lim' p' where
    app: "limit_append a (new_limit price) p = Some (lim', p')" "levels_ok p' side (l1 @ (price, lim') # l2) (q1 @ [a] # q2)"
      "market_of p' (l1 @ (price, lim') # l2) (q1 @ [a] # q2) = market_of p l1 q1 @ (price, [entry p a]) # market_of p l2 q2"
      "order_free p' = order_free p" "content p' = content p" "\<forall>x. x \<noteq> a \<longrightarrow> m_pool p' x = m_pool p x"
    by auto
  have "book_side before price a lv p = Some (l1 @ (price, lim') # l2, p')"
    using None app(1) new1 by (simp add: book_side_def sp(4) al_find_split al_put_split)
  moreover have "price \<notin> fst ` set (market_of p lv qs)"
    using new market_of_keys [OF len, of p] by (metis list.set_map)
  then have "a_book before price (entry p a) (market_of p lv qs) = market_of p l1 q1 @ (price, [entry p a]) # market_of p l2 q2"
    using sp(5) by (simp add: a_book_def)
  ultimately show ?thesis
    using app d a ne sp(2) by (intro exI [of _ "l1 @ (price, lim') # l2"] exI [of _ p'] exI [of _ "q1 @ [a] # q2"]) auto
next
  case (Some lim)
  note len = levels_ok_length [OF lv]
  obtain l1 l2 q1 as q2 where sp: "lv = l1 @ (price, lim) # l2" "qs = q1 @ as # q2" "length l1 = length q1" "price \<notin> fst ` set l1"
    using level_split [OF len Some] by blast
  from append_level [OF lv [unfolded sp(1,2)] sp(3) _ _ links order] d a sp(2) obtain lim' p' where
    app: "limit_append a lim p = Some (lim', p')" "levels_ok p' side (l1 @ (price, lim') # l2) (q1 @ (as @ [a]) # q2)"
      "market_of p' (l1 @ (price, lim') # l2) (q1 @ (as @ [a]) # q2) =
        market_of p l1 q1 @ (price, map (entry p) as @ [entry p a]) # market_of p l2 q2"
      "order_free p' = order_free p" "content p' = content p" "\<forall>x. x \<notin> set (as @ [a]) \<longrightarrow> m_pool p' x = m_pool p x"
    by auto
  have "book_side before price a lv p = Some (l1 @ (price, lim') # l2, p')"
    using Some app(1) sp(4) by (simp add: book_side_def sp(1) al_find_split al_put_split)
  moreover have "a_book before price (entry p a) (market_of p lv qs) =
      market_of p l1 q1 @ (price, map (entry p) as @ [entry p a]) # market_of p l2 q2"
  proof -
    have len2: "length l2 = length q2" using len sp(1-3) by simp
    have "price \<notin> set (map fst l1)" "price \<notin> set (map fst l2)" using keys sp(1) by auto
    then have "price \<notin> fst ` set (market_of p l1 q1)" "price \<notin> fst ` set (market_of p l2 q2)"
      using market_of_keys [OF sp(3), of p] market_of_keys [OF len2, of p] by (metis list.set_map)+
    then show ?thesis
      by (simp add: a_book_def sp(1,2) market_of_append [OF sp(3)] append_other)
  qed
  ultimately show ?thesis
    using app d a ne sp(2) by (intro exI [of _ "l1 @ (price, lim') # l2"] exI [of _ p'] exI [of _ "q1 @ (as @ [a]) # q2"]) auto
qed

section \<open>The book\<close>

text \<open>Both sides of the book, in either order.\<close>

definition sides_ok :: "nat \<Rightarrow> OrderPool \<Rightarrow> (u64 \<times> nat) list \<Rightarrow> Side \<Rightarrow> levels \<Rightarrow> nat list list \<Rightarrow> Side \<Rightarrow> levels \<Rightarrow> nat list list \<Rightarrow> bool" where
  "sides_ok N p om sA lvA qA sB lvB qB \<longleftrightarrow>
     levels_ok p sA lvA qA \<and> levels_ok p sB lvB qB \<and> [] \<notin> set (qA @ qB) \<and> distinct (concat (qA @ qB)) \<and>
     store_ok N (set (concat (qA @ qB))) p om"

lemma sides_ok_commute: "sides_ok N p om sA lvA qA sB lvB qB \<Longrightarrow> sides_ok N p om sB lvB qB sA lvA qA"
  by (auto simp: sides_ok_def Un_commute Int_commute)

lemma match_side:
  assumes ok: "sides_ok N p om sA lvA qA sB lvB qB"
  shows "\<exists>r' lvA' p' om' qA'. match_levels crosses r lvA p om = Some (r', lvA', p', om') \<and>
    sides_ok N p' om' sA lvA' qA' sB lvB qB \<and> a_match crosses (market_of p lvA qA) r = (r', market_of p' lvA' qA') \<and>
    market_of p' lvB qB = market_of p lvB qB"
proof -
  obtain r' lv' p' om' qs' where m: "match_levels crosses r lvA p om = Some (r', lv', p', om')"
      "levels_ok p' sA lv' qs'" "distinct (concat qs')" "[] \<notin> set qs'" "set (concat qs') \<subseteq> set (concat qA)"
      "store_ok N (set (concat (qA @ qB)) - (set (concat qA) - set (concat qs'))) p' om'"
      "a_match crosses (market_of p lvA qA) r = (r', market_of p' lv' qs')"
      "\<forall>x. x \<notin> set (concat qA) \<longrightarrow> m_pool p' x = m_pool p x"
    using match_levels_refines [of p sA lvA qA N "set (concat (qA @ qB))" om crosses r] ok by (auto simp: sides_ok_def)
  have disj: "set (concat qA) \<inter> set (concat qB) = {}" using ok by (simp add: sides_ok_def)
  then have "\<forall>a \<in> set (concat qB). m_pool p' a = m_pool p a" using m(8) by blast
  from levels_ok_agree [OF _ this] have B: "levels_ok p' sB lvB qB" "market_of p' lvB qB = market_of p lvB qB"
    using ok by (auto simp: sides_ok_def)
  have "set (concat (qA @ qB)) - (set (concat qA) - set (concat qs')) = set (concat (qs' @ qB))"
    using disj m(5) by auto
  moreover have "set (concat qs') \<inter> set (concat qB) = {}" using disj m(5) by blast
  ultimately have "sides_ok N p' om' sA lv' qs' sB lvB qB"
    using m(2-6) B(1) ok by (simp add: sides_ok_def)
  then show ?thesis using m(1,7) B(2) by blast
qed

text \<open>The identifiers of the resting orders of a side.\<close>

definition ids :: "market_side \<Rightarrow> u64 list" where
  "ids ls = concat (map (map fst \<circ> snd) ls)"

lemma ids_market_of: "length lv = length qs \<Longrightarrow> ids (market_of p lv qs) = map (\<lambda>a. oid (m_pool p a)) (concat qs)"
  by (induction lv qs rule: levels_induct) (auto simp: ids_def entry_def)

lemma sides_ok_ids:
  assumes "sides_ok N p om sA lvA qA sB lvB qB"
  shows "al_find i om = None \<longleftrightarrow> i \<notin> set (ids (market_of p lvA qA) @ ids (market_of p lvB qB))"
    and "card (set (concat (qA @ qB))) = length (ids (market_of p lvA qA) @ ids (market_of p lvB qB))"
proof -
  have len: "length lvA = length qA" "length lvB = length qB"
    using assms levels_ok_length by (auto simp: sides_ok_def)
  have all: "ids (market_of p lvA qA) @ ids (market_of p lvB qB) = map (\<lambda>a. oid (m_pool p a)) (concat (qA @ qB))"
    by (simp add: ids_market_of len)
  have "al_find i om = Some a \<longleftrightarrow> a \<in> set (concat (qA @ qB)) \<and> oid (m_pool p a) = i" for a
    using assms by (simp only: sides_ok_def store_ok_def)
  then show "al_find i om = None \<longleftrightarrow> i \<notin> set (ids (market_of p lvA qA) @ ids (market_of p lvB qB))"
    unfolding all set_map by (metis (no_types, lifting) imageE imageI option.exhaust option.distinct(1))
  have "distinct (concat (qA @ qB))" using assms by (simp only: sides_ok_def)
  then show "card (set (concat (qA @ qB))) = length (ids (market_of p lvA qA) @ ids (market_of p lvB qB))"
    unfolding all length_map by (rule distinct_card)
qed

lemma store_ok_new:
  assumes st: "store_ok N live p om" and room: "live \<noteq> {0..<N}" and new: "al_find i om = None"
  shows "\<exists>a p1. allocate_order p = Some (a, p1) \<and> a \<notin> live \<and>
    store_ok N (insert a live) (fill_order a i price qty side p1) (al_put i a om) \<and>
    m_pool (fill_order a i price qty side p1) a = \<lparr>oid = i, oprice = price, oqty = qty, oside = side, oprev = None, onext = None\<rparr> \<and>
    (\<forall>b. b \<noteq> a \<longrightarrow> m_pool (fill_order a i price qty side p1) b = m_pool p b)"
proof -
  have inv: "pool_inv (next_order p) (order_free p) {0..<N} live" using st by (simp add: store_ok_def)
  from ord.take_fresh [OF inv room] obtain a p1 where a: "allocate_order p = Some (a, p1)" "a \<in> {0..<N} - live"
      "pool_inv (next_order p1) (order_free p1) {0..<N} (insert a live)"
    by blast
  let ?p = "fill_order a i price qty side p1"
  have at_a: "m_pool ?p a = \<lparr>oid = i, oprice = price, oqty = qty, oside = side, oprev = None, onext = None\<rparr>"
    and other: "\<forall>b. b \<noteq> a \<longrightarrow> m_pool ?p b = m_pool p b"
    using a(1) by (auto simp: allocate_order_def fill_order_def split: option.splits)
  have "next_order ?p = next_order p1" "order_free ?p = order_free p1" by (auto simp: fill_order_def)
  then have "pool_inv (next_order ?p) (order_free ?p) {0..<N} (insert a live)" using a(3) by simp
  moreover have "al_find j (al_put i a om) = Some b \<longleftrightarrow> b \<in> insert a live \<and> oid (m_pool ?p b) = j" for j b
  proof -
    have law: "al_find j om = Some b \<longleftrightarrow> b \<in> live \<and> oid (m_pool p b) = j" for j b using st by (simp add: store_ok_def)
    then have "b \<in> live \<Longrightarrow> oid (m_pool p b) \<noteq> i" using new by (metis option.distinct(1))
    then show ?thesis using law a(2) at_a other by (cases "b = a") auto
  qed
  ultimately have "store_ok N (insert a live) ?p (al_put i a om)"
    using st by (simp add: store_ok_def distinct_al_put)
  then show ?thesis using a at_a other by blast
qed

lemma book_side_ok:
  assumes ok: "sides_ok N p om sA lvA qA sB lvB qB" and keys: "distinct (map fst lvA)"
    and room: "length (ids (market_of p lvA qA) @ ids (market_of p lvB qB)) < N"
    and new: "i \<notin> set (ids (market_of p lvA qA) @ ids (market_of p lvB qB))" and qty: "qty \<noteq> 0"
  shows "\<exists>a p1 lvA' p' qA'. allocate_order p = Some (a, p1) \<and>
    book_side before price a lvA (fill_order a i price qty sA p1) = Some (lvA', p') \<and>
    sides_ok N p' (al_put i a om) sA lvA' qA' sB lvB qB \<and>
    market_of p' lvA' qA' = a_book before price (i, qty) (market_of p lvA qA) \<and> market_of p' lvB qB = market_of p lvB qB"
proof -
  let ?live = "set (concat (qA @ qB))"
  have "card ?live < card {0..<N}" using room sides_ok_ids(2) [OF ok] by simp
  then have "?live \<noteq> {0..<N}" by (metis less_irrefl)
  moreover have "al_find i om = None" using new sides_ok_ids(1) [OF ok] by simp
  moreover have "store_ok N ?live p om" using ok by (simp only: sides_ok_def)
  ultimately obtain a p1 where al: "allocate_order p = Some (a, p1)" "a \<notin> ?live"
      "store_ok N (insert a ?live) (fill_order a i price qty sA p1) (al_put i a om)"
      "m_pool (fill_order a i price qty sA p1) a = \<lparr>oid = i, oprice = price, oqty = qty, oside = sA, oprev = None, onext = None\<rparr>"
      "\<forall>b. b \<noteq> a \<longrightarrow> m_pool (fill_order a i price qty sA p1) b = m_pool p b"
    using store_ok_new [of N ?live p om i price qty sA] by blast
  let ?p = "fill_order a i price qty sA p1"
  have same: "\<forall>b \<in> set (concat qA). m_pool ?p b = m_pool p b" "\<forall>b \<in> set (concat qB). m_pool ?p b = m_pool p b"
    using al(2,5) by auto
  have A: "levels_ok ?p sA lvA qA" "market_of ?p lvA qA = market_of p lvA qA"
    and B: "levels_ok ?p sB lvB qB" "market_of ?p lvB qB = market_of p lvB qB"
    using levels_ok_agree [OF _ same(1)] levels_ok_agree [OF _ same(2)] ok by (auto simp: sides_ok_def)
  obtain lv' p' qs' where b: "book_side before price a lvA ?p = Some (lv', p')" "levels_ok p' sA lv' qs'"
      "distinct (concat qs')" "[] \<notin> set qs'" "set (concat qs') = insert a (set (concat qA))"
      "market_of p' lv' qs' = a_book before price (entry ?p a) (market_of ?p lvA qA)" "order_free p' = order_free ?p"
      "content p' = content ?p" "\<forall>x. x \<notin> insert a (set (concat qA)) \<longrightarrow> m_pool p' x = m_pool ?p x"
    using book_side_refines [OF A(1) _ _ keys, of a price before] ok al(2,4) qty by (auto simp: sides_ok_def)
  have disj: "insert a (set (concat qA)) \<inter> set (concat qB) = {}" using ok al(2) by (auto simp: sides_ok_def)
  then have "\<forall>x \<in> set (concat qB). m_pool p' x = m_pool ?p x" using b(9) by blast
  from levels_ok_agree [OF B(1) this] have B': "levels_ok p' sB lvB qB" "market_of p' lvB qB = market_of p lvB qB"
    using B(2) by auto
  have "store_ok N (insert a ?live) p' (al_put i a om)"
  proof (rule store_ok_agree [OF al(3) b(7)])
    show "\<forall>x \<in> insert a ?live. oid (m_pool p' x) = oid (m_pool ?p x)"
      by (intro ballI content_eqD(1)) (simp add: b(8))
  qed (use b(9) in auto)
  moreover have "insert a ?live = set (concat (qs' @ qB))" using b(5) by simp
  ultimately have "store_ok N (set (concat (qs' @ qB))) p' (al_put i a om)" by (simp only:)
  moreover have "[] \<notin> set (qs' @ qB)" using b(4) ok by (simp add: sides_ok_def)
  moreover have "distinct (concat (qs' @ qB))"
    unfolding concat_append distinct_append b(5) using b(3) disj ok by (simp add: sides_ok_def)
  ultimately have "sides_ok N p' (al_put i a om) sA lv' qs' sB lvB qB"
    unfolding sides_ok_def using b(2) B'(1) by blast
  moreover have "entry ?p a = (i, qty)" using al(4) by (simp add: entry_def)
  ultimately show ?thesis using al(1) b(1,6) A(2) B'(2) by auto
qed

section \<open>Cancelling\<close>

lemma store_ok_inj: "store_ok N live p om \<Longrightarrow> a \<in> live \<Longrightarrow> b \<in> live \<Longrightarrow> oid (m_pool p a) = oid (m_pool p b) \<Longrightarrow> a = b"
  unfolding store_ok_def by (metis option.inject)

lemma a_cancel_append: "a_cancel i (ls @ ls') = a_cancel i ls @ a_cancel i ls'"
  by (simp add: a_cancel_def)

lemma a_cancel_other:
  assumes "i \<notin> set (ids ls)" and "[] \<notin> set (map snd ls)"
  shows "a_cancel i ls = ls"
  using assms
proof (induction ls)
  case (Cons l ls)
  obtain p os where l: "l = (p, os)" by (cases l)
  have "filter (\<lambda>(j, q). j \<noteq> i) os = os" using Cons.prems(1) by (force simp: l ids_def filter_id_conv)
  then show ?case using Cons by (auto simp: l a_cancel_def ids_def)
qed (simp add: a_cancel_def)

lemma market_of_nonempty: "length lv = length qs \<Longrightarrow> [] \<notin> set qs \<Longrightarrow> [] \<notin> set (map snd (market_of p lv qs))"
  by (induction lv qs rule: levels_induct) auto

lemma level_of:
  assumes "length lv = length qs" and "a \<in> set (concat qs)"
  shows "\<exists>l1 price lim l2 q1 xs ys q2. lv = l1 @ (price, lim) # l2 \<and> qs = q1 @ (xs @ a # ys) # q2 \<and> length l1 = length q1"
proof -
  obtain as where as: "as \<in> set qs" "a \<in> set as" using assms(2) by auto
  obtain q1 q2 where q: "qs = q1 @ as # q2" using split_list [OF as(1)] by auto
  obtain xs ys where xs: "as = xs @ a # ys" using split_list [OF as(2)] by auto
  have "length q1 < length lv" using assms(1) q by simp
  then have "lv = take (length q1) lv @ (fst (lv ! length q1), snd (lv ! length q1)) # drop (Suc (length q1)) lv"
    by (simp add: id_take_nth_drop)
  moreover have "length (take (length q1) lv) = length q1" using assms(1) q by simp
  ultimately show ?thesis using q xs by blast
qed

text \<open>Removing an order from the queue of its level, on the memory.\<close>

lemma remove_level:
  assumes lv: "levels_ok p side (l1 @ (price, lim) # l2) (q1 @ (xs @ a # ys) # q2)" and len: "length l1 = length q1"
    and d: "distinct (concat (q1 @ (xs @ a # ys) # q2))"
  shows "\<exists>lim' p'. limit_remove a lim p = (lim', p') \<and>
    levels_ok (deallocate_order a p') side (l1 @ (price, lim') # l2) (q1 @ (xs @ ys) # q2) \<and>
    market_of (deallocate_order a p') l1 q1 = market_of p l1 q1 \<and> market_of (deallocate_order a p') l2 q2 = market_of p l2 q2 \<and>
    map (entry (deallocate_order a p')) (xs @ ys) = map (entry p) (xs @ ys) \<and>
    (lhead lim' = None \<longleftrightarrow> xs @ ys = []) \<and> order_free p' = order_free p \<and> content p' = content p \<and>
    (\<forall>x. x \<notin> set (xs @ ys) \<longrightarrow> m_pool p' x = m_pool p x)"
proof -
  have parts: "levels_ok p side l1 q1" "queue_ok p side price lim (xs @ a # ys)" "levels_ok p side l2 q2"
    using lv by (simp_all add: levels_ok_append [OF len])
  have dq: "distinct (xs @ a # ys)" using d by auto
  have segq: "seg p None (lhead lim) (xs @ a # ys) (ltail lim) None" using parts(2) by (simp add: queue_ok_def)
  from limit_remove_seg [OF segq dq] obtain lim' p' where
    rem: "limit_remove a lim p = (lim', p')" "seg p' None (lhead lim') (xs @ ys) (ltail lim') None"
      "total_volume lim' = total_volume lim - oqty (m_pool p a)" "lprice lim' = lprice lim"
      "order_free p' = order_free p" "content p' = content p" "\<forall>x. x \<notin> set xs \<union> set ys \<longrightarrow> m_pool p' x = m_pool p x"
    by blast
  let ?p = "deallocate_order a p'"
  have cont: "content ?p = content p" using rem(6) by (auto simp: content_def deallocate_order_def fun_eq_iff)
  have "set (concat q1) \<inter> set (xs @ a # ys) = {}" "set (concat q2) \<inter> set (xs @ a # ys) = {}" using d by auto
  moreover have "m_pool ?p b = m_pool p b" if "b \<notin> set (xs @ a # ys)" for b
    using that rem(7) by (simp add: deallocate_order_def)
  ultimately have "\<forall>b \<in> set (concat q1). m_pool ?p b = m_pool p b" "\<forall>b \<in> set (concat q2). m_pool ?p b = m_pool p b"
    by blast+
  from levels_ok_agree [OF parts(1) this(1)] levels_ok_agree [OF parts(3) this(2)]
  have others: "levels_ok ?p side l1 q1" "levels_ok ?p side l2 q2"
      "market_of ?p l1 q1 = market_of p l1 q1" "market_of ?p l2 q2 = market_of p l2 q2"
    by auto
  have "queue_ok ?p side price lim' (xs @ ys)"
  proof (rule queue_ok_content [of _ _ _ p])
    show "seg ?p None (lhead lim') (xs @ ys) (ltail lim') None"
      using rem(2) by (rule seg_agree) (use dq in \<open>auto simp: deallocate_order_def\<close>)
  qed (use cont parts(2) rem(3,4) in \<open>auto simp: queue_ok_def\<close>)
  moreover from queue_ok_empty [OF this] have "lhead lim' = None \<longleftrightarrow> xs @ ys = []" .
  moreover have "entry ?p = entry p" by (rule ext, rule content_eqD(5)) (simp add: cont)
  ultimately show ?thesis
    using rem others by (auto simp: levels_ok_append [OF len])
qed

lemma cancel_market:
  assumes len: "length l1 = length q1" "length l2 = length q2" and ne: "[] \<notin> set (q1 @ q2)"
    and uniq: "\<forall>b \<in> set (concat q1 @ xs @ ys @ concat q2). oid (m_pool p b) \<noteq> oid (m_pool p a)"
  shows "a_cancel (oid (m_pool p a)) (market_of p (l1 @ (price, lim) # l2) (q1 @ (xs @ a # ys) # q2)) =
    market_of p l1 q1 @ (if xs @ ys = [] then [] else [(price, map (entry p) (xs @ ys))]) @ market_of p l2 q2"
proof -
  let ?i = "oid (m_pool p a)"
  have "?i \<notin> set (ids (market_of p l1 q1))" "?i \<notin> set (ids (market_of p l2 q2))"
    using uniq by (auto simp: ids_market_of len)
  then have "a_cancel ?i (market_of p l1 q1) = market_of p l1 q1" "a_cancel ?i (market_of p l2 q2) = market_of p l2 q2"
    using ne market_of_nonempty [OF len(1), of p] market_of_nonempty [OF len(2), of p] by (auto intro!: a_cancel_other)
  moreover have "filter (\<lambda>(j, q). j \<noteq> ?i) (map (entry p) xs) = map (entry p) xs"
      "filter (\<lambda>(j, q). j \<noteq> ?i) (map (entry p) ys) = map (entry p) ys"
    using uniq by (auto simp: filter_id_conv entry_def)
  then have "filter (\<lambda>(j, q). j \<noteq> ?i) (map (entry p) (xs @ a # ys)) = map (entry p) (xs @ ys)"
    by (simp add: entry_def [of p a])
  then have "a_cancel ?i [(price, map (entry p) (xs @ a # ys))] = (if xs @ ys = [] then [] else [(price, map (entry p) (xs @ ys))])"
    by (simp add: a_cancel_def)
  moreover have "market_of p (l1 @ (price, lim) # l2) (q1 @ (xs @ a # ys) # q2) =
      market_of p l1 q1 @ [(price, map (entry p) (xs @ a # ys))] @ market_of p l2 q2"
    by (simp add: market_of_append len(1))
  ultimately show ?thesis by (simp only: a_cancel_append)
qed

text \<open>The order map and the free list after an order has been unlinked and given back.\<close>

lemma unlinked_store:
  assumes "store_ok N live p om" and "a \<in> live" and "order_free p' = order_free p" and "content p' = content p"
    and "\<forall>x. x \<notin> live \<longrightarrow> m_pool p' x = m_pool p x"
  shows "store_ok N (live - {a}) (deallocate_order a p') (al_erase (oid (m_pool p a)) om)"
proof -
  have same: "oid (m_pool p' b) = oid (m_pool p b)" for b by (rule content_eqD(1)) (simp add: assms(4))
  have "store_ok N live p' om"
    by (rule store_ok_agree [OF assms(1,3)]) (use assms(5) same in auto)
  from store_ok_drop [OF this, of a] assms(2) same show ?thesis by simp
qed

text \<open>The other side does not notice.\<close>

lemma unlinked_other_side:
  assumes "levels_ok p side lv qs" and "set (concat qs) \<inter> set (xs @ a # ys) = {}"
    and "\<forall>x. x \<notin> set (xs @ ys) \<longrightarrow> m_pool p' x = m_pool p x"
  shows "levels_ok (deallocate_order a p') side lv qs" "market_of (deallocate_order a p') lv qs = market_of p lv qs"
proof -
  have "\<forall>b \<in> set (concat qs). m_pool (deallocate_order a p') b = m_pool p b"
  proof
    fix b assume "b \<in> set (concat qs)"
    then have "b \<notin> set (xs @ a # ys)" using assms(2) by blast
    then show "m_pool (deallocate_order a p') b = m_pool p b" using assms(3) by (simp add: deallocate_order_def)
  qed
  from levels_ok_agree [OF assms(1) this]
  show "levels_ok (deallocate_order a p') side lv qs" "market_of (deallocate_order a p') lv qs = market_of p lv qs" by auto
qed

lemma cancel_side_ok:
  assumes ok: "sides_ok N p om sA lvA qA sB lvB qB" and keys: "distinct (map fst lvA)" and a: "a \<in> set (concat qA)"
  shows "\<exists>lvA' p' qA'. cancel_side a (oprice (m_pool p a)) lvA p = (lvA', p') \<and> oside (m_pool p a) = sA \<and>
    sides_ok N (deallocate_order a p') (al_erase (oid (m_pool p a)) om) sA lvA' qA' sB lvB qB \<and>
    market_of (deallocate_order a p') lvA' qA' = a_cancel (oid (m_pool p a)) (market_of p lvA qA) \<and>
    market_of (deallocate_order a p') lvB qB = market_of p lvB qB"
proof -
  have lv: "levels_ok p sA lvA qA" and lvB: "levels_ok p sB lvB qB" and d: "distinct (concat (qA @ qB))"
    and ne: "[] \<notin> set (qA @ qB)" and st: "store_ok N (set (concat (qA @ qB))) p om"
    using ok by (simp_all only: sides_ok_def not_False_eq_True)
  obtain l1 price lim l2 q1 xs ys q2 where sp: "lvA = l1 @ (price, lim) # l2" "qA = q1 @ (xs @ a # ys) # q2" "length l1 = length q1"
    using level_of [OF levels_ok_length [OF lv] a] by blast
  have len2: "length l2 = length q2" using levels_ok_length [OF lv] sp by simp
  have "distinct (concat qA)" using d by simp
  then have dA: "distinct (concat (q1 @ (xs @ a # ys) # q2))" by (simp only: sp(2))
  obtain lim' p' where rem: "limit_remove a lim p = (lim', p')"
      "levels_ok (deallocate_order a p') sA (l1 @ (price, lim') # l2) (q1 @ (xs @ ys) # q2)"
      "market_of (deallocate_order a p') l1 q1 = market_of p l1 q1" "market_of (deallocate_order a p') l2 q2 = market_of p l2 q2"
      "map (entry (deallocate_order a p')) (xs @ ys) = map (entry p) (xs @ ys)"
      "lhead lim' = None \<longleftrightarrow> xs @ ys = []" "order_free p' = order_free p" "content p' = content p"
      "\<forall>x. x \<notin> set (xs @ ys) \<longrightarrow> m_pool p' x = m_pool p x"
    using remove_level [OF lv [unfolded sp(1,2)] sp(3) dA] by (elim exE conjE) (rule that)
  let ?p = "deallocate_order a p'" and ?i = "oid (m_pool p a)"
  define lv' where "lv' = (if xs @ ys = [] then l1 @ l2 else l1 @ (price, lim') # l2)"
  define qs' where "qs' = (if xs @ ys = [] then q1 @ q2 else q1 @ (xs @ ys) # q2)"
  have order: "oprice (m_pool p a) = price" "oside (m_pool p a) = sA"
    using lv by (auto simp: sp levels_ok_append [OF sp(3)] queue_ok_def)
  have "price \<notin> fst ` set l1" using keys sp(1) by auto
  then have cs: "cancel_side a (oprice (m_pool p a)) lvA p = (lv', p')"
    using rem(1,6) by (simp add: cancel_side_def order sp(1) al_find_split al_put_split al_erase_split lv'_def)
  have levels: "levels_ok ?p sA lv' qs'"
    using rem(2) by (simp add: lv'_def qs'_def levels_ok_append [OF sp(3)])
  have sets: "set (concat qs') = set (concat qA) - {a}" and dq: "distinct (concat qs')" and ne': "[] \<notin> set qs'"
    using dA ne by (auto simp: qs'_def sp(2))
  have disj: "set (concat qA) \<inter> set (concat qB) = {}" using d by simp
  then have "set (concat (qA @ qB)) - {a} = set (concat (qs' @ qB))" using a sets by auto
  then have store: "store_ok N (set (concat (qs' @ qB))) ?p (al_erase ?i om)"
    using unlinked_store [OF st _ rem(7,8), of a] a rem(9) by (simp add: sp(2))
  have "set (concat qB) \<inter> set (xs @ a # ys) = {}" using disj by (auto simp: sp(2))
  note B = unlinked_other_side [OF lvB this rem(9)]
  have "distinct (concat (qs' @ qB))" using dq sets disj d by auto
  then have sides: "sides_ok N ?p (al_erase ?i om) sA lv' qs' sB lvB qB"
    unfolding sides_ok_def using levels B(1) store ne ne' by simp
  have "\<forall>b \<in> set (concat q1 @ xs @ ys @ concat q2). oid (m_pool p b) \<noteq> ?i"
  proof
    fix b assume b: "b \<in> set (concat q1 @ xs @ ys @ concat q2)"
    then have "b \<in> set (concat (qA @ qB))" "a \<in> set (concat (qA @ qB))" "b \<noteq> a" using dA by (auto simp: sp(2))
    then show "oid (m_pool p b) \<noteq> ?i" using store_ok_inj [OF st] by blast
  qed
  from cancel_market [OF sp(3) len2 _ this] ne
  have "market_of ?p lv' qs' = a_cancel ?i (market_of p lvA qA)"
    using rem(3-5) by (auto simp: sp(1,2) lv'_def qs'_def market_of_append [OF sp(3)])
  then show ?thesis using cs order(2) sides B(2) by blast
qed

end
