(* ===== verification/Order_Market.thy ===== *)
theory Order_Market
  imports Order_Refine "HOL-Library.Sublist"
begin

text \<open>
  What the order book promises, for every sequence of limit orders and cancellations: it follows the market of
  the specification, never stands crossed, and conserves quantities.
\<close>

section \<open>The market\<close>

definition market_ok :: "market \<Rightarrow> bool" where
  "market_ok m \<longleftrightarrow> sorted_wrt (<) (map fst (fst m)) \<and> sorted_wrt (>) (map fst (snd m)) \<and>
     (\<forall>a \<in> set (map fst (fst m)). \<forall>b \<in> set (map fst (snd m)). b < a)"

definition resting :: "market \<Rightarrow> u64 list" where
  "resting m = ids (fst m) @ ids (snd m)"

definition volume :: "market_side \<Rightarrow> nat" where
  "volume ls = (\<Sum>(p, os) \<leftarrow> ls. \<Sum>(i, q) \<leftarrow> os. unat q)"

text \<open>The orders of a side in the order of their priority: better prices first, then older orders.\<close>

definition priority :: "market_side \<Rightarrow> ((u32 \<times> u64) \<times> u32) list" where
  "priority ls = concat (map (\<lambda>(p, os). map (\<lambda>(i, q). ((p, i), q)) os) ls)"

text \<open>What is left when a list of orders is served from the front: the first ones are gone, and of the next one
  some quantity may be taken.\<close>

definition served :: "('k \<times> u32) list \<Rightarrow> ('k \<times> u32) list \<Rightarrow> bool" where
  "served xs ys \<longleftrightarrow> (\<exists>n d. ys = (case drop n xs of [] \<Rightarrow> [] | (k, q) # rest \<Rightarrow> (k, q - d) # rest))"

lemma served_all: "served xs []"
  unfolding served_def by (intro exI [of _ "length xs"]) simp

lemma served_part: "served ((k, q) # xs) ((k, q - d) # xs)"
  unfolding served_def by (intro exI [of _ 0] exI [of _ d]) simp

lemma served_none: "served xs xs"
  unfolding served_def by (intro exI [of _ 0] exI [of _ "0 :: u32"]) (simp split: list.split)

lemma served_skip: "served xs ys \<Longrightarrow> served (zs @ xs) ys"
  unfolding served_def
proof (elim exE)
  fix n d assume "ys = (case drop n xs of [] \<Rightarrow> [] | (k, q) # rest \<Rightarrow> (k, q - d) # rest)"
  then show "\<exists>n d. ys = (case drop n (zs @ xs) of [] \<Rightarrow> [] | (k, q) # rest \<Rightarrow> (k, q - d) # rest)"
    by (intro exI [of _ "length zs + n"] exI [of _ d]) simp
qed

lemma served_prefix: "served xs ys \<Longrightarrow> ys \<noteq> [] \<Longrightarrow> served (xs @ zs) (ys @ zs)"
  unfolding served_def
proof (elim exE)
  fix n d assume ys: "ys = (case drop n xs of [] \<Rightarrow> [] | (k, q) # rest \<Rightarrow> (k, q - d) # rest)" "ys \<noteq> []"
  then have "n < length xs" by (metis drop_all linorder_not_less list.case(1))
  then have "drop n (xs @ zs) = drop n xs @ zs" by simp
  with ys show "\<exists>n d. ys @ zs = (case drop n (xs @ zs) of [] \<Rightarrow> [] | (k, q) # rest \<Rightarrow> (k, q - d) # rest)"
    by (intro exI [of _ n] exI [of _ d]) (auto split: list.split)
qed

lemma served_map: "served xs ys \<Longrightarrow> served (map (\<lambda>(k, q). (f k, q)) xs) (map (\<lambda>(k, q). (f k, q)) ys)"
  unfolding served_def
proof (elim exE)
  fix n d assume "ys = (case drop n xs of [] \<Rightarrow> [] | (k, q) # rest \<Rightarrow> (k, q - d) # rest)"
  then show "\<exists>n d. map (\<lambda>(k, q). (f k, q)) ys =
      (case drop n (map (\<lambda>(k, q). (f k, q)) xs) of [] \<Rightarrow> [] | (k, q) # rest \<Rightarrow> (k, q - d) # rest)"
    by (intro exI [of _ n] exI [of _ d]) (auto simp: drop_map split: list.split)
qed

section \<open>Matching\<close>

lemma a_sweep_volume:
  "a_sweep os r = (r', os') \<Longrightarrow> (\<Sum>(i, q) \<leftarrow> os. unat q) + unat r' = (\<Sum>(i, q) \<leftarrow> os'. unat q) + unat r"
proof (induction os r rule: a_sweep.induct)
  case (2 i q os r)
  show ?case
  proof (cases "r = 0 \<or> \<not> q \<le> r")
    case True
    then show ?thesis using 2(2) by (auto simp: unat_sub word_le_nat_alt split: if_splits)
  next
    case False
    then have "unat (r - q) = unat r - unat q" "unat q \<le> unat r"
      by (simp_all add: unat_sub word_le_nat_alt)
    then show ?thesis using 2 False by simp
  qed
qed simp

lemma a_sweep_served: "a_sweep os r = (r', os') \<Longrightarrow> served os os'"
proof (induction os r rule: a_sweep.induct)
  case (2 i q os r)
  show ?case
  proof (cases "r = 0 \<or> \<not> q \<le> r")
    case True
    then show ?thesis using 2(2) by (auto simp: served_none served_part split: if_splits)
  next
    case False
    then show ?thesis using 2 served_skip [of os os' "[(i, q)]"] by simp
  qed
qed (simp add: served_none)

lemma a_sweep_ids: "a_sweep os r = (r', os') \<Longrightarrow> suffix (map fst os') (map fst os)"
  by (induction os r rule: a_sweep.induct) (auto simp: suffix_ConsI split: if_splits)

lemma priority_Cons: "priority ((p, os) # ls) = map (\<lambda>(i, q). ((p, i), q)) os @ priority ls"
  by (simp add: priority_def)

lemma volume_Cons: "volume ((p, os) # ls) = (\<Sum>(i, q) \<leftarrow> os. unat q) + volume ls"
  by (simp add: volume_def)

lemma ids_Cons: "ids ((p, os) # ls) = map fst os @ ids ls"
  by (simp add: ids_def)

text \<open>Matching takes from the front, moves what it takes to the incoming order, and stops at the boundary.\<close>

lemma a_match_facts:
  assumes "a_match c ls r = (r', ls')"
  shows "volume ls + unat r' = volume ls' + unat r" and "served (priority ls) (priority ls')"
    and "suffix (map fst ls') (map fst ls)" and "suffix (ids ls') (ids ls)"
    and "r' \<noteq> 0 \<Longrightarrow> ls' = [] \<or> \<not> c (fst (hd ls'))"
proof -
  have "volume ls + unat r' = volume ls' + unat r \<and> served (priority ls) (priority ls') \<and>
    suffix (map fst ls') (map fst ls) \<and> suffix (ids ls') (ids ls) \<and> (r' \<noteq> 0 \<longrightarrow> ls' = [] \<or> \<not> c (fst (hd ls')))"
    using assms
  proof (induction c ls r rule: a_match.induct)
    case (2 c p os ls r)
    show ?case
    proof (cases "r = 0 \<or> \<not> c p")
      case True
      then show ?thesis using 2(2) by (auto simp: served_none)
    next
      case False
      obtain r1 os1 where sw: "a_sweep os r = (r1, os1)" by fastforce
      note sweep = a_sweep_volume [OF sw] a_sweep_served [OF sw, THEN served_map, of "Pair p"] a_sweep_ids [OF sw] a_sweep_left [OF sw]
      show ?thesis
      proof (cases "os1 = []")
        case True
        with False sw 2(2) have m: "a_match c ls r1 = (r', ls')" by simp
        from 2(1) [OF False sw [symmetric] True m] sweep(1) True show ?thesis
          by (auto simp: volume_Cons priority_Cons ids_Cons served_skip suffix_ConsI suffix_appendI)
      next
        case left: False
        with False sw 2(2) sweep(4) have "r' = 0" "r1 = 0" "ls' = (p, os1) # ls" by auto
        moreover have "served (map (\<lambda>(i, q). ((p, i), q)) os @ priority ls) (map (\<lambda>(i, q). ((p, i), q)) os1 @ priority ls)"
          using sweep(2) left by (intro served_prefix) auto
        moreover obtain zs where "map fst os = zs @ map fst os1" using sweep(3) by (auto simp: suffix_def)
        ultimately show ?thesis
          using sweep(1) by (auto simp: volume_Cons priority_Cons ids_Cons suffix_def)
      qed
    qed
  qed (simp add: served_none)
  then show "volume ls + unat r' = volume ls' + unat r" "served (priority ls) (priority ls')"
    "suffix (map fst ls') (map fst ls)" "suffix (ids ls') (ids ls)"
    "r' \<noteq> 0 \<Longrightarrow> ls' = [] \<or> \<not> c (fst (hd ls'))"
    by blast+
qed

section \<open>Booking and cancelling\<close>

lemma level_put_keys: "set (map fst (level_put before k v ls)) = insert k (set (map fst ls))"
  by (induction before k v ls rule: level_put.induct) auto

lemma level_put_sorted:
  assumes trans: "\<And>x y z. before x y \<Longrightarrow> before y z \<Longrightarrow> before x z" and total: "\<And>x y. x \<noteq> y \<Longrightarrow> before x y \<or> before y x"
    and "sorted_wrt before (map fst ls)" and "k \<notin> set (map fst ls)"
  shows "sorted_wrt before (map fst (level_put before k v ls))"
  using assms(3,4)
proof (induction ls)
  case (Cons l ls)
  obtain k' v' where l: "l = (k', v')" by (cases l)
  show ?case
  proof (cases "before k k'")
    case True
    then show ?thesis using Cons.prems trans by (auto simp: l)
  next
    case False
    then have "before k' k" using Cons.prems(2) total [of k k'] by (auto simp: l)
    then show ?thesis
      using Cons False level_put_keys [of before k v ls] by (auto simp: l)
  qed
qed simp

lemma a_book_keys: "set (map fst (a_book before k e ls)) = insert k (set (map fst ls))"
  using level_put_keys [of before k "[e]" ls] by (auto simp: a_book_def image_image split_beta)

lemma a_book_map_keys: "map fst (map (\<lambda>(p, os). (p, if p = k then os @ [e] else os)) ls) = map fst ls"
  by (induction ls) auto

lemma a_book_sorted:
  assumes trans: "\<And>x y z. before x y \<Longrightarrow> before y z \<Longrightarrow> before x z" and total: "\<And>x y. x \<noteq> y \<Longrightarrow> before x y \<or> before y x"
    and "sorted_wrt before (map fst ls)"
  shows "sorted_wrt before (map fst (a_book before k e ls))"
proof (cases "k \<in> fst ` set ls")
  case True
  show ?thesis unfolding a_book_def if_P [OF True] a_book_map_keys by (rule assms(3))
next
  case False
  then show ?thesis using level_put_sorted [OF trans total assms(3), where k = k and v = "[e]"] by (simp add: a_book_def)
qed

lemma volume_level_put: "volume (level_put before k os ls) = volume ls + (\<Sum>(i, q) \<leftarrow> os. unat q)"
  by (induction before k os ls rule: level_put.induct) (auto simp: volume_def)

lemma volume_a_book:
  assumes "distinct (map fst ls)"
  shows "volume (a_book before k (i, q) ls) = volume ls + unat q"
proof (cases "k \<in> fst ` set ls")
  case True
  have "volume (map (\<lambda>(p, os). (p, if p = k then os @ [(i, q)] else os)) ls) = volume ls + unat q"
    using assms True
  proof (induction ls)
    case (Cons l ls)
    obtain p os where l: "l = (p, os)" by (cases l)
    show ?case
      using Cons append_other [of k ls "(i, q)"] by (cases "p = k") (auto simp: l volume_Cons)
  qed simp
  then show ?thesis using True by (simp add: a_book_def)
qed (simp add: a_book_def volume_level_put)

lemma a_cancel_keys: "subseq (map fst (a_cancel i ls)) (map fst ls)"
  by (induction ls) (auto simp: a_cancel_def)

lemma a_cancel_volume: "volume (a_cancel i ls) \<le> volume ls"
proof (induction ls)
  case (Cons l ls)
  obtain p os where l: "l = (p, os)" by (cases l)
  have "(\<Sum>(j, q) \<leftarrow> filter (\<lambda>(j, q). j \<noteq> i) os. unat q) \<le> (\<Sum>(j, q) \<leftarrow> os. unat q)" by (induction os) auto
  then show ?case using Cons by (auto simp: l a_cancel_def volume_def)
qed (simp add: a_cancel_def)

lemma a_cancel_Cons: "a_cancel i ((p, os) # ls) =
    (let os' = filter (\<lambda>(j, q). j \<noteq> i) os in if os' = [] then a_cancel i ls else (p, os') # a_cancel i ls)"
  by (simp add: a_cancel_def Let_def)

lemma a_cancel_ids: "ids (a_cancel i ls) = filter (\<lambda>j. j \<noteq> i) (ids ls)"
proof (induction ls)
  case (Cons l ls)
  obtain p os where l: "l = (p, os)" by (cases l)
  define os' where "os' = filter (\<lambda>(j, q). j \<noteq> i) os"
  have "map fst os' = filter (\<lambda>j. j \<noteq> i) (map fst os)" unfolding os'_def by (induction os) auto
  then have "filter (\<lambda>j. j \<noteq> i) (ids (l # ls)) = map fst os' @ ids (a_cancel i ls)"
    by (simp add: l ids_Cons Cons)
  then show ?case
    by (cases "os' = []") (simp_all add: l a_cancel_Cons ids_Cons Let_def flip: os'_def)
qed (simp add: a_cancel_def ids_def)

section \<open>Invariant of the market\<close>

lemma suffix_subset: "suffix xs ys \<Longrightarrow> set xs \<subseteq> set ys"
  by (auto simp: suffix_def)

lemma sorted_suffix: "suffix xs ys \<Longrightarrow> sorted_wrt R ys \<Longrightarrow> sorted_wrt R xs"
  by (auto simp: suffix_def sorted_wrt_append)

lemma sorted_subseq: "subseq xs ys \<Longrightarrow> sorted_wrt R ys \<Longrightarrow> sorted_wrt R xs"
proof (induction rule: list_emb.induct)
  case (list_emb_Cons2 x y xs ys)
  then show ?case using subseq_order.order_trans list_emb_set by (fastforce dest: list_emb_set)
qed auto

text \<open>After matching, no price that is left would still match.\<close>

lemma a_match_boundary:
  assumes "a_match c ls r = (r', ls')" and "r' \<noteq> 0" and "sorted_wrt R (map fst ls)"
    and mono: "\<And>x y. R x y \<Longrightarrow> \<not> c x \<Longrightarrow> \<not> c y"
  shows "\<forall>x \<in> set (map fst ls'). \<not> c x"
proof (cases ls')
  case (Cons l ls1)
  have "\<not> c (fst l)" using a_match_facts(5) [OF assms(1,2)] Cons by simp
  moreover have "sorted_wrt R (map fst ls')" using a_match_facts(3) [OF assms(1)] assms(3) by (rule sorted_suffix)
  ultimately show ?thesis using mono Cons by auto
qed simp

lemma market_okI:
  "sorted_wrt (<) (map fst asks) \<Longrightarrow> sorted_wrt (>) (map fst bids) \<Longrightarrow>
   (\<And>a b. a \<in> set (map fst asks) \<Longrightarrow> b \<in> set (map fst bids) \<Longrightarrow> b < a) \<Longrightarrow> market_ok (asks, bids)"
  by (auto simp: market_ok_def)

lemma market_okD:
  assumes "market_ok (asks, bids)"
  shows "sorted_wrt (<) (map fst asks)" "sorted_wrt (>) (map fst bids)"
    "a \<in> set (map fst asks) \<Longrightarrow> b \<in> set (map fst bids) \<Longrightarrow> b < a"
  using assms by (auto simp: market_ok_def)

lemma market_ok_buy:
  assumes ok: "market_ok (asks, bids)" and match: "a_match (\<lambda>best. best \<le> price) asks qty = (r, asks')"
  shows "market_ok (asks', if r > 0 then a_book (>) price (i, r) bids else bids)"
proof (rule market_okI)
  note suf = a_match_facts(3) [OF match] and sorted = market_okD(1,2) [OF ok]
  show "sorted_wrt (<) (map fst asks')" by (rule sorted_suffix [OF suf sorted(1)])
  have "sorted_wrt (>) (map fst (a_book (>) price (i, r) bids))"
    by (rule a_book_sorted [OF _ _ sorted(2)]) auto
  then show "sorted_wrt (>) (map fst (if r > 0 then a_book (>) price (i, r) bids else bids))" using sorted(2) by simp
  fix a b assume a: "a \<in> set (map fst asks')" and b: "b \<in> set (map fst (if r > 0 then a_book (>) price (i, r) bids else bids))"
  have old: "a \<in> set (map fst asks)" using a suffix_subset [OF suf] by blast
  have "\<forall>x \<in> set (map fst asks'). \<not> x \<le> price" if "r \<noteq> 0"
    by (rule a_match_boundary [OF match that sorted(1)]) auto
  then have "r \<noteq> 0 \<Longrightarrow> price < a" using a by (metis linorder_not_le)
  moreover have "b \<in> set (map fst bids) \<or> b = price \<and> r \<noteq> 0"
    using b a_book_keys [of "(>)" price "(i, r)" bids] by (auto split: if_splits)
  ultimately show "b < a" using market_okD(3) [OF ok old] by blast
qed

lemma market_ok_sell:
  assumes ok: "market_ok (asks, bids)" and match: "a_match (\<lambda>best. price \<le> best) bids qty = (r, bids')"
  shows "market_ok (if r > 0 then a_book (<) price (i, r) asks else asks, bids')"
proof (rule market_okI)
  note suf = a_match_facts(3) [OF match] and sorted = market_okD(1,2) [OF ok]
  show "sorted_wrt (>) (map fst bids')" by (rule sorted_suffix [OF suf sorted(2)])
  have "sorted_wrt (<) (map fst (a_book (<) price (i, r) asks))"
    by (rule a_book_sorted [OF _ _ sorted(1)]) auto
  then show "sorted_wrt (<) (map fst (if r > 0 then a_book (<) price (i, r) asks else asks))" using sorted(1) by simp
  fix a b assume b: "b \<in> set (map fst bids')" and a: "a \<in> set (map fst (if r > 0 then a_book (<) price (i, r) asks else asks))"
  have old: "b \<in> set (map fst bids)" using b suffix_subset [OF suf] by blast
  have "\<forall>x \<in> set (map fst bids'). \<not> price \<le> x" if "r \<noteq> 0"
    by (rule a_match_boundary [OF match that sorted(2)]) auto
  then have "r \<noteq> 0 \<Longrightarrow> b < price" using b by (metis linorder_not_le)
  moreover have "a \<in> set (map fst asks) \<or> a = price \<and> r \<noteq> 0"
    using a a_book_keys [of "(<)" price "(i, r)" asks] by (auto split: if_splits)
  ultimately show "b < a" using market_okD(3) [OF ok _ old] by blast
qed

lemma market_ok_cancel:
  assumes ok: "market_ok (asks, bids)"
  shows "market_ok (a_cancel i asks, a_cancel i bids)"
proof (rule market_okI)
  note keys = a_cancel_keys [of i asks] a_cancel_keys [of i bids]
  show "sorted_wrt (<) (map fst (a_cancel i asks))" "sorted_wrt (>) (map fst (a_cancel i bids))"
    using sorted_subseq [OF keys(1)] sorted_subseq [OF keys(2)] market_okD(1,2) [OF ok] by blast+
  fix a b assume "a \<in> set (map fst (a_cancel i asks))" "b \<in> set (map fst (a_cancel i bids))"
  then have "a \<in> set (map fst asks)" "b \<in> set (map fst bids)"
    using list_emb_set [OF keys(1)] list_emb_set [OF keys(2)] by blast+
  then show "b < a" by (rule market_okD(3) [OF ok])
qed

section \<open>The book follows the market\<close>

text \<open>The market that a book holds: its levels and queues represent it, and it is in order.\<close>

definition represents :: "nat \<Rightarrow> OrderBook \<Rightarrow> market \<Rightarrow> bool" where
  "represents N b m \<longleftrightarrow>
     (\<exists>sq bq. sides_ok N (book_pool b) (m_order_map b) SELL (m_sell_limits b) sq BUY (m_buy_limits b) bq \<and>
        m = (market_of (book_pool b) (m_sell_limits b) sq, market_of (book_pool b) (m_buy_limits b) bq))"

definition book_ok :: "nat \<Rightarrow> OrderBook \<Rightarrow> market \<Rightarrow> bool" where
  "book_ok N b m \<longleftrightarrow> market_ok m \<and> represents N b m"

fun a_cancel_both :: "u64 \<Rightarrow> market \<Rightarrow> market" where
  "a_cancel_both i (asks, bids) = (a_cancel i asks, a_cancel i bids)"

lemma init_book_ok:
  assumes "0 < N"
  shows "book_ok N (init_book N) ([], [])"
proof -
  have "chain (next_order (init_orders N)) (Some i) [i..<N]" if "i < N" for i
    using that
  proof (induction "N - i" arbitrary: i)
    case (Suc k)
    then show ?case by (cases "Suc i < N") (auto simp: init_orders_def upt_rec [of i N])
  qed simp
  from this [of 0] assms have "pool_inv (next_order (init_orders N)) (order_free (init_orders N)) {0..<N} {}"
    unfolding pool_inv_def by (intro exI [of _ "[0..<N]"]) (simp add: init_orders_def)
  then show ?thesis
    by (auto simp: book_ok_def represents_def market_ok_def sides_ok_def store_ok_def init_book_def intro!: exI [of _ "[]"])
qed

lemma sorted_keys_distinct: "sorted_wrt (<) xs \<Longrightarrow> distinct (xs :: u32 list)" "sorted_wrt (>) xs \<Longrightarrow> distinct xs"
  by (induction xs) auto

lemma sides_keys: "sides_ok N p om sA lvA qA sB lvB qB \<Longrightarrow> map fst (market_of p lvA qA) = map fst lvA"
  by (auto simp: sides_ok_def intro!: market_of_keys dest: levels_ok_length)

lemma resting_match:
  assumes "a_match c ls r = (r', ls')"
  shows "set (ids ls') \<subseteq> set (ids ls)" "length (ids ls') \<le> length (ids ls)"
  using a_match_facts(4) [OF assms] by (auto simp: suffix_def)

lemma representsI:
  "sides_ok N (book_pool b) (m_order_map b) SELL (m_sell_limits b) sq BUY (m_buy_limits b) bq \<Longrightarrow>
   market_of (book_pool b) (m_sell_limits b) sq = asks \<Longrightarrow> market_of (book_pool b) (m_buy_limits b) bq = bids \<Longrightarrow>
   represents N b (asks, bids)"
  unfolding represents_def by blast

lemma representsE:
  assumes "represents N b (asks, bids)"
  obtains sq bq where "sides_ok N (book_pool b) (m_order_map b) SELL (m_sell_limits b) sq BUY (m_buy_limits b) bq"
    "market_of (book_pool b) (m_sell_limits b) sq = asks" "market_of (book_pool b) (m_buy_limits b) bq = bids"
  using assms unfolding represents_def by blast

lemma match_buy_ok:
  assumes "represents N b (asks, bids)"
  shows "\<exists>r asks' b'. a_match (\<lambda>best. best \<le> price) asks qty = (r, asks') \<and> match_buy price qty b = Some (r, b') \<and>
    represents N b' (asks', bids)"
proof -
  obtain sq bq where sides: "sides_ok N (book_pool b) (m_order_map b) SELL (m_sell_limits b) sq BUY (m_buy_limits b) bq"
    and m: "market_of (book_pool b) (m_sell_limits b) sq = asks" "market_of (book_pool b) (m_buy_limits b) bq = bids"
    using assms by (rule representsE)
  from match_side [OF sides, of "\<lambda>best. \<not> price < best" qty] obtain r lv p om sq' where
    mat: "match_levels (\<lambda>best. \<not> price < best) qty (m_sell_limits b) (book_pool b) (m_order_map b) = Some (r, lv, p, om)"
    "sides_ok N p om SELL lv sq' BUY (m_buy_limits b) bq" "a_match (\<lambda>best. \<not> price < best) asks qty = (r, market_of p lv sq')"
    "market_of p (m_buy_limits b) bq = bids"
    unfolding m by blast
  let ?b = "b\<lparr>m_sell_limits := lv, book_pool := p, m_order_map := om\<rparr>"
  have "represents N ?b (market_of p lv sq', bids)"
    by (rule representsI [of _ _ sq' bq]) (use mat(2,4) in simp_all)
  moreover have "match_buy price qty b = Some (r, ?b)" using mat(1) by (simp add: match_buy_def)
  ultimately show ?thesis using mat(3) by (auto simp: not_less)
qed

lemma match_sell_ok:
  assumes "represents N b (asks, bids)"
  shows "\<exists>r bids' b'. a_match (\<lambda>best. price \<le> best) bids qty = (r, bids') \<and> match_sell price qty b = Some (r, b') \<and>
    represents N b' (asks, bids')"
proof -
  obtain sq bq where sides: "sides_ok N (book_pool b) (m_order_map b) SELL (m_sell_limits b) sq BUY (m_buy_limits b) bq"
    and m: "market_of (book_pool b) (m_sell_limits b) sq = asks" "market_of (book_pool b) (m_buy_limits b) bq = bids"
    using assms by (rule representsE)
  from match_side [OF sides_ok_commute [OF sides], of "\<lambda>best. \<not> price > best" qty] obtain r lv p om bq' where
    mat: "match_levels (\<lambda>best. \<not> price > best) qty (m_buy_limits b) (book_pool b) (m_order_map b) = Some (r, lv, p, om)"
    "sides_ok N p om BUY lv bq' SELL (m_sell_limits b) sq" "a_match (\<lambda>best. \<not> price > best) bids qty = (r, market_of p lv bq')"
    "market_of p (m_sell_limits b) sq = asks"
    unfolding m by blast
  let ?b = "b\<lparr>m_buy_limits := lv, book_pool := p, m_order_map := om\<rparr>"
  have "represents N ?b (asks, market_of p lv bq')"
    by (rule representsI [of _ _ sq bq']) (use sides_ok_commute [OF mat(2)] mat(4) in simp_all)
  moreover have "match_sell price qty b = Some (r, ?b)" using mat(1) by (simp add: match_sell_def)
  ultimately show ?thesis using mat(3) by (auto simp: not_less)
qed

lemma represents_keys:
  assumes "represents N b (asks, bids)"
  shows "map fst (m_sell_limits b) = map fst asks" "map fst (m_buy_limits b) = map fst bids"
  using assms by (auto elim!: representsE dest: sides_keys sides_keys [OF sides_ok_commute])

lemma book_order_ok:
  assumes rep: "represents N b (asks, bids)" and ok: "market_ok (asks, bids)" and new: "i \<notin> set (ids asks @ ids bids)"
    and room: "length (ids asks @ ids bids) < N" and r: "r \<noteq> 0"
  shows "\<exists>b'. book_order i price r BUY b = Some b' \<and> represents N b' (asks, a_book (>) price (i, r) bids)"
    and "\<exists>b'. book_order i price r SELL b = Some b' \<and> represents N b' (a_book (<) price (i, r) asks, bids)"
proof -
  obtain sq bq where sides: "sides_ok N (book_pool b) (m_order_map b) SELL (m_sell_limits b) sq BUY (m_buy_limits b) bq"
    and m: "market_of (book_pool b) (m_sell_limits b) sq = asks" "market_of (book_pool b) (m_buy_limits b) bq = bids"
    using rep by (rule representsE)
  note sides' = sides_ok_commute [OF sides]
  have keys: "distinct (map fst (m_sell_limits b))" "distinct (map fst (m_buy_limits b))"
    unfolding represents_keys [OF rep] using sorted_keys_distinct market_okD(1,2) [OF ok] by blast+
  have new': "i \<notin> set (ids bids @ ids asks)" and room': "length (ids bids @ ids asks) < N" using new room by auto
  from book_side_ok [OF sides' keys(2), unfolded m, OF room' new' r, of "(>)" price] obtain a p1 lv p bq' where
    buy: "allocate_order (book_pool b) = Some (a, p1)"
      "book_side (>) price a (m_buy_limits b) (fill_order a i price r BUY p1) = Some (lv, p)"
      "sides_ok N p (al_put i a (m_order_map b)) BUY lv bq' SELL (m_sell_limits b) sq"
      "market_of p lv bq' = a_book (>) price (i, r) bids" "market_of p (m_sell_limits b) sq = asks"
    by blast
  let ?b = "b\<lparr>m_buy_limits := lv, book_pool := p, m_order_map := al_put i a (m_order_map b)\<rparr>"
  have "represents N ?b (asks, a_book (>) price (i, r) bids)"
    by (rule representsI [of _ _ sq bq']) (use sides_ok_commute [OF buy(3)] buy(4,5) in simp_all)
  moreover have "book_order i price r BUY b = Some ?b" using buy(1,2) by (simp add: book_order_def)
  ultimately show "\<exists>b'. book_order i price r BUY b = Some b' \<and> represents N b' (asks, a_book (>) price (i, r) bids)" by blast
  from book_side_ok [OF sides keys(1), unfolded m, OF room new r, of "(<)" price] obtain a p1 lv p sq' where
    sell: "allocate_order (book_pool b) = Some (a, p1)"
      "book_side (<) price a (m_sell_limits b) (fill_order a i price r SELL p1) = Some (lv, p)"
      "sides_ok N p (al_put i a (m_order_map b)) SELL lv sq' BUY (m_buy_limits b) bq"
      "market_of p lv sq' = a_book (<) price (i, r) asks" "market_of p (m_buy_limits b) bq = bids"
    by blast
  let ?b = "b\<lparr>m_sell_limits := lv, book_pool := p, m_order_map := al_put i a (m_order_map b)\<rparr>"
  have "represents N ?b (a_book (<) price (i, r) asks, bids)"
    by (rule representsI [of _ _ sq' bq]) (use sell(3-5) in simp_all)
  moreover have "book_order i price r SELL b = Some ?b" using sell(1,2) by (simp add: book_order_def)
  ultimately show "\<exists>b'. book_order i price r SELL b = Some b' \<and> represents N b' (a_book (<) price (i, r) asks, bids)" by blast
qed

lemma limit_order_ok:
  assumes ok: "book_ok N b m" and new: "i \<notin> set (resting m)" and room: "length (resting m) < N"
  shows "\<exists>b'. limit_order i price qty side b = Some b' \<and> book_ok N b' (a_limit i price qty side m)"
proof -
  obtain asks bids where m: "m = (asks, bids)" by (cases m)
  have rep: "represents N b (asks, bids)" and mok: "market_ok (asks, bids)" using ok by (simp_all add: book_ok_def m)
  show ?thesis
  proof (cases side)
    case BUY
    obtain r asks' b1 where mat: "a_match (\<lambda>best. best \<le> price) asks qty = (r, asks')" "match_buy price qty b = Some (r, b1)"
        "represents N b1 (asks', bids)"
      using match_buy_ok [OF rep] by blast
    note goal = market_ok_buy [OF mok mat(1), of i]
    have mok1: "market_ok (asks', bids)"
      using market_okD [OF mok] sorted_suffix [OF a_match_facts(3) [OF mat(1)]] suffix_subset [OF a_match_facts(3) [OF mat(1)]]
      by (intro market_okI) blast+
    show ?thesis
    proof (cases "r > 0")
      case True
      then obtain b2 where "book_order i price r BUY b1 = Some b2" "represents N b2 (asks', a_book (>) price (i, r) bids)"
        using book_order_ok(1) [OF mat(3) mok1, of i r price] resting_match [OF mat(1)] new room
        by (auto simp: resting_def m word_gt_0)
      with True goal show ?thesis by (auto simp: limit_order_def BUY mat book_ok_def m)
    qed (use goal mat in \<open>auto simp: limit_order_def BUY book_ok_def m\<close>)
  next
    case SELL
    obtain r bids' b1 where mat: "a_match (\<lambda>best. price \<le> best) bids qty = (r, bids')" "match_sell price qty b = Some (r, b1)"
        "represents N b1 (asks, bids')"
      using match_sell_ok [OF rep] by blast
    note goal = market_ok_sell [OF mok mat(1), of i]
    have mok1: "market_ok (asks, bids')"
      using market_okD [OF mok] sorted_suffix [OF a_match_facts(3) [OF mat(1)]] suffix_subset [OF a_match_facts(3) [OF mat(1)]]
      by (intro market_okI) blast+
    show ?thesis
    proof (cases "r > 0")
      case True
      then obtain b2 where "book_order i price r SELL b1 = Some b2" "represents N b2 (a_book (<) price (i, r) asks, bids')"
        using book_order_ok(2) [OF mat(3) mok1, of i r price] resting_match [OF mat(1)] new room
        by (auto simp: resting_def m word_gt_0)
      with True goal show ?thesis by (auto simp: limit_order_def SELL mat book_ok_def m)
    qed (use goal mat in \<open>auto simp: limit_order_def SELL book_ok_def m\<close>)
  qed
qed

lemma cancel_absent:
  assumes rep: "represents N b (asks, bids)" and none: "al_find i (m_order_map b) = None"
  shows "a_cancel i asks = asks" "a_cancel i bids = bids"
proof -
  obtain sq bq where sides: "sides_ok N (book_pool b) (m_order_map b) SELL (m_sell_limits b) sq BUY (m_buy_limits b) bq"
    and m: "market_of (book_pool b) (m_sell_limits b) sq = asks" "market_of (book_pool b) (m_buy_limits b) bq = bids"
    using rep by (rule representsE)
  have "i \<notin> set (ids asks @ ids bids)" using sides_ok_ids(1) [OF sides, of i] none unfolding m by simp
  moreover have "[] \<notin> set (map snd asks)" "[] \<notin> set (map snd bids)"
    using sides market_of_nonempty [of "m_sell_limits b" sq "book_pool b"] market_of_nonempty [of "m_buy_limits b" bq "book_pool b"]
    unfolding m by (auto simp: sides_ok_def dest: levels_ok_length)
  ultimately show "a_cancel i asks = asks" "a_cancel i bids = bids" by (auto intro: a_cancel_other)
qed

text \<open>Cancelling an order of one side, whichever it is.\<close>

lemma cancel_order_represents:
  assumes rep: "represents N b (asks, bids)" and ok: "market_ok (asks, bids)"
  shows "represents N (cancel_order i b) (a_cancel i asks, a_cancel i bids)"
proof (cases "al_find i (m_order_map b)")
  case None
  then show ?thesis using rep cancel_absent [OF rep None] by (simp add: cancel_order_def)
next
  case (Some a)
  obtain sq bq where sides: "sides_ok N (book_pool b) (m_order_map b) SELL (m_sell_limits b) sq BUY (m_buy_limits b) bq"
    and m: "market_of (book_pool b) (m_sell_limits b) sq = asks" "market_of (book_pool b) (m_buy_limits b) bq = bids"
    using rep by (rule representsE)
  have keys: "distinct (map fst (m_sell_limits b))" "distinct (map fst (m_buy_limits b))"
    unfolding represents_keys [OF rep] using sorted_keys_distinct market_okD(1,2) [OF ok] by blast+
  have a: "a \<in> set (concat sq) \<or> a \<in> set (concat bq)" "oid (m_pool (book_pool b) a) = i" and d: "distinct (al_keys (m_order_map b))"
    using sides Some by (auto simp: sides_ok_def store_ok_def)
  have absent: "a_cancel i asks' = asks' \<and> a_cancel i bids' = bids'"
    if "represents N b' (asks', bids')" "m_order_map b' = al_erase i (m_order_map b)" for b' asks' bids'
    using cancel_absent [OF that(1), of i] that(2) d by simp
  from a(1) show ?thesis
  proof
    assume "a \<in> set (concat sq)"
    from cancel_side_ok [OF sides keys(1) this] obtain lv p sq' where
      c: "cancel_side a (oprice (m_pool (book_pool b) a)) (m_sell_limits b) (book_pool b) = (lv, p)" "oside (m_pool (book_pool b) a) = SELL"
        "sides_ok N (deallocate_order a p) (al_erase i (m_order_map b)) SELL lv sq' BUY (m_buy_limits b) bq"
        "market_of (deallocate_order a p) lv sq' = a_cancel i asks" "market_of (deallocate_order a p) (m_buy_limits b) bq = bids"
      unfolding a(2) m by blast
    have eq: "cancel_order i b = b\<lparr>m_sell_limits := lv, m_order_map := al_erase i (m_order_map b), book_pool := deallocate_order a p\<rparr>"
      using c(1,2) by (simp add: cancel_order_def Some)
    have "represents N (cancel_order i b) (a_cancel i asks, bids)"
      unfolding eq by (rule representsI [of _ _ sq' bq]) (use c(3-5) in simp_all)
    moreover from absent [OF this] have "a_cancel i bids = bids" by (simp add: eq)
    ultimately show ?thesis by simp
  next
    assume "a \<in> set (concat bq)"
    from cancel_side_ok [OF sides_ok_commute [OF sides] keys(2) this] obtain lv p bq' where
      c: "cancel_side a (oprice (m_pool (book_pool b) a)) (m_buy_limits b) (book_pool b) = (lv, p)" "oside (m_pool (book_pool b) a) = BUY"
        "sides_ok N (deallocate_order a p) (al_erase i (m_order_map b)) BUY lv bq' SELL (m_sell_limits b) sq"
        "market_of (deallocate_order a p) lv bq' = a_cancel i bids" "market_of (deallocate_order a p) (m_sell_limits b) sq = asks"
      unfolding a(2) m by blast
    have eq: "cancel_order i b = b\<lparr>m_buy_limits := lv, m_order_map := al_erase i (m_order_map b), book_pool := deallocate_order a p\<rparr>"
      using c(1,2) by (simp add: cancel_order_def Some)
    have "represents N (cancel_order i b) (asks, a_cancel i bids)"
      unfolding eq by (rule representsI [of _ _ sq bq']) (use sides_ok_commute [OF c(3)] c(4,5) in simp_all)
    moreover from absent [OF this] have "a_cancel i asks = asks" by (simp add: eq)
    ultimately show ?thesis by simp
  qed
qed

lemma cancel_order_ok: "book_ok N b m \<Longrightarrow> book_ok N (cancel_order i b) (a_cancel_both i m)"
  by (cases m) (simp add: book_ok_def market_ok_cancel cancel_order_represents)

section \<open>Sequences of requests\<close>

datatype request = Limit_Order u64 u32 u32 Side | Cancel u64

fun run_book :: "request list \<Rightarrow> OrderBook \<Rightarrow> OrderBook option" where
  "run_book [] b = Some b"
| "run_book (Limit_Order i price qty side # rs) b = Option.bind (limit_order i price qty side b) (run_book rs)"
| "run_book (Cancel i # rs) b = run_book rs (cancel_order i b)"

fun run_market :: "request list \<Rightarrow> market \<Rightarrow> market" where
  "run_market [] m = m"
| "run_market (Limit_Order i price qty side # rs) m = run_market rs (a_limit i price qty side m)"
| "run_market (Cancel i # rs) m = run_market rs (a_cancel_both i m)"

text \<open>The requests name no identifier that is still resting, and never more than \<open>N\<close> orders rest.\<close>

fun admissible :: "nat \<Rightarrow> request list \<Rightarrow> market \<Rightarrow> bool" where
  "admissible N [] m = True"
| "admissible N (Limit_Order i price qty side # rs) m =
     (i \<notin> set (resting m) \<and> length (resting m) < N \<and> admissible N rs (a_limit i price qty side m))"
| "admissible N (Cancel i # rs) m = admissible N rs (a_cancel_both i m)"

lemma run_book_ok:
  assumes "book_ok N b m" and "admissible N rs m"
  shows "\<exists>b'. run_book rs b = Some b' \<and> book_ok N b' (run_market rs m)"
  using assms
proof (induction rs arbitrary: b m)
  case (Cons r rs)
  show ?case
  proof (cases r)
    case (Limit_Order i price qty side)
    then obtain b1 where "limit_order i price qty side b = Some b1" "book_ok N b1 (a_limit i price qty side m)"
      using limit_order_ok [OF Cons.prems(1), of i price qty side] Cons.prems(2) by auto
    then show ?thesis using Cons.IH [of b1] Cons.prems(2) Limit_Order by simp
  next
    case (Cancel i)
    then show ?thesis using Cons.IH [OF cancel_order_ok [OF Cons.prems(1)]] Cons.prems(2) by simp
  qed
qed simp

lemma book_ok_levels:
  assumes "book_ok N b (asks, bids)"
  shows "list_all2 (\<lambda>(price, lim) (price', os). price = price' \<and> os \<noteq> [] \<and> total_volume lim = sum_list (map snd os)) (m_sell_limits b) asks"
    and "list_all2 (\<lambda>(price, lim) (price', os). price = price' \<and> os \<noteq> [] \<and> total_volume lim = sum_list (map snd os)) (m_buy_limits b) bids"
proof -
  have level: "list_all2 (\<lambda>(price, lim) (price', os). price = price' \<and> os \<noteq> [] \<and> total_volume lim = sum_list (map snd os)) lv (market_of p lv qs)"
    if "levels_ok p side lv qs" "[] \<notin> set qs" for p side lv qs
    using levels_ok_length [OF that(1)] that
    by (induction lv qs rule: levels_induct) (auto simp: queue_ok_def entry_def o_def)
  have "represents N b (asks, bids)" using assms by (simp add: book_ok_def)
  then obtain sq bq where "sides_ok N (book_pool b) (m_order_map b) SELL (m_sell_limits b) sq BUY (m_buy_limits b) bq"
    "market_of (book_pool b) (m_sell_limits b) sq = asks" "market_of (book_pool b) (m_buy_limits b) bq = bids"
    by (rule representsE)
  then show "list_all2 (\<lambda>(price, lim) (price', os). price = price' \<and> os \<noteq> [] \<and> total_volume lim = sum_list (map snd os)) (m_sell_limits b) asks"
    "list_all2 (\<lambda>(price, lim) (price', os). price = price' \<and> os \<noteq> [] \<and> total_volume lim = sum_list (map snd os)) (m_buy_limits b) bids"
    using level by (auto simp: sides_ok_def)
qed

lemma a_match_through: "a_match c ls r = (r', ls') \<Longrightarrow>
    filter (\<lambda>((p, i), q). \<not> c p) (priority ls') = filter (\<lambda>((p, i), q). \<not> c p) (priority ls)"
proof (induction c ls r rule: a_match.induct)
  case (2 c p os ls r)
  have level: "c p \<Longrightarrow> filter (\<lambda>((p, i), q). \<not> c p) (map (\<lambda>(i, q). ((p, i), q)) xs) = []" for xs :: "(u64 \<times> u32) list"
    by (induction xs) auto
  show ?case
  proof (cases "r = 0 \<or> \<not> c p")
    case False
    obtain r1 os1 where sw: "a_sweep os r = (r1, os1)" by fastforce
    show ?thesis
    proof (cases "os1 = []")
      case True
      with False sw 2(2) have "a_match c ls r1 = (r', ls')" by simp
      from 2(1) [OF False sw [symmetric] True this] False show ?thesis by (simp add: priority_Cons level)
    next
      case left: False
      with False sw 2(2) have "ls' = (p, os1) # ls" by simp
      then show ?thesis using False by (simp add: priority_Cons level)
    qed
  qed (use 2(2) in auto)
qed simp

section \<open>Properties\<close>

text \<open>C19: Refinement.  Every sequence of limit orders and cancellations whose identifiers are new and whose
  resting orders fit in the pool is processed to the end, without an endless loop and without a null pointer;
  the linked queues, the levels, the order map and the pool then hold exactly the market of the specification.\<close>

theorem order_book_refines:
  assumes "0 < N" and "admissible N rs ([], [])"
  shows "\<exists>b. run_book rs (init_book N) = Some b \<and> represents N b (run_market rs ([], []))"
  using run_book_ok [OF init_book_ok [OF assms(1)] assms(2)] by (auto simp: book_ok_def)

definition example_requests :: "request list" where
  "example_requests = [Limit_Order 1 105 50 SELL, Limit_Order 2 106 20 BUY, Limit_Order 3 100 7 BUY, Cancel 1]"

theorem order_book_refines_witness:
  "admissible 4 example_requests ([], []) \<and>
   (\<exists>b. run_book example_requests (init_book 4) = Some b \<and> represents 4 b ([], [(100, [(3, 7)])]))"
proof -
  have "admissible 4 example_requests ([], [])" "run_market example_requests ([], []) = ([], [(100, [(3, 7)])])" by code_simp+
  then show ?thesis using order_book_refines [of 4 example_requests] by simp
qed

text \<open>C20: The book is never crossed and its depth is right.  After every such sequence each bid is below each
  ask, every level has an order, and its recorded volume is the sum of the open quantities of its queue.\<close>

theorem book_never_crossed:
  assumes "0 < N" and "admissible N rs ([], [])"
  shows "\<exists>b. run_book rs (init_book N) = Some b \<and>
    (\<forall>bid \<in> set (map fst (m_buy_limits b)). \<forall>ask \<in> set (map fst (m_sell_limits b)). bid < ask) \<and>
    list_all2 (\<lambda>(price, lim) (price', os). price = price' \<and> os \<noteq> [] \<and> total_volume lim = sum_list (map snd os))
      (m_sell_limits b @ m_buy_limits b) (fst (run_market rs ([], [])) @ snd (run_market rs ([], [])))"
proof -
  obtain asks bids where m: "run_market rs ([], []) = (asks, bids)" by fastforce
  obtain b where b: "run_book rs (init_book N) = Some b" "book_ok N b (asks, bids)"
    using run_book_ok [OF init_book_ok [OF assms(1)] assms(2)] m by auto
  have rep: "represents N b (asks, bids)" and ok: "market_ok (asks, bids)" using b(2) by (simp_all add: book_ok_def)
  have "\<forall>bid \<in> set (map fst (m_buy_limits b)). \<forall>ask \<in> set (map fst (m_sell_limits b)). bid < ask"
    unfolding represents_keys [OF rep] using market_okD(3) [OF ok] by blast
  then show ?thesis using b(1) book_ok_levels [OF b(2)] m by (auto intro!: list_all2_appendI)
qed

theorem book_never_crossed_witness:
  "admissible 4 [Limit_Order 1 105 50 SELL, Limit_Order 2 104 20 BUY] ([], []) \<and>
   (\<exists>b. run_book [Limit_Order 1 105 50 SELL, Limit_Order 2 104 20 BUY] (init_book 4) = Some b)"
proof -
  have "admissible 4 [Limit_Order 1 105 50 SELL, Limit_Order 2 104 20 BUY] ([], [])" by code_simp
  then show ?thesis using book_never_crossed [of 4 "[Limit_Order 1 105 50 SELL, Limit_Order 2 104 20 BUY]"] by auto
qed

text \<open>Price-time priority and conservation, for a buy order.  The resting asks are served strictly in the
  order of their priority, those above the limit price are left alone, and every unit of the order is either
  taken from the asks or rests as a bid.\<close>

theorem buy_order_trades:
  assumes "book_ok N b (asks, bids)" and "i \<notin> set (resting (asks, bids))" and "length (resting (asks, bids)) < N"
  shows "\<exists>b' asks' bids'. limit_order i price qty BUY b = Some b' \<and> book_ok N b' (asks', bids') \<and>
    served (priority asks) (priority asks') \<and>
    filter (\<lambda>((p, j), q). price < p) (priority asks') = filter (\<lambda>((p, j), q). price < p) (priority asks) \<and>
    volume asks + volume bids' = volume asks' + volume bids + unat qty"
proof -
  obtain r asks' where match: "a_match (\<lambda>best. best \<le> price) asks qty = (r, asks')" by fastforce
  obtain b' where b': "limit_order i price qty BUY b = Some b'" "book_ok N b' (a_limit i price qty BUY (asks, bids))"
    using limit_order_ok [OF assms] by blast
  have "distinct (map fst bids)" using assms(1) sorted_keys_distinct(2) by (auto simp: book_ok_def dest: market_okD(2))
  then have "volume (if r > 0 then a_book (>) price (i, r) bids else bids) = volume bids + unat r"
    by (simp add: volume_a_book word_gt_0)
  then show ?thesis
    using b' a_match_facts(1,2) [OF match] a_match_through [OF match] by (fastforce simp: match not_le)
qed

theorem buy_order_trades_witness:
  "\<exists>b' asks' bids'. limit_order 1 100 5 BUY (init_book 2) = Some b' \<and> book_ok 2 b' (asks', bids') \<and>
     volume [] + volume bids' = volume asks' + volume [] + unat (5 :: u32)"
  using buy_order_trades [OF init_book_ok [of 2], of 1 100 5] by (auto simp: resting_def ids_def)

text \<open>The same for a sell order, which is matched with the highest bids.\<close>

theorem sell_order_trades:
  assumes "book_ok N b (asks, bids)" and "i \<notin> set (resting (asks, bids))" and "length (resting (asks, bids)) < N"
  shows "\<exists>b' asks' bids'. limit_order i price qty SELL b = Some b' \<and> book_ok N b' (asks', bids') \<and>
    served (priority bids) (priority bids') \<and>
    filter (\<lambda>((p, j), q). p < price) (priority bids') = filter (\<lambda>((p, j), q). p < price) (priority bids) \<and>
    volume bids + volume asks' = volume bids' + volume asks + unat qty"
proof -
  obtain r bids' where match: "a_match (\<lambda>best. price \<le> best) bids qty = (r, bids')" by fastforce
  obtain b' where b': "limit_order i price qty SELL b = Some b'" "book_ok N b' (a_limit i price qty SELL (asks, bids))"
    using limit_order_ok [OF assms] by blast
  have "distinct (map fst asks)" using assms(1) sorted_keys_distinct(1) by (auto simp: book_ok_def dest: market_okD(1))
  then have "volume (if r > 0 then a_book (<) price (i, r) asks else asks) = volume asks + unat r"
    by (simp add: volume_a_book word_gt_0)
  then show ?thesis
    using b' a_match_facts(1,2) [OF match] a_match_through [OF match] by (fastforce simp: match not_le)
qed

theorem sell_order_trades_witness:
  "\<exists>b' asks' bids'. limit_order 1 100 5 SELL (init_book 2) = Some b' \<and> book_ok 2 b' (asks', bids') \<and>
     volume [] + volume asks' = volume bids' + volume [] + unat (5 :: u32)"
  using sell_order_trades [OF init_book_ok [of 2], of 1 100 5] by (auto simp: resting_def ids_def)

text \<open>Identifiers are not checked.  When a second order reuses the identifier of a resting one, the order map
  forgets the first: however often the identifier is cancelled, the first order stays in the book.\<close>

theorem reused_identifier_uncancellable:
  "map_option (\<lambda>b. map fst (m_buy_limits (cancel_order 7 (cancel_order 7 b))))
     (run_book [Limit_Order 7 100 5 BUY, Limit_Order 7 101 5 BUY] (init_book 4)) = Some [100]"
  by code_simp

end
